(* ===== verification/Mux_Prelude.thy ===== *)
theory Mux_Prelude
  imports Main "HOL-Library.Word" "HOL-Library.Sublist"
begin

text \<open>
  Shared vocabulary of the development: bytes, the line-buffer size of the
  server (\<open>LBUF_SIZE\<close>), the bounded output cursor that every routine of
  \<open>mux/lib/color_ops.c\<close> writes through (\<open>WP_SAFE\<close>, \<open>wp_safe_copy\<close>,
  \<open>raw_copy\<close>), the C library scans the sources call (\<open>memchr\<close>, \<open>memcmp\<close>),
  and the generic list lemmas used by the components.

  Conventions. A pair of C pointers \<open>p\<close>, \<open>pe\<close> delimiting the unread input is
  the list of the bytes from \<open>p\<close> up to but excluding \<open>pe\<close>; advancing \<open>p\<close> drops
  a prefix, a pointer returned into the input is the suffix that starts there,
  and \<open>NULL\<close> is \<open>None\<close>.  An output buffer with its write pointer is the list of
  the bytes written so far; the \<open>size_t\<close> that a routine returns is the length of
  that list, and the terminating \<open>'\0'\<close> is stored just after it.
\<close>

type_synonym byte = "8 word"
type_synonym bytes = "byte list"

named_theorems cap_simps \<open>lengths of what the bounded writers produce\<close>
named_theorems word_nat_simps \<open>comparisons of bytes as comparisons of natural numbers\<close>

lemmas [word_nat_simps] = word_le_nat_alt word_less_nat_alt word_unat_eq_iff

section \<open>Bounded output\<close>

definition LBUF_SIZE :: nat where
  "LBUF_SIZE = 32768"

definition lbuf_cap :: nat where
  "lbuf_cap = LBUF_SIZE - 1"

definition WP_SAFE :: "nat \<Rightarrow> bytes \<Rightarrow> byte \<Rightarrow> bytes" where
  "WP_SAFE wp_end out b = (if length out < wp_end then out @ [b] else out)"

definition wp_safe_copy :: "nat \<Rightarrow> bytes \<Rightarrow> bytes \<Rightarrow> bytes" where
  "wp_safe_copy wp_end out src =
     (let avail = wp_end - length out;
          n = (if length src > avail then avail else length src)
      in out @ take n src)"

definition raw_copy :: "bytes \<Rightarrow> bytes" where
  "raw_copy src =
     (let n = length src;
          n = (if n > LBUF_SIZE - 1 then LBUF_SIZE - 1 else n)
      in take n src)"

fun wp_safe_list :: "nat \<Rightarrow> bytes \<Rightarrow> bytes \<Rightarrow> bytes" where
  "wp_safe_list wp_end out [] = out"
| "wp_safe_list wp_end out (b # bs) = wp_safe_list wp_end (WP_SAFE wp_end out b) bs"

section \<open>Scans of the C library\<close>

fun memchr :: "bytes \<Rightarrow> byte \<Rightarrow> bytes option" where
  "memchr [] c = None"
| "memchr (b # bs) c = (if b = c then Some (b # bs) else memchr bs c)"

section \<open>Lemmas\<close>

lemma lbuf_cap_eq: "lbuf_cap = 32767"
  by (simp add: lbuf_cap_def LBUF_SIZE_def)

lemma LBUF_SIZE_cap: "LBUF_SIZE - 1 = lbuf_cap" "LBUF_SIZE - Suc 0 = lbuf_cap"
  by (simp_all add: lbuf_cap_def)

lemma raw_copy_take: "raw_copy src = take lbuf_cap src"
  by (simp add: raw_copy_def lbuf_cap_def Let_def min_def)

lemma wp_safe_copy_take: "wp_safe_copy n out src = out @ take (n - length out) src"
  by (simp add: wp_safe_copy_def Let_def min_def)

text \<open>
  Writing byte by byte through \<open>WP_SAFE\<close>, block by block through
  \<open>wp_safe_copy\<close>, or truncating once at the end are the same: this is the fact
  that turns every bounded writer of the sources into an unbounded
  specification followed by one truncation.
\<close>

lemma WP_SAFE_take:
  "WP_SAFE n (take n xs) b = take n (xs @ [b])"
proof (cases "length xs < n")
  case True
  then show ?thesis by (simp add: WP_SAFE_def)
next
  case False
  then have "min (length xs) n = n" "n - length xs = 0" by auto
  then show ?thesis by (simp add: WP_SAFE_def)
qed

lemma wp_safe_list_take:
  "wp_safe_list n (take n xs) bs = take n (xs @ bs)"
proof (induction bs arbitrary: xs)
  case (Cons b bs)
  have "wp_safe_list n (WP_SAFE n (take n xs) b) bs = take n ((xs @ [b]) @ bs)"
    using Cons.IH [of "xs @ [b]"] by (simp only: WP_SAFE_take)
  then show ?case by simp
qed simp

lemma wp_safe_copy_take_take:
  "wp_safe_copy n (take n xs) bs = take n (xs @ bs)"
  by (cases "length xs \<le> n") (simp_all add: wp_safe_copy_take min_def)

lemma length_WP_SAFE [cap_simps]:
  "length out \<le> n \<Longrightarrow> length (WP_SAFE n out b) \<le> n"
  by (simp add: WP_SAFE_def)

lemma length_wp_safe_list [cap_simps]:
  "length out \<le> n \<Longrightarrow> length (wp_safe_list n out bs) \<le> n"
  by (induction bs arbitrary: out) (simp_all add: length_WP_SAFE)

lemma length_wp_safe_copy [cap_simps]:
  "length out \<le> n \<Longrightarrow> length (wp_safe_copy n out bs) \<le> n"
  by (auto simp: wp_safe_copy_take min_def)

lemma length_raw_copy [cap_simps]: "length (raw_copy src) \<le> lbuf_cap"
  by (simp add: raw_copy_take)

lemma memchr_None: "memchr xs c = None \<longleftrightarrow> c \<notin> set xs"
  by (induction xs) auto

lemma memchr_Some_split:
  "memchr xs c = Some s \<Longrightarrow> \<exists>pre t. xs = pre @ s \<and> s = c # t \<and> c \<notin> set pre"
proof (induction xs)
  case (Cons a xs)
  show ?case
  proof (cases "a = c")
    case True
    with Cons.prems show ?thesis by (intro exI [of _ "[]"] exI [of _ xs]) auto
  next
    case False
    with Cons obtain pre t where "xs = pre @ s" "s = c # t" "c \<notin> set pre" by auto
    with False show ?thesis by (intro exI [of _ "a # pre"] exI [of _ t]) auto
  qed
qed simp

lemma memchr_append_notin: "c \<notin> set xs \<Longrightarrow> memchr (xs @ ys) c = memchr ys c"
  by (induction xs) auto

end
