(* ===== verification/Color_Dfa.thy ===== *)
theory Color_Dfa
  imports Mux_Prelude
begin

text \<open>
  The Ragel scanners of \<open>mux/lib/color_ops.c\<close> (stage 0): the machine states and
  transition tables that the generated code encodes with \<open>goto\<close>, and the five
  routines built directly on them: \<open>co_visible_length\<close>, \<open>co_visible_advance\<close>,
  \<open>co_copy_visible\<close>, \<open>co_find_delim\<close> and \<open>co_strip_color\<close>, together with the
  hand-written \<open>co_skip_color\<close>.

  A state of the generated code is the label it jumps to: \<open>St12\<close> is the start
  state (between code points), \<open>St13\<close> the second rest state of
  \<open>co_copy_visible\<close>, \<open>St0\<close> the error state, on which every scanner leaves the
  loop with \<open>p\<close> still at the offending byte.
\<close>

section \<open>The generated machines\<close>

datatype ragel_state =
  St0 | St1 | St2 | St3 | St4 | St5 | St6 | St7 | St8 | St9 | St10 | St11 | St12 | St13

text \<open>
  \<open>visible_length_next cs b\<close>: the target state and whether the transition carries
  the action of label \<open>tr0\<close> (a visible code point ends at this byte).
\<close>

fun visible_length_next :: "ragel_state \<Rightarrow> byte \<Rightarrow> ragel_state \<times> bool" where
  "visible_length_next St12 b =
     (if b = 0 then (St0, False)
      else if b = 224 then (St2, False)
      else if b = 237 then (St4, False)
      else if b = 239 then (St5, False)
      else if b = 240 then (St7, False)
      else if b = 243 then (St9, False)
      else if b = 244 then (St11, False)
      else if b < 225 then
        (if b > 193 then
           (if 194 \<le> b \<and> b \<le> 223 then (St1, False) else (St12, True))
         else if b \<ge> 128 then (St0, False)
         else (St12, True))
      else if b > 238 then
        (if b > 242 then
           (if 245 \<le> b then (St0, False) else (St12, True))
         else if b \<ge> 241 then (St8, False)
         else (St12, True))
      else (St3, False))"
| "visible_length_next St1 b =
     (if 128 \<le> b \<and> b \<le> 191 then (St12, True) else (St0, False))"
| "visible_length_next St2 b =
     (if 160 \<le> b \<and> b \<le> 191 then (St1, False) else (St0, False))"
| "visible_length_next St3 b =
     (if 128 \<le> b \<and> b \<le> 191 then (St1, False) else (St0, False))"
| "visible_length_next St4 b =
     (if 128 \<le> b \<and> b \<le> 159 then (St1, False) else (St0, False))"
| "visible_length_next St5 b =
     (if b < 148 then (if 128 \<le> b \<and> b \<le> 147 then (St1, False) else (St0, False))
      else if b > 159 then (if 160 \<le> b \<and> b \<le> 191 then (St1, False) else (St0, False))
      else (St6, False))"
| "visible_length_next St6 b =
     (if 128 \<le> b \<and> b \<le> 191 then (St12, False) else (St0, False))"
| "visible_length_next St7 b =
     (if 144 \<le> b \<and> b \<le> 191 then (St3, False) else (St0, False))"
| "visible_length_next St8 b =
     (if 128 \<le> b \<and> b \<le> 191 then (St3, False) else (St0, False))"
| "visible_length_next St9 b =
     (if b < 176 then (if 128 \<le> b \<and> b \<le> 175 then (St3, False) else (St0, False))
      else if b > 179 then (if 180 \<le> b \<and> b \<le> 191 then (St3, False) else (St0, False))
      else (St10, False))"
| "visible_length_next St10 b =
     (if 128 \<le> b \<and> b \<le> 191 then (St6, False) else (St0, False))"
| "visible_length_next St11 b =
     (if 128 \<le> b \<and> b \<le> 143 then (St3, False) else (St0, False))"
| "visible_length_next St0 b = (St0, False)"
| "visible_length_next St13 b = (St0, False)"

fun visible_length_run :: "ragel_state \<Rightarrow> nat \<Rightarrow> bytes \<Rightarrow> nat" where
  "visible_length_run cs nVisible [] = nVisible"
| "visible_length_run cs nVisible (b # bs) =
     (case visible_length_next cs b of (cs', act) \<Rightarrow>
        if cs' = St0 then nVisible
        else visible_length_run cs' (if act then nVisible + 1 else nVisible) bs)"

definition co_visible_length :: "bytes \<Rightarrow> nat" where
  "co_visible_length data = visible_length_run St12 0 data"

fun co_skip_color :: "bytes \<Rightarrow> bytes" where
  "co_skip_color (a # b # c # p) =
     (if a = 0xEF \<and> 0x94 \<le> b \<and> b \<le> 0x9F then co_skip_color p
      else if a = 0xF3 \<and> p \<noteq> [] \<and> 0xB0 \<le> b \<and> b \<le> 0xB3 then co_skip_color (tl p)
      else a # b # c # p)"
| "co_skip_color p = p"

text \<open>
  The machine of \<open>co_visible_advance\<close> has the same states and transitions; its
  \<open>tr0\<close> action counts and leaves the loop just past the \<open>n\<close>th visible code point.
\<close>

definition visible_advance_next :: "ragel_state \<Rightarrow> byte \<Rightarrow> ragel_state \<times> bool" where
  "visible_advance_next = visible_length_next"

fun visible_advance_run :: "ragel_state \<Rightarrow> nat \<Rightarrow> nat \<Rightarrow> bytes \<Rightarrow> bytes \<times> nat" where
  "visible_advance_run cs n nSeen [] = ([], nSeen)"
| "visible_advance_run cs n nSeen (b # bs) =
     (case visible_advance_next cs b of (cs', act) \<Rightarrow>
        if cs' = St0 then (b # bs, nSeen)
        else if act then
          (if nSeen + 1 \<ge> n then (bs, nSeen + 1)
           else visible_advance_run cs' n (nSeen + 1) bs)
        else visible_advance_run cs' n nSeen bs)"

text \<open>The pointer returned, and the count stored through \<open>out_count\<close>.\<close>

definition co_visible_advance :: "bytes \<Rightarrow> nat \<Rightarrow> bytes \<times> nat" where
  "co_visible_advance data n =
     (if n = 0 then (data, 0) else visible_advance_run St12 n 0 data)"

text \<open>
  \<open>co_copy_visible\<close>: the machine with a second rest state \<open>St13\<close>, entered after a
  visible code point; leaving \<open>St13\<close> counts that code point.
\<close>

fun copy_visible_next :: "ragel_state \<Rightarrow> byte \<Rightarrow> ragel_state" where
  "copy_visible_next St12 b =
     (if b = 0 then St0
      else if b = 224 then St2
      else if b = 237 then St4
      else if b = 239 then St5
      else if b = 240 then St7
      else if b = 243 then St9
      else if b = 244 then St11
      else if b < 225 then
        (if b > 193 then (if 194 \<le> b \<and> b \<le> 223 then St1 else St13)
         else if b \<ge> 128 then St0
         else St13)
      else if b > 238 then
        (if b > 242 then (if 245 \<le> b then St0 else St13)
         else if b \<ge> 241 then St8
         else St13)
      else St3)"
| "copy_visible_next St13 b =
     (if b = 0 then St0
      else if b = 224 then St2
      else if b = 237 then St4
      else if b = 239 then St5
      else if b = 240 then St7
      else if b = 243 then St9
      else if b = 244 then St11
      else if b < 225 then
        (if b > 193 then (if 194 \<le> b \<and> b \<le> 223 then St1 else St13)
         else if b \<ge> 128 then St0
         else St13)
      else if b > 238 then
        (if b > 242 then (if 245 \<le> b then St0 else St13)
         else if b \<ge> 241 then St8
         else St13)
      else St3)"
| "copy_visible_next St1 b = (if 128 \<le> b \<and> b \<le> 191 then St13 else St0)"
| "copy_visible_next St2 b = (if 160 \<le> b \<and> b \<le> 191 then St1 else St0)"
| "copy_visible_next St3 b = (if 128 \<le> b \<and> b \<le> 191 then St1 else St0)"
| "copy_visible_next St4 b = (if 128 \<le> b \<and> b \<le> 159 then St1 else St0)"
| "copy_visible_next St5 b =
     (if b < 148 then (if 128 \<le> b \<and> b \<le> 147 then St1 else St0)
      else if b > 159 then (if 160 \<le> b \<and> b \<le> 191 then St1 else St0)
      else St6)"
| "copy_visible_next St6 b = (if 128 \<le> b \<and> b \<le> 191 then St12 else St0)"
| "copy_visible_next St7 b = (if 144 \<le> b \<and> b \<le> 191 then St3 else St0)"
| "copy_visible_next St8 b = (if 128 \<le> b \<and> b \<le> 191 then St3 else St0)"
| "copy_visible_next St9 b =
     (if b < 176 then (if 128 \<le> b \<and> b \<le> 175 then St3 else St0)
      else if b > 179 then (if 180 \<le> b \<and> b \<le> 191 then St3 else St0)
      else St10)"
| "copy_visible_next St10 b = (if 128 \<le> b \<and> b \<le> 191 then St6 else St0)"
| "copy_visible_next St11 b = (if 128 \<le> b \<and> b \<le> 143 then St3 else St0)"
| "copy_visible_next St0 b = St0"

fun copy_visible_run :: "ragel_state \<Rightarrow> nat \<Rightarrow> nat \<Rightarrow> bytes \<Rightarrow> bytes \<Rightarrow> bytes" where
  "copy_visible_run cs nCopied limit out [] = out"
| "copy_visible_run cs nCopied limit out (b # bs) =
     (let cs' = copy_visible_next cs b in
        if cs' = St0 then out
        else if cs = St13 then
          (if nCopied + 1 \<ge> limit \<or> length out \<ge> lbuf_cap then out
           else copy_visible_run cs' (nCopied + 1) limit (WP_SAFE lbuf_cap out b) bs)
        else copy_visible_run cs' nCopied limit (WP_SAFE lbuf_cap out b) bs)"

definition co_copy_visible :: "bytes \<Rightarrow> nat \<Rightarrow> bytes" where
  "co_copy_visible data limit =
     (if limit = 0 then [] else copy_visible_run St12 0 limit [] data)"

text \<open>\<open>co_find_delim\<close>: the \<open>memchr\<close> fast path, and the machine behind it.\<close>

definition find_delim_next :: "ragel_state \<Rightarrow> byte \<Rightarrow> ragel_state \<times> bool" where
  "find_delim_next = visible_length_next"

fun find_delim_run :: "ragel_state \<Rightarrow> byte \<Rightarrow> bytes \<Rightarrow> bytes option" where
  "find_delim_run cs target [] = None"
| "find_delim_run cs target (b # bs) =
     (case find_delim_next cs b of (cs', act) \<Rightarrow>
        if cs' = St0 then None
        else if act \<and> b = target then Some (b # bs)
        else find_delim_run cs' target bs)"

definition co_find_delim :: "bytes \<Rightarrow> byte \<Rightarrow> bytes option" where
  "co_find_delim data target =
     (if 0x01 \<le> target \<and> target \<le> 0x7F then memchr data target
      else find_delim_run St12 target data)"

text \<open>
  \<open>co_strip_color\<close>: every transition out of the start state sets \<open>mark = p\<close>; the
  action of \<open>tr0\<close> and \<open>tr7\<close> copies the bytes from \<open>mark\<close> to \<open>p\<close>.  The model
  carries the bytes between \<open>mark\<close> and \<open>p\<close>.
\<close>

definition strip_color_next :: "ragel_state \<Rightarrow> byte \<Rightarrow> ragel_state \<times> bool" where
  "strip_color_next = visible_length_next"

fun strip_color_run :: "ragel_state \<Rightarrow> bytes \<Rightarrow> bytes \<Rightarrow> bytes \<Rightarrow> bytes" where
  "strip_color_run cs mark out [] = out"
| "strip_color_run cs mark out (b # bs) =
     (case strip_color_next cs b of (cs', act) \<Rightarrow>
        if cs' = St0 then out
        else (let mark' = (if cs = St12 then [b] else mark @ [b]) in
              strip_color_run cs' mark'
                (if act then wp_safe_list lbuf_cap out mark' else out) bs))"

definition co_strip_color :: "bytes \<Rightarrow> bytes" where
  "co_strip_color data = strip_color_run St12 [] [] data"

end
