(* ===== verification/Color_Text.thy ===== *)
theory Color_Text
  imports Color_Dfa
begin

text \<open>
  What the scanners of \<^verbatim>\<open>Color_Dfa\<close> promise.  The abstract view of a colored
  string is a list of code points, each the list of its UTF-8 bytes:
  \<open>utf8_cp\<close> is well-formedness of one code point (U+0001 to U+10FFFF without
  surrogates, no overlong forms), \<open>color_cp\<close> the private-use ranges
  U+F500 to U+F7FF and U+F0000 to U+F3FFF that carry color.  The locale
  \<open>code_point_machine\<close> is the contract of a transition table: from the start
  state it accepts exactly the code points, and marks exactly the visible ones.
  Every machine of the sources is an interpretation of it, and the refinement
  lemmas of the scanners (what they return on \<open>concat ts\<close>) follow.
\<close>

section \<open>Code points\<close>

definition utf8_cont :: "byte \<Rightarrow> bool" where
  "utf8_cont b \<longleftrightarrow> 0x80 \<le> b \<and> b \<le> 0xBF"

fun utf8_cp :: "bytes \<Rightarrow> bool" where
  "utf8_cp [a] \<longleftrightarrow> 1 \<le> a \<and> a \<le> 0x7F"
| "utf8_cp [a, b] \<longleftrightarrow> 0xC2 \<le> a \<and> a \<le> 0xDF \<and> utf8_cont b"
| "utf8_cp [a, b, c] \<longleftrightarrow> utf8_cont c \<and>
     (a = 0xE0 \<and> 0xA0 \<le> b \<and> b \<le> 0xBF \<or>
      0xE1 \<le> a \<and> a \<le> 0xEF \<and> a \<noteq> 0xED \<and> utf8_cont b \<or>
      a = 0xED \<and> 0x80 \<le> b \<and> b \<le> 0x9F)"
| "utf8_cp [a, b, c, d] \<longleftrightarrow> utf8_cont c \<and> utf8_cont d \<and>
     (a = 0xF0 \<and> 0x90 \<le> b \<and> b \<le> 0xBF \<or>
      0xF1 \<le> a \<and> a \<le> 0xF3 \<and> utf8_cont b \<or>
      a = 0xF4 \<and> 0x80 \<le> b \<and> b \<le> 0x8F)"
| "utf8_cp _ \<longleftrightarrow> False"

fun color_cp :: "bytes \<Rightarrow> bool" where
  "color_cp [a, b, c] \<longleftrightarrow> a = 0xEF \<and> 0x94 \<le> b \<and> b \<le> 0x9F"
| "color_cp [a, b, c, d] \<longleftrightarrow> a = 0xF3 \<and> 0xB0 \<le> b \<and> b \<le> 0xB3"
| "color_cp _ \<longleftrightarrow> False"

lemma utf8_cp_cases:
  assumes "utf8_cp t"
  obtains (one) a where "t = [a]" | (two) a b where "t = [a, b]"
    | (three) a b c where "t = [a, b, c]" | (four) a b c d where "t = [a, b, c, d]"
  using assms by (cases t rule: utf8_cp.cases) auto


fun cp_path :: "(ragel_state \<Rightarrow> byte \<Rightarrow> ragel_state \<times> bool) \<Rightarrow> ragel_state \<Rightarrow> bytes \<Rightarrow> bool \<Rightarrow> bool" where
  "cp_path next cs [] act = False"
| "cp_path next cs (b # bs) act =
     (case next cs b of (cs', a) \<Rightarrow>
        (if bs = [] then cs' = St12 \<and> a = act
         else cs' \<noteq> St12 \<and> cs' \<noteq> St0 \<and> \<not> a \<and> cp_path next cs' bs act))"


lemma cp_path_Cons_iff:
  "cp_path next cs t act \<longleftrightarrow>
     (\<exists>b bs. t = b # bs \<and>
       (if bs = [] then next cs b = (St12, act)
        else \<exists>cs'. next cs b = (cs', False) \<and> cs' \<noteq> St12 \<and> cs' \<noteq> St0 \<and> cp_path next cs' bs act))"
  by (cases t) (auto split: prod.splits)

lemma visible_length_next_St5:
  "visible_length_next St5 b =
     (if utf8_cont b then (if 0x94 \<le> b \<and> b \<le> 0x9F then St6 else St1, False) else (St0, False))"
  by (auto simp: utf8_cont_def word_nat_simps)
lemma visible_length_next_St9:
  "visible_length_next St9 b =
     (if utf8_cont b then (if 0xB0 \<le> b \<and> b \<le> 0xB3 then St10 else St3, False) else (St0, False))"
  by (auto simp: utf8_cont_def word_nat_simps)
lemma path_St1: "cp_path visible_length_next St1 t act \<longleftrightarrow> (\<exists>b. t = [b] \<and> utf8_cont b) \<and> act"
  by (cases t) (auto simp: utf8_cont_def)
lemma path_St6: "cp_path visible_length_next St6 t act \<longleftrightarrow> (\<exists>b. t = [b] \<and> utf8_cont b) \<and> \<not> act"
  by (cases t) (auto simp: utf8_cont_def)

lemma path_St2: "cp_path visible_length_next St2 t act \<longleftrightarrow>
    (\<exists>b c. t = [b, c] \<and> 0xA0 \<le> b \<and> b \<le> 0xBF \<and> utf8_cont c) \<and> act"
  by (cases t) (auto simp: path_St1)
lemma path_St3: "cp_path visible_length_next St3 t act \<longleftrightarrow>
    (\<exists>b c. t = [b, c] \<and> utf8_cont b \<and> utf8_cont c) \<and> act"
  by (cases t) (auto simp: path_St1 utf8_cont_def)
lemma path_St4: "cp_path visible_length_next St4 t act \<longleftrightarrow>
    (\<exists>b c. t = [b, c] \<and> 0x80 \<le> b \<and> b \<le> 0x9F \<and> utf8_cont c) \<and> act"
  by (cases t) (auto simp: path_St1 utf8_cont_def)
lemma path_St5: "cp_path visible_length_next St5 t act \<longleftrightarrow>
    (\<exists>b c. t = [b, c] \<and> utf8_cont b \<and> utf8_cont c \<and> act = (\<not> (0x94 \<le> b \<and> b \<le> 0x9F)))"
  by (cases t) (auto simp: path_St1 path_St6 visible_length_next_St5 simp del: visible_length_next.simps)
lemma path_St10: "cp_path visible_length_next St10 t act \<longleftrightarrow>
    (\<exists>b c. t = [b, c] \<and> utf8_cont b \<and> utf8_cont c) \<and> \<not> act"
  by (cases t) (auto simp: path_St6 utf8_cont_def)
lemma path_St7: "cp_path visible_length_next St7 t act \<longleftrightarrow>
    (\<exists>b c d. t = [b, c, d] \<and> 0x90 \<le> b \<and> b \<le> 0xBF \<and> utf8_cont c \<and> utf8_cont d) \<and> act"
  by (cases t) (auto simp: path_St3)
lemma path_St8: "cp_path visible_length_next St8 t act \<longleftrightarrow>
    (\<exists>b c d. t = [b, c, d] \<and> utf8_cont b \<and> utf8_cont c \<and> utf8_cont d) \<and> act"
  by (cases t) (auto simp: path_St3 utf8_cont_def)
lemma path_St9: "cp_path visible_length_next St9 t act \<longleftrightarrow>
    (\<exists>b c d. t = [b, c, d] \<and> utf8_cont b \<and> utf8_cont c \<and> utf8_cont d \<and> act = (\<not> (0xB0 \<le> b \<and> b \<le> 0xB3)))"
  by (cases t) (auto simp: path_St3 path_St10 visible_length_next_St9 simp del: visible_length_next.simps)
lemma path_St11: "cp_path visible_length_next St11 t act \<longleftrightarrow>
    (\<exists>b c d. t = [b, c, d] \<and> 0x80 \<le> b \<and> b \<le> 0x8F \<and> utf8_cont c \<and> utf8_cont d) \<and> act"
  by (cases t) (auto simp: path_St3)

lemmas path_states = path_St1 path_St2 path_St3 path_St4 path_St5 path_St6 path_St7 path_St8 path_St9 path_St10 path_St11

lemma visible_length_next_St12:
  "visible_length_next St12 b =
     (if 1 \<le> b \<and> b \<le> 0x7F then (St12, True)
      else if 0xC2 \<le> b \<and> b \<le> 0xDF then (St1, False)
      else if b = 0xE0 then (St2, False)
      else if b = 0xED then (St4, False)
      else if b = 0xEF then (St5, False)
      else if 0xE1 \<le> b \<and> b \<le> 0xEE then (St3, False)
      else if b = 0xF0 then (St7, False)
      else if b = 0xF3 then (St9, False)
      else if b = 0xF4 then (St11, False)
      else if 0xF1 \<le> b \<and> b \<le> 0xF2 then (St8, False)
      else (St0, False))"
  by (auto simp: word_nat_simps)


lemma path_St12_long:
  assumes "bs \<noteq> []"
  shows "cp_path visible_length_next St12 (a # bs) act \<longleftrightarrow>
     (if 0xC2 \<le> a \<and> a \<le> 0xDF then cp_path visible_length_next St1 bs act
      else if a = 0xE0 then cp_path visible_length_next St2 bs act
      else if a = 0xED then cp_path visible_length_next St4 bs act
      else if a = 0xEF then cp_path visible_length_next St5 bs act
      else if 0xE1 \<le> a \<and> a \<le> 0xEE then cp_path visible_length_next St3 bs act
      else if a = 0xF0 then cp_path visible_length_next St7 bs act
      else if a = 0xF3 then cp_path visible_length_next St9 bs act
      else if a = 0xF4 then cp_path visible_length_next St11 bs act
      else 0xF1 \<le> a \<and> a \<le> 0xF2 \<and> cp_path visible_length_next St8 bs act)"
proof -
  have "0xC2 \<le> a \<or> 0xE1 \<le> a \<or> 0xF1 \<le> a \<Longrightarrow> \<not> a \<le> 0x7F"
    by (auto simp: word_nat_simps)
  then show ?thesis
    using assms by (auto simp: visible_length_next_St12 simp del: visible_length_next.simps)
qed

lemma utf8_cp_3:
  "utf8_cp [a, b, c] \<longleftrightarrow> utf8_cont c \<and>
     (if 0xC2 \<le> a \<and> a \<le> 0xDF then False
      else if a = 0xE0 then 0xA0 \<le> b \<and> b \<le> 0xBF
      else if a = 0xED then 0x80 \<le> b \<and> b \<le> 0x9F
      else if a = 0xEF then utf8_cont b
      else 0xE1 \<le> a \<and> a \<le> 0xEE \<and> utf8_cont b)"
  by (auto simp: word_nat_simps)

lemma utf8_cp_4:
  "utf8_cp [a, b, c, d] \<longleftrightarrow> utf8_cont c \<and> utf8_cont d \<and>
     (if 0xC2 \<le> a \<and> a \<le> 0xDF then False
      else if 0xE1 \<le> a \<and> a \<le> 0xEE then False
      else if a = 0xF0 then 0x90 \<le> b \<and> b \<le> 0xBF
      else if a = 0xF3 then utf8_cont b
      else if a = 0xF4 then 0x80 \<le> b \<and> b \<le> 0x8F
      else 0xF1 \<le> a \<and> a \<le> 0xF2 \<and> utf8_cont b)"
  by (auto simp: word_nat_simps)

lemma visible_length_scan:
  "cp_path visible_length_next St12 t act \<longleftrightarrow> utf8_cp t \<and> act = (\<not> color_cp t)"
proof (cases t rule: utf8_cp.cases)
  case (1 a)
  then show ?thesis by (auto simp: visible_length_next_St12 simp del: visible_length_next.simps(1))
next
  case (2 a b)
  show ?thesis unfolding 2 by (auto simp: path_St12_long path_states simp del: cp_path.simps)
next
  case (3 a b c)
  show ?thesis unfolding 3
    by (auto simp: path_St12_long path_states utf8_cp_3 simp del: cp_path.simps utf8_cp.simps)
next
  case (4 a b c d)
  show ?thesis unfolding 4
    by (auto simp: path_St12_long path_states utf8_cp_4 simp del: cp_path.simps utf8_cp.simps)
qed (auto simp: path_St12_long path_states simp del: cp_path.simps(2))

section \<open>The contract of a transition table\<close>

fun dead :: "(ragel_state \<Rightarrow> byte \<Rightarrow> ragel_state \<times> bool) \<Rightarrow> ragel_state \<Rightarrow> bytes \<Rightarrow> bool" where
  "dead next cs [] = True"
| "dead next cs (b # bs) =
     (case next cs b of (cs', a) \<Rightarrow>
        cs' = St0 \<or> (cs' \<noteq> St12 \<and> \<not> a \<and> dead next cs' bs))"

definition malformed :: "bytes \<Rightarrow> bool" where
  "malformed bs \<longleftrightarrow> (\<forall>k \<in> {1, 2, 3, 4}. \<not> utf8_cp (take k bs))"

lemma utf8_cp_length: "utf8_cp t \<Longrightarrow> length t \<in> {1, 2, 3, 4}"
  by (cases t rule: utf8_cp.cases) auto

lemma utf8_cp_nonempty [simp]: "\<not> utf8_cp []"
  by simp

lemma malformed_no_cp: "malformed (t @ r) \<Longrightarrow> \<not> utf8_cp t"
  using utf8_cp_length [of t] by (auto simp: malformed_def)

lemma malformed_Nil [simp]: "malformed []"
  by (simp add: malformed_def)

locale code_point_machine =
  fixes "next" :: "ragel_state \<Rightarrow> byte \<Rightarrow> ragel_state \<times> bool"
  assumes scan: "cp_path next St12 t act \<longleftrightarrow> utf8_cp t \<and> act = (\<not> color_cp t)"
    and act_rest: "next cs b = (cs', True) \<Longrightarrow> cs' = St12"
begin

lemma scan_cp: "utf8_cp t \<Longrightarrow> cp_path next St12 t (\<not> color_cp t)"
  by (simp add: scan)

lemma dead_or_path:
  "dead next cs bs \<or> (\<exists>t r act. bs = t @ r \<and> cp_path next cs t act)"
proof (induction bs arbitrary: cs)
  case (Cons b bs)
  obtain cs' a where n: "next cs b = (cs', a)" by (cases "next cs b")
  show ?case
  proof (cases "cs' = St12 \<or> cs' = St0")
    case True
    with n have "dead next cs (b # bs) \<or> cp_path next cs [b] a" by auto
    then show ?thesis by (metis append_Cons append_Nil)
  next
    case False
    with n act_rest have a: "\<not> a" by (metis (full_types))
    from Cons.IH [of cs'] show ?thesis
    proof
      assume "dead next cs' bs"
      with n a False show ?thesis by simp
    next
      assume "\<exists>t r act. bs = t @ r \<and> cp_path next cs' t act"
      then obtain t r act where tr: "bs = t @ r" "cp_path next cs' t act" by blast
      then have "t \<noteq> []" by auto
      with tr n a False have "b # bs = (b # t) @ r" "cp_path next cs (b # t) act" by auto
      then show ?thesis by blast
    qed
  qed
qed simp

lemma malformed_dead: "malformed bs \<Longrightarrow> dead next St12 bs"
  using dead_or_path [of St12 bs] malformed_no_cp scan by blast

end

lemma visible_length_act_rest:
  "visible_length_next cs b = (cs', True) \<Longrightarrow> cs' = St12"
  by (cases cs) (auto split: if_splits)

interpretation vlm: code_point_machine visible_length_next
  by unfold_locales (rule visible_length_scan, rule visible_length_act_rest)

interpretation vam: code_point_machine visible_advance_next
  unfolding visible_advance_next_def by (rule vlm.code_point_machine_axioms)

interpretation fdm: code_point_machine find_delim_next
  unfolding find_delim_next_def by (rule vlm.code_point_machine_axioms)

interpretation scm: code_point_machine strip_color_next
  unfolding strip_color_next_def by (rule vlm.code_point_machine_axioms)

section \<open>Texts: lists of code points\<close>

abbreviation text_cps :: "bytes list \<Rightarrow> bool" where
  "text_cps ts \<equiv> list_all utf8_cp ts"

abbreviation vis_cps :: "bytes list \<Rightarrow> bytes list" where
  "vis_cps ts \<equiv> filter (\<lambda>t. \<not> color_cp t) ts"

fun take_vis :: "nat \<Rightarrow> bytes list \<Rightarrow> bytes list" where
  "take_vis n [] = []"
| "take_vis n (t # ts) =
     (if n = 0 then [] else t # take_vis (if color_cp t then n else n - 1) ts)"

fun drop_vis :: "nat \<Rightarrow> bytes list \<Rightarrow> bytes list" where
  "drop_vis n [] = []"
| "drop_vis n (t # ts) =
     (if n = 0 then t # ts else drop_vis (if color_cp t then n else n - 1) ts)"

lemma take_vis_append_drop_vis: "take_vis n ts @ drop_vis n ts = ts"
  by (induction n ts rule: take_vis.induct) auto

lemma take_vis_0 [simp]: "take_vis 0 ts = []"
  by (cases ts) auto

lemma drop_vis_0 [simp]: "drop_vis 0 ts = ts"
  by (cases ts) auto

lemma text_take_vis: "text_cps ts \<Longrightarrow> text_cps (take_vis n ts)"
  by (induction n ts rule: take_vis.induct) auto

lemma text_drop_vis: "text_cps ts \<Longrightarrow> text_cps (drop_vis n ts)"
  by (induction n ts rule: drop_vis.induct) auto

lemma vis_take_vis: "vis_cps (take_vis n ts) = take n (vis_cps ts)"
  by (induction n ts rule: take_vis.induct) (auto simp: take_Cons' split: nat.splits)

lemma vis_drop_vis: "vis_cps (drop_vis n ts) = drop n (vis_cps ts)"
  by (induction n ts rule: drop_vis.induct) (auto simp: drop_Cons' split: nat.splits)

text \<open>Every byte string is a text followed by a tail that starts no code point.\<close>

lemma decompose_text:
  "\<exists>ts bad. bs = concat ts @ bad \<and> text_cps ts \<and> malformed bad"
proof (induction bs rule: length_induct)
  case (1 bs)
  show ?case
  proof (cases "malformed bs")
    case True
    then show ?thesis by (intro exI [of _ "[]"] exI [of _ bs]) simp
  next
    case False
    then obtain k where k: "utf8_cp (take k bs)" by (auto simp: malformed_def)
    then have "take k bs \<noteq> []" by (metis utf8_cp_nonempty)
    then have "length (drop k bs) < length bs" by auto
    with 1 obtain ts bad where "drop k bs = concat ts @ bad" "text_cps ts" "malformed bad" by blast
    with k have "bs = concat (take k bs # ts) @ bad" "text_cps (take k bs # ts)"
      by (simp_all, metis append_take_drop_id)
    with \<open>malformed bad\<close> show ?thesis by blast
  qed
qed

section \<open>Refinement of the scanners\<close>

lemma visible_length_run_path:
  "cp_path visible_length_next cs t act \<Longrightarrow>
     visible_length_run cs n (t @ r) = visible_length_run St12 (n + of_bool act) r"
  by (induction t arbitrary: cs) (auto split: prod.splits if_splits)

lemma visible_length_run_dead:
  "dead visible_length_next cs bs \<Longrightarrow> visible_length_run cs n bs = n"
  by (induction bs arbitrary: cs) (auto split: prod.splits)

lemma visible_length_run_text:
  "text_cps ts \<Longrightarrow> malformed bad \<Longrightarrow>
     visible_length_run St12 n (concat ts @ bad) = n + length (vis_cps ts)"
proof (induction ts arbitrary: n)
  case Nil
  then show ?case by (simp add: visible_length_run_dead vlm.malformed_dead)
next
  case (Cons t ts)
  then show ?case
    using visible_length_run_path [OF vlm.scan_cp, of t n "concat ts @ bad"] by auto
qed

lemma co_visible_length_text [simp]:
  "text_cps ts \<Longrightarrow> co_visible_length (concat ts) = length (vis_cps ts)"
  using visible_length_run_text [of ts "[]" 0] by (simp add: co_visible_length_def)

lemma visible_advance_run_path:
  "cp_path visible_advance_next cs t act \<Longrightarrow>
     visible_advance_run cs n k (t @ r) =
       (if act then (if n \<le> k + 1 then (r, k + 1) else visible_advance_run St12 n (k + 1) r)
        else visible_advance_run St12 n k r)"
  by (induction t arbitrary: cs) (auto split: prod.splits if_splits)

lemma visible_advance_run_text:
  "text_cps ts \<Longrightarrow> k < n \<Longrightarrow>
     visible_advance_run St12 n k (concat ts) =
       (concat (drop_vis (n - k) ts), min n (k + length (vis_cps ts)))"
proof (induction ts arbitrary: k)
  case (Cons t ts)
  from Cons.prems have t: "cp_path visible_advance_next St12 t (\<not> color_cp t)"
    by (simp add: vam.scan_cp)
  show ?case
  proof (cases "color_cp t \<or> n \<le> k + 1")
    case True
    with Cons t show ?thesis by (auto simp: visible_advance_run_path min_def)
  next
    case False
    with Cons.prems Cons.IH [of "Suc k"] t show ?thesis
      by (auto simp: visible_advance_run_path diff_Suc split: nat.splits)
  qed
qed simp

lemma co_visible_advance_text:
  "text_cps ts \<Longrightarrow>
     co_visible_advance (concat ts) n = (concat (drop_vis n ts), min n (length (vis_cps ts)))"
  using visible_advance_run_text [of ts 0 n] by (simp add: co_visible_advance_def)


lemma find_delim_run_path:
  "cp_path find_delim_next cs t act \<Longrightarrow>
     find_delim_run cs d (t @ r) =
       (if act \<and> last t = d then Some (last t # r) else find_delim_run St12 d r)"
  by (induction t arbitrary: cs) (auto split: prod.splits if_splits)

lemma utf8_cp_last:
  "utf8_cp t \<Longrightarrow> t = [last t] \<and> last t \<le> 0x7F \<or> 0x80 \<le> last t \<and> (\<forall>b \<in> set t. 0x80 \<le> b)"
  by (cases t rule: utf8_cp.cases) (auto simp: utf8_cont_def word_nat_simps)

lemma ascii_last_iff:
  assumes "utf8_cp t" "d \<le> 0x7F"
  shows "last t = d \<longleftrightarrow> t = [d]" and "t \<noteq> [d] \<Longrightarrow> d \<notin> set t"
proof -
  have d: "\<not> 0x80 \<le> d" using assms(2) by (simp add: word_nat_simps)
  from utf8_cp_last [OF assms(1)] show "last t = d \<longleftrightarrow> t = [d]"
    using d by (metis last.simps)
  show "d \<notin> set t" if "t \<noteq> [d]"
    using utf8_cp_last [OF assms(1)] d that by (metis empty_iff empty_set set_ConsD)
qed

definition find_cp :: "byte \<Rightarrow> bytes list \<Rightarrow> bytes option" where
  "find_cp d ts =
     (let us = dropWhile (\<lambda>t. t \<noteq> [d]) ts in if us = [] then None else Some (concat us))"

lemma find_cp_Nil [simp]: "find_cp d [] = None"
  by (simp add: find_cp_def)

lemma find_cp_Cons [simp]:
  "find_cp d (t # ts) = (if t = [d] then Some (concat (t # ts)) else find_cp d ts)"
  by (auto simp: find_cp_def Let_def)

lemma find_delim_run_text:
  "text_cps ts \<Longrightarrow> d \<le> 0x7F \<Longrightarrow> find_delim_run St12 d (concat ts) = find_cp d ts"
proof (induction ts)
  case (Cons t ts)
  then have t: "utf8_cp t" by simp
  show ?case
  proof (cases "t = [d]")
    case True
    with t find_delim_run_path [OF fdm.scan_cp [OF t], of d "concat ts"] show ?thesis by simp
  next
    case False
    with ascii_last_iff(1) [OF t Cons.prems(2)] Cons
      find_delim_run_path [OF fdm.scan_cp [OF t], of d "concat ts"]
    show ?thesis by simp
  qed
qed simp

lemma memchr_text:
  "text_cps ts \<Longrightarrow> d \<le> 0x7F \<Longrightarrow> memchr (concat ts) d = find_cp d ts"
proof (induction ts)
  case (Cons t ts)
  then show ?case
    using ascii_last_iff(2) [of t d] by (cases "t = [d]") (simp_all add: memchr_append_notin)
qed simp

lemma co_find_delim_text:
  "text_cps ts \<Longrightarrow> d \<le> 0x7F \<Longrightarrow> co_find_delim (concat ts) d = find_cp d ts"
  by (simp add: co_find_delim_def memchr_text find_delim_run_text)

lemma strip_color_run_mid:
  assumes "cp_path strip_color_next cs t act" "cs \<noteq> St12"
  shows "strip_color_run cs mk out (t @ r) =
    strip_color_run St12 (mk @ t) (if act then wp_safe_list lbuf_cap out (mk @ t) else out) r"
  using assms
proof (induction t arbitrary: cs mk)
  case (Cons b t)
  then show ?case by (auto simp: Let_def split: prod.splits if_splits)
qed simp

lemma strip_color_run_path:
  assumes "cp_path strip_color_next St12 t act"
  shows "strip_color_run St12 mk out (t @ r) =
    strip_color_run St12 t (if act then wp_safe_list lbuf_cap out t else out) r"
proof (cases t)
  case Nil
  with assms show ?thesis by simp
next
  case (Cons b u)
  obtain cs' a where n: "strip_color_next St12 b = (cs', a)" by (cases "strip_color_next St12 b")
  show ?thesis
  proof (cases "u = []")
    case True
    with assms n Cons show ?thesis by simp
  next
    case False
    with assms n Cons have "cp_path strip_color_next cs' u act" "cs' \<noteq> St12" "cs' \<noteq> St0" "\<not> a"
      by auto
    with n Cons strip_color_run_mid [of cs' u act "[b]" out r] show ?thesis by simp
  qed
qed

lemma strip_color_run_dead:
  "dead strip_color_next cs bs \<Longrightarrow> strip_color_run cs mk out bs = out"
  by (induction bs arbitrary: cs mk) (auto simp: Let_def split: prod.splits)

lemma strip_color_run_text:
  "text_cps ts \<Longrightarrow> malformed bad \<Longrightarrow>
     strip_color_run St12 mk (take lbuf_cap acc) (concat ts @ bad) =
       take lbuf_cap (acc @ concat (vis_cps ts))"
proof (induction ts arbitrary: mk acc)
  case Nil
  then show ?case by (simp add: strip_color_run_dead scm.malformed_dead)
next
  case (Cons t ts)
  have "strip_color_run St12 mk (take lbuf_cap acc) (t @ concat ts @ bad) =
      strip_color_run St12 t (take lbuf_cap (if color_cp t then acc else acc @ t)) (concat ts @ bad)"
    using Cons.prems strip_color_run_path [OF scm.scan_cp, of t mk "take lbuf_cap acc" "concat ts @ bad"]
    by (simp add: wp_safe_list_take)
  also have "\<dots> = take lbuf_cap ((if color_cp t then acc else acc @ t) @ concat (vis_cps ts))"
    using Cons by simp
  finally show ?case by simp
qed

lemma co_strip_color_text_bad:
  "text_cps ts \<Longrightarrow> malformed bad \<Longrightarrow>
     co_strip_color (concat ts @ bad) = take lbuf_cap (concat (vis_cps ts))"
  using strip_color_run_text [of ts bad "[]" "[]"] by (simp add: co_strip_color_def)

lemma co_strip_color_text:
  "text_cps ts \<Longrightarrow> co_strip_color (concat ts) = take lbuf_cap (concat (vis_cps ts))"
  using co_strip_color_text_bad [of ts "[]"] by simp

subsection \<open>The copying machine\<close>

lemma copy_visible_next_eq:
  "copy_visible_next cs b =
     (case visible_length_next (if cs = St13 then St12 else cs) b of
        (s, act) \<Rightarrow> if act then St13 else s)"
  by (cases cs) simp_all

lemma copy_visible_run_path:
  "cp_path visible_length_next cs t act \<Longrightarrow> cs \<noteq> St13 \<Longrightarrow>
     copy_visible_run cs n lim out (t @ r) =
       copy_visible_run (if act then St13 else St12) n lim (wp_safe_list lbuf_cap out t) r"
proof (induction t arbitrary: cs out)
  case (Cons b t)
  obtain cs' a where n: "visible_length_next cs b = (cs', a)"
    by (cases "visible_length_next cs b")
  have "cs' \<noteq> St13" using n by (cases cs) (auto split: if_splits)
  then show ?case
    using Cons n by (cases "t = []") (auto simp: copy_visible_next_eq Let_def)
qed simp

lemma copy_visible_run_St13:
  assumes "cp_path visible_length_next St12 t act"
  shows "copy_visible_run St13 n lim out (t @ r) =
    (if n + 1 \<ge> lim \<or> length out \<ge> lbuf_cap then out
     else copy_visible_run St12 (n + 1) lim out (t @ r))"
proof (cases t)
  case (Cons b u)
  with assms have "copy_visible_next St12 b \<noteq> St0"
    by (auto simp: copy_visible_next_eq split: prod.splits if_splits)
  moreover have "copy_visible_next St13 b = copy_visible_next St12 b" by simp
  ultimately show ?thesis using Cons by (simp del: copy_visible_next.simps)
qed (use assms in simp)

lemma copy_visible_run_text:
  "text_cps ts \<Longrightarrow> n < lim \<Longrightarrow>
     copy_visible_run St12 n lim (take lbuf_cap acc) (concat ts) =
       take lbuf_cap (acc @ concat (take_vis (lim - n) ts)) \<and>
     copy_visible_run St13 n lim (take lbuf_cap acc) (concat ts) =
       take lbuf_cap (acc @ concat (take_vis (lim - n - 1) ts))"
proof (induction ts arbitrary: n acc)
  case (Cons t ts)
  then have t: "utf8_cp t" by simp
  note path = vlm.scan_cp [OF t]
  have A: "copy_visible_run St12 m lim (take lbuf_cap a) (concat (t # ts)) =
      take lbuf_cap (a @ concat (take_vis (lim - m) (t # ts)))" if "m < lim" for m a
    using Cons.prems Cons.IH [of m "a @ t"] that copy_visible_run_path [OF path, of m lim _ "concat ts"]
    by (auto simp: wp_safe_list_take)
  show ?case
  proof (cases "lim \<le> n + 1 \<or> lbuf_cap \<le> length acc")
    case True
    with A Cons.prems copy_visible_run_St13 [OF path, of n lim "take lbuf_cap acc" "concat ts"]
    show ?thesis by auto
  next
    case False
    with A [of n acc] A [of "n + 1" acc] Cons.prems
      copy_visible_run_St13 [OF path, of n lim "take lbuf_cap acc" "concat ts"]
    show ?thesis by auto
  qed
qed simp

lemma co_copy_visible_text:
  "text_cps ts \<Longrightarrow> co_copy_visible (concat ts) n = take lbuf_cap (concat (take_vis n ts))"
  using copy_visible_run_text [of ts 0 n "[]"] by (cases "n = 0") (simp_all add: co_copy_visible_def)

subsection \<open>Skipping color\<close>

lemma co_skip_color_color:
  assumes "utf8_cp t" "color_cp t"
  shows "co_skip_color (t @ r) = co_skip_color r"
  using assms by (cases t rule: color_cp.cases) auto

lemma co_skip_color_lead:
  "a \<noteq> 0xEF \<Longrightarrow> a \<noteq> 0xF3 \<Longrightarrow> co_skip_color (a # r) = a # r"
  by (cases "a # r" rule: co_skip_color.cases) auto

lemma co_skip_color_visible:
  assumes "utf8_cp t" "\<not> color_cp t"
  shows "co_skip_color (t @ r) = t @ r"
  using assms(1)
proof (cases rule: utf8_cp_cases)
  case (one a)
  with assms(1) have "a \<noteq> 0xEF" "a \<noteq> 0xF3" by auto
  with one show ?thesis by (simp add: co_skip_color_lead)
next
  case (two a b)
  with assms(1) have "a \<noteq> 0xEF" "a \<noteq> 0xF3" by auto
  with two show ?thesis by (simp add: co_skip_color_lead)
next
  case (three a b c)
  with assms show ?thesis by (cases r) auto
next
  case (four a b c d)
  with assms show ?thesis by auto
qed

lemma co_skip_color_text:
  "text_cps ts \<Longrightarrow> co_skip_color (concat ts) = concat (dropWhile color_cp ts)"
  by (induction ts) (auto simp: co_skip_color_color co_skip_color_visible)

section \<open>Properties\<close>

text \<open>C30: The transition table of the generated scanner is right: a byte string takes the
  machine from its start state back to it exactly when it is one well-formed UTF-8 code
  point, and the visible-character action fires at its end exactly when the code point
  is not one of the private-use color codes.\<close>

theorem visible_length_machine:
  "cp_path visible_length_next St12 t act \<longleftrightarrow> utf8_cp t \<and> act = (\<not> color_cp t)"
  by (rule visible_length_scan)

text \<open>\<open>co_visible_length\<close> counts the visible code points of the well-formed text at the
  front of its argument, colors excluded, and stops at the first malformed sequence.\<close>

theorem visible_length_counts:
  assumes "text_cps ts" "malformed bad"
  shows "co_visible_length (concat ts @ bad) = length (vis_cps ts)"
  using visible_length_run_text [OF assms, of 0] by (simp add: co_visible_length_def)

theorem visible_length_counts_witness:
  "co_visible_length [0x41, 0xEF, 0x98, 0x81, 0xC3, 0xA9, 0xFF] = 2"
  using visible_length_counts [of "[[0x41], [0xEF, 0x98, 0x81], [0xC3, 0xA9]]" "[0xFF]"]
  by (simp add: malformed_def utf8_cont_def)

text \<open>C31: \<open>co_strip_color\<close> returns exactly the visible code points, in order, cut at the
  size of the line buffer; a malformed sequence ends the output.\<close>

theorem strip_color_exact:
  assumes "text_cps ts" "malformed bad"
  shows "co_strip_color (concat ts @ bad) = take lbuf_cap (concat (vis_cps ts))"
  using assms by (rule co_strip_color_text_bad)

theorem strip_color_exact_witness:
  "co_strip_color [0x41, 0xEF, 0x98, 0x81, 0xC3, 0xA9, 0x80] = [0x41, 0xC3, 0xA9]"
  using strip_color_exact [of "[[0x41], [0xEF, 0x98, 0x81], [0xC3, 0xA9]]" "[0x80]"]
  by (simp add: malformed_def utf8_cont_def lbuf_cap_eq)

text \<open>\<open>co_visible_advance\<close> returns the position just behind the \<open>n\<close>th visible code
  point, and reports how many it passed.\<close>

theorem visible_advance_position:
  assumes "text_cps ts"
  shows "co_visible_advance (concat ts) n =
    (concat (drop_vis n ts), min n (length (vis_cps ts)))"
  using assms by (rule co_visible_advance_text)

theorem visible_advance_position_witness:
  "co_visible_advance [0xEF, 0x98, 0x81, 0x41, 0xEF, 0x94, 0x80, 0x42] 1 = ([0xEF, 0x94, 0x80, 0x42], 1)"
  using visible_advance_position [of "[[0xEF, 0x98, 0x81], [0x41], [0xEF, 0x94, 0x80], [0x42]]" 1]
  by (simp add: utf8_cont_def)

text \<open>\<open>co_copy_visible\<close> keeps the first \<open>n\<close> visible code points with the colors in front
  of each of them, and nothing else, within the line buffer.\<close>

theorem copy_visible_prefix:
  assumes "text_cps ts"
  shows "co_copy_visible (concat ts) n = take lbuf_cap (concat (take_vis n ts))"
  using assms by (rule co_copy_visible_text)

theorem copy_visible_prefix_witness:
  "co_copy_visible [0xEF, 0x98, 0x81, 0x41, 0x42, 0x43] 2 = [0xEF, 0x98, 0x81, 0x41, 0x42]"
  using copy_visible_prefix [of "[[0xEF, 0x98, 0x81], [0x41], [0x42], [0x43]]" 2]
  by (simp add: utf8_cont_def lbuf_cap_eq)

text \<open>C32: The \<open>memchr\<close> fast path of \<open>co_find_delim\<close> is equivalent to the scanner behind it:
  on well-formed text an ASCII byte occurs only as a code point of its own.\<close>

theorem find_delim_fast_path:
  assumes "text_cps ts" "d \<le> 0x7F"
  shows "co_find_delim (concat ts) d = find_delim_run St12 d (concat ts)"
  using assms by (simp add: co_find_delim_text find_delim_run_text)

theorem find_delim_fast_path_witness:
  "co_find_delim [0xC3, 0xA9, 0x7C, 0x41] 0x7C = find_delim_run St12 0x7C [0xC3, 0xA9, 0x7C, 0x41]"
  using find_delim_fast_path [of "[[0xC3, 0xA9], [0x7C], [0x41]]" "0x7C"]
  by (simp add: utf8_cont_def)

end
