(* ===== verification/Color_Words.thy ===== *)
theory Color_Words
  imports Color_Text
begin

text \<open>
  Word lists (stage 1 of \<open>mux/lib/color_ops.c\<close>): counting and extracting the words
  of a delimited, colored string.  For the space delimiter runs of spaces are one
  separator and words that hold only color do not count; for any other delimiter
  every occurrence separates, and empty words are words.
\<close>

abbreviation SP :: byte where
  "SP \<equiv> 0x20"

section \<open>How far the scanners move\<close>

lemma length_co_skip_color: "length (co_skip_color p) \<le> length p"
  by (induction p rule: co_skip_color.induct) (auto simp: le_Suc_eq)

lemma find_delim_run_suffix:
  "find_delim_run cs d p = Some s \<Longrightarrow> \<exists>pre t. p = pre @ s \<and> s = d # t"
proof (induction p arbitrary: cs)
  case (Cons b bs)
  then show ?case
  proof (cases "\<exists>cs'. find_delim_next cs b = (cs', True) \<and> cs' \<noteq> St0 \<and> b = d")
    case True
    with Cons.prems show ?thesis by (intro exI [of _ "[]"] exI [of _ bs]) auto
  next
    case False
    with Cons.prems obtain cs' where "find_delim_run cs' d bs = Some s"
      by (auto split: prod.splits if_splits)
    with Cons.IH obtain pre t where "bs = pre @ s" "s = d # t" by blast
    then show ?thesis by (intro exI [of _ "b # pre"] exI [of _ t]) simp
  qed
qed simp

lemma co_find_delim_suffix:
  "co_find_delim p d = Some s \<Longrightarrow> \<exists>pre t. p = pre @ s \<and> s = d # t"
  using memchr_Some_split [of p d s] find_delim_run_suffix [of St12 d p s]
  by (auto simp: co_find_delim_def split: if_splits)

lemma length_co_find_delim:
  assumes "co_find_delim p d = Some s"
  shows "length (tl s) < length p"
  using co_find_delim_suffix [OF assms] by auto

text \<open>Unsigned addition of \<open>size_t\<close> values.\<close>

definition size_add :: "nat \<Rightarrow> nat \<Rightarrow> nat" where
  "size_add a b = (a + b) mod 2 ^ 64"

section \<open>Counting and single words\<close>

function words_count_space :: "bytes \<Rightarrow> nat \<Rightarrow> nat" where
  "words_count_space p count =
     (case co_skip_color p of
        [] \<Rightarrow> count
      | b # q \<Rightarrow>
          (if b = SP then words_count_space q count
           else (case co_find_delim (b # q) SP of
                   None \<Rightarrow> count + 1
                 | Some d \<Rightarrow> words_count_space (tl d) (count + 1))))"
  by pat_completeness auto
termination
proof (relation "measure (\<lambda>(p, count). length p)", goal_cases)
  case (2 p count b q)
  then show ?case using length_co_skip_color [of p] by simp
next
  case (3 p count b q d)
  then show ?case using length_co_skip_color [of p] length_co_find_delim [of "b # q" SP d] by simp
qed simp

function words_count_delim :: "byte \<Rightarrow> bytes \<Rightarrow> nat \<Rightarrow> nat" where
  "words_count_delim delim p count =
     (if p = [] then count
      else (case co_find_delim p delim of
              None \<Rightarrow> count
            | Some d \<Rightarrow> words_count_delim delim (tl d) (count + 1)))"
  by pat_completeness auto
termination
  by (relation "measure (\<lambda>(delim, p, count). length p)") (auto dest: length_co_find_delim)

definition co_words_count :: "bytes \<Rightarrow> byte \<Rightarrow> nat" where
  "co_words_count data delim =
     (if delim = SP then words_count_space data 0
      else if co_visible_length data = 0 then 0
      else words_count_delim delim data 1)"

text \<open>The loop of \<open>co_first\<close>: the position after the leading (colored) spaces.\<close>

function first_content_start :: "bytes \<Rightarrow> bytes" where
  "first_content_start p =
     (case co_skip_color p of
        [] \<Rightarrow> p
      | b # q \<Rightarrow> (if b = SP then first_content_start q else p))"
  by pat_completeness auto
termination
proof (relation "measure length", goal_cases)
  case (2 p b q)
  then show ?case using length_co_skip_color [of p] by simp
qed simp

text \<open>The bytes of \<open>p\<close> up to the delimiter that \<open>d\<close> points at, or all of them.\<close>

definition upto_delim :: "bytes \<Rightarrow> bytes option \<Rightarrow> bytes" where
  "upto_delim p d = (case d of None \<Rightarrow> p | Some s \<Rightarrow> take (length p - length s) p)"

definition co_first :: "bytes \<Rightarrow> byte \<Rightarrow> bytes" where
  "co_first data delim =
     (if delim = SP then
        (let content_start = first_content_start data
         in raw_copy (upto_delim content_start (co_find_delim content_start SP)))
      else raw_copy (upto_delim data (co_find_delim data delim)))"

function rest_content_start :: "bytes \<Rightarrow> bytes" where
  "rest_content_start p =
     (case co_skip_color p of
        [] \<Rightarrow> p
      | b # q \<Rightarrow> (if b = SP then rest_content_start q else b # q))"
  by pat_completeness auto
termination
proof (relation "measure length", goal_cases)
  case (2 p b q)
  then show ?case using length_co_skip_color [of p] by simp
qed simp

definition co_rest :: "bytes \<Rightarrow> byte \<Rightarrow> bytes" where
  "co_rest data delim =
     (if delim = SP then
        (case co_find_delim (rest_content_start data) SP of
           None \<Rightarrow> []
         | Some d \<Rightarrow> raw_copy (tl d))
      else
        (case co_find_delim data delim of
           None \<Rightarrow> []
         | Some d \<Rightarrow> raw_copy (tl d)))"

function last_delim :: "byte \<Rightarrow> bytes \<Rightarrow> bytes option \<Rightarrow> bytes option" where
  "last_delim delim p found =
     (if p = [] then found
      else (case co_find_delim p delim of
              None \<Rightarrow> found
            | Some d \<Rightarrow> last_delim delim (tl d) (Some d)))"
  by pat_completeness auto
termination
  by (relation "measure (\<lambda>(delim, p, found). length p)") (auto dest: length_co_find_delim)

definition co_last :: "bytes \<Rightarrow> byte \<Rightarrow> bytes" where
  "co_last data delim =
     (case last_delim delim data None of
        None \<Rightarrow> raw_copy data
      | Some d \<Rightarrow> raw_copy (tl d))"

section \<open>Extraction\<close>

function extract_space ::
  "bytes \<Rightarrow> nat \<Rightarrow> nat \<Rightarrow> byte \<Rightarrow> nat \<Rightarrow> nat \<Rightarrow> bytes \<Rightarrow> bytes" where
  "extract_space p iFirst nWords osep iWord copied out =
     (if p = [] \<or> length out \<ge> lbuf_cap then out
      else (case co_skip_color p of
        [] \<Rightarrow> (if copied > 0 then wp_safe_copy lbuf_cap out p else out)
      | b # q \<Rightarrow>
          (if b = SP then extract_space q iFirst nWords osep iWord copied out
           else
             (let iWord = iWord + 1;
                  d = co_find_delim (b # q) SP;
                  word = upto_delim p d
              in if iWord \<ge> iFirst \<and> iWord < size_add iFirst nWords then
                   (let out = (if copied > 0 then WP_SAFE lbuf_cap out osep else out);
                        out = wp_safe_copy lbuf_cap out word;
                        copied = copied + 1
                    in if copied \<ge> nWords then out
                       else (case d of
                               None \<Rightarrow> out
                             | Some s \<Rightarrow> extract_space (tl s) iFirst nWords osep iWord copied out))
                 else (case d of
                         None \<Rightarrow> out
                       | Some s \<Rightarrow> extract_space (tl s) iFirst nWords osep iWord copied out)))))"
  by pat_completeness auto
termination
proof (relation "measure (\<lambda>(p, iFirst, nWords, osep, iWord, copied, out). length p)", goal_cases)
  case (2 p iFirst nWords osep iWord copied out b q)
  then show ?case using length_co_skip_color [of p] by simp
next
  case (3 p iFirst nWords osep iWord copied out b q iW d w o1 o2 c s)
  then show ?case using length_co_skip_color [of p] length_co_find_delim [of "b # q" SP s] by simp
next
  case (4 p iFirst nWords osep iWord copied out b q iW d w s)
  then show ?case using length_co_skip_color [of p] length_co_find_delim [of "b # q" SP s] by simp
qed simp

function extract_delim ::
  "bytes \<Rightarrow> nat \<Rightarrow> nat \<Rightarrow> byte \<Rightarrow> byte \<Rightarrow> nat \<Rightarrow> nat \<Rightarrow> bytes \<Rightarrow> bytes" where
  "extract_delim word_start iFirst nWords delim osep iWord copied out =
     (let d = co_find_delim word_start delim;
          word = upto_delim word_start d;
          iWord = iWord + 1
      in if iWord \<ge> iFirst \<and> iWord < size_add iFirst nWords then
           (let out = (if copied > 0 then WP_SAFE lbuf_cap out osep else out);
                out = wp_safe_copy lbuf_cap out word;
                copied = copied + 1
            in if copied \<ge> nWords then out
               else (case d of
                       None \<Rightarrow> out
                     | Some s \<Rightarrow> extract_delim (tl s) iFirst nWords delim osep iWord copied out))
         else (case d of
                 None \<Rightarrow> out
               | Some s \<Rightarrow> extract_delim (tl s) iFirst nWords delim osep iWord copied out))"
  by pat_completeness auto
termination
  by (relation "measure (\<lambda>(p, iFirst, nWords, delim, osep, iWord, copied, out). length p)")
    (auto dest: sym [THEN length_co_find_delim])

definition co_extract :: "bytes \<Rightarrow> nat \<Rightarrow> nat \<Rightarrow> byte \<Rightarrow> byte \<Rightarrow> bytes" where
  "co_extract data iFirst nWords delim osep =
     (let iFirst = (if iFirst = 0 then 1 else iFirst)
      in if nWords = 0 \<or> data = [] then []
         else if delim = SP then extract_space data iFirst nWords osep 0 0 []
         else extract_delim data iFirst nWords delim osep 0 0 [])"


section \<open>Segments of a text\<close>

fun split_on :: "'a \<Rightarrow> 'a list \<Rightarrow> 'a list list" where
  "split_on d [] = [[]]"
| "split_on d (t # ts) =
     (if t = d then [] # split_on d ts
      else (case split_on d ts of [] \<Rightarrow> [[t]] | s # ss \<Rightarrow> (t # s) # ss))"

definition has_vis :: "bytes list \<Rightarrow> bool" where
  "has_vis ts \<longleftrightarrow> vis_cps ts \<noteq> []"

fun join_on :: "'a list \<Rightarrow> 'a list list \<Rightarrow> 'a list" where
  "join_on d [] = []"
| "join_on d [w] = w"
| "join_on d (w # ws) = w @ d @ join_on d ws"

lemma split_on_nonempty [simp]: "split_on d ts \<noteq> []"
  by (cases ts) (auto split: list.splits)

lemma split_on_notin: "d \<notin> set ts \<Longrightarrow> split_on d ts = [ts]"
  by (induction ts) auto

lemma split_on_seg: "d \<notin> set seg \<Longrightarrow> split_on d (seg @ d # rest) = seg # split_on d rest"
  by (induction seg) auto

lemma split_cases:
  obtains (last) "d \<notin> set ts" | (seg) seg rest where "d \<notin> set seg" "ts = seg @ d # rest"
  using split_list_first [of d ts] by blast

lemma split_induct [case_names last seg]:
  assumes "\<And>ts. d \<notin> set ts \<Longrightarrow> P ts"
    and "\<And>seg rest. d \<notin> set seg \<Longrightarrow> P rest \<Longrightarrow> P (seg @ d # rest)"
  shows "P ts"
proof (induction ts rule: length_induct)
  case (1 ts)
  show ?case
    by (rule split_cases [of d ts]) (use assms 1 in auto)
qed

lemma join_split_on: "join_on [d] (split_on d ts) = ts"
proof (induction ts rule: split_induct [of d])
  case (seg seg rest)
  then show ?case by (cases "split_on d rest") (auto simp: split_on_seg)
qed (simp add: split_on_notin)

lemma has_vis_iff: "has_vis ts \<longleftrightarrow> (\<exists>t \<in> set ts. \<not> color_cp t)"
  by (auto simp: has_vis_def filter_empty_conv)

lemma dropWhile_color_append:
  "has_vis seg \<Longrightarrow> dropWhile color_cp (seg @ r) = dropWhile color_cp seg @ r"
  by (auto simp: has_vis_iff dropWhile_append)

lemma not_has_vis_dropWhile: "\<not> has_vis ts \<Longrightarrow> dropWhile color_cp ts = []"
  by (auto simp: has_vis_iff)

lemma utf8_cp_hd:
  assumes "utf8_cp t" "hd t \<le> 0x7F"
  shows "t = [hd t]"
proof -
  from assms(1) have "t \<noteq> []" by auto
  then have "hd t \<in> set t" by simp
  with utf8_cp_last [OF assms(1)] assms(2) show ?thesis
    by (auto simp: word_nat_simps) (metis list.sel(1))
qed

lemma utf8_cp_Cons_ascii:
  "utf8_cp (b # u) \<Longrightarrow> b \<le> 0x7F \<Longrightarrow> u = []"
  using utf8_cp_hd [of "b # u"] by simp

lemma not_color_single [simp]: "\<not> color_cp [d]"
  by simp

lemma co_find_delim_seg:
  assumes "text_cps (seg @ [d] # rest)" "d \<le> 0x7F" "[d] \<notin> set seg"
  shows "co_find_delim (concat (seg @ [d] # rest)) d = Some (d # concat rest)"
proof -
  have "dropWhile (\<lambda>t. t \<noteq> [d]) (seg @ [d] # rest) = [d] # rest"
    using assms(3) by (subst dropWhile_append2) auto
  with co_find_delim_text [OF assms(1,2)] show ?thesis
    by (simp add: find_cp_def)
qed

lemma co_find_delim_none:
  assumes "text_cps ts" "d \<le> 0x7F" "[d] \<notin> set ts"
  shows "co_find_delim (concat ts) d = None"
proof -
  have "dropWhile (\<lambda>t. t \<noteq> [d]) ts = []" using assms(3) by auto
  with co_find_delim_text [OF assms(1,2)] show ?thesis by (simp add: find_cp_def)
qed

lemma upto_delim_seg [simp]: "upto_delim (a @ d # b) (Some (d # b)) = a"
  by (simp add: upto_delim_def)

lemma upto_delim_None [simp]: "upto_delim p None = p"
  by (simp add: upto_delim_def)

text \<open>What the first visible code point after \<open>co_skip_color\<close> looks like.\<close>

lemma skip_vis_cases:
  assumes "text_cps ts" "has_vis ts"
  obtains u us where "dropWhile color_cp ts = u # us" "utf8_cp u" "\<not> color_cp u"
    "co_skip_color (concat ts) = u @ concat us" "u \<noteq> []" "text_cps us" "u \<in> set ts" "set us \<subseteq> set ts"
proof -
  from assms(2) obtain u us where d: "dropWhile color_cp ts = u # us"
    by (cases "dropWhile color_cp ts") (auto simp: has_vis_iff)
  then have u: "\<not> color_cp u" by (auto simp: dropWhile_eq_Cons_conv)
  from d have "set (u # us) \<subseteq> set ts" by (metis set_dropWhileD subsetI)
  with assms(1) have "utf8_cp u" "text_cps us" "u \<in> set ts" "set us \<subseteq> set ts"
    by (auto simp: list_all_iff)
  moreover have "co_skip_color (concat ts) = u @ concat us"
    using co_skip_color_text [OF assms(1)] d by simp
  moreover from \<open>utf8_cp u\<close> have "u \<noteq> []" by auto
  ultimately show ?thesis using d u that by blast
qed


section \<open>Refinement of the word operations\<close>

declare words_count_space.simps [simp del] words_count_delim.simps [simp del]
  first_content_start.simps [simp del] rest_content_start.simps [simp del]
  last_delim.simps [simp del] extract_space.simps [simp del] extract_delim.simps [simp del]

lemma SP_ascii [simp]: "(SP :: byte) \<le> 0x7F"
  by simp

text \<open>
  One turn of a loop that skips color and looks at the first visible byte, on a
  segment that ends at the delimiter \<open>[SP]\<close> or at the end of the text.
\<close>

lemma skip_seg_vis:
  assumes "text_cps (seg @ tail)" "has_vis seg" "[SP] \<notin> set seg"
  obtains b q where "co_skip_color (concat (seg @ tail)) = b # q" "b \<noteq> SP"
    "concat (dropWhile color_cp seg @ tail) = b # q" "dropWhile color_cp seg \<noteq> []"
proof -
  from assms have t: "text_cps seg" by simp
  from skip_vis_cases [OF t assms(2)] obtain u us where
    u: "dropWhile color_cp seg = u # us" "utf8_cp u" "u \<noteq> []" "u \<in> set seg" by metis
  then obtain b v where b: "u = b # v" by (cases u) auto
  have "b \<noteq> SP"
    using u(2,4) b assms(3) utf8_cp_Cons_ascii [of b v] by auto
  moreover have "co_skip_color (concat (seg @ tail)) = concat (dropWhile color_cp seg @ tail)"
    using co_skip_color_text [OF assms(1)] dropWhile_color_append [OF assms(2)] by simp
  ultimately show ?thesis
    using that [of b "v @ concat (us @ tail)"] u b by simp
qed

lemma skip_end_vis:
  assumes "text_cps ts" "has_vis ts" "[SP] \<notin> set ts"
  obtains b q where "co_skip_color (concat ts) = b # q" "b \<noteq> SP"
    "concat (dropWhile color_cp ts) = b # q"
  using skip_seg_vis [of ts "[]"] assms by (metis append_Nil2)

lemma skip_seg_color:
  assumes "text_cps (seg @ tail)" "\<not> has_vis seg"
  shows "co_skip_color (concat (seg @ tail)) = concat (dropWhile color_cp tail)"
  using co_skip_color_text [OF assms(1)] assms(2)
  by (simp add: has_vis_iff dropWhile_append2)

lemma text_dropWhile: "text_cps ts \<Longrightarrow> text_cps (dropWhile P ts)"
  by (auto simp: list_all_iff dest: set_dropWhileD)

lemma notin_dropWhile: "x \<notin> set ts \<Longrightarrow> x \<notin> set (dropWhile P ts)"
  by (auto dest: set_dropWhileD)

lemma words_count_space_text:
  "text_cps ts \<Longrightarrow>
     words_count_space (concat ts) n = n + length (filter has_vis (split_on [SP] ts))"
proof (induction ts arbitrary: n rule: split_induct [of "[SP]"])
  case (last ts)
  show ?case
  proof (cases "has_vis ts")
    case True
    from skip_end_vis last True obtain b q where
      bq: "co_skip_color (concat ts) = b # q" "b \<noteq> SP" "concat (dropWhile color_cp ts) = b # q"
      by blast
    have "co_find_delim (b # q) SP = None"
      unfolding bq(3) [symmetric] using last by (intro co_find_delim_none text_dropWhile notin_dropWhile) auto
    with bq True last show ?thesis
      by (subst words_count_space.simps) (simp add: split_on_notin)
  next
    case False
    with last skip_seg_color [of ts "[]"] show ?thesis
      by (subst words_count_space.simps) (simp add: split_on_notin)
  qed
next
  case (seg seg rest)
  show ?case
  proof (cases "has_vis seg")
    case True
    from skip_seg_vis [OF seg.prems True seg(1)] obtain b q where
      bq: "co_skip_color (concat (seg @ [SP] # rest)) = b # q" "b \<noteq> SP"
        "concat (dropWhile color_cp seg @ [SP] # rest) = b # q"
      by blast
    have "co_find_delim (b # q) SP = Some (SP # concat rest)"
      unfolding bq(3) [symmetric] using seg.prems seg.hyps
      by (intro co_find_delim_seg) (auto simp: text_dropWhile notin_dropWhile)
    with bq True seg show ?thesis
      by (subst words_count_space.simps) (simp add: split_on_seg)
  next
    case False
    with seg skip_seg_color [of seg "[SP] # rest"] show ?thesis
      by (subst words_count_space.simps) (simp add: split_on_seg)
  qed
qed

lemma words_count_delim_text:
  "text_cps ts \<Longrightarrow> d \<le> 0x7F \<Longrightarrow> 
     words_count_delim d (concat ts) n = n + length (split_on [d] ts) - 1"
proof (induction ts arbitrary: n rule: split_induct [of "[d]"])
  case (last ts)
  then show ?case
    by (subst words_count_delim.simps) (simp add: co_find_delim_none split_on_notin)
next
  case (seg seg rest)
  then have "co_find_delim (concat (seg @ [d] # rest)) d = Some (d # concat rest)"
    by (intro co_find_delim_seg) auto
  with seg show ?case
    by (subst words_count_delim.simps) (simp add: split_on_seg)
qed

lemma co_words_count_text:
  assumes "text_cps ts" "d \<le> 0x7F"
  shows "co_words_count (concat ts) d =
    (if d = SP then length (filter has_vis (split_on [SP] ts))
     else if has_vis ts then length (split_on [d] ts) else 0)"
  using assms words_count_space_text [OF assms(1), of 0] words_count_delim_text [OF assms, of 1]
  by (auto simp: co_words_count_def has_vis_def)

subsection \<open>First, rest and last\<close>

text \<open>The leading segments that hold no visible code point, for the space delimiter.\<close>

fun drop_blank :: "bytes list list \<Rightarrow> bytes list list" where
  "drop_blank [] = []"
| "drop_blank [s] = [s]"
| "drop_blank (s # ss) = (if has_vis s then s # ss else drop_blank ss)"

lemma drop_blank_Cons: "ss \<noteq> [] \<Longrightarrow> drop_blank (s # ss) = (if has_vis s then s # ss else drop_blank ss)"
  by (cases ss) auto

lemma drop_blank_nonempty: "ss \<noteq> [] \<Longrightarrow> drop_blank ss \<noteq> []"
  by (induction ss rule: drop_blank.induct) auto

lemma join_drop_blank_vis:
  assumes "[SP] \<notin> set seg" "has_vis seg"
  shows "join_on [[SP]] (drop_blank (split_on [SP] (seg @ [SP] # rest))) = seg @ [SP] # rest"
  using assms join_split_on [of "[SP]" rest]
  by (cases "split_on [SP] rest") (auto simp: split_on_seg)

lemma first_content_start_text:
  "text_cps ts \<Longrightarrow>
     first_content_start (concat ts) = concat (join_on [[SP]] (drop_blank (split_on [SP] ts)))"
proof (induction ts rule: split_induct [of "[SP]"])
  case (last ts)
  show ?case
  proof (cases "has_vis ts")
    case True
    from skip_end_vis last True obtain b q where
      "co_skip_color (concat ts) = b # q" "b \<noteq> SP" by blast
    with last show ?thesis by (subst first_content_start.simps) (simp add: split_on_notin)
  next
    case False
    with last skip_seg_color [of ts "[]"] show ?thesis
      by (subst first_content_start.simps) (simp add: split_on_notin)
  qed
next
  case (seg seg rest)
  show ?case
  proof (cases "has_vis seg")
    case True
    from skip_seg_vis [OF seg.prems True seg(1)] obtain b q where
      "co_skip_color (concat (seg @ [SP] # rest)) = b # q" "b \<noteq> SP" by blast
    moreover have "join_on [[SP]] (drop_blank (split_on [SP] (seg @ [SP] # rest))) = seg @ [SP] # rest"
      by (rule join_drop_blank_vis [OF seg(1) True])
    ultimately show ?thesis by (subst first_content_start.simps) simp
  next
    case False
    with seg skip_seg_color [of seg "[SP] # rest"] show ?thesis
      by (subst first_content_start.simps) (simp add: split_on_seg drop_blank_Cons)
  qed
qed


text \<open>
  \<open>co_rest\<close> also skips the color in front of the first word, so it is only the
  text from the first visible code point on that it searches.
\<close>

lemma rest_content_start_text:
  "text_cps ts \<Longrightarrow>
     rest_content_start (concat ts) =
       (let us = join_on [[SP]] (drop_blank (split_on [SP] ts))
        in concat (if has_vis us then dropWhile color_cp us else us))"
proof (induction ts rule: split_induct [of "[SP]"])
  case (last ts)
  show ?case
  proof (cases "has_vis ts")
    case True
    from skip_end_vis last True obtain b q where
      "co_skip_color (concat ts) = b # q" "b \<noteq> SP" "concat (dropWhile color_cp ts) = b # q" by blast
    with last True show ?thesis by (subst rest_content_start.simps) (simp add: split_on_notin)
  next
    case False
    with last skip_seg_color [of ts "[]"] show ?thesis
      by (subst rest_content_start.simps) (simp add: split_on_notin)
  qed
next
  case (seg seg rest)
  show ?case
  proof (cases "has_vis seg")
    case True
    from skip_seg_vis [OF seg.prems True seg(1)] obtain b q where
      bq: "co_skip_color (concat (seg @ [SP] # rest)) = b # q" "b \<noteq> SP"
        "concat (dropWhile color_cp seg @ [SP] # rest) = b # q" by blast
    have j: "join_on [[SP]] (drop_blank (split_on [SP] (seg @ [SP] # rest))) = seg @ [SP] # rest"
      by (rule join_drop_blank_vis [OF seg(1) True])
    have "has_vis (seg @ [SP] # rest)" using True by (auto simp: has_vis_iff)
    with bq True show ?thesis
      unfolding j by (subst rest_content_start.simps) (simp add: dropWhile_color_append)
  next
    case False
    with seg skip_seg_color [of seg "[SP] # rest"] show ?thesis
      by (subst rest_content_start.simps) (simp add: split_on_seg drop_blank_Cons)
  qed
qed

text \<open>The first segment of a text, found by the delimiter search.\<close>

lemma text_join_on:
  "text_cps (join_on [[d]] ss) \<Longrightarrow> s \<in> set ss \<Longrightarrow> text_cps s"
  by (induction "[[d]]" ss rule: join_on.induct) auto

lemma split_on_segs_notin: "s \<in> set (split_on d ts) \<Longrightarrow> d \<notin> set s"
proof (induction ts rule: split_induct [of d])
  case (last ts)
  then show ?case by (simp add: split_on_notin)
next
  case (seg seg rest)
  then show ?case by (auto simp: split_on_seg)
qed

lemma text_split_on: "text_cps ts \<Longrightarrow> s \<in> set (split_on d ts) \<Longrightarrow> text_cps s"
proof (induction ts rule: split_induct [of d])
  case (last ts)
  then show ?case by (simp add: split_on_notin)
next
  case (seg seg rest)
  then show ?case by (auto simp: split_on_seg)
qed

lemma set_drop_blank: "set (drop_blank ss) \<subseteq> set ss"
  by (induction ss rule: drop_blank.induct) auto

text \<open>What the delimiter search finds in segments joined by the delimiter.\<close>

lemma find_in_joined:
  assumes "list_all (\<lambda>s. text_cps s \<and> [d] \<notin> set s) (s # ss)" "d \<le> 0x7F" "1 \<le> d"
  shows "co_find_delim (concat (join_on [[d]] (s # ss))) d =
    (if ss = [] then None else Some (d # concat (join_on [[d]] ss)))"
proof (cases ss)
  case Nil
  with assms show ?thesis by (simp add: co_find_delim_none)
next
  case (Cons s' ss')
  have "text_cps (join_on [[d]] us)" if "list_all (\<lambda>s. text_cps s \<and> [d] \<notin> set s) us" for us
    using that assms(2,3) by (induction "[[d]]" us rule: join_on.induct) auto
  with Cons assms have "text_cps (s @ [d] # join_on [[d]] ss)" by simp
  with Cons assms co_find_delim_seg [of s d "join_on [[d]] ss"] show ?thesis by simp
qed

lemma upto_in_joined:
  assumes "list_all (\<lambda>s. text_cps s \<and> [d] \<notin> set s) (s # ss)" "d \<le> 0x7F" "1 \<le> d"
  shows "upto_delim (concat (join_on [[d]] (s # ss)))
    (co_find_delim (concat (join_on [[d]] (s # ss))) d) = concat s"
  unfolding find_in_joined [OF assms] by (cases ss) simp_all

lemma split_on_segs:
  "text_cps ts \<Longrightarrow> list_all (\<lambda>s. text_cps s \<and> [d] \<notin> set s) (split_on [d] ts)"
  using text_split_on [of ts _ "[d]"] split_on_segs_notin [of _ "[d]" ts] by (auto simp: list_all_iff)

lemma drop_blank_segs:
  "list_all P ss \<Longrightarrow> list_all P (drop_blank ss)"
  using set_drop_blank [of ss] by (auto simp: list_all_iff)

lemma co_first_text:
  assumes "text_cps ts" "1 \<le> d" "d \<le> 0x7F"
  shows "co_first (concat ts) d =
    take lbuf_cap (concat (hd (if d = SP then drop_blank (split_on [SP] ts) else split_on [d] ts)))"
proof (cases "d = SP")
  case True
  obtain s ss where s: "drop_blank (split_on [SP] ts) = s # ss"
    using drop_blank_nonempty [of "split_on [SP] ts"] by (cases "drop_blank (split_on [SP] ts)") auto
  have "list_all (\<lambda>s. text_cps s \<and> [SP] \<notin> set s) (s # ss)"
    using drop_blank_segs [OF split_on_segs [OF assms(1), of SP]] unfolding s .
  with True s upto_in_joined [of SP s ss] assms show ?thesis
    by (simp add: co_first_def Let_def first_content_start_text raw_copy_take)
next
  case False
  obtain s ss where s: "split_on [d] ts = s # ss" by (cases "split_on [d] ts") auto
  have "list_all (\<lambda>s. text_cps s \<and> [d] \<notin> set s) (s # ss)"
    using split_on_segs [OF assms(1), of d] unfolding s .
  with False s upto_in_joined [of d s ss] assms join_split_on [of "[d]" ts] show ?thesis
    by (simp add: co_first_def raw_copy_take)
qed

lemma last_delim_text:
  assumes "text_cps ts" "d \<le> 0x7F"
  shows "last_delim d (concat ts) f =
    (if [d] \<in> set ts then Some (d # concat (last (split_on [d] ts))) else f)"
  using assms
proof (induction ts arbitrary: f rule: split_induct [of "[d]"])
  case (last ts)
  then show ?case by (subst last_delim.simps) (simp add: co_find_delim_none)
next
  case (seg seg rest)
  then have "co_find_delim (concat (seg @ [d] # rest)) d = Some (d # concat rest)"
    by (intro co_find_delim_seg) auto
  with seg show ?case
    by (subst last_delim.simps) (auto simp: split_on_seg split_on_notin)
qed

lemma co_last_text:
  assumes "text_cps ts" "d \<le> 0x7F"
  shows "co_last (concat ts) d = take lbuf_cap (concat (last (split_on [d] ts)))"
  using last_delim_text [OF assms, of None]
  by (auto simp: co_last_def raw_copy_take split_on_notin)


lemma drop_blank_hd_vis: "drop_blank ss = s # ss' \<Longrightarrow> ss' \<noteq> [] \<Longrightarrow> has_vis s"
  by (induction ss rule: drop_blank.induct) (auto split: if_splits)

lemma co_rest_text:
  assumes "text_cps ts" "1 \<le> d" "d \<le> 0x7F"
  shows "co_rest (concat ts) d =
    take lbuf_cap (concat (join_on [[d]]
      (tl (if d = SP then drop_blank (split_on [SP] ts) else split_on [d] ts))))"
proof (cases "d = SP")
  case True
  obtain s ss where s: "drop_blank (split_on [SP] ts) = s # ss"
    using drop_blank_nonempty [of "split_on [SP] ts"] by (cases "drop_blank (split_on [SP] ts)") auto
  have segs: "list_all (\<lambda>s. text_cps s \<and> [SP] \<notin> set s) (s # ss)"
    using drop_blank_segs [OF split_on_segs [OF assms(1), of SP]] unfolding s .
  define s' where "s' = (if has_vis s then dropWhile color_cp s else s)"
  have start: "rest_content_start (concat ts) = concat (join_on [[SP]] (s' # ss))"
  proof (cases "has_vis s")
    case True
    then have "has_vis (join_on [[SP]] (s # ss))" by (cases ss) (auto simp: has_vis_iff)
    with True show ?thesis
      by (cases ss) (simp_all add: rest_content_start_text [OF assms(1)] s s'_def dropWhile_color_append)
  next
    case False
    with drop_blank_hd_vis [OF s] have "ss = []" by blast
    with False show ?thesis by (simp add: rest_content_start_text [OF assms(1)] s s'_def)
  qed
  have "list_all (\<lambda>s. text_cps s \<and> [SP] \<notin> set s) (s' # ss)"
    using segs by (auto simp: s'_def text_dropWhile notin_dropWhile)
  from find_in_joined [OF this] start True s show ?thesis
    by (simp add: co_rest_def raw_copy_take)
next
  case False
  obtain s ss where s: "split_on [d] ts = s # ss" by (cases "split_on [d] ts") auto
  have "list_all (\<lambda>s. text_cps s \<and> [d] \<notin> set s) (s # ss)"
    using split_on_segs [OF assms(1), of d] unfolding s .
  with False s find_in_joined [of d s ss] assms join_split_on [of "[d]" ts] show ?thesis
    by (simp add: co_rest_def raw_copy_take)
qed

subsection \<open>Extraction\<close>

text \<open>
  Words written after \<open>c\<close> words have been written: a separator in front of each
  but the very first.
\<close>

definition emit_words :: "byte \<Rightarrow> nat \<Rightarrow> bytes list \<Rightarrow> bytes" where
  "emit_words osep c ws =
     (if c = 0 then join_on [osep] ws else concat (map (\<lambda>w. osep # w) ws))"

lemma emit_words_Nil [simp]: "emit_words osep c [] = []"
  by (simp add: emit_words_def)

lemma emit_words_Cons:
  "emit_words osep c (w # ws) =
     (if c = 0 then [] else [osep]) @ w @ emit_words osep (Suc c) ws"
proof -
  have "join_on [osep] (w # ws) = w @ concat (map (\<lambda>w. osep # w) ws)"
    by (induction ws arbitrary: w) auto
  then show ?thesis by (simp add: emit_words_def)
qed

lemma emit_word_step:
  "wp_safe_copy lbuf_cap
     (if c > 0 then WP_SAFE lbuf_cap (take lbuf_cap acc) osep else take lbuf_cap acc) w =
   take lbuf_cap (acc @ emit_words osep c [w])"
  by (simp add: WP_SAFE_take wp_safe_copy_take_take emit_words_Cons del: take_append)

lemma extract_delim_text:
  assumes "text_cps ts" "d \<le> 0x7F" "1 \<le> i" "i + n < 2 ^ 64" "w + 1 - i < n"
  shows "extract_delim (concat ts) i n d osep w (w + 1 - i) (take lbuf_cap acc) =
    take lbuf_cap (acc @ emit_words osep (w + 1 - i)
      (map concat (take (n - (w + 1 - i)) (drop (i - 1 - w) (split_on [d] ts)))))"
  using assms
proof (induction ts arbitrary: w acc rule: split_induct [of "[d]"])
  case (last ts)
  then have f: "co_find_delim (concat ts) d = None" by (simp add: co_find_delim_none)
  show ?case
  proof (cases "i \<le> w + 1")
    case True
    have "extract_delim (concat ts) i n d osep w (w + 1 - i) (take lbuf_cap acc) =
        take lbuf_cap (acc @ emit_words osep (w + 1 - i) [concat ts])"
      unfolding emit_word_step [symmetric] using True last f
      by (subst extract_delim.simps) (simp add: size_add_def Let_def less_diff_conv2)
    with True last show ?thesis by (simp add: split_on_notin take_Cons' del: take_append)
  next
    case False
    with last show ?thesis
      by (subst extract_delim.simps) (simp add: f split_on_notin Let_def)
  qed
next
  case (seg seg rest)
  have f: "co_find_delim (concat (seg @ [d] # rest)) d = Some (d # concat rest)"
    using seg by (intro co_find_delim_seg) auto
  show ?case
  proof (cases "i \<le> w + 1")
    case True
    define c where "c = w + 1 - i"
    with True seg.prems have c: "w + 1 - i = c" "w + 2 - i = Suc c" "i - 1 - w = 0"
        "i - 1 - (w + 1) = 0" "c < n" "Suc w < i + n"
      by auto
    let ?out = "acc @ emit_words osep c [concat seg]"
    have step: "extract_delim (concat (seg @ [d] # rest)) i n d osep w c (take lbuf_cap acc) =
        (if Suc c \<ge> n then take lbuf_cap ?out
         else extract_delim (concat rest) i n d osep (w + 1) (Suc c) (take lbuf_cap ?out))"
      unfolding emit_word_step [symmetric] using True seg.prems f c
      by (subst extract_delim.simps) (simp add: size_add_def Let_def)
    have sel: "take (n - c) (split_on [d] (seg @ [d] # rest)) =
        seg # take (n - Suc c) (split_on [d] rest)"
      using seg(1) c by (simp add: split_on_seg take_Cons')
    show ?thesis
    proof (cases "n \<le> Suc c")
      case True
      then show ?thesis unfolding c(1,3) step drop_0 sel by (simp del: take_append)
    next
      case False
      have "extract_delim (concat rest) i n d osep (w + 1) (w + 1 + 1 - i) (take lbuf_cap ?out) =
          take lbuf_cap (?out @ emit_words osep (w + 1 + 1 - i)
            (map concat (take (n - (w + 1 + 1 - i)) (drop (i - 1 - (w + 1)) (split_on [d] rest)))))"
        using seg.prems False c by (intro seg.IH) auto
      with False c show ?thesis
        unfolding c(1,3) step drop_0 sel by (simp add: emit_words_Cons del: take_append)
    qed
  next
    case False
    then have e: "i - 1 - w = Suc (i - 1 - (w + 1))" "w + 1 - i = 0" "w + 1 + 1 - i = 0" by auto
    have step: "extract_delim (concat (seg @ [d] # rest)) i n d osep w 0 (take lbuf_cap acc) =
        extract_delim (concat rest) i n d osep (w + 1) (w + 1 + 1 - i) (take lbuf_cap acc)"
      using False f e(3) by (subst extract_delim.simps) (simp add: Let_def)
    show ?thesis
      unfolding e(1,2) step using seg.prems e
      by (subst seg.IH) (auto simp: split_on_seg seg(1) simp del: take_append)
  qed
qed


text \<open>The space delimiter: words of the text with their color in front.\<close>

lemma skip_Cons_length: "co_skip_color p = b # q \<Longrightarrow> length q < length p"
  using length_co_skip_color [of p] by simp

lemma skip_find_length:
  "co_skip_color p = b # q \<Longrightarrow> co_find_delim (b # q) d = Some s \<Longrightarrow> length (tl s) < length p"
  using length_co_skip_color [of p] length_co_find_delim [of "b # q" d s] by simp

lemma extract_space_text_out:
  "length out \<le> lbuf_cap \<Longrightarrow> length (extract_space p i n osep w c out) \<le> lbuf_cap"
proof (induction p arbitrary: w c out rule: measure_induct_rule [of length])
  case (less p)
  show ?case
    using less.prems
    by (subst extract_space.simps)
      (auto simp: Let_def cap_simps split: list.splits option.splits
        intro!: less.IH dest: skip_Cons_length skip_find_length simp del: length_tl)
qed

lemma extract_delim_out:
  "length out \<le> lbuf_cap \<Longrightarrow> length (extract_delim p i n d osep w c out) \<le> lbuf_cap"
proof (induction p arbitrary: w c out rule: measure_induct_rule [of length])
  case (less p)
  show ?case
    using less.prems
    by (subst extract_delim.simps)
      (auto simp: Let_def cap_simps split: option.splits
        intro!: less.IH dest: length_co_find_delim simp del: length_tl)
qed

lemma length_co_extract: "length (co_extract data i n d osep) \<le> lbuf_cap"
  by (simp add: co_extract_def extract_space_text_out extract_delim_out Let_def)

lemma co_extract_text:
  assumes "text_cps ts" "d \<le> 0x7F" "d \<noteq> SP" "ts \<noteq> []" "i + n < 2 ^ 64 - 1"
  shows "co_extract (concat ts) i n d osep =
    take lbuf_cap (join_on [osep] (map concat (take n (drop (i - 1) (split_on [d] ts)))))"
proof (cases "n = 0")
  case True
  then show ?thesis by (simp add: co_extract_def)
next
  case False
  from assms(1,4) have "concat ts \<noteq> []" by (cases ts) auto
  moreover have "extract_delim (concat ts) (max 1 i) n d osep 0 0 [] =
      take lbuf_cap (join_on [osep] (map concat (take n (drop (max 1 i - 1) (split_on [d] ts)))))"
    using extract_delim_text [of ts d "max 1 i" n 0 osep "[]"] assms False
    by (simp add: emit_words_def)
  ultimately show ?thesis
    using False assms by (cases "i = 0") (auto simp: co_extract_def Let_def max_def)
qed

section \<open>Properties\<close>

text \<open>\<open>co_words_count\<close>: for the space delimiter the number of segments that hold a
  visible code point, for any other ASCII delimiter the number of segments (zero when
  nothing is visible).\<close>

theorem words_count_segments:
  assumes "text_cps ts" "d \<le> 0x7F"
  shows "co_words_count (concat ts) d =
    (if d = SP then length (filter has_vis (split_on [SP] ts))
     else if has_vis ts then length (split_on [d] ts) else 0)"
  using assms by (rule co_words_count_text)

theorem words_count_segments_witness:
  "co_words_count [0x20, 0x41, 0x20, 0x20, 0xEF, 0x98, 0x81, 0x42, 0x20] 0x20 = 2"
  using words_count_segments [of "[[0x20], [0x41], [0x20], [0x20], [0xEF, 0x98, 0x81], [0x42], [0x20]]" "0x20"]
  by (simp add: utf8_cont_def has_vis_def)

text \<open>\<open>co_first\<close> and \<open>co_rest\<close> cut the list at the same place: the first word, and the
  remaining words with their delimiters; for the space delimiter leading blank segments
  belong to neither.\<close>

theorem first_rest_cut:
  fixes ts :: "bytes list" and d :: byte
  assumes "text_cps ts" "1 \<le> d" "d \<le> 0x7F"
  defines "segs \<equiv> (if d = SP then drop_blank (split_on [SP] ts) else split_on [d] ts)"
  shows "co_first (concat ts) d = take lbuf_cap (concat (hd segs)) \<and>
    co_rest (concat ts) d = take lbuf_cap (concat (join_on [[d]] (tl segs)))"
  unfolding segs_def using co_first_text [OF assms(1-3)] co_rest_text [OF assms(1-3)] by blast

theorem first_rest_cut_witness:
  "co_first [0x20, 0x41, 0x20, 0x42, 0x20, 0x43] 0x20 = [0x41] \<and>
   co_rest [0x20, 0x41, 0x20, 0x42, 0x20, 0x43] 0x20 = [0x42, 0x20, 0x43]"
  using first_rest_cut [of "[[0x20], [0x41], [0x20], [0x42], [0x20], [0x43]]" "0x20"]
  by (simp add: has_vis_def lbuf_cap_eq)

text \<open>\<open>co_extract\<close> returns words \<open>i\<close> to \<open>i + n - 1\<close> (counted from 1) joined with the output
  separator, for a delimiter other than the space.\<close>

theorem extract_words:
  assumes "text_cps ts" "d \<le> 0x7F" "d \<noteq> SP" "ts \<noteq> []" "i + n < 2 ^ 64 - 1"
  shows "co_extract (concat ts) i n d osep =
    take lbuf_cap (join_on [osep] (map concat (take n (drop (i - 1) (split_on [d] ts)))))"
  using assms by (rule co_extract_text)

theorem extract_words_witness:
  "co_extract [0x41, 0x7C, 0x42, 0x7C, 0x43, 0x7C, 0x44] 2 2 0x7C 0x2D = [0x42, 0x2D, 0x43]"
  using extract_words [of "[[0x41], [0x7C], [0x42], [0x7C], [0x43], [0x7C], [0x44]]" "0x7C" 2 2 "0x2D"]
  by (simp add: lbuf_cap_eq)

end
