(* ===== verification/Word_Cursor.thy ===== *)
theory Word_Cursor
  imports Color_Words "HOL-Library.Multiset"
begin

text \<open>
  The forward word cursor of \<open>mux/lib/color_ops.c\<close> (stage 4) and the list
  editors that walk it: \<open>count_words\<close>, \<open>split_words\<close>, \<open>co_splice\<close>,
  \<open>co_insert_word\<close>, \<open>co_replace_at\<close>, \<open>co_delete_at\<close>, \<open>co_insert_at\<close>, with the
  insertion sort of their position arrays, and \<open>co_member\<close>.
\<close>

section \<open>The cursor\<close>

record word_cursor =
  wc_p :: bytes
  wc_delim :: byte
  wc_is_space :: bool
  wc_is_empty :: bool
  wc_finished :: bool
  wc_count :: nat
  wc_max_words :: nat

definition wc_init :: "bytes \<Rightarrow> byte \<Rightarrow> nat \<Rightarrow> word_cursor" where
  "wc_init data delim max_words =
     \<lparr>wc_p = data, wc_delim = delim, wc_is_space = (delim = SP), wc_is_empty = (data = []),
      wc_finished = False, wc_count = 0, wc_max_words = max_words\<rparr>"

text \<open>
  The loop of the space mode of \<open>wc_next\<close>: the cursor position it leaves and, when
  there is a word, the word and the position after its delimiter.
\<close>

function wc_space_scan :: "bytes \<Rightarrow> bytes \<times> (bytes \<times> bytes option) option" where
  "wc_space_scan p =
     (if p = [] then (p, None)
      else (case co_skip_color p of
        [] \<Rightarrow> (p, None)
      | b # q \<Rightarrow>
          (if b = SP then wc_space_scan q
           else (let d = co_find_delim (b # q) SP
                 in (p, Some (upto_delim p d, map_option tl d))))))"
  by pat_completeness auto
termination
  by (relation "measure length") (auto dest: skip_Cons_length)

definition wc_next :: "word_cursor \<Rightarrow> bytes option \<times> word_cursor" where
  "wc_next c =
     (if wc_finished c then (None, c)
      else if wc_is_space c then
        (if wc_count c < wc_max_words c then
           (case wc_space_scan (wc_p c) of
              (p, None) \<Rightarrow> (None, c\<lparr>wc_p := p, wc_finished := True\<rparr>)
            | (p, Some (w, None)) \<Rightarrow>
                (Some w, c\<lparr>wc_p := p, wc_count := wc_count c + 1, wc_finished := True\<rparr>)
            | (p, Some (w, Some r)) \<Rightarrow>
                (Some w, c\<lparr>wc_p := r, wc_count := wc_count c + 1\<rparr>))
         else (None, c\<lparr>wc_finished := True\<rparr>))
      else if wc_is_empty c then (None, c\<lparr>wc_finished := True\<rparr>)
      else
        (case (if wc_count c + 1 < wc_max_words c then co_find_delim (wc_p c) (wc_delim c) else None) of
           Some d \<Rightarrow>
             (Some (upto_delim (wc_p c) (Some d)), c\<lparr>wc_count := wc_count c + 1, wc_p := tl d\<rparr>)
         | None \<Rightarrow>
             (Some (wc_p c), c\<lparr>wc_count := wc_count c + 1, wc_finished := True\<rparr>)))"

definition wc_measure :: "word_cursor \<Rightarrow> nat" where
  "wc_measure c = (if wc_finished c then 0 else Suc (length (wc_p c)))"

declare wc_space_scan.simps [simp del]

lemma wc_space_scan_rest:
  "wc_space_scan p = (p', Some (w, Some r)) \<Longrightarrow> length r < length p"
proof (induction p rule: measure_induct_rule [of length])
  case (less p)
  from less.prems show ?case
    by (subst (asm) wc_space_scan.simps)
      (auto simp: Let_def split: if_splits list.splits
        dest: skip_find_length skip_Cons_length less.IH less_trans simp del: length_tl)
qed

lemma wc_next_measure: "wc_next c = (Some w, c') \<Longrightarrow> wc_measure c' < wc_measure c"
  by (auto simp: wc_next_def wc_measure_def
      split: if_splits prod.splits option.splits
      dest: wc_space_scan_rest length_co_find_delim simp del: length_tl)

function count_words_loop :: "word_cursor \<Rightarrow> nat \<Rightarrow> nat" where
  "count_words_loop c n =
     (case wc_next c of
        (None, c') \<Rightarrow> n
      | (Some w, c') \<Rightarrow> count_words_loop c' (n + 1))"
  by pat_completeness auto
termination
  by (relation "measure (\<lambda>(c, n). wc_measure c)") (auto dest: sym [THEN wc_next_measure])

definition count_words :: "bytes \<Rightarrow> byte \<Rightarrow> nat \<Rightarrow> nat" where
  "count_words data delim max_words = count_words_loop (wc_init data delim max_words) 0"

function split_words_loop :: "word_cursor \<Rightarrow> bytes list" where
  "split_words_loop c =
     (case wc_next c of
        (None, c') \<Rightarrow> []
      | (Some w, c') \<Rightarrow> w # split_words_loop c')"
  by pat_completeness auto
termination
  by (relation "measure wc_measure") (auto dest: sym [THEN wc_next_measure])

definition split_words :: "bytes \<Rightarrow> byte \<Rightarrow> nat \<Rightarrow> bytes list" where
  "split_words data delim max_words = split_words_loop (wc_init data delim max_words)"

section \<open>Editors of word lists\<close>

definition wc_max :: nat where
  "wc_max = LBUF_SIZE div 2"

fun splice_loop ::
  "nat \<Rightarrow> nat \<Rightarrow> word_cursor \<Rightarrow> word_cursor \<Rightarrow> bytes \<Rightarrow> byte \<Rightarrow> bytes \<Rightarrow> bytes" where
  "splice_loop 0 i c1 c2 splain osep out = out"
| "splice_loop (Suc k) i c1 c2 splain osep out =
     (if length out \<ge> lbuf_cap then out
      else (case wc_next c1 of
        (None, c1') \<Rightarrow> out
      | (Some r1, c1') \<Rightarrow>
          (case wc_next c2 of
             (None, c2') \<Rightarrow> out
           | (Some r2, c2') \<Rightarrow>
               (let out = (if i > 0 then WP_SAFE lbuf_cap out osep else out);
                    src = (if co_strip_color r1 = splain then r2 else r1)
                in splice_loop k (i + 1) c1' c2' splain osep (wp_safe_copy lbuf_cap out src)))))"

definition co_splice :: "bytes \<Rightarrow> bytes \<Rightarrow> bytes \<Rightarrow> byte \<Rightarrow> byte \<Rightarrow> bytes" where
  "co_splice list1 list2 search delim osep =
     (let n1 = count_words list1 delim wc_max;
          n2 = count_words list2 delim wc_max
      in if n1 \<noteq> n2 then []
         else splice_loop n1 0 (wc_init list1 delim wc_max) (wc_init list2 delim wc_max)
                (co_strip_color search) osep [])"

text \<open>
  The loop \<open>for (i = 0; i <= nWords && wp < wp_end; i++)\<close> of \<open>co_insert_word\<close>;
  the first argument counts the iterations left.
\<close>

fun insert_word_loop ::
  "nat \<Rightarrow> nat \<Rightarrow> nat \<Rightarrow> nat \<Rightarrow> nat \<Rightarrow> word_cursor \<Rightarrow> bytes \<Rightarrow> byte \<Rightarrow> bytes \<Rightarrow> bytes" where
  "insert_word_loop 0 i nWords ins emitted c word osep out = out"
| "insert_word_loop (Suc k) i nWords ins emitted c word osep out =
     (if length out \<ge> lbuf_cap then out
      else
        (let (out, emitted) =
               (if i = ins then
                  (wp_safe_copy lbuf_cap (if emitted > 0 then WP_SAFE lbuf_cap out osep else out) word,
                   emitted + 1)
                else (out, emitted))
         in if i < nWords then
              (let out = (if emitted > 0 then WP_SAFE lbuf_cap out osep else out)
               in (case wc_next c of
                     (Some cw, c') \<Rightarrow>
                       insert_word_loop k (i + 1) nWords ins (emitted + 1) c' word osep
                         (wp_safe_copy lbuf_cap out cw)
                   | (None, c') \<Rightarrow>
                       insert_word_loop k (i + 1) nWords ins (emitted + 1) c' word osep out))
            else insert_word_loop k (i + 1) nWords ins emitted c word osep out))"

definition co_insert_word :: "bytes \<Rightarrow> bytes \<Rightarrow> nat \<Rightarrow> byte \<Rightarrow> byte \<Rightarrow> bytes" where
  "co_insert_word list word iPos delim osep =
     (let nWords = count_words list delim wc_max;
          ins = (if iPos > 0 then iPos - 1 else 0);
          ins = (if ins > nWords then nWords else ins)
      in insert_word_loop (nWords + 1) 0 nWords ins 0 (wc_init list delim wc_max) word osep [])"

text \<open>\<open>sort_ints\<close>: insertion sort in the array; \<open>jj\<close> is the C index \<open>j\<close> plus one.\<close>

fun sort_ints_shift :: "int list \<Rightarrow> int \<Rightarrow> nat \<Rightarrow> int list" where
  "sort_ints_shift arr key 0 = arr[0 := key]"
| "sort_ints_shift arr key (Suc j) =
     (if arr ! j > key then sort_ints_shift (arr[Suc j := arr ! j]) key j
      else arr[Suc j := key])"

lemma length_sort_ints_shift [simp]: "length (sort_ints_shift arr key j) = length arr"
  by (induction arr key j rule: sort_ints_shift.induct) auto

function sort_ints_from :: "nat \<Rightarrow> int list \<Rightarrow> int list" where
  "sort_ints_from i arr =
     (if i < length arr then sort_ints_from (i + 1) (sort_ints_shift arr (arr ! i) i) else arr)"
  by pat_completeness auto
termination
  by (relation "measure (\<lambda>(i, arr). length arr - i)") auto

definition sort_ints :: "int list \<Rightarrow> int list" where
  "sort_ints arr = sort_ints_from 1 arr"

text \<open>
  Position conversion: negative positions count from the end, positive ones are
  one-based; a position out of range is dropped by moving the last one into its
  place.  \<open>base\<close> is what a negative position is added to, \<open>hi\<close> the first index out
  of range.
\<close>

function convert_positions :: "int \<Rightarrow> int \<Rightarrow> int list \<Rightarrow> nat \<Rightarrow> int list" where
  "convert_positions base hi positions j =
     (if j < length positions then
        (let v = (if positions ! j < 0 then positions ! j + base else positions ! j - 1);
             positions = positions[j := v]
         in if v < 0 \<or> v \<ge> hi then
              convert_positions base hi (butlast (positions[j := last positions])) j
            else convert_positions base hi positions (j + 1))
      else positions)"
  by pat_completeness auto
termination
  by (relation "measure (\<lambda>(base, hi, positions, j). 2 * length positions - j)") auto

text \<open>
  The loop \<open>while (i < limit && wp < wp_end)\<close> that copies words up to an index; the
  first argument is the number of indices left.
\<close>

fun copy_words_upto ::
  "nat \<Rightarrow> nat \<Rightarrow> bool \<Rightarrow> word_cursor \<Rightarrow> byte \<Rightarrow> bytes \<Rightarrow> nat \<times> bool \<times> word_cursor \<times> bytes" where
  "copy_words_upto 0 i emitted c osep out = (i, emitted, c, out)"
| "copy_words_upto (Suc k) i emitted c osep out =
     (if length out \<ge> lbuf_cap then (i, emitted, c, out)
      else
        (let out = (if emitted then WP_SAFE lbuf_cap out osep else out)
         in (case wc_next c of
               (Some cw, c') \<Rightarrow>
                 copy_words_upto k (i + 1) True c' osep (wp_safe_copy lbuf_cap out cw)
             | (None, c') \<Rightarrow> copy_words_upto k (i + 1) True c' osep out)))"

fun skip_dups :: "int \<Rightarrow> int list \<Rightarrow> int list" where
  "skip_dups p [] = []"
| "skip_dups p (q # qs) = (if p = q then skip_dups q qs else q # qs)"

lemma length_skip_dups: "length (skip_dups p qs) \<le> length qs"
  by (induction p qs rule: skip_dups.induct) auto

function replace_loop ::
  "int list \<Rightarrow> nat \<Rightarrow> bool \<Rightarrow> word_cursor \<Rightarrow> bytes \<Rightarrow> byte \<Rightarrow> bytes \<Rightarrow> nat \<times> bool \<times> word_cursor \<times> bytes" where
  "replace_loop [] i emitted c word osep out = (i, emitted, c, out)"
| "replace_loop (p # ps) i emitted c word osep out =
     (case copy_words_upto (nat p - i) i emitted c osep out of
        (i, emitted, c, out) \<Rightarrow>
          (let out = (if emitted then WP_SAFE lbuf_cap out osep else out);
               out = wp_safe_copy lbuf_cap out word;
               c = snd (wc_next c)
           in replace_loop (skip_dups p ps) (i + 1) True c word osep out))"
  by pat_completeness auto
termination
  by (relation "measure (\<lambda>(ps, _). length ps)") (auto simp: length_skip_dups le_imp_less_Suc)

definition co_replace_at ::
  "bytes \<Rightarrow> int list \<Rightarrow> bytes \<Rightarrow> byte \<Rightarrow> byte \<Rightarrow> bytes" where
  "co_replace_at list positions word delim osep =
     (if list = [] then []
      else
        (let nWords = count_words list delim wc_max;
             c = wc_init list delim wc_max;
             positions = convert_positions (int nWords) (int nWords) positions 0
         in if positions = [] then snd (snd (snd (copy_words_upto nWords 0 False c osep [])))
            else
              (case replace_loop (sort_ints positions) 0 False c word osep [] of
                 (i, emitted, c, out) \<Rightarrow>
                   snd (snd (snd (copy_words_upto (nWords - i) i emitted c osep out))))))"

function delete_loop ::
  "int list \<Rightarrow> nat \<Rightarrow> bool \<Rightarrow> word_cursor \<Rightarrow> byte \<Rightarrow> bytes \<Rightarrow> nat \<times> bool \<times> word_cursor \<times> bytes" where
  "delete_loop [] i emitted c osep out = (i, emitted, c, out)"
| "delete_loop (p # ps) i emitted c osep out =
     (case copy_words_upto (nat p - i) i emitted c osep out of
        (i, emitted, c, out) \<Rightarrow>
          delete_loop (skip_dups p ps) (i + 1) emitted (snd (wc_next c)) osep out)"
  by pat_completeness auto
termination
  by (relation "measure (\<lambda>(ps, _). length ps)") (auto simp: length_skip_dups le_imp_less_Suc)

definition co_delete_at :: "bytes \<Rightarrow> int list \<Rightarrow> byte \<Rightarrow> byte \<Rightarrow> bytes" where
  "co_delete_at list positions delim osep =
     (if list = [] then []
      else
        (let nWords = count_words list delim wc_max;
             c = wc_init list delim wc_max;
             positions = convert_positions (int nWords) (int nWords) positions 0
         in (case delete_loop (sort_ints positions) 0 False c osep [] of
               (i, emitted, c, out) \<Rightarrow>
                 snd (snd (snd (copy_words_upto (nWords - i) i emitted c osep out))))))"

fun insert_at_loop ::
  "int list \<Rightarrow> nat \<Rightarrow> bool \<Rightarrow> word_cursor \<Rightarrow> bytes \<Rightarrow> byte \<Rightarrow> bytes \<Rightarrow> nat \<times> bool \<times> word_cursor \<times> bytes" where
  "insert_at_loop [] i emitted c word osep out = (i, emitted, c, out)"
| "insert_at_loop (p # ps) i emitted c word osep out =
     (case copy_words_upto (nat p - i) i emitted c osep out of
        (i, emitted, c, out) \<Rightarrow>
          (let out = (if emitted then WP_SAFE lbuf_cap out osep else out)
           in insert_at_loop ps i True c word osep (wp_safe_copy lbuf_cap out word)))"

definition co_insert_at ::
  "bytes \<Rightarrow> int list \<Rightarrow> bytes \<Rightarrow> byte \<Rightarrow> byte \<Rightarrow> bytes" where
  "co_insert_at list positions word delim osep =
     (let nWords = count_words list delim wc_max;
          c = wc_init list delim wc_max
      in if list = [] \<and> \<not> (\<exists>p \<in> set positions. p = 1 \<or> p = -1) then []
         else
           (let positions = convert_positions (int nWords + 1) (int nWords + 1) positions 0
            in if positions = [] then snd (snd (snd (copy_words_upto nWords 0 False c osep [])))
               else
                 (case insert_at_loop (sort_ints positions) 0 False c word osep [] of
                    (i, emitted, c, out) \<Rightarrow>
                      snd (snd (snd (copy_words_upto (nWords - i) i emitted c osep out))))))"


section \<open>List membership\<close>

definition skip_spaces :: "byte \<Rightarrow> bytes \<Rightarrow> bytes" where
  "skip_spaces delim p = (if delim = SP then dropWhile (\<lambda>b. b = SP) p else p)"

definition trim_spaces :: "byte \<Rightarrow> bytes \<Rightarrow> bytes" where
  "trim_spaces delim p =
     (if delim = SP then rev (dropWhile (\<lambda>b. b = SP) (rev (dropWhile (\<lambda>b. b = SP) p))) else p)"

lemma length_skip_spaces: "length (skip_spaces delim p) \<le> length p"
  by (simp add: skip_spaces_def length_dropWhile_le)

function member_loop :: "bytes \<Rightarrow> byte \<Rightarrow> bytes \<Rightarrow> nat \<Rightarrow> nat" where
  "member_loop tplain delim p word_num =
     (let word_num = word_num + 1;
          d = co_find_delim p delim
      in if co_strip_color (upto_delim p d) = tplain then word_num
         else (case d of
           None \<Rightarrow> 0
         | Some q \<Rightarrow> member_loop tplain delim (skip_spaces delim (tl q)) word_num))"
  by pat_completeness auto
termination
  by (relation "measure (\<lambda>(tplain, delim, p, word_num). length p)")
    (auto dest!: sym [THEN length_co_find_delim] intro: le_less_trans [OF length_skip_spaces] simp del: length_tl)

definition co_member :: "bytes \<Rightarrow> bytes \<Rightarrow> byte \<Rightarrow> nat" where
  "co_member target list delim =
     member_loop (co_strip_color target) delim (trim_spaces delim list) 0"

section \<open>Cursor lemmas\<close>

declare count_words_loop.simps [simp del] split_words_loop.simps [simp del]

lemma split_words_loop_None: "wc_next c = (None, c') \<Longrightarrow> split_words_loop c = []"
  by (subst split_words_loop.simps) simp

lemma split_words_loop_Some:
  "wc_next c = (Some w, c') \<Longrightarrow> split_words_loop c = w # split_words_loop c'"
  by (subst split_words_loop.simps) simp

lemma wc_next_of_split:
  "split_words_loop c = w # ws \<Longrightarrow> \<exists>c'. wc_next c = (Some w, c') \<and> split_words_loop c' = ws"
  by (subst (asm) split_words_loop.simps) (auto split: prod.splits option.splits)

lemma wc_next_None_of_split: "split_words_loop c = [] \<Longrightarrow> \<exists>c'. wc_next c = (None, c')"
  by (subst (asm) split_words_loop.simps) (auto split: prod.splits option.splits)

lemma count_words_loop_length: "count_words_loop c n = n + length (split_words_loop c)"
proof (induction c n rule: count_words_loop.induct)
  case (1 c n)
  then show ?case
    by (subst count_words_loop.simps)
      (auto split: prod.splits option.splits simp: split_words_loop_None split_words_loop_Some)
qed

lemma count_words_length: "count_words data d m = length (split_words data d m)"
  by (simp add: count_words_def split_words_def count_words_loop_length)

text \<open>Every delimiter but the space: joining the words with it gives the input back.\<close>

lemma join_on_Cons: "ws \<noteq> [] \<Longrightarrow> join_on d (w # ws) = w @ d @ join_on d ws"
  by (cases ws) auto

lemma upto_delim_tl:
  assumes "co_find_delim p d = Some s"
  shows "p = upto_delim p (Some s) @ d # tl s"
  using co_find_delim_suffix [OF assms] by (auto simp: upto_delim_def)

lemma split_words_loop_nonempty:
  "\<not> wc_finished c \<Longrightarrow> \<not> wc_is_space c \<Longrightarrow> \<not> wc_is_empty c \<Longrightarrow> split_words_loop c \<noteq> []"
  by (subst split_words_loop.simps) (auto simp: wc_next_def split: option.splits)

lemma join_split_words_loop:
  "\<not> wc_finished c \<Longrightarrow> \<not> wc_is_space c \<Longrightarrow> \<not> wc_is_empty c \<Longrightarrow>
     join_on [wc_delim c] (split_words_loop c) = wc_p c"
proof (induction c rule: split_words_loop.induct)
  case (1 c)
  show ?case
  proof (cases "if wc_count c + 1 < wc_max_words c then co_find_delim (wc_p c) (wc_delim c) else None")
    case None
    then have "wc_next c = (Some (wc_p c), c\<lparr>wc_count := wc_count c + 1, wc_finished := True\<rparr>)"
      using 1 by (simp add: wc_next_def)
    moreover have "split_words_loop (c\<lparr>wc_count := wc_count c + 1, wc_finished := True\<rparr>) = []"
      by (rule split_words_loop_None) (simp add: wc_next_def)
    ultimately show ?thesis by (simp add: split_words_loop_Some)
  next
    case (Some s)
    let ?c' = "c\<lparr>wc_count := wc_count c + 1, wc_p := tl s\<rparr>"
    have n: "wc_next c = (Some (upto_delim (wc_p c) (Some s)), ?c')"
      using 1 Some by (simp add: wc_next_def)
    have "join_on [wc_delim ?c'] (split_words_loop ?c') = wc_p ?c'"
      using 1 n by (intro "1.IH") auto
    moreover have "split_words_loop ?c' \<noteq> []"
      using 1 by (intro split_words_loop_nonempty) auto
    ultimately have "join_on [wc_delim c] (split_words_loop c) =
        upto_delim (wc_p c) (Some s) @ wc_delim c # tl s"
      by (simp add: split_words_loop_Some [OF n] join_on_Cons)
    also have "\<dots> = wc_p c"
      using Some upto_delim_tl [of "wc_p c" "wc_delim c" s] by (simp split: if_splits)
    finally show ?thesis .
  qed
qed

lemma length_split_words_loop:
  "wc_count c < wc_max_words c \<Longrightarrow> length (split_words_loop c) + wc_count c \<le> wc_max_words c"
proof (induction c rule: split_words_loop.induct)
  case (1 c)
  show ?case
  proof (cases "wc_next c")
    case (Pair w c')
    show ?thesis
    proof (cases w)
      case None
      with Pair 1 show ?thesis by (simp add: split_words_loop_None)
    next
      case (Some v)
      with Pair have n: "wc_next c = (Some v, c')" by simp
      have c': "wc_count c' = wc_count c + 1" "wc_max_words c' = wc_max_words c"
        using n by (auto simp: wc_next_def split: if_splits prod.splits option.splits)
      have fin: "wc_count c' < wc_max_words c' \<or> split_words_loop c' = []"
      proof (cases "wc_count c' < wc_max_words c'")
        case False
        then have "fst (wc_next c') = None"
          using n c' 1(2) by (auto simp: wc_next_def split: if_splits prod.splits option.splits)
        then show ?thesis by (metis prod.collapse split_words_loop_None)
      qed simp
      with "1.IH" [OF n [symmetric] refl] n c' 1(2) show ?thesis
        by (auto simp: split_words_loop_Some)
    qed
  qed
qed

subsection \<open>The space delimiter\<close>

lemma wc_space_scan_text:
  "text_cps ts \<Longrightarrow>
     wc_space_scan (concat ts) =
       (let us = drop_blank (split_on [SP] ts)
        in (concat (join_on [[SP]] us),
            if has_vis (hd us) then
              Some (concat (hd us), if tl us = [] then None else Some (concat (join_on [[SP]] (tl us))))
            else None))"
proof (induction ts rule: split_induct [of "[SP]"])
  case (last ts)
  show ?case
  proof (cases "has_vis ts")
    case True
    from skip_end_vis last True obtain b q where
      bq: "co_skip_color (concat ts) = b # q" "b \<noteq> SP" "concat (dropWhile color_cp ts) = b # q" by blast
    have "co_find_delim (b # q) SP = None"
      unfolding bq(3) [symmetric] using last
      by (intro co_find_delim_none text_dropWhile notin_dropWhile) auto
    moreover from bq(1) have "concat ts \<noteq> []" by (auto simp del: concat_eq_Nil_conv)
    ultimately show ?thesis using bq(1,2) last True
      by (subst wc_space_scan.simps) (simp add: split_on_notin Let_def del: concat_eq_Nil_conv)
  next
    case False
    with last skip_seg_color [of ts "[]"] show ?thesis
      by (subst wc_space_scan.simps) (simp add: split_on_notin)
  qed
next
  case (seg seg rest)
  show ?case
  proof (cases "has_vis seg")
    case True
    from skip_seg_vis [OF seg.prems True seg(1)] obtain b q where
      bq: "co_skip_color (concat (seg @ [SP] # rest)) = b # q" "b \<noteq> SP"
        "concat (dropWhile color_cp seg @ [SP] # rest) = b # q" by blast
    have f: "co_find_delim (b # q) SP = Some (SP # concat rest)"
      unfolding bq(3) [symmetric] using seg.prems seg(1)
      by (intro co_find_delim_seg) (auto simp: text_dropWhile notin_dropWhile)
    have d: "drop_blank (split_on [SP] (seg @ [SP] # rest)) = seg # split_on [SP] rest"
      using seg(1) True by (simp add: split_on_seg drop_blank_Cons)
    show ?thesis
      using bq(1,2) f True
      by (subst wc_space_scan.simps) (simp add: d Let_def join_on_Cons join_split_on)
  next
    case False
    with seg skip_seg_color [of seg "[SP] # rest"] show ?thesis
      by (subst wc_space_scan.simps) (simp add: split_on_seg drop_blank_Cons)
  qed
qed


lemma length_join_drop_blank:
  "length (join_on [[SP]] (drop_blank (split_on [SP] ts))) \<le> length ts"
proof (induction ts rule: split_induct [of "[SP]"])
  case (last ts)
  then show ?case by (simp add: split_on_notin)
next
  case (seg seg rest)
  then show ?case
    using join_drop_blank_vis [of seg rest]
    by (cases "has_vis seg") (auto simp: split_on_seg drop_blank_Cons)
qed

lemma filter_drop_blank: "filter has_vis (drop_blank ss) = filter has_vis ss"
  by (induction ss rule: drop_blank.induct) auto

lemma split_join_segs:
  "ss \<noteq> [] \<Longrightarrow> list_all (\<lambda>s. d \<notin> set s) ss \<Longrightarrow> split_on d (join_on [d] ss) = ss"
  by (induction "[d]" ss rule: join_on.induct) (auto simp: split_on_notin split_on_seg)

lemma text_join:
  "list_all text_cps ss \<Longrightarrow> 1 \<le> d \<Longrightarrow> d \<le> 0x7F \<Longrightarrow> text_cps (join_on [[d]] ss)"
  by (induction "[[d]]" ss rule: join_on.induct) auto

text \<open>The text behind the first word and its space.\<close>

lemma blank_tail:
  assumes "text_cps ts" and us: "us = drop_blank (split_on [SP] ts)" and "tl us \<noteq> []"
  shows "text_cps (join_on [[SP]] (tl us))"
    and "split_on [SP] (join_on [[SP]] (tl us)) = tl us"
    and "length (join_on [[SP]] (tl us)) < length ts"
proof -
  have "list_all (\<lambda>s. text_cps s \<and> [SP] \<notin> set s) us"
    unfolding us using assms(1) by (intro drop_blank_segs split_on_segs)
  then have tls: "list_all (\<lambda>s. text_cps s \<and> [SP] \<notin> set s) (tl us)" by (cases us) auto
  then show "text_cps (join_on [[SP]] (tl us))"
    by (intro text_join) (auto simp: list_all_iff)
  from tls assms(3) show "split_on [SP] (join_on [[SP]] (tl us)) = tl us"
    by (intro split_join_segs) (auto simp: list_all_iff)
  have "us \<noteq> []" using assms(3) by auto
  then have "join_on [[SP]] us = hd us @ [SP] # join_on [[SP]] (tl us)"
    using assms(3) by (metis append_Cons append_Nil join_on_Cons list.collapse)
  with length_join_drop_blank [of ts] us
  show "length (join_on [[SP]] (tl us)) < length ts" by simp
qed

lemma wc_next_space:
  assumes "text_cps ts" "wc_p c = concat ts" "wc_is_space c" "\<not> wc_finished c"
    "wc_count c < wc_max_words c" and us: "us = drop_blank (split_on [SP] ts)"
  shows "wc_next c =
    (if \<not> has_vis (hd us) then (None, c\<lparr>wc_p := concat (join_on [[SP]] us), wc_finished := True\<rparr>)
     else if tl us = [] then
       (Some (concat (hd us)),
        c\<lparr>wc_p := concat (join_on [[SP]] us), wc_count := wc_count c + 1, wc_finished := True\<rparr>)
     else (Some (concat (hd us)),
        c\<lparr>wc_p := concat (join_on [[SP]] (tl us)), wc_count := wc_count c + 1\<rparr>))"
  using assms wc_space_scan_text [OF assms(1), folded us, unfolded Let_def]
  by (simp add: wc_next_def)

lemma split_words_loop_finished: "wc_finished c \<Longrightarrow> split_words_loop c = []"
  by (rule split_words_loop_None) (simp add: wc_next_def)

lemma split_words_loop_space:
  assumes "text_cps ts" "wc_p c = concat ts" "wc_is_space c" "\<not> wc_finished c"
    "wc_count c \<le> wc_max_words c"
  shows "split_words_loop c =
    map concat (take (wc_max_words c - wc_count c) (filter has_vis (split_on [SP] ts)))"
  using assms
proof (induction "length ts" arbitrary: ts c rule: less_induct)
  case less
  define us where us: "us = drop_blank (split_on [SP] ts)"
  have "us \<noteq> []" by (simp add: us drop_blank_nonempty)
  have flt: "filter has_vis (split_on [SP] ts) =
      (if has_vis (hd us) then [hd us] else []) @ filter has_vis (tl us)"
    using \<open>us \<noteq> []\<close> filter_drop_blank [of "split_on [SP] ts", folded us] by (cases us) auto
  show ?case
  proof (cases "wc_count c < wc_max_words c")
    case False
    then show ?thesis
      using less.prems by (subst split_words_loop_None [of c]) (auto simp: wc_next_def)
  next
    case True
    note n = wc_next_space [OF less.prems(1-4) True us]
    have blank: "tl us = []" if "\<not> has_vis (hd us)"
      using drop_blank_hd_vis [of "split_on [SP] ts" "hd us" "tl us"] \<open>us \<noteq> []\<close> that us by auto
    show ?thesis
    proof (cases "has_vis (hd us) \<and> tl us \<noteq> []")
      case False
      with n blank flt True show ?thesis
        by (cases "has_vis (hd us)")
          (auto simp: split_words_loop_None split_words_loop_Some split_words_loop_finished take_Cons')
    next
      case rest: True
      note r = blank_tail [OF less.prems(1) us]
      let ?c = "c\<lparr>wc_p := concat (join_on [[SP]] (tl us)), wc_count := wc_count c + 1\<rparr>"
      have "split_words_loop ?c = map concat (take (wc_max_words ?c - wc_count ?c)
          (filter has_vis (split_on [SP] (join_on [[SP]] (tl us)))))"
        using r rest True less.prems by (intro less.hyps) auto
      with n rest flt r True show ?thesis
        by (simp add: split_words_loop_Some take_Cons')
    qed
  qed
qed

lemma split_words_space:
  "text_cps ts \<Longrightarrow>
     split_words (concat ts) SP m = map concat (take m (filter has_vis (split_on [SP] ts)))"
  using split_words_loop_space [of ts "wc_init (concat ts) SP m"]
  by (simp add: split_words_def wc_init_def)

lemma join_split_words:
  "data \<noteq> [] \<Longrightarrow> d \<noteq> SP \<Longrightarrow> join_on [d] (split_words data d m) = data"
  using join_split_words_loop [of "wc_init data d m"]
  by (simp add: split_words_def wc_init_def)

lemma length_split_words: "0 < m \<Longrightarrow> length (split_words data d m) \<le> m"
  using length_split_words_loop [of "wc_init data d m"]
  by (simp add: split_words_def wc_init_def)

section \<open>Position arrays\<close>

lemma insort_snoc_greater: "sorted (xs @ [x]) \<Longrightarrow> key < x \<Longrightarrow> insort key (xs @ [x]) = insort key xs @ [x]"
  for key :: int
  by (induction xs) auto

lemma insort_snoc_le: "sorted (xs @ [x]) \<Longrightarrow> x \<le> key \<Longrightarrow> insort key (xs @ [x]) = xs @ [x, key]"
  for key :: int
proof -
  assume s: "sorted (xs @ [x])" and k: "x \<le> key"
  from s k have "sorted (xs @ [x, key])" by (auto simp: sorted_append)
  then have "sort (insort key (xs @ [x])) = xs @ [x, key]"
    by (intro properties_for_sort) auto
  moreover have "sort (insort key (xs @ [x])) = insort key (xs @ [x])"
    using s sorted_insort [of key "xs @ [x]"] sorted_sort_id by blast
  ultimately show ?thesis by simp
qed

lemma sort_ints_shift_insort:
  "sorted xs \<Longrightarrow> sort_ints_shift (xs @ y # zs) key (length xs) = insort key xs @ zs"
proof (induction xs arbitrary: y zs rule: rev_induct)
  case (snoc x xs)
  show ?case
  proof (cases "key < x")
    case True
    have "sort_ints_shift ((xs @ [x]) @ y # zs) key (length (xs @ [x])) =
        sort_ints_shift (xs @ x # x # zs) key (length xs)"
      using True by (simp add: nth_append list_update_append)
    also have "\<dots> = insort key xs @ x # zs"
      using snoc by (auto simp: sorted_append)
    finally show ?thesis using insort_snoc_greater [OF snoc.prems True] by simp
  next
    case False
    then have "sort_ints_shift ((xs @ [x]) @ y # zs) key (length (xs @ [x])) = xs @ [x, key] @ zs"
      by (simp add: nth_append list_update_append)
    with False insort_snoc_le [OF snoc.prems, of key] show ?thesis by simp
  qed
qed simp

declare sort_ints_from.simps [simp del]

lemma sort_ints_from_sort:
  "sorted xs \<Longrightarrow> sort_ints_from (length xs) (xs @ zs) = foldl (\<lambda>acc z. insort z acc) xs zs"
proof (induction zs arbitrary: xs)
  case Nil
  then show ?case by (subst sort_ints_from.simps) simp
next
  case (Cons z zs)
  have "sort_ints_from (length xs) (xs @ z # zs) =
      sort_ints_from (length (insort z xs)) (insort z xs @ zs)"
    using Cons.prems by (subst sort_ints_from.simps) (simp add: sort_ints_shift_insort nth_append)
  with Cons.IH [of "insort z xs"] Cons.prems show ?case by (simp add: sorted_insort)
qed

lemma foldl_insort:
  fixes xs :: "int list"
  assumes "sorted xs"
  shows "sorted (foldl (\<lambda>acc z. insort z acc) xs zs) \<and>
    mset (foldl (\<lambda>acc z. insort z acc) xs zs) = mset xs + mset zs"
  using assms
proof (induction zs arbitrary: xs)
  case (Cons z zs)
  then show ?case using Cons.IH [of "insort z xs"] by (simp add: sorted_insort)
qed simp

lemma sort_ints_sort: "sort_ints arr = sort arr"
proof (cases arr)
  case Nil
  then show ?thesis by (simp add: sort_ints_def sort_ints_from.simps)
next
  case (Cons a as)
  let ?r = "foldl (\<lambda>acc z. insort z acc) [a] as"
  have "sort_ints arr = ?r"
    using sort_ints_from_sort [of "[a]" as] Cons by (simp add: sort_ints_def)
  moreover have "sort arr = ?r"
    using foldl_insort [of "[a]" as] Cons by (intro properties_for_sort) auto
  ultimately show ?thesis by simp
qed


text \<open>
  What \<open>convert_positions\<close> keeps: the converted positions that are in range, in
  some order.
\<close>

definition conv_pos :: "int \<Rightarrow> int \<Rightarrow> int" where
  "conv_pos base v = (if v < 0 then v + base else v - 1)"

declare convert_positions.simps [simp del]

lemma convert_positions_step:
  "convert_positions base hi (xs @ z # zs) (length xs) =
     (let v = conv_pos base z
      in if v < 0 \<or> v \<ge> hi then
           convert_positions base hi (butlast ((xs @ v # zs)[length xs := last (xs @ v # zs)])) (length xs)
         else convert_positions base hi (xs @ v # zs) (length xs + 1))"
  by (subst convert_positions.simps) (simp add: conv_pos_def Let_def)

lemma mset_convert_positions:
  "mset (convert_positions base hi (xs @ zs) (length xs)) =
     mset xs + mset (filter (\<lambda>v. 0 \<le> v \<and> v < hi) (map (conv_pos base) zs))"
proof (induction "length zs" arbitrary: xs zs rule: less_induct)
  case less
  show ?case
  proof (cases zs)
    case Nil
    then show ?thesis by (subst convert_positions.simps) simp
  next
    case (Cons z zs')
    let ?v = "conv_pos base z"
    show ?thesis
    proof (cases "?v < 0 \<or> ?v \<ge> hi")
      case False
      have "convert_positions base hi (xs @ zs) (length xs) =
          convert_positions base hi ((xs @ [?v]) @ zs') (length (xs @ [?v]))"
        using False unfolding Cons by (subst convert_positions_step) simp
      with less.hyps [of zs' "xs @ [?v]"] False Cons show ?thesis by simp
    next
      case True
      define zs2 where "zs2 = (if zs' = [] then [] else last zs' # butlast zs')"
      have len: "length zs2 < length zs" by (simp add: zs2_def Cons)
      have m: "mset zs2 = mset zs'"
        by (cases zs' rule: rev_cases) (auto simp: zs2_def)
      have "butlast ((xs @ ?v # zs')[length xs := last (xs @ ?v # zs')]) = xs @ zs2"
        by (cases zs' rule: rev_cases) (auto simp: zs2_def list_update_append butlast_append)
      then have "convert_positions base hi (xs @ zs) (length xs) =
          convert_positions base hi (xs @ zs2) (length xs)"
        using True unfolding Cons by (subst convert_positions_step) (simp only: Let_def if_True)
      also have "mset \<dots> = mset xs + filter_mset (\<lambda>v. 0 \<le> v \<and> v < hi) (image_mset (conv_pos base) (mset zs2))"
        using less.hyps [OF len, of xs] by simp
      finally show ?thesis using True Cons m by auto
    qed
  qed
qed

definition valid_positions :: "int \<Rightarrow> int \<Rightarrow> int list \<Rightarrow> nat list" where
  "valid_positions base hi positions =
     map nat (sort (filter (\<lambda>v. 0 \<le> v \<and> v < hi) (map (conv_pos base) positions)))"

lemma sort_eq_mset: "mset xs = mset ys \<Longrightarrow> sort xs = sort (ys :: int list)"
  by (metis mset_sort properties_for_sort sorted_sort)

lemma sorted_map_int:
  "sorted (xs :: int list) \<Longrightarrow> \<forall>x \<in> set xs. 0 \<le> x \<Longrightarrow> sorted (map nat xs)"
  by (induction xs) auto

lemma sort_convert_positions:
  "sort_ints (convert_positions base hi positions 0) = map int (valid_positions base hi positions)"
proof -
  have "sort_ints (convert_positions base hi positions 0) =
      sort (filter (\<lambda>v. 0 \<le> v \<and> v < hi) (map (conv_pos base) positions))"
    unfolding sort_ints_sort
    using mset_convert_positions [of base hi "[]" positions] by (intro sort_eq_mset) simp
  then show ?thesis by (simp add: valid_positions_def) (rule map_idI [symmetric], auto)
qed

lemma sorted_valid_positions: "sorted (valid_positions base hi positions)"
  unfolding valid_positions_def by (intro sorted_map_int) auto

lemma set_valid_positions:
  "set (valid_positions base hi positions) =
     {p. int p < hi \<and> (\<exists>v \<in> set positions. conv_pos base v = int p)}"
  by (force simp: valid_positions_def)

lemma convert_positions_Nil:
  "convert_positions base hi positions 0 = [] \<longleftrightarrow> valid_positions base hi positions = []"
  using arg_cong [OF sort_convert_positions, of length base hi positions]
  by (auto simp: sort_ints_sort)

section \<open>The editors as list functions\<close>

text \<open>
  Index-wise rewriting of a word list: the word at index \<open>j\<close> becomes the words
  \<open>f j w\<close>.
\<close>

primrec edit_words :: "(nat \<Rightarrow> 'a \<Rightarrow> 'a list) \<Rightarrow> nat \<Rightarrow> 'a list \<Rightarrow> 'a list" where
  "edit_words f i [] = []"
| "edit_words f i (w # ws) = f i w @ edit_words f (Suc i) ws"

lemma edit_words_append:
  "edit_words f i (xs @ ys) = edit_words f i xs @ edit_words f (i + length xs) ys"
  by (induction xs arbitrary: i) auto

lemma edit_words_id:
  "(\<And>j w. i \<le> j \<Longrightarrow> j < i + length ws \<Longrightarrow> f j w = [w]) \<Longrightarrow> edit_words f i ws = ws"
  by (induction ws arbitrary: i) auto

lemma edit_words_cong:
  "(\<And>j w. i \<le> j \<Longrightarrow> f j w = g j w) \<Longrightarrow> edit_words f i ws = edit_words g i ws"
  by (induction ws arbitrary: i) auto

lemma emit_words_append:
  "emit_words osep c (xs @ ys) = emit_words osep c xs @ emit_words osep (c + length xs) ys"
  by (induction xs arbitrary: c) (auto simp: emit_words_Cons)

lemma emit_words_pos: "0 < c \<Longrightarrow> 0 < c' \<Longrightarrow> emit_words osep c ws = emit_words osep c' ws"
  by (simp add: emit_words_def)

lemma emit_words_bool_append:
  "emit_words osep (of_bool e) (xs @ ys) =
     emit_words osep (of_bool e) xs @ emit_words osep (of_bool (e \<or> xs \<noteq> [])) ys"
  by (cases "e \<or> xs \<noteq> []") (auto simp: emit_words_append intro: emit_words_pos)

lemma emit_words_start: "emit_words osep 0 ws = join_on [osep] ws"
  by (simp add: emit_words_def)

text \<open>
  The writer state \<open>(i, emitted, cursor, out)\<close> agrees with the bytes \<open>acc\<close> written
  so far and the words \<open>ws\<close> left, unless the buffer is already full.
\<close>

definition wc_synced ::
  "bytes \<Rightarrow> nat \<Rightarrow> bool \<Rightarrow> bytes list \<Rightarrow> nat \<times> bool \<times> word_cursor \<times> bytes \<Rightarrow> bool" where
  "wc_synced acc i0 e0 ws st =
     (case st of (i, e, c, out) \<Rightarrow>
        out = take lbuf_cap acc \<and>
        (lbuf_cap \<le> length acc \<or> i = i0 \<and> e = e0 \<and> split_words_loop c = ws))"

lemma copy_words_upto_full:
  "lbuf_cap \<le> length out \<Longrightarrow> copy_words_upto k i e c osep out = (i, e, c, out)"
  by (cases k) auto

lemma copy_words_upto_synced:
  "k \<le> length (split_words_loop c) \<Longrightarrow>
     wc_synced (acc @ emit_words osep (of_bool e) (take k (split_words_loop c)))
       (i + k) (e \<or> 0 < k) (drop k (split_words_loop c))
       (copy_words_upto k i e c osep (take lbuf_cap acc))"
proof (induction k arbitrary: i e c acc)
  case 0
  then show ?case by (simp add: wc_synced_def)
next
  case (Suc k)
  show ?case
  proof (cases "lbuf_cap \<le> length acc")
    case True
    then show ?thesis by (simp add: wc_synced_def)
  next
    case False
    from Suc.prems obtain w ws where ws: "split_words_loop c = w # ws"
      by (cases "split_words_loop c") auto
    with wc_next_of_split obtain c' where c': "wc_next c = (Some w, c')" "split_words_loop c' = ws"
      by blast
    let ?acc = "acc @ emit_words osep (of_bool e) [w]"
    have "wc_synced (?acc @ emit_words osep (of_bool True) (take k ws)) (i + 1 + k) (True \<or> 0 < k) (drop k ws)
       (copy_words_upto k (i + 1) True c' osep (take lbuf_cap ?acc))"
      using Suc.IH [of c' ?acc True "i + 1"] Suc.prems ws c'(2) by simp
    moreover have "copy_words_upto (Suc k) i e c osep (take lbuf_cap acc) =
        copy_words_upto k (i + 1) True c' osep (take lbuf_cap ?acc)"
      using False c'(1) emit_word_step [of "of_bool e" acc osep w]
      by (cases e) (simp_all add: Let_def del: take_append)
    ultimately show ?thesis
      using ws emit_words_bool_append [of osep e "[w]" "take k ws"] by simp
  qed
qed

lemma copy_synced:
  assumes "wc_synced acc i0 e0 ws (i, e, c, out)" "i0 \<le> p" "p \<le> i0 + length ws"
  shows "wc_synced (acc @ emit_words osep (of_bool e0) (take (p - i0) ws)) p (e0 \<or> i0 < p)
    (drop (p - i0) ws) (copy_words_upto (p - i) i e c osep out)"
proof (cases "lbuf_cap \<le> length acc")
  case True
  with assms show ?thesis by (simp add: wc_synced_def copy_words_upto_full)
next
  case False
  with assms copy_words_upto_synced [of "p - i" c acc osep e i] show ?thesis
    by (simp add: wc_synced_def)
qed

lemma put_synced:
  assumes "wc_synced acc i0 e0 ws (i, e, c, out)"
    and "i = i0 \<Longrightarrow> split_words_loop c = ws \<Longrightarrow> i' = i1 \<and> split_words_loop c' = ws1"
  shows "wc_synced (acc @ emit_words osep (of_bool e0) [w]) i1 True ws1
    (i', True, c', wp_safe_copy lbuf_cap (if e then WP_SAFE lbuf_cap out osep else out) w)"
proof (cases "lbuf_cap \<le> length acc")
  case True
  with assms(1) have "out = take lbuf_cap acc" by (simp add: wc_synced_def)
  then have "wp_safe_copy lbuf_cap (if e then WP_SAFE lbuf_cap out osep else out) w =
      take lbuf_cap (acc @ emit_words osep (of_bool e) [w])"
    using emit_word_step [of "of_bool e" acc osep w] by (cases e) simp_all
  with True show ?thesis by (simp add: wc_synced_def)
next
  case False
  with assms emit_word_step [of "of_bool e" acc osep w] show ?thesis
    by (cases e) (auto simp: wc_synced_def)
qed

lemma step_synced:
  assumes "wc_synced acc i0 e0 (w # ws) (i, e, c, out)"
  shows "wc_synced acc (i0 + 1) e0 ws (i + 1, e, snd (wc_next c), out)"
  using assms wc_next_of_split [of c w ws] by (auto simp: wc_synced_def)

lemma finish_synced:
  assumes "wc_synced acc i0 e0 ws (i, e, c, out)" "n = i0 + length ws"
  shows "snd (snd (snd (copy_words_upto (n - i) i e c osep out))) =
    take lbuf_cap (acc @ emit_words osep (of_bool e0) ws)"
  using copy_synced [OF assms(1), of n osep] assms(2)
  by (cases "copy_words_upto (n - i) i e c osep out") (simp add: wc_synced_def)

lemma init_synced: "wc_synced [] 0 False (split_words data d m) (0, False, wc_init data d m, [])"
  by (simp add: wc_synced_def split_words_def)

lemma skip_dups_map_int: "skip_dups (int p) (map int qs) = map int (dropWhile (\<lambda>q. q = p) qs)"
  by (induction qs) auto

lemma sorted_dropWhile_eq:
  "sorted (p # ps) \<Longrightarrow> set (dropWhile (\<lambda>q. q = p) ps) = set ps - {p}" for p :: nat
  by (induction ps) auto

lemma sorted_dropWhile': "sorted xs \<Longrightarrow> sorted (dropWhile P xs)"
  by (induction xs) auto

definition put_at :: "nat set \<Rightarrow> bytes \<Rightarrow> nat \<Rightarrow> bytes \<Rightarrow> bytes list" where
  "put_at P word j w = [if j \<in> P then word else w]"

definition drop_at :: "nat set \<Rightarrow> nat \<Rightarrow> bytes \<Rightarrow> bytes list" where
  "drop_at P j w = (if j \<in> P then [] else [w])"

lemma edit_words_split:
  assumes "i \<le> p" "p < i + length ws" "\<And>j w. i \<le> j \<Longrightarrow> j < p \<Longrightarrow> f j w = [w]"
  shows "edit_words f i ws =
    take (p - i) ws @ f p (ws ! (p - i)) @ edit_words f (Suc p) (drop (Suc p - i) ws)"
proof -
  have "ws = take (p - i) ws @ (ws ! (p - i)) # drop (Suc (p - i)) ws"
    using assms(1,2) by (intro id_take_nth_drop) auto
  then have "edit_words f i ws = edit_words f i (take (p - i) ws @ (ws ! (p - i)) # drop (Suc (p - i)) ws)"
    by simp
  also have "\<dots> = edit_words f i (take (p - i) ws) @ f p (ws ! (p - i)) @ edit_words f (Suc p) (drop (Suc p - i) ws)"
    using assms(1,2) by (simp add: edit_words_append min_absorb2 Suc_diff_le)
  also have "edit_words f i (take (p - i) ws) = take (p - i) ws"
    using assms by (intro edit_words_id) auto
  finally show ?thesis .
qed

lemma drop_nth_Cons: "i \<le> p \<Longrightarrow> p < i + length ws \<Longrightarrow> drop (p - i) ws = ws ! (p - i) # drop (Suc p - i) ws"
  by (simp add: Cons_nth_drop_Suc [symmetric] Suc_diff_le)

lemma emit_words_take:
  assumes "i0 \<le> p" "p < i0 + length ws"
  shows "emit_words osep (of_bool e) (take (p - i0) ws @ xs @ ys) =
    emit_words osep (of_bool e) (take (p - i0) ws) @ emit_words osep (of_bool (e \<or> i0 < p)) xs @
    emit_words osep (of_bool ((e \<or> i0 < p) \<or> xs \<noteq> [])) ys"
proof -
  have "take (p - i0) ws \<noteq> [] \<longleftrightarrow> i0 < p" using assms by auto
  then show ?thesis by (simp only: emit_words_bool_append append_assoc)
qed

lemma replace_loop_spec:
  assumes "wc_synced acc i0 e0 ws (i, e, c, out)" "sorted ps" "\<forall>p \<in> set ps. i0 \<le> p \<and> p < n"
    "n = i0 + length ws"
  shows "(case replace_loop (map int ps) i e c word osep out of (i, e, c, out) \<Rightarrow>
      snd (snd (snd (copy_words_upto (n - i) i e c osep out)))) =
    take lbuf_cap (acc @ emit_words osep (of_bool e0) (edit_words (put_at (set ps) word) i0 ws))"
  using assms
proof (induction "length ps" arbitrary: ps acc i0 e0 ws i e c out rule: less_induct)
  case less
  show ?case
  proof (cases ps)
    case Nil
    have "edit_words (put_at {} word) i0 ws = ws" by (intro edit_words_id) (simp add: put_at_def)
    with Nil less.prems(4) finish_synced [OF less.prems(1), of n osep] show ?thesis by simp
  next
    case (Cons p qs)
    define rest where "rest = dropWhile (\<lambda>q. q = p) qs"
    have p: "i0 \<le> p" "p < i0 + length ws" using less.prems Cons by auto
    have rest: "set rest = set qs - {p}" "sorted rest" "length rest < length ps"
      using less.prems(2) Cons
      by (auto simp: rest_def sorted_dropWhile_eq sorted_dropWhile' length_dropWhile_le le_imp_less_Suc)
    obtain i1 e1 c1 out1 where st: "copy_words_upto (p - i) i e c osep out = (i1, e1, c1, out1)"
      by (metis prod_cases4)
    let ?a1 = "acc @ emit_words osep (of_bool e0) (take (p - i0) ws)"
    let ?a2 = "?a1 @ emit_words osep (of_bool (e0 \<or> i0 < p)) [word]"
    let ?out2 = "wp_safe_copy lbuf_cap (if e1 then WP_SAFE lbuf_cap out1 osep else out1) word"
    have s1: "wc_synced ?a1 p (e0 \<or> i0 < p) (ws ! (p - i0) # drop (Suc p - i0) ws) (i1, e1, c1, out1)"
      using copy_synced [OF less.prems(1) p(1), of osep] p st by (simp add: drop_nth_Cons)
    have s2: "wc_synced ?a2 (Suc p) True (drop (Suc p - i0) ws)
        (i1 + 1, True, snd (wc_next c1), ?out2)"
      by (rule put_synced [OF s1]) (use wc_next_of_split in force)
    have *: "edit_words (put_at (set ps) word) i0 ws =
        take (p - i0) ws @ [word] @ edit_words (put_at (set rest) word) (Suc p) (drop (Suc p - i0) ws)"
    proof -
      have "edit_words (put_at (set ps) word) (Suc p) (drop (Suc p - i0) ws) =
          edit_words (put_at (set rest) word) (Suc p) (drop (Suc p - i0) ws)"
        by (intro edit_words_cong) (auto simp: put_at_def rest Cons)
      moreover have "put_at (set ps) word j w = [w]" if "i0 \<le> j" "j < p" for j w
        using that less.prems(2) Cons by (auto simp: put_at_def)
      ultimately show ?thesis
        using edit_words_split [OF p, of "put_at (set ps) word"] by (simp add: put_at_def Cons)
    qed
    have IH: "(case replace_loop (map int rest) (i1 + 1) True (snd (wc_next c1)) word osep ?out2 of
          (i, e, c, out) \<Rightarrow> snd (snd (snd (copy_words_upto (n - i) i e c osep out)))) =
        take lbuf_cap (?a2 @ emit_words osep (of_bool True)
          (edit_words (put_at (set rest) word) (Suc p) (drop (Suc p - i0) ws)))"
      by (rule less.hyps [OF rest(3) s2 rest(2)])
        (use less.prems p rest Cons in \<open>auto simp: le_less\<close>)
    show ?thesis
      using IH st emit_words_take [OF p, of osep e0 "[word]"] unfolding * unfolding Cons
      by (simp add: Let_def skip_dups_map_int rest_def [symmetric] del: take_append)
  qed
qed

lemma delete_loop_spec:
  assumes "wc_synced acc i0 e0 ws (i, e, c, out)" "sorted ps" "\<forall>p \<in> set ps. i0 \<le> p \<and> p < n"
    "n = i0 + length ws"
  shows "(case delete_loop (map int ps) i e c osep out of (i, e, c, out) \<Rightarrow>
      snd (snd (snd (copy_words_upto (n - i) i e c osep out)))) =
    take lbuf_cap (acc @ emit_words osep (of_bool e0) (edit_words (drop_at (set ps)) i0 ws))"
  using assms
proof (induction "length ps" arbitrary: ps acc i0 e0 ws i e c out rule: less_induct)
  case less
  show ?case
  proof (cases ps)
    case Nil
    have "edit_words (drop_at {}) i0 ws = ws" by (intro edit_words_id) (simp add: drop_at_def)
    with Nil less.prems(4) finish_synced [OF less.prems(1), of n osep] show ?thesis by simp
  next
    case (Cons p qs)
    define rest where "rest = dropWhile (\<lambda>q. q = p) qs"
    have p: "i0 \<le> p" "p < i0 + length ws" using less.prems Cons by auto
    have rest: "set rest = set qs - {p}" "sorted rest" "length rest < length ps"
      using less.prems(2) Cons
      by (auto simp: rest_def sorted_dropWhile_eq sorted_dropWhile' length_dropWhile_le le_imp_less_Suc)
    obtain i1 e1 c1 out1 where st: "copy_words_upto (p - i) i e c osep out = (i1, e1, c1, out1)"
      by (metis prod_cases4)
    let ?a1 = "acc @ emit_words osep (of_bool e0) (take (p - i0) ws)"
    have s1: "wc_synced ?a1 p (e0 \<or> i0 < p) (ws ! (p - i0) # drop (Suc p - i0) ws) (i1, e1, c1, out1)"
      using copy_synced [OF less.prems(1) p(1), of osep] p st by (simp add: drop_nth_Cons)
    have s2: "wc_synced ?a1 (Suc p) (e0 \<or> i0 < p) (drop (Suc p - i0) ws)
        (i1 + 1, e1, snd (wc_next c1), out1)"
      using step_synced [OF s1] by simp
    have *: "edit_words (drop_at (set ps)) i0 ws =
        take (p - i0) ws @ edit_words (drop_at (set rest)) (Suc p) (drop (Suc p - i0) ws)"
    proof -
      have "edit_words (drop_at (set ps)) (Suc p) (drop (Suc p - i0) ws) =
          edit_words (drop_at (set rest)) (Suc p) (drop (Suc p - i0) ws)"
        by (intro edit_words_cong) (auto simp: drop_at_def rest Cons)
      moreover have "drop_at (set ps) j w = [w]" if "i0 \<le> j" "j < p" for j w
        using that less.prems(2) Cons by (auto simp: drop_at_def)
      ultimately show ?thesis
        using edit_words_split [OF p, of "drop_at (set ps)"] by (simp add: drop_at_def Cons)
    qed
    have IH: "(case delete_loop (map int rest) (i1 + 1) e1 (snd (wc_next c1)) osep out1 of
          (i, e, c, out) \<Rightarrow> snd (snd (snd (copy_words_upto (n - i) i e c osep out)))) =
        take lbuf_cap (?a1 @ emit_words osep (of_bool (e0 \<or> i0 < p))
          (edit_words (drop_at (set rest)) (Suc p) (drop (Suc p - i0) ws)))"
      by (rule less.hyps [OF rest(3) s2 rest(2)])
        (use less.prems p rest Cons in \<open>auto simp: le_less\<close>)
    show ?thesis
      using IH st emit_words_take [OF p, of osep e0 "[]"] unfolding * unfolding Cons
      by (simp add: Let_def skip_dups_map_int rest_def [symmetric] del: take_append)
  qed
qed

definition insert_before :: "nat list \<Rightarrow> bytes \<Rightarrow> nat \<Rightarrow> bytes \<Rightarrow> bytes list" where
  "insert_before ps word j w = replicate (count_list ps j) word @ [w]"

lemma insert_before_Cons:
  "\<forall>j < p. count_list ps j = 0 \<Longrightarrow>
     insert_before ps word j w = (if j < p then [w] else replicate (count_list ps j) word @ [w])"
  by (simp add: insert_before_def)

lemma sorted_count_below: "sorted (p # ps) \<Longrightarrow> j < p \<Longrightarrow> count_list ps j = 0" for p :: nat
  by (induction ps) auto

lemma edit_words_insert:
  assumes "i \<le> p" "p \<le> i + length ws" "sorted (p # ps)"
  shows "edit_words (insert_before (p # ps) word) i ws @ replicate (count_list (p # ps) (i + length ws)) word =
    take (p - i) ws @ [word] @ edit_words (insert_before ps word) p (drop (p - i) ws) @
      replicate (count_list ps (i + length ws)) word"
proof -
  have "ws = take (p - i) ws @ drop (p - i) ws" by simp
  then have "edit_words (insert_before (p # ps) word) i ws =
      edit_words (insert_before (p # ps) word) i (take (p - i) ws @ drop (p - i) ws)" by simp
  also have "\<dots> = take (p - i) ws @ edit_words (insert_before (p # ps) word) p (drop (p - i) ws)"
  proof -
    have "edit_words (insert_before (p # ps) word) i (take (p - i) ws) = take (p - i) ws"
      using assms sorted_count_below [OF assms(3)]
      by (intro edit_words_id) (auto simp: insert_before_def min_absorb2)
    then show ?thesis
      using assms(1,2) edit_words_append [of "insert_before (p # ps) word" i "take (p - i) ws" "drop (p - i) ws"]
      by (simp add: min_absorb2)
  qed
  also have "edit_words (insert_before (p # ps) word) p (drop (p - i) ws) =
      (if drop (p - i) ws = [] then []
       else word # edit_words (insert_before ps word) p (drop (p - i) ws))"
  proof (cases "drop (p - i) ws")
    case (Cons v vs)
    have "edit_words (insert_before (p # ps) word) (Suc p) vs = edit_words (insert_before ps word) (Suc p) vs"
      by (intro edit_words_cong) (auto simp: insert_before_def)
    with Cons show ?thesis by (simp add: insert_before_def)
  qed simp
  finally show ?thesis
    using assms(1,2) by (cases "p = i + length ws") auto
qed

lemma insert_at_loop_spec:
  assumes "wc_synced acc i0 e0 ws (i, e, c, out)" "sorted ps" "\<forall>p \<in> set ps. i0 \<le> p \<and> p \<le> n"
    "n = i0 + length ws"
  shows "(case insert_at_loop (map int ps) i e c word osep out of (i, e, c, out) \<Rightarrow>
      snd (snd (snd (copy_words_upto (n - i) i e c osep out)))) =
    take lbuf_cap (acc @ emit_words osep (of_bool e0)
      (edit_words (insert_before ps word) i0 ws @ replicate (count_list ps n) word))"
  using assms
proof (induction ps arbitrary: acc i0 e0 ws i e c out)
  case Nil
  have "edit_words (insert_before [] word) i0 ws = ws"
    by (intro edit_words_id) (simp add: insert_before_def)
  with Nil finish_synced [OF Nil.prems(1), of n osep] show ?case by simp
next
  case (Cons p ps)
  have p: "i0 \<le> p" "p \<le> i0 + length ws" using Cons.prems by auto
  obtain i1 e1 c1 out1 where st: "copy_words_upto (p - i) i e c osep out = (i1, e1, c1, out1)"
    by (metis prod_cases4)
  let ?a1 = "acc @ emit_words osep (of_bool e0) (take (p - i0) ws)"
  let ?a2 = "?a1 @ emit_words osep (of_bool (e0 \<or> i0 < p)) [word]"
  let ?out2 = "wp_safe_copy lbuf_cap (if e1 then WP_SAFE lbuf_cap out1 osep else out1) word"
  let ?tl = "edit_words (insert_before ps word) p (drop (p - i0) ws) @ replicate (count_list ps n) word"
  have s1: "wc_synced ?a1 p (e0 \<or> i0 < p) (drop (p - i0) ws) (i1, e1, c1, out1)"
    using copy_synced [OF Cons.prems(1) p, of osep] st by simp
  have s2: "wc_synced ?a2 p True (drop (p - i0) ws) (i1, True, c1, ?out2)"
    by (rule put_synced [OF s1]) simp
  have IH: "(case insert_at_loop (map int ps) i1 True c1 word osep ?out2 of
        (i, e, c, out) \<Rightarrow> snd (snd (snd (copy_words_upto (n - i) i e c osep out)))) =
      take lbuf_cap (?a2 @ emit_words osep (of_bool True) ?tl)"
    by (rule Cons.IH [OF s2]) (use Cons.prems p in auto)
  have ne: "take (p - i0) ws \<noteq> [] \<longleftrightarrow> i0 < p" using p by auto
  have "emit_words osep (of_bool e0) (take (p - i0) ws @ [word] @ ?tl) =
      emit_words osep (of_bool e0) (take (p - i0) ws) @
      emit_words osep (of_bool (e0 \<or> i0 < p)) [word] @ emit_words osep (of_bool True) ?tl"
    using ne by (simp only: emit_words_bool_append append_assoc) simp
  with IH st show ?case
    unfolding Cons.prems(4) edit_words_insert [OF p Cons.prems(2)]
    by (simp add: Let_def del: take_append count_list.simps)
qed

subsection \<open>Specifications\<close>

lemma wc_max_pos [simp]: "0 < wc_max"
  by (simp add: wc_max_def LBUF_SIZE_def)

lemma put_at_empty: "edit_words (put_at {} word) i ws = ws"
  by (intro edit_words_id) (simp add: put_at_def)

lemma insert_before_empty: "edit_words (insert_before [] word) i ws = ws"
  by (intro edit_words_id) (simp add: insert_before_def)

lemma copy_all_words:
  "snd (snd (snd (copy_words_upto (count_words data d m) 0 False (wc_init data d m) osep []))) =
     take lbuf_cap (join_on [osep] (split_words data d m))"
  using finish_synced [OF init_synced [of data d m], of "count_words data d m" osep]
  by (simp add: count_words_length emit_words_start)

lemma co_replace_at_words:
  fixes list :: bytes and d :: byte and positions :: "int list"
  assumes "list \<noteq> []"
  defines "ws \<equiv> split_words list d wc_max"
  defines "P \<equiv> set (valid_positions (int (length ws)) (int (length ws)) positions)"
  shows "co_replace_at list positions word d osep =
    take lbuf_cap (join_on [osep] (edit_words (put_at P word) 0 ws))"
proof (cases "valid_positions (int (length ws)) (int (length ws)) positions = []")
  case True
  then show ?thesis
    using assms(1) copy_all_words [of list d wc_max osep]
    by (simp add: co_replace_at_def convert_positions_Nil count_words_length
        ws_def [symmetric] P_def put_at_empty Let_def)
next
  case False
  let ?ps = "valid_positions (int (length ws)) (int (length ws)) positions"
  have "(case replace_loop (map int ?ps) 0 False (wc_init list d wc_max) word osep [] of (i, e, c, out) \<Rightarrow>
      snd (snd (snd (copy_words_upto (length ws - i) i e c osep out)))) =
    take lbuf_cap ([] @ emit_words osep (of_bool False) (edit_words (put_at (set ?ps) word) 0 ws))"
    using init_synced [of list d wc_max]
    by (intro replace_loop_spec) (auto simp: ws_def sorted_valid_positions set_valid_positions)
  with False assms(1) show ?thesis
    by (simp add: co_replace_at_def convert_positions_Nil count_words_length
        ws_def [symmetric] P_def sort_convert_positions emit_words_start Let_def)
qed

lemma co_delete_at_words:
  fixes list :: bytes and d :: byte and positions :: "int list"
  assumes "list \<noteq> []"
  defines "ws \<equiv> split_words list d wc_max"
  defines "P \<equiv> set (valid_positions (int (length ws)) (int (length ws)) positions)"
  shows "co_delete_at list positions d osep =
    take lbuf_cap (join_on [osep] (edit_words (drop_at P) 0 ws))"
proof -
  let ?ps = "valid_positions (int (length ws)) (int (length ws)) positions"
  have "(case delete_loop (map int ?ps) 0 False (wc_init list d wc_max) osep [] of (i, e, c, out) \<Rightarrow>
      snd (snd (snd (copy_words_upto (length ws - i) i e c osep out)))) =
    take lbuf_cap ([] @ emit_words osep (of_bool False) (edit_words (drop_at (set ?ps)) 0 ws))"
    using init_synced [of list d wc_max]
    by (intro delete_loop_spec) (auto simp: ws_def sorted_valid_positions set_valid_positions)
  with assms(1) show ?thesis
    by (simp add: co_delete_at_def count_words_length
        ws_def [symmetric] P_def sort_convert_positions emit_words_start Let_def)
qed

lemma co_insert_at_words:
  fixes list :: bytes and d :: byte and positions :: "int list"
  assumes "list \<noteq> [] \<or> (\<exists>p \<in> set positions. p = 1 \<or> p = -1)"
  defines "ws \<equiv> split_words list d wc_max"
  defines "ps \<equiv> valid_positions (int (length ws) + 1) (int (length ws) + 1) positions"
  shows "co_insert_at list positions word d osep =
    take lbuf_cap (join_on [osep] (edit_words (insert_before ps word) 0 ws @
      replicate (count_list ps (length ws)) word))"
proof (cases "ps = []")
  case True
  have "\<not> (list = [] \<and> \<not> (\<exists>p \<in> set positions. p = 1 \<or> p = -1))" using assms(1) by auto
  then have "co_insert_at list positions word d osep =
      snd (snd (snd (copy_words_upto (length ws) 0 False (wc_init list d wc_max) osep [])))"
    using True by (simp only: co_insert_at_def convert_positions_Nil count_words_length Let_def
        ws_def [symmetric] ps_def if_True if_False simp_thms)
  then show ?thesis
    using True copy_all_words [of list d wc_max osep]
    by (simp add: count_words_length ws_def [symmetric] insert_before_empty)
next
  case False
  have g: "\<not> (list = [] \<and> \<not> (\<exists>p \<in> set positions. p = 1 \<or> p = -1))" using assms(1) by auto
  have "(case insert_at_loop (map int ps) 0 False (wc_init list d wc_max) word osep [] of (i, e, c, out) \<Rightarrow>
      snd (snd (snd (copy_words_upto (length ws - i) i e c osep out)))) =
    take lbuf_cap ([] @ emit_words osep (of_bool False) (edit_words (insert_before ps word) 0 ws @
      replicate (count_list ps (length ws)) word))"
    using init_synced [of list d wc_max]
    by (intro insert_at_loop_spec) (auto simp: ws_def ps_def sorted_valid_positions set_valid_positions)
  moreover have "co_insert_at list positions word d osep =
    (case insert_at_loop (map int ps) 0 False (wc_init list d wc_max) word osep [] of (i, e, c, out) \<Rightarrow>
      snd (snd (snd (copy_words_upto (length ws - i) i e c osep out))))"
    using g False by (simp only: co_insert_at_def convert_positions_Nil count_words_length Let_def
        ws_def [symmetric] ps_def if_False sort_convert_positions)
  ultimately show ?thesis by (simp add: emit_words_start)
qed

text \<open>\<open>co_splice\<close> and \<open>co_insert_word\<close>.\<close>

lemma wp_full:
  "lbuf_cap \<le> length acc \<Longrightarrow> take lbuf_cap (acc @ xs) = take lbuf_cap acc"
  by simp

lemma splice_step:
  assumes "wc_next c1 = (Some a, c1')" "wc_next c2 = (Some b, c2')"
  shows "splice_loop (Suc n) i c1 c2 splain osep (take lbuf_cap acc) =
    (if lbuf_cap \<le> length acc then take lbuf_cap acc
     else splice_loop n (i + 1) c1' c2' splain osep
       (take lbuf_cap (acc @ emit_words osep i [if co_strip_color a = splain then b else a])))"
  using assms emit_word_step [of i acc osep a] emit_word_step [of i acc osep b]
  by (cases "lbuf_cap \<le> length acc"; cases "0 < i") (simp_all add: Let_def del: take_append)

lemma splice_loop_spec:
  assumes "split_words_loop c1 = ws1" "split_words_loop c2 = ws2"
    "length ws1 = n" "length ws2 = n"
  shows "splice_loop n i c1 c2 splain osep (take lbuf_cap acc) =
    take lbuf_cap (acc @ emit_words osep i
      (map2 (\<lambda>w1 w2. if co_strip_color w1 = splain then w2 else w1) ws1 ws2))"
  using assms
proof (induction n arbitrary: i c1 c2 ws1 ws2 acc)
  case (Suc n)
  then obtain a as b bs where ab: "ws1 = a # as" "ws2 = b # bs" by (metis length_Suc_conv)
  from Suc.prems ab obtain c1' c2' where c: "wc_next c1 = (Some a, c1')" "split_words_loop c1' = as"
      "wc_next c2 = (Some b, c2')" "split_words_loop c2' = bs"
    using wc_next_of_split by metis
  let ?w = "if co_strip_color a = splain then b else a"
  have "splice_loop n (i + 1) c1' c2' splain osep (take lbuf_cap (acc @ emit_words osep i [?w])) =
      take lbuf_cap ((acc @ emit_words osep i [?w]) @ emit_words osep (i + 1)
        (map2 (\<lambda>w1 w2. if co_strip_color w1 = splain then w2 else w1) as bs))"
    using Suc.prems ab c by (intro Suc.IH) auto
  with splice_step [OF c(1,3), of n i splain osep acc] ab show ?case
    by (cases "lbuf_cap \<le> length acc")
      (simp_all add: wp_full emit_words_Cons del: take_append splice_loop.simps)
qed simp

lemma co_splice_words:
  "co_splice list1 list2 search d osep =
     (let ws1 = split_words list1 d wc_max; ws2 = split_words list2 d wc_max
      in if length ws1 = length ws2
         then take lbuf_cap (join_on [osep]
                (map2 (\<lambda>w1 w2. if co_strip_color w1 = co_strip_color search then w2 else w1) ws1 ws2))
         else [])"
proof (cases "length (split_words list1 d wc_max) = length (split_words list2 d wc_max)")
  case True
  have "splice_loop (length (split_words list1 d wc_max)) 0 (wc_init list1 d wc_max) (wc_init list2 d wc_max)
      (co_strip_color search) osep (take lbuf_cap []) =
    take lbuf_cap ([] @ emit_words osep 0
      (map2 (\<lambda>w1 w2. if co_strip_color w1 = co_strip_color search then w2 else w1)
        (split_words list1 d wc_max) (split_words list2 d wc_max)))"
    using True by (intro splice_loop_spec) (simp_all add: split_words_def)
  with True show ?thesis
    by (simp add: co_splice_def count_words_length emit_words_start Let_def)
next
  case False
  then show ?thesis by (simp add: co_splice_def count_words_length Let_def)
qed

lemma insert_word_step:
  assumes "wc_next c = (Some w, c')" "i < n"
  shows "insert_word_loop (Suc k) i n ins e c word osep (take lbuf_cap acc) =
    (if lbuf_cap \<le> length acc then take lbuf_cap acc
     else if i = ins then
       insert_word_loop k (i + 1) n ins (e + 1 + 1) c' word osep
         (take lbuf_cap ((acc @ emit_words osep e [word]) @ emit_words osep (e + 1) [w]))
     else insert_word_loop k (i + 1) n ins (e + 1) c' word osep
         (take lbuf_cap (acc @ emit_words osep e [w])))"
proof -
  note steps = emit_word_step [of e acc osep word] emit_word_step [of e acc osep w]
    emit_word_step [of "e + 1" "acc @ emit_words osep e [word]" osep w]
  show ?thesis
    using assms steps
    by (cases "lbuf_cap \<le> length acc"; cases "i = ins"; cases "0 < e")
      (simp_all add: Let_def del: take_append)
qed

lemma insert_word_tail:
  assumes "split_words_loop c = ws" "i + length ws = n" "ins < i" "0 < e"
  shows "insert_word_loop (length ws + 1) i n ins e c word osep (take lbuf_cap acc) =
    take lbuf_cap (acc @ emit_words osep e ws)"
  using assms
proof (induction ws arbitrary: i c acc e)
  case Nil
  then show ?case by simp
next
  case (Cons w ws)
  from Cons.prems(1) obtain c' where c: "wc_next c = (Some w, c')" "split_words_loop c' = ws"
    using wc_next_of_split by blast
  have IH: "insert_word_loop (length ws + 1) (i + 1) n ins (e + 1) c' word osep
        (take lbuf_cap (acc @ emit_words osep e [w])) =
      take lbuf_cap ((acc @ emit_words osep e [w]) @ emit_words osep (e + 1) ws)"
    using Cons.prems c by (intro Cons.IH) auto
  show ?case
    using Cons.prems IH insert_word_step [OF c(1), of i n "length ws + 1" ins e word osep acc]
    by (cases "lbuf_cap \<le> length acc")
      (simp_all add: wp_full emit_words_Cons del: take_append insert_word_loop.simps)
qed

lemma insert_word_loop_spec:
  assumes "split_words_loop c = ws" "i + length ws = n" "i \<le> ins" "ins \<le> n"
    "e = i"
  shows "insert_word_loop (length ws + 1) i n ins e c word osep (take lbuf_cap acc) =
    take lbuf_cap (acc @ emit_words osep e (take (ins - i) ws @ [word] @ drop (ins - i) ws))"
  using assms
proof (induction ws arbitrary: i c acc e)
  case Nil
  with emit_word_step [of e acc osep word] show ?case by auto
next
  case (Cons w ws)
  from Cons.prems(1) obtain c' where c: "wc_next c = (Some w, c')" "split_words_loop c' = ws"
    using wc_next_of_split by blast
  show ?case
  proof (cases "i = ins")
    case True
    let ?acc = "acc @ emit_words osep e [word]"
    have T: "insert_word_loop (length ws + 1) (i + 1) n ins (e + 1 + 1) c' word osep
        (take lbuf_cap (?acc @ emit_words osep (e + 1) [w])) =
      take lbuf_cap ((?acc @ emit_words osep (e + 1) [w]) @ emit_words osep (e + 1 + 1) ws)"
      using Cons.prems True c by (intro insert_word_tail) auto
    show ?thesis
      using Cons.prems(2) True T insert_word_step [OF c(1), of i n "length ws + 1" ins e word osep acc]
      by (cases "lbuf_cap \<le> length acc")
      (simp_all add: wp_full emit_words_Cons del: take_append insert_word_loop.simps)
  next
    case False
    have IH: "insert_word_loop (length ws + 1) (i + 1) n ins (e + 1) c' word osep
        (take lbuf_cap (acc @ emit_words osep e [w])) =
      take lbuf_cap ((acc @ emit_words osep e [w]) @
        emit_words osep (e + 1) (take (ins - (i + 1)) ws @ [word] @ drop (ins - (i + 1)) ws))"
      using Cons.prems False c by (intro Cons.IH) auto
    obtain k where k: "ins - i = Suc k" "ins - (i + 1) = k"
      using False Cons.prems(3) by (metis Suc_diff_Suc Suc_eq_plus1 le_neq_implies_less)
    show ?thesis
      using Cons.prems(2) False IH insert_word_step [OF c(1), of i n "length ws + 1" ins e word osep acc]
      unfolding k by (cases "lbuf_cap \<le> length acc")
        (simp_all add: wp_full emit_words_Cons del: take_append insert_word_loop.simps)
  qed
qed

lemma co_insert_word_words:
  "co_insert_word list word iPos d osep =
     (let ws = split_words list d wc_max; k = min (iPos - 1) (length ws)
      in take lbuf_cap (join_on [osep] (take k ws @ [word] @ drop k ws)))"
proof -
  let ?ws = "split_words list d wc_max"
  have "insert_word_loop (length ?ws + 1) 0 (length ?ws) (min (iPos - 1) (length ?ws)) 0
      (wc_init list d wc_max) word osep (take lbuf_cap []) =
    take lbuf_cap ([] @ emit_words osep 0
      (take (min (iPos - 1) (length ?ws) - 0) ?ws @ [word] @ drop (min (iPos - 1) (length ?ws) - 0) ?ws))"
    by (rule insert_word_loop_spec) (simp_all add: split_words_def)
  moreover have "(if (if iPos > 0 then iPos - 1 else 0) > length ?ws then length ?ws
      else (if iPos > 0 then iPos - 1 else 0)) = min (iPos - 1) (length ?ws)" by auto
  ultimately show ?thesis
    by (simp add: co_insert_word_def Let_def count_words_length emit_words_start
        del: insert_word_loop.simps)
qed

text \<open>\<open>co_member\<close>: the index of the first word with the same plain text.\<close>

fun find_index_from :: "('a \<Rightarrow> bool) \<Rightarrow> nat \<Rightarrow> 'a list \<Rightarrow> nat" where
  "find_index_from P n [] = 0"
| "find_index_from P n (x # xs) = (if P x then Suc n else find_index_from P (Suc n) xs)"

declare member_loop.simps [simp del]

lemma member_loop_text:
  assumes "text_cps ts" "d \<le> 0x7F" "d \<noteq> SP"
  shows "member_loop tplain d (concat ts) n =
    find_index_from (\<lambda>seg. co_strip_color (concat seg) = tplain) n (split_on [d] ts)"
  using assms
proof (induction ts arbitrary: n rule: split_induct [of "[d]"])
  case (last ts)
  then show ?case
    by (subst member_loop.simps) (simp add: co_find_delim_none split_on_notin Let_def upto_delim_def)
next
  case (seg seg rest)
  then have "co_find_delim (concat (seg @ [d] # rest)) d = Some (d # concat rest)"
    by (intro co_find_delim_seg) auto
  with seg show ?case
    by (subst member_loop.simps) (simp add: split_on_seg Let_def upto_delim_def skip_spaces_def)
qed

lemma co_member_text:
  "text_cps ts \<Longrightarrow> d \<le> 0x7F \<Longrightarrow> d \<noteq> SP \<Longrightarrow>
     co_member target (concat ts) d =
       find_index_from (\<lambda>seg. co_strip_color (concat seg) = co_strip_color target) 0 (split_on [d] ts)"
  by (simp add: co_member_def trim_spaces_def member_loop_text)

section \<open>Properties\<close>

text \<open>The word cursor loses nothing: for a delimiter other than the space, joining the
  words that \<open>split_words\<close> cuts gives the list back, byte for byte, and there are at most
  \<open>maxWords\<close> of them, as many as \<open>count_words\<close> says.\<close>

theorem split_words_roundtrip:
  assumes "data \<noteq> []" "d \<noteq> SP" "0 < maxWords"
  shows "join_on [d] (split_words data d maxWords) = data \<and>
    length (split_words data d maxWords) \<le> maxWords \<and>
    count_words data d maxWords = length (split_words data d maxWords)"
  using assms by (simp add: join_split_words length_split_words count_words_length)

theorem split_words_roundtrip_witness:
  "join_on [0x7C] (split_words [0x41, 0x7C, 0x7C, 0x42, 0x7C, 0x43] 0x7C 3) =
     [0x41, 0x7C, 0x7C, 0x42, 0x7C, 0x43] \<and>
   length (split_words [0x41, 0x7C, 0x7C, 0x42, 0x7C, 0x43] 0x7C 3) \<le> 3"
  using split_words_roundtrip [of "[0x41, 0x7C, 0x7C, 0x42, 0x7C, 0x43]" "0x7C" 3] by simp

text \<open>With the space delimiter the words are the segments between spaces that hold a
  visible code point, each with the colors inside it, the first \<open>maxWords\<close> of them.\<close>

theorem split_words_space_segments:
  assumes "text_cps ts"
  shows "split_words (concat ts) SP maxWords =
    map concat (take maxWords (filter has_vis (split_on [SP] ts)))"
  using assms by (rule split_words_space)

theorem split_words_space_segments_witness:
  "split_words [0x20, 0x41, 0x20, 0x20, 0xEF, 0x98, 0x81, 0x42, 0x20] 0x20 9 = [[0x41], [0xEF, 0x98, 0x81, 0x42]]"
  using split_words_space_segments
    [of "[[0x20], [0x41], [0x20], [0x20], [0xEF, 0x98, 0x81], [0x42], [0x20]]" 9]
  by (simp add: utf8_cont_def has_vis_def)

lemma split_words_A_B: "split_words [0x41, 0x20, 0x42] SP wc_max = [[0x41], [0x42]]"
  using split_words_space [of "[[0x41], [0x20], [0x42]]" wc_max]
  by (simp add: has_vis_def wc_max_def LBUF_SIZE_def)

text \<open>\<open>co_replace_at\<close> replaces exactly the words at the given positions: a position is
  counted from 1, a negative one from the end, one out of range is ignored, and
  duplicates count once.\<close>

theorem replace_at_positions:
  fixes list :: bytes and d :: byte and positions :: "int list"
  assumes "list \<noteq> []"
  defines "ws \<equiv> split_words list d wc_max"
  defines "P \<equiv> {p. p < length ws \<and> (\<exists>v \<in> set positions. conv_pos (int (length ws)) v = int p)}"
  shows "co_replace_at list positions word d osep =
    take lbuf_cap (join_on [osep] (edit_words (put_at P word) 0 ws))"
proof -
  have "P = set (valid_positions (int (length ws)) (int (length ws)) positions)"
    by (auto simp: P_def set_valid_positions)
  with co_replace_at_words [OF assms(1), of positions word d osep] show ?thesis by (simp add: ws_def)
qed

theorem replace_at_positions_witness:
  "co_replace_at [0x41, 0x20, 0x42] [-1, 5] [0x58] 0x20 0x20 = [0x41, 0x20, 0x58]"
  using replace_at_positions [of "[0x41, 0x20, 0x42]" "[-1, 5]" "[0x58]" "0x20" "0x20"]
  by (simp add: split_words_A_B put_at_def conv_pos_def lbuf_cap_eq)

text \<open>\<open>co_delete_at\<close> removes exactly the words at the given positions.\<close>

theorem delete_at_positions:
  fixes list :: bytes and d :: byte and positions :: "int list"
  assumes "list \<noteq> []"
  defines "ws \<equiv> split_words list d wc_max"
  defines "P \<equiv> {p. p < length ws \<and> (\<exists>v \<in> set positions. conv_pos (int (length ws)) v = int p)}"
  shows "co_delete_at list positions d osep =
    take lbuf_cap (join_on [osep] (edit_words (drop_at P) 0 ws))"
proof -
  have "P = set (valid_positions (int (length ws)) (int (length ws)) positions)"
    by (auto simp: P_def set_valid_positions)
  with co_delete_at_words [OF assms(1), of positions d osep] show ?thesis by (simp add: ws_def)
qed

theorem delete_at_positions_witness:
  "co_delete_at [0x41, 0x20, 0x42] [-1] 0x20 0x20 = [0x41]"
  using delete_at_positions [of "[0x41, 0x20, 0x42]" "[-1]" "0x20" "0x20"]
  by (simp add: split_words_A_B drop_at_def conv_pos_def lbuf_cap_eq)

text \<open>\<open>co_insert_at\<close> puts the new word in front of the word at each given position, once per
  occurrence of the position, and behind the last word for the position one past the end.\<close>

theorem insert_at_positions:
  fixes list :: bytes and d :: byte and positions :: "int list"
  assumes "list \<noteq> [] \<or> (\<exists>p \<in> set positions. p = 1 \<or> p = -1)"
  defines "ws \<equiv> split_words list d wc_max"
  defines "ps \<equiv> valid_positions (int (length ws) + 1) (int (length ws) + 1) positions"
  shows "co_insert_at list positions word d osep =
    take lbuf_cap (join_on [osep] (edit_words (insert_before ps word) 0 ws @
      replicate (count_list ps (length ws)) word))"
  unfolding ps_def ws_def using assms(1) by (rule co_insert_at_words)

theorem insert_at_positions_witness:
  "co_insert_at [0x41, 0x20, 0x42] [2, 2, -1] [0x58] 0x20 0x20 =
     [0x41, 0x20, 0x58, 0x20, 0x58, 0x20, 0x42, 0x20, 0x58]"
proof -
  have "valid_positions 3 3 [2, 2, -1] = [1, 1, 2]"
    by (simp add: valid_positions_def conv_pos_def)
  then show ?thesis
    using insert_at_positions [of "[0x41, 0x20, 0x42]" "[2, 2, -1]" "[0x58]" "0x20" "0x20"]
    by (simp add: split_words_A_B insert_before_def lbuf_cap_eq)
qed

text \<open>\<open>co_splice\<close> pairs two lists of the same length word by word and takes the second
  list's word where the first one's plain text is the search text; lists of different
  length give nothing.\<close>

theorem splice_pairs:
  "co_splice list1 list2 search d osep =
     (let ws1 = split_words list1 d wc_max; ws2 = split_words list2 d wc_max
      in if length ws1 = length ws2
         then take lbuf_cap (join_on [osep]
                (map2 (\<lambda>w1 w2. if co_strip_color w1 = co_strip_color search then w2 else w1) ws1 ws2))
         else [])"
  by (rule co_splice_words)

text \<open>\<open>co_member\<close> is the position, from 1, of the first word with the plain text of the
  target, and 0 when there is none, for a delimiter other than the space.\<close>

theorem member_first_position:
  assumes "text_cps ts" "d \<le> 0x7F" "d \<noteq> SP"
  shows "co_member target (concat ts) d =
    find_index_from (\<lambda>seg. co_strip_color (concat seg) = co_strip_color target) 0 (split_on [d] ts)"
  using assms by (rule co_member_text)

theorem member_first_position_witness:
  "co_member [0x42] [0x41, 0x7C, 0xEF, 0x98, 0x81, 0x42] 0x7C = 2"
  using member_first_position [of "[[0x41], [0x7C], [0xEF, 0x98, 0x81], [0x42]]" "0x7C" "[0x42]"]
  by (simp add: utf8_cont_def co_strip_color_def strip_color_next_def WP_SAFE_def lbuf_cap_eq)

end
