(* ===== verification/Color_Substr.thy ===== *)
theory Color_Substr
  imports Word_Cursor "HOL-Library.Sublist"
begin

text \<open>
  Substrings, searching and rewriting of colored strings: \<open>co_left\<close>, \<open>co_right\<close>,
  \<open>co_mid\<close>, \<open>co_delete\<close>, \<open>co_repeat\<close>, \<open>co_trim\<close>, \<open>co_trim_pattern\<close>, \<open>co_search\<close>,
  \<open>co_search_with_end\<close>, \<open>co_split_words\<close>, \<open>co_compress_str\<close>, \<open>co_compress\<close>,
  \<open>co_edit\<close>, \<open>co_lpos\<close> and \<open>co_reverse\<close> of \<open>mux/lib/color_ops.c\<close>.

  Many of their loops step with \<open>co_visible_advance(p, pe, 1, NULL)\<close>, which does not
  move on a byte that starts no code point, so the loop need not end.  Those loops
  are partial functions into \<open>option\<close>: \<open>None\<close> is a run that never returns, and what
  the operation returns is below \<open>Some\<close>.
\<close>

section \<open>Substrings by position\<close>

definition co_left :: "bytes \<Rightarrow> nat \<Rightarrow> bytes" where
  "co_left data n = co_copy_visible data n"

definition co_right :: "bytes \<Rightarrow> nat \<Rightarrow> bytes" where
  "co_right data n =
     (let total = co_visible_length data
      in if n \<ge> total then raw_copy data
         else raw_copy (fst (co_visible_advance data (total - n))))"

definition co_mid :: "bytes \<Rightarrow> nat \<Rightarrow> nat \<Rightarrow> bytes" where
  "co_mid data iStart nCount =
     (if nCount = 0 then []
      else (let p = (if iStart > 0 then fst (co_visible_advance data iStart) else data)
            in co_copy_visible p nCount))"

text \<open>The loop \<open>while (skipped < nCount && p < pe)\<close>; the argument counts down.\<close>

fun delete_skip :: "nat \<Rightarrow> bytes \<Rightarrow> bytes" where
  "delete_skip 0 p = p"
| "delete_skip (Suc k) p =
     (if p = [] then p
      else (let q = co_skip_color p
            in if q = [] then q else delete_skip k (fst (co_visible_advance q 1))))"

definition co_delete :: "bytes \<Rightarrow> nat \<Rightarrow> nat \<Rightarrow> bytes" where
  "co_delete data iStart nCount =
     (if nCount = 0 then take (LBUF_SIZE - 1) data
      else
        (let (out, p) =
               (if iStart > 0 then (co_copy_visible data iStart, fst (co_visible_advance data iStart))
                else ([], data));
             p = co_skip_color (delete_skip nCount p)
         in if p \<noteq> [] then wp_safe_copy lbuf_cap out p else out))"

definition co_repeat :: "bytes \<Rightarrow> nat \<Rightarrow> bytes" where
  "co_repeat data cnt =
     (if cnt = 0 \<or> data = [] then []
      else if cnt > (LBUF_SIZE - 1) div length data then []
      else concat (replicate cnt data))"

section \<open>Searching\<close>

text \<open>
  The loop that collects the visible bytes of a needle or separator; \<open>put\<close> is how the
  bytes of one code point are stored (\<open>co_search\<close> stores them all, \<open>co_split_words\<close>
  and \<open>co_compress_str\<close> stop at \<open>LBUF_SIZE - 1\<close>).
\<close>

partial_function (option) strip_visible ::
  "(bytes \<Rightarrow> bytes \<Rightarrow> bytes) \<Rightarrow> bytes \<Rightarrow> bytes \<Rightarrow> bytes option" where
  "strip_visible put np plain =
     (if np = [] then Some plain
      else (let q = co_skip_color np
            in if q = [] then Some plain
               else (let after = fst (co_visible_advance q 1)
                     in strip_visible put after (put plain (take (length q - length after) q)))))"

text \<open>
  The inner matching loop: the position behind the match, when all bytes of
  \<open>nplain\<close> are met.
\<close>

fun match_visible :: "bytes \<Rightarrow> bytes \<Rightarrow> bytes option" where
  "match_visible tp [] = Some tp"
| "match_visible tp (b # nplain) =
     (if tp = [] then None
      else (case co_skip_color tp of
              [] \<Rightarrow> None
            | c # q \<Rightarrow> if c \<noteq> b then None else match_visible q nplain))"

text \<open>\<open>Some (Some (match_start, match_end))\<close>, \<open>Some None\<close> for a \<open>NULL\<close> result.\<close>

partial_function (option) co_search_with_end :: "bytes \<Rightarrow> bytes \<Rightarrow> (bytes \<times> bytes) option option" where
  "co_search_with_end hp nplain =
     (if hp = [] then Some None
      else (let hp = co_skip_color hp
            in if hp = [] then Some None
               else (case match_visible hp nplain of
                       Some tp \<Rightarrow> Some (Some (hp, tp))
                     | None \<Rightarrow> co_search_with_end (fst (co_visible_advance hp 1)) nplain)))"

text \<open>The plain needle is \<open>nplain[LBUF_SIZE]\<close> in the source, which holds the text of any line buffer.\<close>

definition co_search :: "bytes \<Rightarrow> bytes \<Rightarrow> bytes option option" where
  "co_search haystack needle =
     Option.bind (strip_visible (\<lambda>plain bs. plain @ bs) needle []) (\<lambda>nplain.
       if nplain = [] then Some (Some haystack)
       else map_option (map_option fst) (co_search_with_end haystack nplain))"

definition strip_sep :: "bytes \<Rightarrow> bytes option" where
  "strip_sep sep = strip_visible (wp_safe_list (LBUF_SIZE - 1)) sep []"

section \<open>Splitting\<close>

text \<open>Words as the byte ranges between \<open>word_starts\<close> and \<open>word_ends\<close>.\<close>

function skip_space_run :: "bytes \<Rightarrow> bytes" where
  "skip_space_run p =
     (if p = [] then []
      else (case co_skip_color p of
              [] \<Rightarrow> []
            | b # q \<Rightarrow> if b = SP then skip_space_run q else p))"
  by pat_completeness auto
termination
  by (relation "measure length") (auto dest: skip_Cons_length)

partial_function (option) find_space :: "bytes \<Rightarrow> bytes option" where
  "find_space dp =
     (if dp = [] then Some []
      else (let q = co_skip_color dp
            in if q = [] then Some []
               else if hd q = SP then Some q
               else find_space (fst (co_visible_advance q 1))))"

partial_function (option) split_space :: "nat \<Rightarrow> bytes \<Rightarrow> bytes list option" where
  "split_space room p =
     (if p = [] \<or> room = 0 then Some []
      else Option.bind (find_space p) (\<lambda>dp.
             Option.bind (split_space (room - 1) (skip_space_run dp)) (\<lambda>ws.
               Some (take (length p - length dp) p # ws))))"

fun split_sep :: "nat \<Rightarrow> bytes \<Rightarrow> bytes \<Rightarrow> bytes list option" where
  "split_sep 0 splain p = Some [p]"
| "split_sep (Suc room) splain p =
     Option.bind (co_search_with_end p splain) (\<lambda>r.
       (case r of
          None \<Rightarrow> Some [p]
        | Some (found, match_end) \<Rightarrow>
            Option.bind (split_sep room splain match_end) (\<lambda>ws.
              Some (take (length p - length found) p # ws))))"

definition co_split_words :: "bytes \<Rightarrow> bytes \<Rightarrow> nat \<Rightarrow> bytes list option" where
  "co_split_words data sep max_words =
     (if max_words = 0 \<or> data = [] then Some []
      else Option.bind (strip_sep sep) (\<lambda>splain.
             if splain = [SP] then split_space max_words (skip_space_run data)
             else split_sep (max_words - 1) splain data))"

section \<open>Trimming\<close>

definition is_trim_byte :: "byte \<Rightarrow> byte \<Rightarrow> bool" where
  "is_trim_byte trim_char b =
     (if trim_char = 0 then b = SP \<or> b = 0x09 else b = trim_char)"

text \<open>
  The left loop: \<open>start\<close> and the last color run seen.  When the loop runs out of
  input behind a trimmed character, \<open>start\<close> keeps the value \<open>data\<close> it had.
\<close>

function trim_left_loop ::
  "bytes \<Rightarrow> byte \<Rightarrow> bytes \<Rightarrow> bytes option \<Rightarrow> bytes \<times> bytes option" where
  "trim_left_loop data trim_char p color_prefix =
     (if p = [] then (data, color_prefix)
      else
        (let q = co_skip_color p;
             color_prefix = (if length q < length p then Some (take (length p - length q) p)
                             else color_prefix)
         in (case q of
               [] \<Rightarrow> ([], color_prefix)
             | b # r \<Rightarrow>
                 (if is_trim_byte trim_char b then trim_left_loop data trim_char r color_prefix
                  else (q, color_prefix)))))"
  by pat_completeness auto
termination
  by (relation "measure (\<lambda>(data, tc, p, cp). length p)") (auto dest: sym [THEN skip_Cons_length])

text \<open>The right loop: the position behind the last character that stays.\<close>

partial_function (option) trim_right_loop :: "byte \<Rightarrow> bytes \<Rightarrow> bytes \<Rightarrow> bytes option" where
  "trim_right_loop trim_char p last_nontrim_end =
     (if p = [] then Some last_nontrim_end
      else (let q = co_skip_color p
            in if q = [] then Some last_nontrim_end
               else (let after = fst (co_visible_advance q 1)
                     in trim_right_loop trim_char after
                          (if is_trim_byte trim_char (hd q) then last_nontrim_end else after))))"

definition co_trim :: "bytes \<Rightarrow> byte \<Rightarrow> nat \<Rightarrow> bytes option" where
  "co_trim data trim_char trim_flags =
     (let (start, color_prefix) =
            (if bit trim_flags 0 then trim_left_loop data trim_char data None else (data, None))
      in Option.bind
           (if bit trim_flags 1 then trim_right_loop trim_char start start else Some [])
           (\<lambda>end_rest.
              (let content = take (length start - length end_rest) start
               in if content = [] then Some []
                  else Some (wp_safe_copy lbuf_cap
                         (case color_prefix of None \<Rightarrow> [] | Some cp \<Rightarrow> wp_safe_copy lbuf_cap [] cp)
                         content))))"

text \<open>\<open>co_trim_pattern\<close>: cyclic matching of a byte pattern at both ends.\<close>

function trim_pattern_left :: "bytes \<Rightarrow> bytes \<Rightarrow> nat \<Rightarrow> nat" where
  "trim_pattern_left data pattern i =
     (if i < length data \<and> data ! i = pattern ! (i mod length pattern)
      then trim_pattern_left data pattern (i + 1) else i)"
  by pat_completeness auto
termination
  by (relation "measure (\<lambda>(data, pattern, i). length data - i)") auto

fun trim_pattern_right :: "bytes \<Rightarrow> bytes \<Rightarrow> nat \<Rightarrow> nat \<Rightarrow> nat \<Rightarrow> nat" where
  "trim_pattern_right data pattern start 0 dist = 0"
| "trim_pattern_right data pattern start (Suc i) dist =
     (if Suc i > start \<and> data ! i = pattern ! dist
      then trim_pattern_right data pattern start i (if dist > 0 then dist - 1 else length pattern - 1)
      else Suc i)"

definition co_trim_pattern :: "bytes \<Rightarrow> bytes \<Rightarrow> nat \<Rightarrow> bytes" where
  "co_trim_pattern data pattern trim_flags =
     (if data = [] \<or> pattern = [] then take (LBUF_SIZE - 1) data
      else
        (let start = (if bit trim_flags 0 then trim_pattern_left data pattern 0 else 0);
             end = (if bit trim_flags 1
                    then trim_pattern_right data pattern start (length data) (length pattern - 1)
                    else length data)
         in if end \<le> start then []
            else take (min (end - start) (LBUF_SIZE - 1)) (drop start data)))"

section \<open>Rewriting\<close>

partial_function (option) skip_seps :: "bytes \<Rightarrow> bytes \<Rightarrow> bytes option" where
  "skip_seps splain p =
     (if p = [] then Some p
      else Option.bind (co_search_with_end p splain) (\<lambda>r.
             (case r of
                None \<Rightarrow> Some p
              | Some (next, next_end) \<Rightarrow> if next \<noteq> p then Some p else skip_seps splain next_end)))"

partial_function (option) compress_str_loop :: "bytes \<Rightarrow> bytes \<Rightarrow> bytes \<Rightarrow> bytes \<Rightarrow> bytes option" where
  "compress_str_loop sep splain p out =
     (if p = [] \<or> length out \<ge> lbuf_cap then Some out
      else Option.bind (co_search_with_end p splain) (\<lambda>r.
             (case r of
                None \<Rightarrow> Some (wp_safe_copy lbuf_cap out p)
              | Some (found, match_end) \<Rightarrow>
                  Option.bind (skip_seps splain match_end) (\<lambda>p'.
                    compress_str_loop sep splain p'
                      (let out = wp_safe_copy lbuf_cap out (take (length p - length found) p)
                       in if length sep \<le> lbuf_cap - length out
                          then wp_safe_copy lbuf_cap out sep else out)))))"

definition co_compress_str :: "bytes \<Rightarrow> bytes \<Rightarrow> bytes option" where
  "co_compress_str data sep =
     Option.bind (strip_sep sep) (\<lambda>splain.
       if splain = [] then Some (take (LBUF_SIZE - 1) data)
       else compress_str_loop sep splain data [])"

partial_function (option) compress_loop :: "byte \<Rightarrow> bool \<Rightarrow> bytes \<Rightarrow> bytes \<Rightarrow> bytes option" where
  "compress_loop compress_char in_run p out =
     (if p = [] \<or> length out \<ge> lbuf_cap then Some out
      else
        (let q = co_skip_color p;
             out = (if in_run then out
                    else wp_safe_list lbuf_cap out (take (length p - length q) p))
         in if q = [] then Some out
            else if is_trim_byte compress_char (hd q) then
              compress_loop compress_char True (tl q)
                (if in_run then out else WP_SAFE lbuf_cap out (hd q))
            else
              (let after = fst (co_visible_advance q 1)
               in compress_loop compress_char False after
                    (wp_safe_list lbuf_cap out (take (length q - length after) q)))))"

definition co_compress :: "bytes \<Rightarrow> byte \<Rightarrow> bytes option" where
  "co_compress data compress_char = compress_loop compress_char False data []"

partial_function (option) edit_loop ::
  "bytes \<Rightarrow> bytes \<Rightarrow> nat \<Rightarrow> bytes \<Rightarrow> bytes \<Rightarrow> bytes option" where
  "edit_loop from to fvis p out =
     (if p = [] \<or> length out \<ge> lbuf_cap then Some out
      else Option.bind (co_search p from) (\<lambda>r.
             (case r of
                None \<Rightarrow> Some (wp_safe_copy lbuf_cap out p)
              | Some m \<Rightarrow>
                  edit_loop from to fvis (co_skip_color (fst (co_visible_advance m fvis)))
                    (wp_safe_copy lbuf_cap
                      (wp_safe_copy lbuf_cap out (take (length p - length m) p)) to))))"

definition co_edit :: "bytes \<Rightarrow> bytes \<Rightarrow> bytes \<Rightarrow> bytes option" where
  "co_edit str from to =
     (if from = [] \<or> co_strip_color from = [] then Some (take (LBUF_SIZE - 1) str)
      else edit_loop from to (co_visible_length from) str [])"

text \<open>\<open>snprintf\<close> of a \<open>%zu\<close>.\<close>

fun decimal :: "nat \<Rightarrow> bytes" where
  "decimal n = (if n < 10 then [0x30 + of_nat n] else decimal (n div 10) @ [0x30 + of_nat (n mod 10)])"

declare decimal.simps [simp del]

partial_function (option) lpos_loop :: "byte \<Rightarrow> bytes \<Rightarrow> nat \<Rightarrow> bool \<Rightarrow> bytes \<Rightarrow> bytes option" where
  "lpos_loop pattern p vis_idx first out =
     (if p = [] then Some out
      else
        (let q = co_skip_color p
         in if q = [] then Some out
            else if hd q < 0x80 \<and> hd q = pattern then
              lpos_loop pattern (fst (co_visible_advance q 1)) (vis_idx + 1) False
                (wp_safe_copy lbuf_cap (if first then out else WP_SAFE lbuf_cap out SP) (decimal vis_idx))
            else lpos_loop pattern (fst (co_visible_advance q 1)) (vis_idx + 1) first out))"

definition co_lpos :: "bytes \<Rightarrow> byte \<Rightarrow> bytes option" where
  "co_lpos data pattern = lpos_loop pattern data 0 True []"

text \<open>
  \<open>co_reverse\<close> writes every element straight to its place, so its output buffer is a
  list of \<open>LBUF_SIZE\<close> bytes with whatever contents the caller left in it.
\<close>

definition buf_write :: "bytes \<Rightarrow> nat \<Rightarrow> bytes \<Rightarrow> bytes" where
  "buf_write buf dst src =
     (let n = min (length src) (lbuf_cap - dst)
      in take dst buf @ take n src @ drop (dst + n) buf)"

partial_function (option) reverse_loop :: "nat \<Rightarrow> bytes \<Rightarrow> bytes \<Rightarrow> bytes option" where
  "reverse_loop leading_len p buf =
     (if p = [] then Some buf
      else
        (let q = co_skip_color p;
             elem_end = (if q = [] then [] else fst (co_visible_advance q 1));
             dst = leading_len + length elem_end;
             buf = (if dst < lbuf_cap then buf_write buf dst (take (length p - length elem_end) p)
                    else buf)
         in if q = [] then Some buf else reverse_loop leading_len elem_end buf))"

definition co_reverse :: "bytes \<Rightarrow> bytes \<Rightarrow> bytes option" where
  "co_reverse buf data =
     (let leading_end = co_skip_color data;
          leading_len = length data - length leading_end;
          buf = (if leading_len > 0 then buf_write buf 0 (take leading_len data) else buf)
      in map_option (take (min (length data) lbuf_cap)) (reverse_loop leading_len leading_end buf))"


section \<open>Stepping over text\<close>

lemma vis_split:
  obtains (color) "list_all color_cp ts"
    | (vis) cs t us where "ts = cs @ t # us" "list_all color_cp cs" "\<not> color_cp t"
proof (cases "dropWhile color_cp ts")
  case Nil
  then show ?thesis by (intro color) (auto simp: list_all_iff dropWhile_eq_Nil_conv)
next
  case (Cons t us)
  show ?thesis
  proof (rule vis)
    show "ts = takeWhile color_cp ts @ t # us" by (metis Cons takeWhile_dropWhile_id)
    show "list_all color_cp (takeWhile color_cp ts)" by (auto simp: list_all_iff dest: set_takeWhileD)
    show "\<not> color_cp t" using Cons by (simp add: dropWhile_eq_Cons_conv)
  qed
qed

lemma vis_induct [case_names color vis]:
  assumes "\<And>cs. list_all color_cp cs \<Longrightarrow> P cs"
    and "\<And>cs t us. list_all color_cp cs \<Longrightarrow> \<not> color_cp t \<Longrightarrow> P us \<Longrightarrow> P (cs @ t # us)"
  shows "P ts"
proof (induction "length ts" arbitrary: ts rule: less_induct)
  case less
  show ?case
  proof (cases rule: vis_split [of ts])
    case color
    then show ?thesis by (rule assms(1))
  next
    case (vis cs t us)
    then have "P us" by (intro less) simp
    with vis show ?thesis by (simp add: assms(2))
  qed
qed

lemma skip_colors: "text_cps cs \<Longrightarrow> list_all color_cp cs \<Longrightarrow> co_skip_color (concat cs @ r) = co_skip_color r"
proof (induction cs)
  case (Cons c cs)
  then show ?case by (simp add: co_skip_color_color del: co_skip_color.simps)
qed simp

lemma skip_colors_Nil: "text_cps cs \<Longrightarrow> list_all color_cp cs \<Longrightarrow> co_skip_color (concat cs) = []"
  using skip_colors [of cs "[]"] by simp

lemma advance_vis:
  "utf8_cp t \<Longrightarrow> \<not> color_cp t \<Longrightarrow> fst (co_visible_advance (t @ r) (Suc 0)) = r"
  using visible_advance_run_path [OF vam.scan_cp, of t 1 0 r] by (simp add: co_visible_advance_def)

lemma vis_cps_colors: "list_all color_cp cs \<Longrightarrow> vis_cps cs = []"
  by (simp add: list_all_iff)

lemma drop_vis_colors: "list_all color_cp cs \<Longrightarrow> 0 < n \<Longrightarrow> drop_vis n (cs @ ts) = drop_vis n ts"
  by (induction cs) (auto simp: gr0_conv_Suc)

lemma take_vis_colors: "list_all color_cp cs \<Longrightarrow> 0 < n \<Longrightarrow> take_vis n (cs @ ts) = cs @ take_vis n ts"
  by (induction cs) (auto simp: gr0_conv_Suc)

lemma utf8_neq_Nil: "utf8_cp t \<Longrightarrow> t \<noteq> []"
  by auto

lemma concat_text_Nil: "text_cps ts \<Longrightarrow> concat ts = [] \<longleftrightarrow> ts = []"
  by (cases ts) auto

lemma take_length_append: "take (length xs) (xs @ ys) = xs"
  by simp

lemmas vis_step = skip_colors co_skip_color_visible advance_vis vis_cps_colors utf8_neq_Nil

definition stray :: "byte \<Rightarrow> bool" where
  "stray b \<longleftrightarrow> b = 0 \<or> 0x80 \<le> b \<and> b \<le> 0xC1 \<or> 0xF5 \<le> b"

lemma stray_dead: "stray b \<Longrightarrow> visible_length_next St12 b = (St0, False)"
  unfolding visible_length_next_St12 by (auto simp: stray_def word_nat_simps)

lemma stray_stuck:
  assumes "stray b"
  shows "co_skip_color (b # r) = b # r" "fst (co_visible_advance (b # r) (Suc 0)) = b # r"
proof -
  have "b \<noteq> 0xEF" "b \<noteq> 0xF3" using assms by (auto simp: stray_def)
  then show "co_skip_color (b # r) = b # r" by (rule co_skip_color_lead)
  show "fst (co_visible_advance (b # r) (Suc 0)) = b # r"
    using stray_dead [OF assms]
    by (simp add: co_visible_advance_def visible_advance_next_def del: visible_length_next.simps)
qed

section \<open>Positions\<close>

lemma co_left_text: "text_cps ts \<Longrightarrow> co_left (concat ts) n = take lbuf_cap (concat (take_vis n ts))"
  by (simp add: co_left_def co_copy_visible_text)

lemma drop_vis_all: "length (vis_cps ts) \<le> n \<Longrightarrow> n > 0 \<Longrightarrow> vis_cps (drop_vis n ts) = []"
  by (simp add: vis_drop_vis)

lemma co_right_text:
  "text_cps ts \<Longrightarrow>
     co_right (concat ts) n = take lbuf_cap (concat (drop_vis (length (vis_cps ts) - n) ts))"
  by (simp add: co_right_def raw_copy_take co_visible_advance_text Let_def)

lemma co_mid_text:
  "text_cps ts \<Longrightarrow>
     co_mid (concat ts) i n = take lbuf_cap (concat (take_vis n (drop_vis i ts)))"
  using co_copy_visible_text [OF text_drop_vis, of ts i n] co_copy_visible_text [of ts n]
  by (simp add: co_mid_def co_visible_advance_text)

lemma delete_skip_text:
  "text_cps ts \<Longrightarrow> 0 < n \<Longrightarrow> co_skip_color (delete_skip n (concat ts)) = concat (dropWhile color_cp (drop_vis n ts))"
proof (induction n arbitrary: ts)
  case (Suc n)
  show ?case
  proof (cases rule: vis_split [of ts])
    case color
    then have "dropWhile color_cp (drop_vis (Suc n) ts) = []"
      using drop_vis_colors [of ts "Suc n" "[]"] by simp
    moreover have "co_skip_color (concat ts) = []" using color Suc by (simp add: skip_colors_Nil)
    ultimately show ?thesis
      by (simp del: concat_eq_Nil_conv dropWhile_eq_Nil_conv)
  next
    case (vis cs t us)
    then have "delete_skip (Suc n) (concat ts) = delete_skip n (concat us)"
      using Suc.prems by (simp add: vis_step Let_def)
    moreover have "drop_vis (Suc n) ts = drop_vis n us"
      using vis by (simp add: drop_vis_colors)
    ultimately show ?thesis
      using Suc vis by (cases "n = 0") (auto simp: co_skip_color_text)
  qed
qed simp

lemma co_delete_text:
  assumes "text_cps ts"
  shows "co_delete (concat ts) i n = take lbuf_cap
    (if n = 0 then concat ts
     else concat (take_vis i ts) @ concat (dropWhile color_cp (drop_vis n (drop_vis i ts))))"
proof (cases "n = 0")
  case False
  have "co_skip_color (delete_skip n (concat (drop_vis i ts))) =
      concat (dropWhile color_cp (drop_vis n (drop_vis i ts)))"
    using assms False by (intro delete_skip_text text_drop_vis) auto
  with assms False show ?thesis
    using co_copy_visible_text [of ts i]
      wp_safe_copy_take_take [of lbuf_cap "concat (take_vis i ts)"
        "concat (dropWhile color_cp (drop_vis n (drop_vis i ts)))"]
    by (cases "i = 0") (simp_all add: co_delete_def Let_def co_visible_advance_text
        del: take_append concat_eq_Nil_conv)
qed (simp add: co_delete_def LBUF_SIZE_cap)

lemma vis_dropWhile_color: "vis_cps (dropWhile color_cp ts) = vis_cps ts"
  by (induction ts) auto

lemma co_repeat_length: "length (co_repeat data n) \<le> lbuf_cap"
proof (cases "n = 0 \<or> data = [] \<or> n > lbuf_cap div length data")
  case False
  then have "n * length data \<le> lbuf_cap"
    by (metis div_times_less_eq_dividend le_trans mult_le_mono1 not_less)
  then show ?thesis by (simp add: co_repeat_def length_concat sum_list_replicate LBUF_SIZE_cap)
qed (auto simp: co_repeat_def LBUF_SIZE_cap)

lemma co_repeat_spec:
  "co_repeat data n =
     (if n * length data \<le> lbuf_cap then concat (replicate n data) else [])"
proof (cases "n = 0 \<or> data = []")
  case False
  then have "n > lbuf_cap div length data \<longleftrightarrow> lbuf_cap < n * length data"
    using div_less_iff_less_mult [of "length data" lbuf_cap n] by simp
  with False show ?thesis by (auto simp: co_repeat_def LBUF_SIZE_cap)
qed (auto simp: co_repeat_def)

section \<open>Search\<close>

lemma strip_visible_text:
  "text_cps ts \<Longrightarrow> strip_visible put (concat ts) acc = Some (foldl put acc (vis_cps ts))"
proof (induction ts arbitrary: acc rule: vis_induct)
  case (color cs)
  then show ?case
    by (subst strip_visible.simps) (simp add: skip_colors_Nil vis_cps_colors del: concat_eq_Nil_conv)
next
  case (vis cs t us)
  then have "strip_visible put (concat (cs @ t # us)) acc = strip_visible put (concat us) (put acc t)"
    by (subst strip_visible.simps) (simp add: vis_step)
  with vis show ?case by (simp add: vis_cps_colors)
qed

lemma strip_sep_text: "text_cps ts \<Longrightarrow> strip_sep (concat ts) = Some (take lbuf_cap (concat (vis_cps ts)))"
proof -
  have "foldl (wp_safe_list lbuf_cap) (take lbuf_cap acc) xs = take lbuf_cap (acc @ concat xs)" for acc xs
    by (induction xs arbitrary: acc) (simp_all add: wp_safe_list_take del: take_append)
  from this [of "[]"] show "text_cps ts \<Longrightarrow> ?thesis"
    by (simp add: strip_sep_def strip_visible_text LBUF_SIZE_cap)
qed

lemma foldl_append_concat: "foldl (\<lambda>acc x. acc @ x) acc xs = acc @ concat xs"
  by (induction xs arbitrary: acc) auto

text \<open>The bytes of a code point are decided by the first one and its continuations.\<close>

lemma utf8_cp_same_length: "utf8_cp (a # u) \<Longrightarrow> utf8_cp (a # v) \<Longrightarrow> length u = length v"
  by (cases "a # u" rule: utf8_cp.cases; cases "a # v" rule: utf8_cp.cases)
    (auto simp: utf8_cont_def word_nat_simps)

lemma utf8_cp_tail: "utf8_cp (a # u) \<Longrightarrow> \<forall>b \<in> set u. utf8_cont b"
  by (cases "a # u" rule: utf8_cp.cases) (auto simp: utf8_cont_def word_nat_simps)

lemma match_visible_cont:
  assumes "length u = length v" "\<forall>b \<in> set u. utf8_cont b"
  shows "match_visible (u @ r) (v @ bs) = (if u = v then match_visible r bs else None)"
  using assms
proof (induction u v rule: list_induct2)
  case (Cons x xs y ys)
  then have "x \<noteq> 0xEF" "x \<noteq> 0xF3" by (auto simp: utf8_cont_def)
  with Cons show ?case by (auto simp: co_skip_color_lead)
qed simp

lemma match_visible_cp:
  assumes "utf8_cp t" "\<not> color_cp t" "utf8_cp n"
  shows "match_visible (t @ r) (n @ bs) = (if t = n then match_visible r bs else None)"
proof -
  obtain a u a' v where tn: "t = a # u" "n = a' # v"
    using assms by (metis list.exhaust utf8_cp_nonempty)
  have s: "co_skip_color (a # u @ r) = a # u @ r"
    using co_skip_color_visible [OF assms(1,2), of r] tn by simp
  show ?thesis
  proof (cases "a = a'")
    case True
    with assms tn have "length u = length v" "\<forall>b \<in> set u. utf8_cont b"
      using utf8_cp_same_length utf8_cp_tail by blast+
    with match_visible_cont [of u v r bs] s tn True show ?thesis by simp
  qed (use s tn in simp)
qed

lemma match_visible_colors:
  assumes "text_cps cs" "list_all color_cp cs" "nplain \<noteq> []"
  shows "match_visible (concat cs @ r) nplain = match_visible r nplain"
  using assms skip_colors [OF assms(1,2), of r]
  by (cases nplain) (auto split: list.split simp del: concat_eq_Nil_conv)

lemma match_visible_text:
  "text_cps ts \<Longrightarrow> text_cps ns \<Longrightarrow> list_all (\<lambda>n. \<not> color_cp n) ns \<Longrightarrow>
     match_visible (concat ts) (concat ns) =
       (if prefix ns (vis_cps ts) then Some (concat (drop_vis (length ns) ts)) else None)"
proof (induction ns arbitrary: ts)
  case (Cons n ns)
  then have n: "utf8_cp n" "\<not> color_cp n" "n @ concat ns \<noteq> []" "list_all (\<lambda>n. \<not> color_cp n) ns"
    by auto
  show ?case
  proof (cases rule: vis_split [of ts])
    case color
    then have "match_visible (concat ts) (concat (n # ns)) = match_visible [] (concat (n # ns))"
      using match_visible_colors [of ts "concat (n # ns)" "[]"] Cons.prems n by simp
    also have "\<dots> = None" using n by (cases "n @ concat ns") auto
    finally show ?thesis using color by (simp add: vis_cps_colors)
  next
    case (vis cs t us)
    then have "match_visible (concat ts) (concat (n # ns)) = match_visible (t @ concat us) (n @ concat ns)"
      using match_visible_colors [of cs "concat (n # ns)" "t @ concat us"] Cons.prems n by simp
    also have "\<dots> = (if t = n then match_visible (concat us) (concat ns) else None)"
      using Cons.prems vis n by (intro match_visible_cp) auto
    finally show ?thesis
      using Cons.IH [of us] Cons.prems vis n by (auto simp: vis_cps_colors drop_vis_colors)
  qed
qed simp

text \<open>The leftmost occurrence, colors ignored.\<close>

fun first_match :: "bytes list \<Rightarrow> bytes list \<Rightarrow> bytes list option" where
  "first_match ns [] = None"
| "first_match ns (t # ts) =
     (if \<not> color_cp t \<and> prefix ns (vis_cps (t # ts)) then Some (t # ts) else first_match ns ts)"

lemma first_match_colors: "list_all color_cp cs \<Longrightarrow> first_match ns (cs @ ts) = first_match ns ts"
  by (induction cs) auto

lemma first_match_suffix: "first_match ns ts = Some us \<Longrightarrow> suffix us ts"
  by (induction ts) (auto split: if_splits intro: suffix_ConsI)

lemma first_match_prefix: "first_match ns ts = Some us \<Longrightarrow> prefix ns (vis_cps us)"
  by (induction ts) (auto split: if_splits)

lemma first_match_None: "ns \<noteq> [] \<Longrightarrow> first_match ns ts = None \<longleftrightarrow> \<not> sublist ns (vis_cps ts)"
  by (induction ts) (auto simp: sublist_Cons_right)

lemma co_search_with_end_text:
  "text_cps ts \<Longrightarrow> text_cps ns \<Longrightarrow> list_all (\<lambda>n. \<not> color_cp n) ns \<Longrightarrow>
     co_search_with_end (concat ts) (concat ns) =
       Some (map_option (\<lambda>us. (concat us, concat (drop_vis (length ns) us))) (first_match ns ts))"
proof (induction ts rule: vis_induct)
  case (color cs)
  then show ?case
    using first_match_colors [of cs ns "[]"]
    by (subst co_search_with_end.simps) (simp add: skip_colors_Nil del: concat_eq_Nil_conv)
next
  case (vis cs t us)
  have m: "match_visible (t @ concat us) (concat ns) =
      (if prefix ns (t # vis_cps us) then Some (concat (drop_vis (length ns) (t # us))) else None)"
    using match_visible_text [of "t # us" ns] vis by simp
  show ?case
  proof (cases "prefix ns (t # vis_cps us)")
    case True
    with vis m show ?thesis
      by (subst co_search_with_end.simps) (simp add: vis_step first_match_colors)
  next
    case False
    with vis m show ?thesis
      by (subst co_search_with_end.simps) (simp add: vis_step first_match_colors)
  qed
qed

lemma text_vis_cps: "text_cps ts \<Longrightarrow> text_cps (vis_cps ts)"
  and vis_vis_cps: "list_all (\<lambda>t. \<not> color_cp t) (vis_cps ts)"
  by (auto simp: list_all_iff)

lemma co_search_text:
  assumes "text_cps ts" "text_cps ns" "vis_cps ns \<noteq> []"
  shows "co_search (concat ts) (concat ns) = Some (map_option concat (first_match (vis_cps ns) ts))"
proof -
  have "concat (vis_cps ns) \<noteq> []"
    using assms(2,3) by (auto simp: list_all_iff filter_empty_conv) (metis utf8_cp_nonempty)
  then show ?thesis
    using assms co_search_with_end_text [of ts "vis_cps ns"]
    by (simp add: co_search_def strip_visible_text foldl_append_concat text_vis_cps vis_vis_cps option.map_comp o_def
        del: concat_eq_Nil_conv)
qed

text \<open>A byte that starts no code point stops the search for good.\<close>

lemma strip_visible_stuck: "stray b \<Longrightarrow> strip_visible put (b # r) acc = None"
proof -
  have "\<forall>b r. np = b # r \<longrightarrow> \<not> stray b" if "strip_visible put np acc = Some y" for np y
    by (rule strip_visible.raw_induct [OF _ that]) (auto simp: Let_def stray_stuck split: if_splits)
  then show "stray b \<Longrightarrow> ?thesis" by (metis not_Some_eq)
qed

lemma search_stuck:
  assumes "stray b" "match_visible (b # r) nplain = None"
  shows "co_search_with_end (b # r) nplain = None"
proof -
  have "np = nplain \<longrightarrow> hp \<noteq> b # r" if "co_search_with_end hp np = Some y" for hp np y
    by (rule co_search_with_end.raw_induct [OF _ that])
      (use assms in \<open>fastforce simp: Let_def stray_stuck split: if_splits option.splits\<close>)
  then show ?thesis by (metis not_Some_eq)
qed

section \<open>Trim\<close>

definition trim_cp :: "byte \<Rightarrow> bytes \<Rightarrow> bool" where
  "trim_cp c t \<longleftrightarrow> (if c = 0 then t = [SP] \<or> t = [0x09] else t = [c])"

lemma hd_ascii_iff: "utf8_cp t \<Longrightarrow> d \<le> 0x7F \<Longrightarrow> hd t = d \<longleftrightarrow> t = [d]"
  by (cases t rule: utf8_cp.cases) (auto simp: word_nat_simps)

lemma is_trim_byte_hd:
  assumes "utf8_cp t" "c \<le> 0x7F"
  shows "is_trim_byte c (hd t) \<longleftrightarrow> trim_cp c t"
  using hd_ascii_iff [OF assms] hd_ascii_iff [OF assms(1), of SP] hd_ascii_iff [OF assms(1), of 9]
  by (auto simp: is_trim_byte_def trim_cp_def)

lemma trim_cp_vis: "trim_cp c t \<Longrightarrow> \<not> color_cp t"
  by (auto simp: trim_cp_def split: if_splits)

abbreviation trimmed :: "byte \<Rightarrow> bytes \<Rightarrow> bool" where
  "trimmed c t \<equiv> color_cp t \<or> trim_cp c t"

text \<open>The last run of color code points.\<close>

definition color_run :: "bytes list \<Rightarrow> bytes list" where
  "color_run ts = rev (takeWhile color_cp (dropWhile (\<lambda>t. \<not> color_cp t) (rev ts)))"

definition trim_tail :: "byte \<Rightarrow> bytes list \<Rightarrow> bytes list" where
  "trim_tail c ts = rev (dropWhile (trimmed c) (rev ts))"

lemma color_run_colors: "list_all color_cp cs \<Longrightarrow> color_run cs = cs"
proof -
  assume cs: "list_all color_cp cs"
  then have "dropWhile (\<lambda>t. \<not> color_cp t) (rev cs) = rev cs"
    by (cases cs rule: rev_cases) auto
  moreover have "takeWhile color_cp (rev cs) = rev cs"
    using cs by (subst takeWhile_eq_all_conv) (auto simp: list_all_iff)
  ultimately show ?thesis by (simp only: color_run_def rev_rev_ident)
qed

lemma color_run_vis:
  assumes "list_all color_cp cs" "\<not> color_cp t"
  shows "color_run (cs @ t # us) = (if color_run us = [] then cs else color_run us)"
proof (cases "\<exists>u \<in> set us. color_cp u")
  case True
  then obtain y ys where "dropWhile (\<lambda>t. \<not> color_cp t) (rev us) = y # ys" "color_cp y"
    by (cases "dropWhile (\<lambda>t. \<not> color_cp t) (rev us)") (auto simp: dropWhile_eq_Cons_conv dropWhile_eq_Nil_conv)
  then have "color_run us \<noteq> []" by (simp add: color_run_def)
  moreover have "dropWhile (\<lambda>t. \<not> color_cp t) (rev us @ t # rev cs) =
      dropWhile (\<lambda>t. \<not> color_cp t) (rev us) @ t # rev cs"
    using True by (auto simp: dropWhile_append)
  moreover have "takeWhile color_cp (xs @ t # rev cs) = takeWhile color_cp xs" for xs
    using assms(2) by (induction xs) auto
  ultimately show ?thesis by (simp add: color_run_def)
next
  case False
  then have e: "dropWhile (\<lambda>t. \<not> color_cp t) (rev us) = []" by simp
  then have "dropWhile (\<lambda>t. \<not> color_cp t) (rev us @ t # rev cs) = dropWhile (\<lambda>t. \<not> color_cp t) (rev cs)"
    using assms(2) by (simp add: dropWhile_append)
  then have "color_run (cs @ t # us) = color_run cs" by (simp add: color_run_def)
  moreover have "color_run us = []" by (simp only: color_run_def e takeWhile.simps rev.simps)
  ultimately show ?thesis using color_run_colors [OF assms(1)] by simp
qed

declare trim_left_loop.simps [simp del]

lemma takeWhile_trim_colors:
  assumes "list_all color_cp cs"
  shows "takeWhile (trimmed c) (cs @ ts) = cs @ takeWhile (trimmed c) ts"
    and "dropWhile (trimmed c) (cs @ ts) = dropWhile (trimmed c) ts"
  using assms by (induction cs) auto

lemma prefix_of_colors:
  "text_cps cs \<Longrightarrow> length r < length (concat cs @ r) \<longleftrightarrow> cs \<noteq> []"
  by (cases cs) auto

lemma trim_left_text:
  "text_cps ts \<Longrightarrow> c \<le> 0x7F \<Longrightarrow> dropWhile (trimmed c) ts \<noteq> [] \<Longrightarrow>
     trim_left_loop data c (concat ts) cp =
       (concat (dropWhile (trimmed c) ts),
        let run = color_run (takeWhile (trimmed c) ts)
        in if run = [] then cp else Some (concat run))"
proof (induction ts arbitrary: cp rule: vis_induct)
  case (color cs)
  then show ?case by (simp add: list_all_iff dropWhile_eq_Nil_conv)
next
  case (vis cs t us)
  let ?cp = "if cs = [] then cp else Some (concat cs)"
  have t: "utf8_cp t" "t \<noteq> []" "t \<noteq> [] \<longrightarrow> hd (t @ concat us) = hd t" using vis.prems by auto
  obtain b q where bq: "t = b # q" using t(2) by (cases t) auto
  have q: "trim_cp c t \<Longrightarrow> q = []" using bq by (auto simp: trim_cp_def split: if_splits)
  have b: "is_trim_byte c b \<longleftrightarrow> trim_cp c t" using is_trim_byte_hd [OF t(1) vis.prems(2)] bq by simp
  have pc: "length (t @ concat us) < length (concat cs @ t @ concat us) \<longleftrightarrow> cs \<noteq> []"
    using vis.prems prefix_of_colors [of cs "t @ concat us"] by simp
  have sk: "co_skip_color (concat cs @ t @ concat us) = b # q @ concat us"
    using vis bq by (simp add: skip_colors co_skip_color_visible [where t = "b # q", simplified])
  have step: "trim_left_loop data c (concat (cs @ t # us)) cp =
      (if trim_cp c t then trim_left_loop data c (concat us) ?cp else (t @ concat us, ?cp))"
  proof -
    have "take (length (concat cs @ t @ concat us) - length (t @ concat us)) (concat cs @ t @ concat us) = concat cs"
      by simp
    then show ?thesis
      using sk b q pc t(2) unfolding bq
      by (subst trim_left_loop.simps)
        (auto simp add: Let_def simp del: length_concat length_append list.size concat_eq_Nil_conv
          co_skip_color.simps take_append)
  qed
  show ?case
  proof (cases "trim_cp c t")
    case True
    with vis have "dropWhile (trimmed c) us \<noteq> []" by (simp add: takeWhile_trim_colors)
    with vis True step color_run_vis [of cs t "takeWhile (trimmed c) us"] show ?thesis
      by (simp add: takeWhile_trim_colors Let_def)
  next
    case False
    with vis step show ?thesis
      by (simp add: takeWhile_trim_colors color_run_colors Let_def)
  qed
qed

lemma trim_left_all:
  "text_cps ts \<Longrightarrow> c \<le> 0x7F \<Longrightarrow> list_all (trimmed c) ts \<Longrightarrow>
     fst (trim_left_loop data c (concat ts) cp) =
       (if ts = [] \<or> \<not> color_cp (last ts) then data else [])"
proof (induction ts arbitrary: cp rule: vis_induct)
  case (color cs)
  show ?case
  proof (cases "cs = []")
    case True
    then show ?thesis by (subst trim_left_loop.simps) simp
  next
    case False
    then have "concat cs \<noteq> []" "color_cp (last cs)"
      using color by (cases cs; force simp: list_all_iff)+
    with color show ?thesis
      by (subst trim_left_loop.simps) (simp add: skip_colors_Nil Let_def False del: concat_eq_Nil_conv)
  qed
next
  case (vis cs t us)
  then have tr: "trim_cp c t" "list_all (trimmed c) us" by auto
  then obtain b where b: "t = [b]" "is_trim_byte c b"
    using is_trim_byte_hd [of t c] vis.prems by (auto simp: trim_cp_def split: if_splits)
  have sk: "co_skip_color (concat cs @ b # concat us) = b # concat us"
    using vis b co_skip_color_visible [of t "concat us"] by (simp add: skip_colors)
  obtain cp' where "trim_left_loop data c (concat (cs @ t # us)) cp = trim_left_loop data c (concat us) cp'"
    using trim_left_loop.simps [of data c "concat (cs @ t # us)" cp] b sk by (auto simp: Let_def)
  with vis tr show ?case by auto
qed

lemma trim_tail_vis:
  assumes "\<not> color_cp t"
  shows "trim_tail c (cs @ t # us) =
    (if trim_tail c us = [] then if trim_cp c t then trim_tail c cs else cs @ [t]
     else cs @ t # trim_tail c us)"
  using assms by (auto simp: trim_tail_def dropWhile_append)

lemma trim_tail_colors: "list_all color_cp cs \<Longrightarrow> trim_tail c cs = []"
  by (simp add: trim_tail_def list_all_iff)

lemma trim_tail_prefix: "\<exists>us. ts = trim_tail c ts @ us"
  using takeWhile_dropWhile_id [of "trimmed c" "rev ts"] unfolding trim_tail_def
  by (metis rev_append rev_rev_ident)

lemma trim_right_text:
  "text_cps ts \<Longrightarrow> c \<le> 0x7F \<Longrightarrow>
     trim_right_loop c (concat ts) l =
       Some (if trim_tail c ts = [] then l else concat (drop (length (trim_tail c ts)) ts))"
proof (induction ts arbitrary: l rule: vis_induct)
  case (color cs)
  then show ?case
    by (subst trim_right_loop.simps)
      (simp add: skip_colors_Nil trim_tail_colors del: concat_eq_Nil_conv)
next
  case (vis cs t us)
  have "trim_right_loop c (concat (cs @ t # us)) l =
      trim_right_loop c (concat us) (if trim_cp c t then l else concat us)"
    using vis is_trim_byte_hd [of t c] by (subst trim_right_loop.simps) (simp add: vis_step)
  with vis trim_tail_vis [of t c cs us] show ?case by (simp add: trim_tail_colors)
qed

lemma trim_tail_dropWhile_nonempty:
  assumes "dropWhile (trimmed c) ts \<noteq> []"
  shows "trim_tail c (dropWhile (trimmed c) ts) \<noteq> []"
proof -
  have "\<not> trimmed c (hd (dropWhile (trimmed c) ts))" using assms by (rule hd_dropWhile)
  then show ?thesis
    using hd_in_set [OF assms] unfolding trim_tail_def rev_is_Nil_conv dropWhile_eq_Nil_conv set_rev by blast
qed

lemma bit_3: "bit (3 :: nat) 0" "bit (3 :: nat) 1" "bit (3 :: nat) (Suc 0)" "bit (Suc 0) 0"
  by (simp_all add: bit_iff_odd)

lemma co_trim_both:
  assumes "text_cps ts" "c \<le> 0x7F"
  shows "co_trim (concat ts) c 3 =
    Some (take lbuf_cap (concat
      (let lead = takeWhile (trimmed c) ts; body = trim_tail c (dropWhile (trimmed c) ts)
       in if body = [] then [] else color_run lead @ body)))"
proof (cases "dropWhile (trimmed c) ts = []")
  case True
  then have all: "trim_tail c ts = []" by (simp add: trim_tail_def)
  obtain st cp where st: "trim_left_loop (concat ts) c (concat ts) None = (st, cp)" by fastforce
  with trim_left_all [OF assms, of "concat ts" None] True have "st = concat ts \<or> st = []"
    by (auto simp: list_all_iff split: if_splits)
  then have "trim_right_loop c st st = Some st"
    using trim_right_text [OF assms, of st] all trim_right_text [of "[]" c st] assms(2)
    by (auto simp: trim_tail_def)
  with st True show ?thesis by (simp add: co_trim_def trim_tail_def bit_3 del: dropWhile_eq_Nil_conv concat_eq_Nil_conv)
next
  case False
  define us where "us = dropWhile (trimmed c) ts"
  define run where "run = color_run (takeWhile (trimmed c) ts)"
  define body where "body = trim_tail c us"
  have us: "text_cps us" unfolding us_def using assms(1) by (rule text_dropWhile)
  have ne: "body \<noteq> []" unfolding body_def us_def using False by (rule trim_tail_dropWhile_nonempty)
  obtain vs where vs: "us = body @ vs" using trim_tail_prefix [of us c] by (auto simp: body_def)
  have r: "trim_right_loop c (concat us) (concat us) = Some (concat vs)"
    using trim_right_text [OF us assms(2), of "concat us"] ne unfolding body_def [symmetric] by (simp add: vs)
  have body: "take (length (concat us) - length (concat vs)) (concat us) = concat body"
    by (simp add: vs)
  have bne: "concat body \<noteq> []"
    using ne us concat_text_Nil [of body] by (simp add: vs)
  have out0: "wp_safe_copy lbuf_cap [] ys = take lbuf_cap ys" for ys
    using wp_safe_copy_take_take [of lbuf_cap "[]" ys] by simp
  have l: "trim_left_loop (concat ts) c (concat ts) None =
      (concat us, if run = [] then None else Some (concat run))"
    using trim_left_text [OF assms False, of "concat ts" None] by (simp add: us_def run_def Let_def)
  have "co_trim (concat ts) c 3 = Some (take lbuf_cap (concat run @ concat body))"
    using r body bne
    by (cases "run = []") (simp_all add: co_trim_def l bit_3 out0 wp_safe_copy_take_take
        del: concat_eq_Nil_conv take_append take_eq_Nil)
  then show ?thesis
    using ne by (simp add: Let_def us_def [symmetric] body_def [symmetric] run_def [symmetric] del: take_append)
qed

text \<open>
  The left trim alone: the left loop leaves \<open>start\<close> at \<open>data\<close> when the string ends
  in a trimmed character, so a string of nothing but them is not trimmed at all.
\<close>

lemma trim_left_plain:
  assumes "text_cps ts" "c \<le> 0x7F" "list_all (trim_cp c) ts"
  shows "trim_left_loop data c (concat ts) None = (data, None)"
  using assms
proof (induction ts)
  case Nil
  then show ?case by (subst trim_left_loop.simps) simp
next
  case (Cons t ts)
  then obtain b where b: "t = [b]" "is_trim_byte c b"
    using is_trim_byte_hd [of t c] by (auto simp: trim_cp_def split: if_splits)
  have sk: "co_skip_color (b # concat ts) = b # concat ts"
    using Cons b co_skip_color_visible [of t "concat ts"] trim_cp_vis [of c t] by simp
  with Cons b show ?case by (subst trim_left_loop.simps) (simp add: Let_def)
qed

lemma bit_1: "bit (1 :: nat) 0" "\<not> bit (1 :: nat) 1" "\<not> bit (Suc 0) (Suc 0)" "bit (Suc 0) 0"
  by (simp_all add: bit_iff_odd)

lemma co_trim_left_all:
  assumes "text_cps ts" "c \<le> 0x7F" "list_all (trim_cp c) ts"
  shows "co_trim (concat ts) c 1 = Some (take lbuf_cap (concat ts))"
  using trim_left_plain [OF assms, of "concat ts"] wp_safe_copy_take_take [of lbuf_cap "[]" "concat ts"]
  by (simp add: co_trim_def bit_1 del: concat_eq_Nil_conv)

lemma vis_trim_tail: "vis_cps (trim_tail c ts) = rev (dropWhile (trim_cp c) (rev (vis_cps ts)))"
proof -
  have "vis_cps (dropWhile (trimmed c) xs) = dropWhile (trim_cp c) (vis_cps xs)" for xs
    by (induction xs) (auto simp: trim_cp_vis)
  then show ?thesis by (simp add: trim_tail_def rev_filter [symmetric])
qed

section \<open>Compression of runs\<close>

fun compress_cps :: "byte \<Rightarrow> bool \<Rightarrow> bytes list \<Rightarrow> bytes list" where
  "compress_cps c in_run [] = []"
| "compress_cps c in_run (t # ts) =
     (if color_cp t then (if in_run then compress_cps c True ts else t # compress_cps c False ts)
      else if trim_cp c t then (if in_run then compress_cps c True ts else t # compress_cps c True ts)
      else t # compress_cps c False ts)"

lemma compress_cps_colors:
  "list_all color_cp cs \<Longrightarrow>
     compress_cps c in_run (cs @ ts) = (if in_run then [] else cs) @ compress_cps c in_run ts"
  by (induction cs) auto

lemma compress_loop_text:
  "text_cps ts \<Longrightarrow> c \<le> 0x7F \<Longrightarrow>
     compress_loop c in_run (concat ts) (take lbuf_cap acc) =
       Some (take lbuf_cap (acc @ concat (compress_cps c in_run ts)))"
proof (induction ts arbitrary: in_run acc rule: vis_induct)
  case (color cs)
  show ?case
  proof (cases "concat cs = [] \<or> lbuf_cap \<le> length acc")
    case True
    then show ?thesis
      using color compress_cps_colors [of cs c in_run "[]"]
      by (subst compress_loop.simps) (auto simp: min_def)
  next
    case False
    then show ?thesis
      using color compress_cps_colors [of cs c in_run "[]"] wp_safe_list_take [of lbuf_cap acc "concat cs"]
      by (subst compress_loop.simps)
        (simp add: skip_colors_Nil Let_def wp_safe_list_take del: concat_eq_Nil_conv take_append)
  qed
next
  case (vis cs t us)
  have t: "utf8_cp t" "t \<noteq> []" using vis.prems by auto
  have one: "trim_cp c t \<Longrightarrow> \<exists>b. t = [b]" by (auto simp: trim_cp_def split: if_splits)
  let ?acc = "acc @ (if in_run then [] else concat cs)"
  show ?case
  proof (cases "lbuf_cap \<le> length acc")
    case True
    then show ?thesis by (subst compress_loop.simps) (simp add: min_def)
  next
    case False
    have "compress_loop c in_run (concat (cs @ t # us)) (take lbuf_cap acc) =
        (if trim_cp c t then compress_loop c True (concat us)
           (take lbuf_cap (?acc @ (if in_run then [] else t)))
         else compress_loop c False (concat us) (take lbuf_cap (?acc @ t)))"
      using False vis.hyps vis.prems t is_trim_byte_hd [of t c] one
        wp_safe_list_take [of lbuf_cap acc "concat cs"]
        wp_safe_list_take [of lbuf_cap ?acc t] WP_SAFE_take [of lbuf_cap ?acc "hd t"]
      by (subst compress_loop.simps) (auto simp: vis_step Let_def take_length_append simp del: take_append)
    with vis show ?thesis by (simp add: compress_cps_colors del: take_append)
  qed
qed

lemma co_compress_text:
  "text_cps ts \<Longrightarrow> c \<le> 0x7F \<Longrightarrow>
     co_compress (concat ts) c = Some (take lbuf_cap (concat (compress_cps c False ts)))"
  using compress_loop_text [of ts c False "[]"] by (simp add: co_compress_def)

section \<open>Editing\<close>

lemma first_match_drop_less:
  assumes "first_match ns ts = Some us" "ns \<noteq> []"
  shows "length (dropWhile color_cp (drop_vis (length ns) us)) < length ts"
proof -
  obtain u us' where u: "us = u # us'" "\<not> color_cp u" and l: "length us \<le> length ts"
    using assms(1)
    by (induction ts) (auto split: if_splits)
  have "length (drop_vis n xs) \<le> length xs" for n xs
    by (induction n xs rule: drop_vis.induct) auto
  with u assms(2) have "length (drop_vis (length ns) us) < length us"
    by (cases ns) (auto simp: le_imp_less_Suc)
  with l length_dropWhile_le [of color_cp "drop_vis (length ns) us"] show ?thesis by linarith
qed

text \<open>Replace every occurrence, from the left; colors behind a match go with it.\<close>

function edit_cps :: "bytes list \<Rightarrow> bytes list \<Rightarrow> bytes list \<Rightarrow> bytes list" where
  "edit_cps ns to ts =
     (if ns = [] then ts
      else (case first_match ns ts of
              None \<Rightarrow> ts
            | Some us \<Rightarrow> take (length ts - length us) ts @ to @
                edit_cps ns to (dropWhile color_cp (drop_vis (length ns) us))))"
  by pat_completeness auto
termination
  by (relation "measure (\<lambda>(ns, to, ts). length ts)") (auto simp: first_match_drop_less)

declare edit_cps.simps [simp del]

lemma suffix_concat_take:
  assumes "suffix us ts"
  shows "take (length (concat ts) - length (concat us)) (concat ts) = concat (take (length ts - length us) ts)"
  using assms by (auto simp: suffix_def)

lemma text_suffix: "suffix us ts \<Longrightarrow> text_cps ts \<Longrightarrow> text_cps us"
  by (auto simp: suffix_def)

lemma edit_loop_text:
  assumes "text_cps ns" "vis_cps ns \<noteq> []" "text_cps to"
  shows "text_cps ts \<Longrightarrow>
    edit_loop (concat ns) (concat to) (length (vis_cps ns)) (concat ts) (take lbuf_cap acc) =
      Some (take lbuf_cap (acc @ concat (edit_cps (vis_cps ns) to ts)))"
proof (induction "length ts" arbitrary: ts acc rule: less_induct)
  case less
  show ?case
  proof (cases "concat ts = [] \<or> lbuf_cap \<le> length acc")
    case True
    then have "ts = [] \<or> lbuf_cap \<le> length acc" using concat_text_Nil [OF less.prems] by blast
    moreover have "edit_cps (vis_cps ns) to [] = []" by (simp add: edit_cps.simps)
    ultimately show ?thesis by (subst edit_loop.simps) auto
  next
    case False
    note s = co_search_text [OF less.prems assms(1,2)]
    show ?thesis
    proof (cases "first_match (vis_cps ns) ts")
      case None
      then show ?thesis
        using False s assms(2) wp_safe_copy_take_take [of lbuf_cap acc "concat ts"]
        by (subst edit_loop.simps)
          (simp add: edit_cps.simps [of _ _ ts] wp_safe_copy_take_take del: concat_eq_Nil_conv take_append)
    next
      case (Some us)
      let ?ts = "dropWhile color_cp (drop_vis (length (vis_cps ns)) us)"
      let ?pre = "take (length ts - length us) ts"
      have sf: "suffix us ts" using Some by (rule first_match_suffix)
      have tu: "text_cps us" using sf less.prems by (rule text_suffix)
      have nx: "co_skip_color (fst (co_visible_advance (concat us) (length (vis_cps ns)))) = concat ?ts"
        using tu by (simp add: co_visible_advance_text co_skip_color_text text_drop_vis)
      have "edit_loop (concat ns) (concat to) (length (vis_cps ns)) (concat ?ts)
          (take lbuf_cap ((acc @ concat ?pre) @ concat to)) =
        Some (take lbuf_cap (((acc @ concat ?pre) @ concat to) @ concat (edit_cps (vis_cps ns) to ?ts)))"
        using first_match_drop_less [OF Some assms(2)] tu
        by (intro less.hyps) (auto intro: text_dropWhile text_drop_vis)
      moreover have "edit_loop (concat ns) (concat to) (length (vis_cps ns)) (concat ts) (take lbuf_cap acc) =
          edit_loop (concat ns) (concat to) (length (vis_cps ns)) (concat ?ts)
          (take lbuf_cap ((acc @ concat ?pre) @ concat to))"
        using False s Some nx suffix_concat_take [OF sf]
          wp_safe_copy_take_take [of lbuf_cap acc "concat ?pre"]
        by (subst edit_loop.simps)
          (simp add: wp_safe_copy_take_take del: concat_eq_Nil_conv take_append length_concat append_assoc)
      ultimately show ?thesis
        using Some assms(2) by (simp add: edit_cps.simps [of _ _ ts] del: take_append)
    qed
  qed
qed

lemma co_edit_text:
  assumes "text_cps ts" "text_cps ns" "text_cps to" "vis_cps ns \<noteq> []"
  shows "co_edit (concat ts) (concat ns) (concat to) =
    Some (take lbuf_cap (concat (edit_cps (vis_cps ns) to ts)))"
proof -
  have "ns \<noteq> []" using assms(4) by auto
  moreover have "co_strip_color (concat ns) \<noteq> []"
    using assms concat_text_Nil [OF text_vis_cps [OF assms(2)]]
    by (simp add: co_strip_color_text lbuf_cap_eq del: concat_eq_Nil_conv)
  ultimately show ?thesis
    using edit_loop_text [OF assms(2,4,3,1), of "[]"] assms
    by (simp add: co_edit_def concat_text_Nil del: concat_eq_Nil_conv)
qed

text \<open>What the visible text becomes: plain leftmost replacement.\<close>

fun replace_all :: "'a list \<Rightarrow> 'a list \<Rightarrow> 'a list \<Rightarrow> 'a list" where
  "replace_all ns to [] = []"
| "replace_all ns to (x # xs) =
     (if ns \<noteq> [] \<and> prefix ns (x # xs) then to @ replace_all ns to (drop (length ns - 1) xs)
      else x # replace_all ns to xs)"

lemma replace_all_first_match:
  assumes "ns \<noteq> []"
  shows "replace_all ns to (vis_cps ts) =
    (case first_match ns ts of
       None \<Rightarrow> vis_cps ts
     | Some us \<Rightarrow> vis_cps (take (length ts - length us) ts) @ to @
         replace_all ns to (drop (length ns) (vis_cps us)))"
proof (induction ts)
  case (Cons t ts)
  show ?case
  proof (cases "color_cp t")
    case True
    with Cons first_match_suffix [of ns ts] show ?thesis
      by (auto split: option.splits simp: Suc_diff_le dest: suffix_length_le)
  next
    case False
    show ?thesis
    proof (cases "prefix ns (t # vis_cps ts)")
      case True
      with False assms show ?thesis by (cases ns) auto
    next
      case pf: False
      with Cons False first_match_suffix [of ns ts] show ?thesis
        by (auto split: option.splits simp: Suc_diff_le dest: suffix_length_le)
    qed
  qed
qed simp

lemma vis_edit_cps:
  "ns \<noteq> [] \<Longrightarrow> vis_cps (edit_cps ns to ts) = replace_all ns (vis_cps to) (vis_cps ts)"
proof (induction ns to ts rule: edit_cps.induct)
  case (1 ns to ts)
  then show ?case
    using replace_all_first_match [of ns "vis_cps to" ts]
    by (subst edit_cps.simps) (auto split: option.split simp: vis_dropWhile_color vis_drop_vis)
qed

section \<open>Positions of a character\<close>

lemma lpos_loop_text:
  "text_cps ts \<Longrightarrow> 1 \<le> d \<Longrightarrow> d \<le> 0x7F \<Longrightarrow>
     lpos_loop d (concat ts) k (c = 0) (take lbuf_cap acc) =
       Some (take lbuf_cap (acc @ emit_words SP c
         (map decimal (filter (\<lambda>i. vis_cps ts ! (i - k) = [d]) [k ..< k + length (vis_cps ts)]))))"
proof (induction ts arbitrary: k c acc rule: vis_induct)
  case (color cs)
  then show ?case
    by (subst lpos_loop.simps) (simp add: skip_colors_Nil vis_cps_colors del: concat_eq_Nil_conv)
next
  case (vis cs t us)
  let ?f = "\<lambda>k us. filter (\<lambda>i. vis_cps us ! (i - k) = [d]) [k ..< k + length (vis_cps us)]"
  have tl: "filter (\<lambda>i. (t # vis_cps us) ! (i - k) = [d]) [Suc k ..< k + length (t # vis_cps us)] = ?f (Suc k) us"
    by (intro filter_cong) (auto simp: nth_Cons')
  have v: "vis_cps (cs @ t # us) = t # vis_cps us" using vis.hyps by (simp add: vis_cps_colors)
  have u: "[k ..< k + length (t # vis_cps us)] = k # [Suc k ..< k + length (t # vis_cps us)]"
    by (simp add: upt_conv_Cons del: upt_Suc)
  have f: "?f k (cs @ t # us) = (if t = [d] then [k] else []) @ ?f (Suc k) us"
    unfolding v u filter.simps tl by simp
  have hd: "hd (t @ concat us) < 0x80 \<and> hd (t @ concat us) = d \<longleftrightarrow> t = [d]"
  proof -
    have "hd (t @ concat us) = hd t" using vis.prems by (cases t) auto
    moreover have "d < 0x80" using vis.prems(3) by (simp add: word_nat_simps)
    ultimately show ?thesis using vis.prems hd_ascii_iff [of t d] by auto
  qed
  have ew: "emit_words SP c (decimal k # ws) = emit_words SP c [decimal k] @ emit_words SP (Suc c) ws" for ws
    by (simp add: emit_words_Cons)
  have step: "lpos_loop d (concat (cs @ t # us)) k (c = 0) (take lbuf_cap acc) =
      (if t = [d] then lpos_loop d (concat us) (Suc k) (Suc c = 0) (take lbuf_cap (acc @ emit_words SP c [decimal k]))
       else lpos_loop d (concat us) (Suc k) (c = 0) (take lbuf_cap acc))"
  proof -
    have sk: "co_skip_color (concat cs @ t @ concat us) = t @ concat us"
      and av: "fst (co_visible_advance (t @ concat us) (Suc 0)) = concat us"
      and ne: "t \<noteq> []" "concat cs @ t @ concat us \<noteq> []"
      using vis by (simp_all add: vis_step)
    have w: "wp_safe_copy lbuf_cap (if c = 0 then take lbuf_cap acc else WP_SAFE lbuf_cap (take lbuf_cap acc) SP)
        (decimal k) = take lbuf_cap (acc @ emit_words SP c [decimal k])"
      using emit_word_step [of c acc SP "decimal k"] by (cases "c = 0") simp_all
    have cat: "concat (cs @ t # us) = concat cs @ t @ concat us" by simp
    show ?thesis
      unfolding cat
      by (subst lpos_loop.simps)
        (simp only: sk Let_def ne append_is_Nil_conv simp_thms if_False hd w One_nat_def av add_Suc_right add_0_right
          nat.distinct)
  qed
  have us: "text_cps us" using vis.prems(1) by simp
  note IH = vis.IH [OF us vis.prems(2,3)]
  show ?case
  proof (cases "t = [d]")
    case True
    have "lpos_loop d (concat (cs @ t # us)) k (c = 0) (take lbuf_cap acc) =
        lpos_loop d (concat us) (Suc k) (Suc c = 0) (take lbuf_cap (acc @ emit_words SP c [decimal k]))"
      using step unfolding if_P [OF True] .
    also note IH [of "Suc k" "Suc c" "acc @ emit_words SP c [decimal k]"]
    finally show ?thesis
      unfolding f if_P [OF True] list.map append_Cons append_Nil by (subst ew) (simp only: append_assoc)
  next
    case False
    have "lpos_loop d (concat (cs @ t # us)) k (c = 0) (take lbuf_cap acc) =
        lpos_loop d (concat us) (Suc k) (c = 0) (take lbuf_cap acc)"
      using step unfolding if_not_P [OF False] .
    also note IH [of "Suc k" c acc]
    finally show ?thesis unfolding f if_not_P [OF False] by (simp only: append_Nil)
  qed
qed

lemma co_lpos_text:
  assumes "text_cps ts" "1 \<le> d" "d \<le> 0x7F"
  shows "co_lpos (concat ts) d =
    Some (take lbuf_cap (join_on [SP]
      (map decimal (filter (\<lambda>i. vis_cps ts ! i = [d]) [0 ..< length (vis_cps ts)]))))"
  using lpos_loop_text [OF assms, of 0 0 "[]"] by (simp add: co_lpos_def emit_words_def)

section \<open>Reversal\<close>

text \<open>
  The elements of a string: a visible code point with the colors in front of it, and
  the colors behind the last one.
\<close>

fun elems_from :: "bytes list \<Rightarrow> bytes list \<Rightarrow> bytes list list" where
  "elems_from cur [] = (if cur = [] then [] else [cur])"
| "elems_from cur (t # ts) =
     (if color_cp t then elems_from (cur @ [t]) ts else (cur @ [t]) # elems_from [] ts)"

lemma concat_elems_from: "concat (elems_from cur ts) = cur @ ts"
  by (induction cur ts rule: elems_from.induct) auto

lemma elems_from_colors: "list_all color_cp cs \<Longrightarrow> elems_from cur (cs @ ts) = elems_from (cur @ cs) ts"
  by (induction cs arbitrary: cur) auto

lemma length_buf_write:
  "length buf = LBUF_SIZE \<Longrightarrow> length (buf_write buf dst src) = LBUF_SIZE" if "dst < lbuf_cap"
  using that by (auto simp: buf_write_def Let_def LBUF_SIZE_def lbuf_cap_def)

text \<open>What placing one element behind an already planned reversal does.\<close>

lemma reverse_place:
  assumes "length buf = LBUF_SIZE" "dst = L + length R"
    "buf1 = (if dst < lbuf_cap then buf_write buf dst b else buf)"
  shows "take (min lbuf_cap dst) (take L buf1 @ R) @ drop (min lbuf_cap dst) buf1 =
    take (min lbuf_cap (dst + length b)) (take L buf @ R @ b) @ drop (min lbuf_cap (dst + length b)) buf"
proof (cases "dst < lbuf_cap")
  case True
  have L: "length (take L buf) = L" "dst < LBUF_SIZE" using assms True by (auto simp: lbuf_cap_def)
  define k where "k = min (length b) (lbuf_cap - dst)"
  have buf1: "buf1 = take dst buf @ take k b @ drop (dst + k) buf"
    using True assms(3) by (simp add: buf_write_def k_def Let_def)
  have len: "length (take dst buf) = dst" using L(2) assms(1) by simp
  have m: "min lbuf_cap (dst + length b) = dst + k" "min lbuf_cap dst = dst" using True by (auto simp: k_def)
  have "take L buf1 = take L buf" using assms(2) len by (simp add: buf1 min_def)
  moreover have "drop dst buf1 = take k b @ drop (dst + k) buf" using len by (simp add: buf1)
  moreover have "take dst (take L buf @ R) = take L buf @ R" using L assms(2) by simp
  moreover have "take (dst + k) (take L buf @ R @ b) = take L buf @ R @ take k b" using L(1) assms(2) by simp
  ultimately show ?thesis unfolding m by simp
next
  case False
  have "lbuf_cap \<le> length (take L buf @ R)"
    using False assms(1,2) by (auto simp: lbuf_cap_def)
  with False assms(3) show ?thesis by (simp add: min_def)
qed

lemma reverse_loop_text:
  "text_cps ts \<Longrightarrow> length buf = LBUF_SIZE \<Longrightarrow>
     reverse_loop L (concat ts) buf =
       Some (take (min lbuf_cap (L + length (concat ts)))
               (take L buf @ concat (map concat (rev (elems_from [] ts))))
             @ drop (min lbuf_cap (L + length (concat ts))) buf)"
proof (induction ts arbitrary: buf rule: vis_induct)
  case (color cs)
  show ?case
  proof (cases "cs = []")
    case True
    with color.prems show ?thesis
      by (subst reverse_loop.simps) (auto simp: min_def lbuf_cap_def LBUF_SIZE_def)
  next
    case False
    let ?buf1 = "if L < lbuf_cap then buf_write buf L (concat cs) else buf"
    have ne: "concat cs \<noteq> []" using False color concat_text_Nil by blast
    have "reverse_loop L (concat cs) buf = Some ?buf1"
      using color ne
      by (subst reverse_loop.simps) (simp add: skip_colors_Nil Let_def del: concat_eq_Nil_conv)
    moreover have "?buf1 = take (min lbuf_cap L) (take L ?buf1 @ []) @ drop (min lbuf_cap L) ?buf1"
      by (simp add: min_def)
    moreover have "elems_from [] cs = [cs]"
      using elems_from_colors [of cs "[]" "[]"] color False by simp
    ultimately show ?thesis
      using reverse_place [of buf L L "[]" ?buf1 "concat cs"] color by simp
  qed
next
  case (vis cs t us)
  let ?n = "length (concat us)" and ?b = "concat cs @ t"
  let ?R = "concat (map concat (rev (elems_from [] us)))"
  let ?buf1 = "if L + ?n < lbuf_cap then buf_write buf (L + ?n) ?b else buf"
  have lR: "length ?R = ?n"
  proof -
    have "length (concat (map concat (rev es))) = length (concat (concat es))" for es :: "bytes list list"
      by (induction es) auto
    then show ?thesis by (simp add: concat_elems_from)
  qed
  have "reverse_loop L (concat (cs @ t # us)) buf = reverse_loop L (concat us) ?buf1"
    using vis by (subst reverse_loop.simps) (simp add: vis_step Let_def)
  also have "\<dots> = Some (take (min lbuf_cap (L + ?n)) (take L ?buf1 @ ?R) @ drop (min lbuf_cap (L + ?n)) ?buf1)"
    using vis by (intro vis.IH) (auto simp: length_buf_write)
  also have "\<dots> = Some (take (min lbuf_cap (L + ?n + length ?b)) (take L buf @ ?R @ ?b) @
      drop (min lbuf_cap (L + ?n + length ?b)) buf)"
    using reverse_place [of buf "L + ?n" L ?R ?buf1 ?b] vis.prems lR by simp
  also have "elems_from [] (cs @ t # us) = (cs @ [t]) # elems_from [] us"
    using vis elems_from_colors [of cs "[]" "t # us"] by simp
  ultimately show ?case by (simp add: algebra_simps)
qed

lemma co_reverse_text:
  assumes "text_cps ts" "length buf = LBUF_SIZE"
  shows "co_reverse buf (concat ts) =
    Some (take lbuf_cap (concat (takeWhile color_cp ts) @
      concat (map concat (rev (elems_from [] (dropWhile color_cp ts))))))"
proof -
  let ?cs = "takeWhile color_cp ts" and ?us = "dropWhile color_cp ts"
  have cat: "concat ts = concat ?cs @ concat ?us" by (metis concat_append takeWhile_dropWhile_id)
  have us: "text_cps ?us" using assms(1) by (rule text_dropWhile)
  have sk: "co_skip_color (concat ts) = concat ?us" using assms(1) by (rule co_skip_color_text)
  let ?L = "length (concat ?cs)" and ?R = "concat (map concat (rev (elems_from [] ?us)))"
  define buf1 where "buf1 = (if ?L > 0 then buf_write buf 0 (concat ?cs) else buf)"
  have len: "length buf1 = LBUF_SIZE"
    using assms(2) length_buf_write [of 0 buf "concat ?cs"] by (simp add: buf1_def lbuf_cap_def LBUF_SIZE_def)
  have lR: "length ?R = length (concat ?us)"
  proof -
    have "length (concat (map concat (rev es))) = length (concat (concat es))" for es :: "bytes list list"
      by (induction es) auto
    then show ?thesis by (simp add: concat_elems_from)
  qed
  have "co_reverse buf (concat ts) = map_option (take (min (length (concat ts)) lbuf_cap))
      (reverse_loop ?L (concat ?us) buf1)"
    unfolding co_reverse_def sk buf1_def by (simp add: cat Let_def)
  also have "\<dots> = Some (take (min lbuf_cap (length (concat ts))) (take ?L buf1 @ ?R))"
  proof -
    have "lbuf_cap \<le> length (take ?L buf1 @ ?R) \<or> length (take ?L buf1 @ ?R) = length (concat ts)"
      using len lR cat by (auto simp: lbuf_cap_def min_def)
    then have "min lbuf_cap (length (concat ts)) \<le> length (take ?L buf1 @ ?R)" by auto
    moreover have "take m (take m X @ Y) = take m X" if "m \<le> length X" for m and X Y :: bytes
      using that by simp
    moreover have "reverse_loop ?L (concat ?us) buf1 =
        Some (take (min lbuf_cap (length (concat ts))) (take ?L buf1 @ ?R) @
          drop (min lbuf_cap (length (concat ts))) buf1)"
      using reverse_loop_text [OF us len, of ?L] unfolding cat length_append .
    ultimately show ?thesis by (simp only: option.map min.commute)
  qed
  also have "take (min lbuf_cap (length (concat ts))) (take ?L buf1 @ ?R) = take lbuf_cap (concat ?cs @ ?R)"
  proof (cases "?L \<le> lbuf_cap")
    case True
    then have "take ?L buf1 = concat ?cs"
      by (cases "concat ?cs = []") (simp_all add: buf1_def buf_write_def Let_def del: concat_eq_Nil_conv)
    moreover have "length (concat ts) = length (concat ?cs @ ?R)" using lR cat by simp
    moreover have "take (min m (length X)) X = take m X" for m and X :: bytes by (simp add: min_def)
    ultimately show ?thesis by (simp only:)
  next
    case False
    have "take lbuf_cap buf1 = take lbuf_cap (concat ?cs)"
      using False
      by (cases "concat ?cs = []") (simp_all add: buf1_def buf_write_def Let_def del: concat_eq_Nil_conv length_concat)
    moreover have "take lbuf_cap (take ?L buf1 @ ?R) = take lbuf_cap buf1"
      using False len by (simp add: lbuf_cap_def min_def del: length_concat)
    moreover have "min lbuf_cap (length (concat ts)) = lbuf_cap" using False cat by simp
    ultimately show ?thesis using False by simp
  qed
  finally show ?thesis .
qed

section \<open>Splitting on a string\<close>





text \<open>The space separator compresses runs, as the cursor does.\<close>

lemma hd_not_space: "utf8_cp t \<Longrightarrow> t \<noteq> [SP] \<Longrightarrow> hd (t @ r) \<noteq> SP"
  using hd_ascii_iff [of t SP] by (cases t) auto

lemma find_space_end: "text_cps seg \<Longrightarrow> [SP] \<notin> set seg \<Longrightarrow> find_space (concat seg) = Some []"
proof (induction seg rule: vis_induct)
  case (color cs)
  then show ?case by (subst find_space.simps) (simp add: skip_colors_Nil del: concat_eq_Nil_conv)
next
  case (vis cs t us)
  then show ?case
    using hd_not_space [of t "concat us"] by (subst find_space.simps) (auto simp: vis_step Let_def)
qed

lemma find_space_hit:
  "text_cps seg \<Longrightarrow> [SP] \<notin> set seg \<Longrightarrow> find_space (concat seg @ SP # r) = Some (SP # r)"
proof (induction seg rule: vis_induct)
  case (color cs)
  then show ?case
    using co_skip_color_visible [of "[SP]" r] by (subst find_space.simps) (simp add: skip_colors)
next
  case (vis cs t us)
  then show ?case
    using hd_not_space [of t "concat us @ SP # r"] by (subst find_space.simps) (auto simp: vis_step Let_def)
qed

declare skip_space_run.simps [simp del]

lemma skip_space_run_text:
  "text_cps ts \<Longrightarrow>
     skip_space_run (concat ts) =
       (let us = drop_blank (split_on [SP] ts)
        in if has_vis (hd us) then concat (join_on [[SP]] us) else [])"
proof (induction ts rule: split_induct [of "[SP]"])
  case (last ts)
  show ?case
  proof (cases "has_vis ts")
    case True
    from skip_end_vis last True obtain b q where
      bq: "co_skip_color (concat ts) = b # q" "b \<noteq> SP" by blast
    then have "concat ts \<noteq> []" by (auto simp del: concat_eq_Nil_conv)
    with bq last True show ?thesis
      by (subst skip_space_run.simps) (simp add: split_on_notin Let_def del: concat_eq_Nil_conv)
  next
    case False
    with last skip_seg_color [of ts "[]"] show ?thesis
      by (subst skip_space_run.simps) (simp add: split_on_notin)
  qed
next
  case (seg seg rest)
  show ?case
  proof (cases "has_vis seg")
    case True
    from skip_seg_vis [OF seg.prems True seg(1)] obtain b q where
      bq: "co_skip_color (concat (seg @ [SP] # rest)) = b # q" "b \<noteq> SP" by blast
    have d: "drop_blank (split_on [SP] (seg @ [SP] # rest)) = seg # split_on [SP] rest"
      using seg(1) True by (simp add: split_on_seg drop_blank_Cons)
    have "skip_space_run (concat (seg @ [SP] # rest)) = concat (seg @ [SP] # rest)"
      using bq by (subst skip_space_run.simps) simp
    then show ?thesis
      using True join_split_on [of "[SP]" "seg @ [SP] # rest"] seg(1)
      by (simp add: d split_on_seg drop_blank_Cons Let_def)
  next
    case False
    with seg skip_seg_color [of seg "[SP] # rest"] show ?thesis
      by (subst skip_space_run.simps) (simp add: split_on_seg drop_blank_Cons)
  qed
qed

lemma split_space_text:
  "text_cps ts \<Longrightarrow>
     split_space m (skip_space_run (concat ts)) =
       Some (map concat (take m (filter has_vis (split_on [SP] ts))))"
proof (induction "length ts" arbitrary: ts m rule: less_induct)
  case less
  define us where us: "us = drop_blank (split_on [SP] ts)"
  have "us \<noteq> []" by (simp add: us drop_blank_nonempty)
  have segs: "text_cps (hd us)" "[SP] \<notin> set (hd us)"
    using drop_blank_segs [OF split_on_segs [OF less.prems, of SP], folded us] \<open>us \<noteq> []\<close>
    by (cases us; simp)+
  have flt: "filter has_vis (split_on [SP] ts) =
      (if has_vis (hd us) then [hd us] else []) @ filter has_vis (tl us)"
    using \<open>us \<noteq> []\<close> filter_drop_blank [of "split_on [SP] ts", folded us] by (cases us) auto
  note r = skip_space_run_text [OF less.prems, folded us, unfolded Let_def]
  show ?case
  proof (cases "has_vis (hd us)")
    case False
    then have "tl us = []"
      using drop_blank_hd_vis [of "split_on [SP] ts" "hd us" "tl us"] \<open>us \<noteq> []\<close> us by auto
    with r False flt show ?thesis by (subst split_space.simps) simp
  next
    case True
    then have ne: "concat (hd us) \<noteq> []"
      using concat_text_Nil [OF segs(1)] by (auto simp: has_vis_def)
    show ?thesis
    proof (cases "tl us = []")
      case last: True
      then have "us = [hd us]" using \<open>us \<noteq> []\<close> by (cases us) auto
      then have "concat (join_on [[SP]] us) = concat (hd us)" by (metis join_on.simps(2))
      moreover have "split_space k (skip_space_run []) = Some []" for k
        by (subst split_space.simps) (simp add: skip_space_run.simps)
      ultimately show ?thesis
        using r True flt last ne find_space_end [OF segs]
        by (subst split_space.simps) (simp add: take_Cons' del: concat_eq_Nil_conv)
    next
      case rest: False
      note b = blank_tail [OF less.prems us rest]
      let ?t = "join_on [[SP]] (tl us)"
      have cat: "concat (join_on [[SP]] us) = concat (hd us) @ SP # concat ?t"
        using rest \<open>us \<noteq> []\<close> by (cases us) (auto simp: join_on_Cons)
      have sk: "skip_space_run (SP # concat ?t) = skip_space_run (concat ?t)"
        using co_skip_color_visible [of "[SP]" "concat ?t"] by (subst skip_space_run.simps) simp
      have "split_space k (skip_space_run (concat ?t)) =
          Some (map concat (take k (filter has_vis (split_on [SP] ?t))))" for k
        using b less.prems by (intro less.hyps) auto
      with r True flt rest ne find_space_hit [OF segs, of "concat ?t"] sk b(2) show ?thesis
        by (subst split_space.simps) (simp add: cat take_Cons')
    qed
  qed
qed

lemma co_split_words_space:
  assumes "text_cps ts" "0 < m"
  shows "co_split_words (concat ts) [SP] m = Some (split_words (concat ts) SP m)"
proof -
  have "strip_sep [SP] = Some [SP]"
    using strip_sep_text [of "[[SP]]"] by (simp add: lbuf_cap_eq)
  moreover have "co_split_words (concat ts) [SP] m = Some []" if "concat ts = []"
    using that by (simp add: co_split_words_def)
  moreover have "split_words [] SP m = []"
    using split_words_space [of "[]" m] by (simp add: has_vis_def)
  ultimately show ?thesis
    using assms split_space_text [OF assms(1)] split_words_space [OF assms(1)]
    by (cases "concat ts = []") (auto simp: co_split_words_def simp del: concat_eq_Nil_conv)
qed

lemma first_match_leftmost:
  "first_match ns ts = Some us \<Longrightarrow>
     \<exists>pre. ts = pre @ us \<and> (\<forall>k < length (vis_cps pre). \<not> prefix ns (drop k (vis_cps ts)))"
proof (induction ts)
  case (Cons t ts)
  show ?case
  proof (cases "\<not> color_cp t \<and> prefix ns (vis_cps (t # ts))")
    case True
    with Cons.prems show ?thesis by (intro exI [of _ "[]"]) auto
  next
    case False
    with Cons obtain pre where pre: "ts = pre @ us"
        "\<forall>k < length (vis_cps pre). \<not> prefix ns (drop k (vis_cps ts))" by (auto split: if_splits)
    have "\<not> prefix ns (drop k (vis_cps (t # ts)))" if "k < length (vis_cps (t # pre))" for k
      using False pre(2) that by (cases k) (auto split: if_splits)
    with pre(1) show ?thesis by (intro exI [of _ "t # pre"]) auto
  qed
qed simp

lemma text_edit_cps:
  "text_cps ts \<Longrightarrow> text_cps to \<Longrightarrow> text_cps (edit_cps ns to ts)"
proof (induction ns to ts rule: edit_cps.induct)
  case (1 ns to ts)
  have "text_cps (take k ts)" for k
    using "1.prems"(1) by (auto simp: list_all_iff dest: in_set_takeD)
  moreover have "first_match ns ts = Some us \<Longrightarrow> text_cps (dropWhile color_cp (drop_vis (length ns) us))" for us
    using "1.prems"(1) text_suffix [OF first_match_suffix] by (intro text_dropWhile text_drop_vis) blast
  ultimately show ?case
    using 1 by (subst edit_cps.simps) (auto split: option.splits)
qed




section \<open>Properties\<close>

text \<open>\<open>co_mid\<close> returns \<open>n\<close> visible code points from position \<open>i\<close> on, with the colors in
  front of each of them; \<open>co_left\<close> is the same from position 0, and \<open>co_right\<close> returns the
  last \<open>n\<close> visible code points with everything behind the ones left out.\<close>

theorem mid_left_right:
  assumes "text_cps ts"
  shows "co_mid (concat ts) i n = take lbuf_cap (concat (take_vis n (drop_vis i ts))) \<and>
    co_left (concat ts) n = take lbuf_cap (concat (take_vis n ts)) \<and>
    co_right (concat ts) n = take lbuf_cap (concat (drop_vis (length (vis_cps ts) - n) ts))"
  using assms by (simp add: co_mid_text co_left_text co_right_text)

theorem mid_left_right_witness:
  "co_mid [0x41, 0xEF, 0x98, 0x81, 0x42, 0x43] 1 1 = [0xEF, 0x98, 0x81, 0x42]"
  using mid_left_right [of "[[0x41], [0xEF, 0x98, 0x81], [0x42], [0x43]]" 1 1]
  by (simp add: utf8_cont_def lbuf_cap_eq)

text \<open>\<open>co_delete\<close> removes \<open>n\<close> visible code points at position \<open>i\<close> together with their
  colors, and keeps everything else.\<close>

theorem delete_range:
  assumes "text_cps ts"
  shows "co_delete (concat ts) i n = take lbuf_cap
    (if n = 0 then concat ts
     else concat (take_vis i ts) @ concat (dropWhile color_cp (drop_vis n (drop_vis i ts))))"
  using assms by (rule co_delete_text)

theorem delete_range_witness:
  "co_delete [0x41, 0xEF, 0x98, 0x81, 0x42, 0x43] 1 1 = [0x41, 0x43]"
  using delete_range [of "[[0x41], [0xEF, 0x98, 0x81], [0x42], [0x43]]" 1 1]
  by (simp add: utf8_cont_def lbuf_cap_eq)

text \<open>C26: \<open>co_search\<close> finds the leftmost occurrence of the pattern, colors ignored on both
  sides: it always returns on well-formed text, the result is a suffix of the text whose
  visible code points start with those of the pattern, and it returns NULL exactly when
  the pattern does not occur.\<close>

theorem search_leftmost:
  assumes "text_cps ts" "text_cps ns" "vis_cps ns \<noteq> []"
  shows "\<exists>r. co_search (concat ts) (concat ns) = Some (map_option concat r) \<and>
    (case r of
       None \<Rightarrow> \<not> sublist (vis_cps ns) (vis_cps ts)
     | Some us \<Rightarrow> prefix (vis_cps ns) (vis_cps us) \<and>
         (\<exists>pre. ts = pre @ us \<and>
            (\<forall>k < length (vis_cps pre). \<not> prefix (vis_cps ns) (drop k (vis_cps ts)))))"
proof (intro exI conjI)
  show "co_search (concat ts) (concat ns) = Some (map_option concat (first_match (vis_cps ns) ts))"
    using assms by (rule co_search_text)
  show "case first_match (vis_cps ns) ts of
       None \<Rightarrow> \<not> sublist (vis_cps ns) (vis_cps ts)
     | Some us \<Rightarrow> prefix (vis_cps ns) (vis_cps us) \<and>
         (\<exists>pre. ts = pre @ us \<and>
            (\<forall>k < length (vis_cps pre). \<not> prefix (vis_cps ns) (drop k (vis_cps ts))))"
    using first_match_None [OF assms(3), of ts] first_match_prefix [of "vis_cps ns" ts]
      first_match_leftmost [of "vis_cps ns" ts] by (auto split: option.splits)
qed

theorem search_leftmost_witness:
  "co_search [0x41, 0xEF, 0x98, 0x81, 0x42, 0x43] [0x42] \<noteq> Some None"
  using search_leftmost [of "[[0x41], [0xEF, 0x98, 0x81], [0x42], [0x43]]" "[[0x42]]"]
  by (auto simp: utf8_cont_def sublist_def split: option.splits) (metis append_Cons append_Nil)

text \<open>C34: A byte that starts no UTF-8 sequence (NUL, a continuation byte, 0xF5 to 0xFF) where
  the pattern does not match makes \<open>co_search_with_end\<close> loop forever: the scanner behind
  \<open>co_visible_advance\<close> returns the same position.\<close>

theorem search_hangs_on_stray_byte:
  assumes "stray b" "match_visible (b # r) nplain = None"
  shows "co_search_with_end (b # r) nplain = None"
  using assms by (rule search_stuck)

theorem search_hangs_on_stray_byte_witness: "co_search_with_end [0x80, 0x41] [0x41] = None"
  by (rule search_hangs_on_stray_byte) (simp_all add: stray_def)

text \<open>\<open>co_trim\<close> on both sides removes the trim characters (and the colors among them) at
  both ends, keeps the last run of colors in front of the remaining text, and returns the
  empty string when nothing else is there.\<close>

theorem trim_both_sides:
  assumes "text_cps ts" "c \<le> 0x7F"
  shows "co_trim (concat ts) c 3 =
    Some (take lbuf_cap (concat
      (let lead = takeWhile (trimmed c) ts; body = trim_tail c (dropWhile (trimmed c) ts)
       in if body = [] then [] else color_run lead @ body)))"
  using assms by (rule co_trim_both)

theorem trim_both_sides_witness:
  "co_trim [0x20, 0xEF, 0x98, 0x81, 0x41, 0x20, 0x42, 0x20] 0x20 3 = Some [0xEF, 0x98, 0x81, 0x41, 0x20, 0x42]"
  using trim_both_sides [of "[[0x20], [0xEF, 0x98, 0x81], [0x41], [0x20], [0x42], [0x20]]" "0x20"]
  by (simp add: utf8_cont_def lbuf_cap_eq trim_cp_def trim_tail_def color_run_def)

text \<open>Trimming only the left side does nothing to a string that consists of trim
  characters: \<open>start\<close> is only moved at a character that is kept.\<close>

theorem trim_left_keeps_blank_string:
  assumes "text_cps ts" "c \<le> 0x7F" "list_all (trim_cp c) ts"
  shows "co_trim (concat ts) c 1 = Some (take lbuf_cap (concat ts))"
  using assms by (rule co_trim_left_all)

theorem trim_left_keeps_blank_string_witness:
  "co_trim [0x20, 0x20, 0x20] 0x20 1 = Some [0x20, 0x20, 0x20]"
  using trim_left_keeps_blank_string [of "[[0x20], [0x20], [0x20]]" "0x20"]
  by (simp add: trim_cp_def lbuf_cap_eq)

text \<open>C23: \<open>co_edit\<close> replaces every occurrence of the pattern: it returns on well-formed
  text, and when the result fits the line buffer its visible text is the plain leftmost
  replacement on the visible text of the input.\<close>

theorem edit_replaces_all:
  assumes "text_cps ts" "text_cps ns" "text_cps to" "vis_cps ns \<noteq> []"
  shows "\<exists>us. text_cps us \<and> vis_cps us = replace_all (vis_cps ns) (vis_cps to) (vis_cps ts) \<and>
    co_edit (concat ts) (concat ns) (concat to) = Some (take lbuf_cap (concat us))"
  using assms
  by (intro exI [of _ "edit_cps (vis_cps ns) to ts"]) (simp add: co_edit_text vis_edit_cps text_edit_cps)

theorem edit_replaces_all_witness:
  "\<exists>us. vis_cps us = [[0x41], [0x58], [0x41]] \<and>
     co_edit [0x41, 0xEF, 0x98, 0x81, 0x42, 0x41] [0x42] [0x58] = Some (take lbuf_cap (concat us))"
  using edit_replaces_all [of "[[0x41], [0xEF, 0x98, 0x81], [0x42], [0x41]]" "[[0x42]]" "[[0x58]]"]
  by (auto simp: utf8_cont_def)

text \<open>\<open>co_lpos\<close> lists, in order, every position of the character in the visible text.\<close>

theorem lpos_positions:
  assumes "text_cps ts" "1 \<le> d" "d \<le> 0x7F"
  shows "co_lpos (concat ts) d =
    Some (take lbuf_cap (join_on [SP]
      (map decimal (filter (\<lambda>i. vis_cps ts ! i = [d]) [0 ..< length (vis_cps ts)]))))"
  using assms by (rule co_lpos_text)

theorem lpos_positions_witness:
  "co_lpos [0x41, 0xEF, 0x98, 0x81, 0x42, 0x41] 0x41 = Some [0x30, 0x20, 0x32]"
  using lpos_positions [of "[[0x41], [0xEF, 0x98, 0x81], [0x42], [0x41]]" "0x41"]
  by (simp add: utf8_cont_def lbuf_cap_eq upt_rec decimal.simps)

text \<open>\<open>co_reverse\<close> reverses the order of the visible code points: it returns on
  well-formed text, and what it writes is the leading colors followed by the elements
  (a code point with the colors in front of it) in reverse.\<close>

theorem reverse_elements:
  assumes "text_cps ts" "length buf = LBUF_SIZE"
  shows "co_reverse buf (concat ts) =
    Some (take lbuf_cap (concat (takeWhile color_cp ts) @
      concat (map concat (rev (elems_from [] (dropWhile color_cp ts))))))"
  using assms by (rule co_reverse_text)

theorem reverse_elements_witness:
  "co_reverse (replicate LBUF_SIZE 0) [0x41, 0xEF, 0x98, 0x81, 0x42, 0x43] =
     Some [0x43, 0xEF, 0x98, 0x81, 0x42, 0x41]"
  using reverse_elements [of "[[0x41], [0xEF, 0x98, 0x81], [0x42], [0x43]]" "replicate LBUF_SIZE 0"]
  by (simp add: utf8_cont_def lbuf_cap_eq)



end
