(* ===== verification/Color_State.thy ===== *)
theory Color_State
  imports Color_Words
begin

unbundle bit_operations_syntax

text \<open>
  Stage 5 of \<open>mux/lib/color_ops.c\<close>: the color state \<open>co_ColorState\<close> of
  \<open>mux/include/color_ops.h\<close>, the xterm palette, the parsers and emitters of
  private-use color code points, and the operations that interpret color:
  \<open>co_collapse_color\<close>, \<open>co_apply_color\<close>, \<open>co_merge\<close> and \<open>co_escape\<close>.  The 0/1
  attribute bytes of the structure are booleans, its \<open>int16_t\<close> indices integers
  (\<open>-1\<close> default, \<open>-2\<close> RGB, 0 to 255 palette), and the code points being assembled
  and taken apart are 32-bit words.
\<close>

section \<open>State and palette\<close>

record co_ColorState =
  fg :: int
  bg :: int
  fg_r :: byte
  fg_g :: byte
  fg_b :: byte
  bg_r :: byte
  bg_g :: byte
  bg_b :: byte
  intense :: bool
  underline :: bool
  blink :: bool
  inverse_video :: bool

definition CO_CS_NORMAL :: co_ColorState where
  "CO_CS_NORMAL =
     \<lparr>fg = -1, bg = -1, fg_r = 0, fg_g = 0, fg_b = 0, bg_r = 0, bg_g = 0, bg_b = 0,
      intense = False, underline = False, blink = False, inverse_video = False\<rparr>"

definition co_cs_fg :: "int \<Rightarrow> co_ColorState" where
  "co_cs_fg idx = CO_CS_NORMAL\<lparr>fg := sint (word_of_int idx :: 16 word)\<rparr>"

definition co_cs_bg :: "int \<Rightarrow> co_ColorState" where
  "co_cs_bg idx = CO_CS_NORMAL\<lparr>bg := sint (word_of_int idx :: 16 word)\<rparr>"

definition co_cs_equal :: "co_ColorState \<Rightarrow> co_ColorState \<Rightarrow> bool" where
  "co_cs_equal a b \<longleftrightarrow>
     fg a = fg b \<and> bg a = bg b
     \<and> fg_r a = fg_r b \<and> fg_g a = fg_g b \<and> fg_b a = fg_b b
     \<and> bg_r a = bg_r b \<and> bg_g a = bg_g b \<and> bg_b a = bg_b b
     \<and> intense a = intense b \<and> underline a = underline b
     \<and> blink a = blink b \<and> inverse_video a = inverse_video b"

type_synonym rgb_t = "byte \<times> byte \<times> byte"

definition xterm_XC :: "nat \<Rightarrow> byte" where
  "xterm_XC v = (if v = 0 then 0 else of_nat (55 + 40 * v))"

definition xterm_XG :: "nat \<Rightarrow> rgb_t" where
  "xterm_XG i = (of_nat (8 + 10 * i), of_nat (8 + 10 * i), of_nat (8 + 10 * i))"

definition xterm_palette :: "rgb_t list" where
  "xterm_palette =
     [(0, 0, 0), (128, 0, 0), (0, 128, 0), (128, 128, 0),
      (0, 0, 128), (128, 0, 128), (0, 128, 128), (192, 192, 192),
      (128, 128, 128), (255, 0, 0), (0, 255, 0), (255, 255, 0),
      (0, 0, 255), (255, 0, 255), (0, 255, 255), (255, 255, 255)] @
     concat (map (\<lambda>r. concat (map (\<lambda>g. map (\<lambda>b. (xterm_XC r, xterm_XC g, xterm_XC b))
       [0 ..< 6]) [0 ..< 6])) [0 ..< 6]) @
     map xterm_XG [0 ..< 24]"

fun rgb_dist :: "rgb_t \<Rightarrow> rgb_t \<Rightarrow> int" where
  "rgb_dist (r, g, b) (pr, pg, pb) =
     (let dr = uint r - uint pr; dg = uint g - uint pg; db = uint b - uint pb
      in dr * dr + dg * dg + db * db)"

fun nearest_loop :: "rgb_t \<Rightarrow> nat \<Rightarrow> rgb_t list \<Rightarrow> nat \<Rightarrow> int \<Rightarrow> nat" where
  "nearest_loop c i [] best best_dist = best"
| "nearest_loop c i (p # ps) best best_dist =
     (let dist = rgb_dist c p
      in if dist < best_dist then
           (if dist = 0 then i else nearest_loop c (i + 1) ps i dist)
         else nearest_loop c (i + 1) ps best best_dist)"

definition find_nearest_palette :: "rgb_t \<Rightarrow> nat" where
  "find_nearest_palette c = nearest_loop c 0 xterm_palette 0 (256 * 256 * 3)"

section \<open>Parsers\<close>

definition bmp_code_point :: "byte \<Rightarrow> byte \<Rightarrow> byte \<Rightarrow> 32 word" where
  "bmp_code_point a b c =
     (push_bit 12 (ucast a AND 0x0F)) OR (push_bit 6 (ucast b AND 0x3F)) OR (ucast c AND 0x3F)"

fun set_fg_index :: "nat \<Rightarrow> co_ColorState \<Rightarrow> co_ColorState" where
  "set_fg_index idx cs =
     (case xterm_palette ! idx of
        (r, g, b) \<Rightarrow> cs\<lparr>fg := int idx, fg_r := r, fg_g := g, fg_b := b\<rparr>)"

fun set_bg_index :: "nat \<Rightarrow> co_ColorState \<Rightarrow> co_ColorState" where
  "set_bg_index idx cs =
     (case xterm_palette ! idx of
        (r, g, b) \<Rightarrow> cs\<lparr>bg := int idx, bg_r := r, bg_g := g, bg_b := b\<rparr>)"

text \<open>The three bytes of the sequence; the state is unchanged where C returns 0.\<close>

definition parse_bmp_color :: "byte \<Rightarrow> byte \<Rightarrow> byte \<Rightarrow> co_ColorState \<Rightarrow> co_ColorState" where
  "parse_bmp_color p0 p1 p2 cs =
     (if p1 < 0x94 \<or> p1 > 0x9F then cs
      else
        (let cp = bmp_code_point p0 p1 p2
         in if cp = 0xF500 then CO_CS_NORMAL
            else if cp = 0xF501 then cs\<lparr>intense := True\<rparr>
            else if cp = 0xF504 then cs\<lparr>underline := True\<rparr>
            else if cp = 0xF505 then cs\<lparr>blink := True\<rparr>
            else if cp = 0xF507 then cs\<lparr>inverse_video := True\<rparr>
            else if cp \<ge> 0xF600 \<and> cp \<le> 0xF6FF then set_fg_index (unat (cp - 0xF600)) cs
            else if cp \<ge> 0xF700 \<and> cp \<le> 0xF7FF then set_bg_index (unat (cp - 0xF700)) cs
            else cs))"

definition smp_payload :: "byte \<Rightarrow> byte \<Rightarrow> 32 word" where
  "smp_payload p2 p3 = (push_bit 6 (ucast p2 - 0x80)) OR (ucast p3 - 0x80)"

definition parse_smp_color :: "byte \<Rightarrow> byte \<Rightarrow> byte \<Rightarrow> co_ColorState \<Rightarrow> co_ColorState" where
  "parse_smp_color p1 p2 p3 cs =
     (if p1 < 0xB0 \<or> p1 > 0xB3 then cs
      else
        (let block = p1 - 0xB0;
             payload = smp_payload p2 p3;
             hi = drop_bit 8 payload;
             lo = payload AND 0xFF;
             fg' = (if fg cs \<ge> 0 \<and> fg cs \<le> 255 then -2 else fg cs);
             bg' = (if bg cs \<ge> 0 \<and> bg cs \<le> 255 then -2 else bg cs)
         in if block = 0 then cs\<lparr>fg := fg', fg_r := ucast (push_bit 4 hi), fg_g := ucast lo\<rparr>
            else if block = 1 then
              cs\<lparr>fg := fg', fg_r := ucast ((ucast (fg_r cs) AND 0xF0) OR hi), fg_b := ucast lo\<rparr>
            else if block = 2 then cs\<lparr>bg := bg', bg_r := ucast (push_bit 4 hi), bg_g := ucast lo\<rparr>
            else cs\<lparr>bg := bg', bg_r := ucast ((ucast (bg_r cs) AND 0xF0) OR hi), bg_b := ucast lo\<rparr>))"

text \<open>Position and state behind the color codes at the front.\<close>

fun consume_pua :: "bytes \<Rightarrow> co_ColorState \<Rightarrow> bytes \<times> co_ColorState" where
  "consume_pua (a # b # c # p) cs =
     (if a = 0xEF \<and> 0x94 \<le> b \<and> b \<le> 0x9F then consume_pua p (parse_bmp_color a b c cs)
      else if a = 0xF3 \<and> p \<noteq> [] \<and> 0xB0 \<le> b \<and> b \<le> 0xB3 then
        consume_pua (tl p) (parse_smp_color b c (hd p) cs)
      else (a # b # c # p, cs))"
| "consume_pua p cs = (p, cs)"

section \<open>Emitters\<close>

text \<open>An emitter appends to the output, or leaves it alone when the code does not fit.\<close>

definition emit_pua_bmp :: "nat \<Rightarrow> bytes \<Rightarrow> 32 word \<Rightarrow> bytes" where
  "emit_pua_bmp cap out cp =
     (if length out + 3 > cap then out
      else out @ [0xEF, ucast (0x80 OR (drop_bit 6 cp AND 0x3F)), ucast (0x80 OR (cp AND 0x3F))])"

definition emit_pua_smp :: "nat \<Rightarrow> bytes \<Rightarrow> 32 word \<Rightarrow> 32 word \<Rightarrow> bytes" where
  "emit_pua_smp cap out block payload =
     (if length out + 4 > cap then out
      else out @ [0xF3, ucast (0xB0 + block), ucast (0x80 OR (drop_bit 6 payload AND 0x3F)),
                  ucast (0x80 OR (payload AND 0x3F))])"

definition need_reset :: "co_ColorState \<Rightarrow> co_ColorState \<Rightarrow> bool" where
  "need_reset cur new \<longleftrightarrow>
     intense cur \<and> \<not> intense new \<or> underline cur \<and> \<not> underline new \<or>
     blink cur \<and> \<not> blink new \<or> inverse_video cur \<and> \<not> inverse_video new \<or>
     fg cur \<noteq> -1 \<and> fg new = -1 \<or> bg cur \<noteq> -1 \<and> bg new = -1"

definition emit_attr :: "nat \<Rightarrow> bool \<Rightarrow> 32 word \<Rightarrow> bytes \<Rightarrow> bytes" where
  "emit_attr cap wanted cp out = (if wanted then emit_pua_bmp cap out cp else out)"

text \<open>
  Steps 3 and 4 of \<open>emit_transition\<close>: \<open>base\<close> and \<open>block\<close> are those of the plane, the
  indices and colors those of the current and the new state.
\<close>

definition emit_plane ::
  "nat \<Rightarrow> 32 word \<Rightarrow> 32 word \<Rightarrow> int \<Rightarrow> rgb_t \<Rightarrow> int \<Rightarrow> rgb_t \<Rightarrow> bytes \<Rightarrow> bytes" where
  "emit_plane cap base block cur_idx cur_c idx c out =
     (if (cur_idx \<noteq> idx \<or> cur_c \<noteq> c) \<and> idx \<noteq> -1 then
        (if idx \<ge> 0 \<and> idx \<le> 255 then emit_pua_bmp cap out (base + of_int idx)
         else if idx = -2 then
           (let n = find_nearest_palette c;
                out = emit_pua_bmp cap out (base + of_nat n)
            in if xterm_palette ! n \<noteq> c then
                 (case c of (r, g, b) \<Rightarrow>
                    (let out = emit_pua_smp cap out block
                                 ((push_bit 8 (drop_bit 4 (ucast r))) OR ucast g)
                     in emit_pua_smp cap out (block + 1)
                          ((push_bit 8 (ucast r AND 0xF)) OR ucast b)))
               else out)
         else out)
      else out)"

definition emit_transition :: "nat \<Rightarrow> bytes \<Rightarrow> co_ColorState \<Rightarrow> co_ColorState \<Rightarrow> bytes" where
  "emit_transition cap out old new =
     (if co_cs_equal old new then out
      else
        (let out = emit_attr cap (need_reset old new) 0xF500 out;
             cur = (if need_reset old new then CO_CS_NORMAL else old);
             out = emit_attr cap (intense new \<and> \<not> intense cur) 0xF501 out;
             out = emit_attr cap (underline new \<and> \<not> underline cur) 0xF504 out;
             out = emit_attr cap (blink new \<and> \<not> blink cur) 0xF505 out;
             out = emit_attr cap (inverse_video new \<and> \<not> inverse_video cur) 0xF507 out;
             out = emit_plane cap 0xF600 0 (fg cur) (fg_r cur, fg_g cur, fg_b cur)
                     (fg new) (fg_r new, fg_g new, fg_b new) out
         in emit_plane cap 0xF700 2 (bg cur) (bg_r cur, bg_g cur, bg_b cur)
              (bg new) (bg_r new, bg_g new, bg_b new) out))"

section \<open>Operations\<close>

partial_function (option) collapse_loop ::
  "bytes \<Rightarrow> co_ColorState \<Rightarrow> co_ColorState \<Rightarrow> bytes \<Rightarrow> (bytes \<times> co_ColorState \<times> co_ColorState) option" where
  "collapse_loop p emitted pending out =
     (if p = [] \<or> length out \<ge> lbuf_cap then Some (out, emitted, pending)
      else if hd p = 0xEF \<and> length p > 2 \<and> 0x94 \<le> p ! 1 \<and> p ! 1 \<le> 0x9F then
        collapse_loop (drop 3 p) emitted (parse_bmp_color (hd p) (p ! 1) (p ! 2) pending) out
      else if hd p = 0xF3 \<and> length p > 3 \<and> 0xB0 \<le> p ! 1 \<and> p ! 1 \<le> 0xB3 then
        collapse_loop (drop 4 p) emitted (parse_smp_color (p ! 1) (p ! 2) (p ! 3) pending) out
      else
        (let after = fst (co_visible_advance p 1)
         in collapse_loop after pending pending
              (wp_safe_list lbuf_cap (emit_transition lbuf_cap out emitted pending)
                (take (length p - length after) p))))"

definition co_collapse_color :: "bytes \<Rightarrow> bytes option" where
  "co_collapse_color data =
     map_option (\<lambda>(out, emitted, pending).
         if co_cs_equal pending emitted then out else emit_transition lbuf_cap out emitted pending)
       (collapse_loop data CO_CS_NORMAL CO_CS_NORMAL [])"

definition co_apply_color :: "bytes \<Rightarrow> co_ColorState \<Rightarrow> bytes" where
  "co_apply_color data cs =
     (let out = emit_transition lbuf_cap [] CO_CS_NORMAL cs
      in if data \<noteq> [] then wp_safe_copy lbuf_cap out data else out)"

definition cp_len :: "byte \<Rightarrow> nat" where
  "cp_len ch = (if ch < 0x80 then 1 else if ch < 0xE0 then 2 else if ch < 0xF0 then 3 else 4)"

lemma cp_len_pos [simp]: "0 < cp_len ch"
  by (simp add: cp_len_def)

lemma consume_pua_length: "length (fst (consume_pua p cs)) \<le> length p"
  by (induction p cs rule: consume_pua.induct) auto

text \<open>
  The loop of \<open>co_merge\<close>.  The comparison of a code point with the search string
  that would read behind the end of \<open>strA\<close> counts as a mismatch.
\<close>

function merge_loop ::
  "bytes \<Rightarrow> bytes \<Rightarrow> bytes \<Rightarrow> co_ColorState \<Rightarrow> co_ColorState \<Rightarrow> co_ColorState \<Rightarrow> bytes \<Rightarrow>
   bytes \<times> co_ColorState" where
  "merge_loop splain pa pb stateA stateB emitted out =
     (if pa = [] \<or> pb = [] \<or> length out \<ge> lbuf_cap then (out, emitted)
      else
        (let (pa, stateA) = consume_pua pa stateA;
             (pb, stateB) = consume_pua pb stateB
         in if pa = [] \<or> pb = [] then (out, emitted)
            else
              (let cplenA = cp_len (hd pa); cplenB = cp_len (hd pb);
                   (src, st) = (if cplenA = length splain \<and> take cplenA pa = splain
                                then (take cplenB pb, stateB) else (take cplenA pa, stateA))
               in merge_loop splain (drop cplenA pa) (drop cplenB pb) stateA stateB st
                    (wp_safe_list lbuf_cap (emit_transition lbuf_cap out emitted st) src))))"
  by pat_completeness auto
termination
proof (relation "measure (\<lambda>(splain, pa, _). length pa)", goal_cases)
  case (2 splain pa pb stateA stateB emitted out x pa' sA y pb' sB cplenA cplenB z src st)
  then have "length pa' \<le> length pa" using consume_pua_length [of pa stateA] by (metis fst_conv)
  moreover have "0 < cplenA" "pa' \<noteq> []" using 2 by auto
  ultimately show ?case by (cases pa') (auto simp: less_Suc_eq_le)
qed auto

definition co_merge :: "bytes \<Rightarrow> bytes \<Rightarrow> bytes \<Rightarrow> bytes" where
  "co_merge strA strB search =
     (let splain = (if co_strip_color search = [] then [SP] else co_strip_color search)
      in if co_visible_length strA \<noteq> co_visible_length strB then []
         else
           (case merge_loop splain strA strB CO_CS_NORMAL CO_CS_NORMAL CO_CS_NORMAL [] of
              (out, emitted) \<Rightarrow>
                if co_cs_equal emitted CO_CS_NORMAL then out
                else emit_transition lbuf_cap out emitted CO_CS_NORMAL))"

definition co_isescape :: "byte \<Rightarrow> bool" where
  "co_isescape ch \<longleftrightarrow>
     ch \<in> {0x24, 0x25, 0x28, 0x29, 0x2C, 0x3B, 0x5B, 0x5C, 0x5D, 0x5E, 0x7B, 0x7D}"

function escape_loop :: "bytes \<Rightarrow> bool \<Rightarrow> bytes \<Rightarrow> bytes" where
  "escape_loop p bFirst out =
     (if p = [] \<or> length out \<ge> lbuf_cap then out
      else
        (let q = co_skip_color p;
             out = wp_safe_list lbuf_cap out (take (length p - length q) p)
         in (case q of
               [] \<Rightarrow> out
             | ch # _ \<Rightarrow>
                 (let cplen = cp_len ch
                  in if cplen > length q then out
                     else
                       (let esc = (bFirst \<or> ch < 0x80 \<and> co_isescape ch);
                            out = (if esc then WP_SAFE lbuf_cap out 0x5C else out)
                        in escape_loop (drop cplen q) (if esc then False else bFirst)
                             (wp_safe_list lbuf_cap out (take cplen q)))))))"
  by pat_completeness auto
termination
proof (relation "measure (\<lambda>(p, _). length p)", goal_cases)
  case (2 p bFirst out q out' ch u cplen)
  then have "length q \<le> length p" "q \<noteq> []" "0 < cplen" using length_co_skip_color [of p] by auto
  then show ?case by (cases q) (auto simp: less_Suc_eq_le)
qed auto

definition co_escape :: "bytes \<Rightarrow> bytes" where
  "co_escape data = escape_loop data True []"


section \<open>Bits of the encodings\<close>

text \<open>
  The simplifier reads the bits of a numeral word off the integer numeral; these are
  the masks the encodings use.
\<close>

lemma bit_push_mask_int: "bit (push_bit k (mask m) :: int) n \<longleftrightarrow> k \<le> n \<and> n < k + m"
  by (auto simp: bit_push_bit_iff bit_mask_iff)

lemma bit_numeral_masks:
  "bit (15 :: int) n \<longleftrightarrow> n < 4" "bit (63 :: int) n \<longleftrightarrow> n < 6" "bit (255 :: int) n \<longleftrightarrow> n < 8"
  "bit (4095 :: int) n \<longleftrightarrow> n < 12" "bit (128 :: int) n \<longleftrightarrow> n = 7" "bit (240 :: int) n \<longleftrightarrow> 4 \<le> n \<and> n < 8"
  "bit (4032 :: int) n \<longleftrightarrow> 6 \<le> n \<and> n < 12" "bit (3840 :: int) n \<longleftrightarrow> 8 \<le> n \<and> n < 12"
  "bit (61440 :: int) n \<longleftrightarrow> 12 \<le> n \<and> n < 16"
proof -
  have e: "push_bit 0 (mask 4) = (15 :: int)" "push_bit 0 (mask 6) = (63 :: int)"
    "push_bit 0 (mask 8) = (255 :: int)" "push_bit 0 (mask 12) = (4095 :: int)"
    "push_bit 7 (mask 1) = (128 :: int)" "push_bit 4 (mask 4) = (240 :: int)"
    "push_bit 6 (mask 6) = (4032 :: int)" "push_bit 8 (mask 4) = (3840 :: int)"
    "push_bit 12 (mask 4) = (61440 :: int)"
    by (simp_all add: mask_eq_exp_minus_1 push_bit_eq_mult)
  note e' = bit_push_mask_int [where n = n]
  show "bit (15 :: int) n \<longleftrightarrow> n < 4" using e' [of 0 4] unfolding e by simp
  show "bit (63 :: int) n \<longleftrightarrow> n < 6" using e' [of 0 6] unfolding e by simp
  show "bit (255 :: int) n \<longleftrightarrow> n < 8" using e' [of 0 8] unfolding e by simp
  show "bit (4095 :: int) n \<longleftrightarrow> n < 12" using e' [of 0 12] unfolding e by simp
  show "bit (128 :: int) n \<longleftrightarrow> n = 7" using e' [of 7 1] unfolding e by auto
  show "bit (240 :: int) n \<longleftrightarrow> 4 \<le> n \<and> n < 8" using e' [of 4 4] unfolding e by simp
  show "bit (4032 :: int) n \<longleftrightarrow> 6 \<le> n \<and> n < 12" using e' [of 6 6] unfolding e by simp
  show "bit (3840 :: int) n \<longleftrightarrow> 8 \<le> n \<and> n < 12" using e' [of 8 4] unfolding e by simp
  show "bit (61440 :: int) n \<longleftrightarrow> 12 \<le> n \<and> n < 16" using e' [of 12 4] unfolding e by simp
qed

lemmas color_bits = bit_simps bit_numeral_masks

lemma cont_byte_minus:
  "ucast (ucast (128 OR (x AND 63) :: 32 word) :: byte) - (128 :: 32 word) = x AND 63"
proof -
  have "ucast (ucast (128 OR (x AND 63) :: 32 word) :: byte) = (128 :: 32 word) OR (x AND 63)"
    by (rule bit_word_eqI) (auto simp: color_bits)
  also have "\<dots> = 128 + (x AND 63)"
    by (rule disjunctive_add_eq_or [symmetric]) (rule bit_word_eqI, auto simp: color_bits)
  finally show ?thesis by simp
qed

lemma cont_byte_range:
  "utf8_cont (ucast (128 OR (x AND 63) :: 32 word))"
  and cont_byte_unat: "unat (ucast (128 OR (x AND 63) :: 32 word) :: byte) = 128 + unat x mod 64"
proof -
  have "x AND 63 = take_bit 6 x"
    by (rule bit_word_eqI) (auto simp: color_bits)
  then have m: "unat (x AND 63) = unat x mod 64"
    by (simp add: unsigned_take_bit_eq take_bit_eq_mod unat_mod)
  have "(128 :: 32 word) OR (x AND 63) = 128 + (x AND 63)"
    by (rule disjunctive_add_eq_or [symmetric]) (rule bit_word_eqI, auto simp: color_bits)
  then have "unat ((128 :: 32 word) OR (x AND 63)) = 128 + unat x mod 64"
    using m by (simp add: unat_word_ariths)
  then show u: "unat (ucast (128 OR (x AND 63) :: 32 word) :: byte) = 128 + unat x mod 64"
    by (simp add: unsigned_ucast_eq take_bit_eq_mod mod_less [of "128 + unat x mod 64" 256])
  show "utf8_cont (ucast (128 OR (x AND 63) :: 32 word))"
    using u by (simp add: utf8_cont_def word_nat_simps)
qed

lemma bmp_code_point_emit:
  assumes "drop_bit 12 cp = (0xF :: 32 word)"
  shows "bmp_code_point 0xEF (ucast (0x80 OR (drop_bit 6 cp AND 0x3F))) (ucast (0x80 OR (cp AND 0x3F))) = cp"
proof (rule bit_word_eqI)
  fix n assume n: "n < LENGTH(32)"
  have h: "12 \<le> n \<Longrightarrow> bit cp n \<longleftrightarrow> n - 12 < 4"
    using arg_cong [OF assms, of "\<lambda>w. bit w (n - 12)"] n by (auto simp: color_bits)
  have c: "((ucast (0xEF :: byte) :: 32 word) AND 0x0F) = 15" by simp
  show "bit (bmp_code_point 0xEF (ucast (0x80 OR (drop_bit 6 cp AND 0x3F))) (ucast (0x80 OR (cp AND 0x3F)))) n = bit cp n"
    unfolding bmp_code_point_def c using h n by (auto simp: color_bits)
qed

lemma smp_payload_emit:
  assumes "payload AND 0xFFF = payload"
  shows "smp_payload (ucast (0x80 OR (drop_bit 6 payload AND 0x3F))) (ucast (0x80 OR (payload AND 0x3F))) = payload"
proof -
  have "bit payload n \<Longrightarrow> n < 12" for n
    using arg_cong [OF assms, of "\<lambda>w. bit w n"] by (auto simp: color_bits)
  then show ?thesis
    unfolding smp_payload_def cont_byte_minus
    by (intro bit_word_eqI) (auto simp: color_bits)
qed

text \<open>The two halves of an RGB value.\<close>

lemma payload_hi:
  fixes r g :: byte
  defines "payload \<equiv> push_bit 8 (drop_bit 4 (ucast r)) OR ucast g :: 32 word"
  shows "payload AND 0xFFF = payload" "drop_bit 8 payload = drop_bit 4 (ucast r)"
    "(ucast (payload AND 0xFF) :: byte) = g"
proof -
  show "payload AND 0xFFF = payload"
    unfolding payload_def
    by (rule bit_word_eqI) (auto simp: color_bits dest: bit_imp_le_length)
  show "drop_bit 8 payload = drop_bit 4 (ucast r)" "(ucast (payload AND 0xFF) :: byte) = g"
    unfolding payload_def by (rule bit_word_eqI, auto simp: color_bits dest: bit_imp_le_length)+
qed

lemma payload_lo:
  fixes r b :: byte
  defines "payload \<equiv> push_bit 8 (ucast r AND 0xF) OR ucast b :: 32 word"
  shows "payload AND 0xFFF = payload" "drop_bit 8 payload = ucast r AND 0xF"
    "(ucast (payload AND 0xFF) :: byte) = b"
proof -
  show "payload AND 0xFFF = payload"
    unfolding payload_def
    by (rule bit_word_eqI) (auto simp: color_bits dest: bit_imp_le_length)
  show "drop_bit 8 payload = ucast r AND 0xF" "(ucast (payload AND 0xFF) :: byte) = b"
    unfolding payload_def by (rule bit_word_eqI, auto simp: color_bits dest: bit_imp_le_length)+
qed

lemma nibbles:
  fixes r :: byte
  shows "ucast ((ucast (ucast (push_bit 4 (drop_bit 4 (ucast r) :: 32 word)) :: byte) AND 0xF0) OR
    (ucast r AND 0xF) :: 32 word) = r"
  by (rule bit_word_eqI) (auto simp: color_bits dest: bit_imp_le_length)

section \<open>Palette\<close>

lemma length_xterm_palette: "length xterm_palette = 256"
  by (simp add: xterm_palette_def length_concat o_def sum_list_triv)

lemma nearest_loop_bound:
  "best < i + length ps \<or> best < i \<Longrightarrow> nearest_loop c i ps best d < i + length ps \<or> nearest_loop c i ps best d = best"
  by (induction c i ps best d rule: nearest_loop.induct) (auto simp: Let_def split: if_splits)

lemma nearest_loop_min:
  assumes "all = pre @ ps" "i = length pre" "best < length all"
    "best_dist \<ge> 0" "pre \<noteq> [] \<Longrightarrow> best < length pre \<and> best_dist = rgb_dist c (all ! best)"
    "\<forall>p \<in> set pre. best_dist \<le> rgb_dist c p" "\<forall>p \<in> set all. rgb_dist c p < bound" "pre = [] \<Longrightarrow> best_dist = bound"
    "ps \<noteq> [] \<or> pre \<noteq> []"
  shows "nearest_loop c i ps best best_dist < length all \<and>
    (\<forall>p \<in> set all. rgb_dist c (all ! nearest_loop c i ps best best_dist) \<le> rgb_dist c p)"
  using assms
proof (induction c i ps best best_dist arbitrary: pre rule: nearest_loop.induct)
  case (1 c i best best_dist)
  then show ?case by auto
next
  case (2 c i p ps best best_dist)
  have nn: "0 \<le> rgb_dist c q" for q by (cases c; cases q) (simp add: Let_def)
  have p: "all ! i = p" "i < length all" using 2(3,4) by auto
  have pre: "all = (pre @ [p]) @ ps" "i + 1 = length (pre @ [p])" using 2(3,4) by auto
  show ?case
  proof (cases "rgb_dist c p < best_dist")
    case True
    show ?thesis
    proof (cases "rgb_dist c p = 0")
      case zero: True
      with True p nn show ?thesis by (simp add: Let_def)
    next
      case False
      have "nearest_loop c (i + 1) ps i (rgb_dist c p) < length all \<and>
        (\<forall>q \<in> set all. rgb_dist c (all ! nearest_loop c (i + 1) ps i (rgb_dist c p)) \<le> rgb_dist c q)"
        using True False p nn 2 by (intro "2.IH"(1) [OF refl True False pre]) (auto simp: less_imp_le)
      with True False show ?thesis by (simp add: Let_def)
    qed
  next
    case False
    have ne: "pre \<noteq> []"
      using False "2.prems"(7,8) "2.prems"(1) by auto
    have "nearest_loop c (i + 1) ps best best_dist < length all \<and>
        (\<forall>q \<in> set all. rgb_dist c (all ! nearest_loop c (i + 1) ps best best_dist) \<le> rgb_dist c q)"
      using False ne "2.prems" by (intro "2.IH"(2) [OF refl False pre]) auto
    with False show ?thesis by (simp add: Let_def)
  qed
qed

lemma sq_bound: "\<bar>x\<bar> \<le> 255 \<Longrightarrow> x * x \<le> 65025" for x :: int
  using mult_mono [of "\<bar>x\<bar>" 255 "\<bar>x\<bar>" 255] by (simp add: abs_mult_self_eq)

lemma rgb_dist_bound: "rgb_dist c p < 256 * 256 * 3"
proof -
  obtain r g b r' g' b' where c: "c = (r, g, b)" "p = (r', g', b')" by (metis prod_cases3)
  have u: "0 \<le> uint x \<and> uint x \<le> 255" for x :: byte
    using uint_bounded [of x] by simp
  have "\<bar>uint x - uint y\<bar> \<le> 255" for x y :: byte using u [of x] u [of y] by linarith
  then have "(uint x - uint y) * (uint x - uint y) \<le> 65025" for x y :: byte by (rule sq_bound)
  from this [of r r'] this [of g g'] this [of b b'] c show ?thesis by (simp add: Let_def)
qed

lemma find_nearest_palette_min:
  "find_nearest_palette c < 256 \<and>
   (\<forall>p \<in> set xterm_palette. rgb_dist c (xterm_palette ! find_nearest_palette c) \<le> rgb_dist c p)"
proof -
  have "xterm_palette \<noteq> []" using length_xterm_palette by auto
  then show ?thesis
    unfolding find_nearest_palette_def length_xterm_palette [symmetric]
    by (intro nearest_loop_min [where pre = "[]" and bound = "256 * 256 * 3"])
      (auto simp: rgb_dist_bound [simplified] length_xterm_palette simp del: rgb_dist.simps)
qed

lemma rgb_dist_0: "rgb_dist c p = 0 \<longleftrightarrow> c = p"
proof -
  obtain r g b r' g' b' where c: "c = (r, g, b)" "p = (r', g', b')" by (metis prod_cases3)
  have "x * x + y * y + z * z = 0 \<longleftrightarrow> x = 0 \<and> y = 0 \<and> z = 0" for x y z :: int
    using zero_le_square [of x] zero_le_square [of y] zero_le_square [of z]
    by (auto simp: add_nonneg_eq_0_iff)
  then show ?thesis by (simp add: c Let_def word_uint_eq_iff)
qed

section \<open>Emitters and parsers agree\<close>

text \<open>How a color code point changes the state.\<close>

fun parse_color :: "bytes \<Rightarrow> co_ColorState \<Rightarrow> co_ColorState" where
  "parse_color [a, b, c] cs = parse_bmp_color a b c cs"
| "parse_color [a, b, c, d] cs = parse_smp_color b c d cs"
| "parse_color _ cs = cs"

text \<open>
  \<open>emits n f out out'\<close>: at most \<open>n\<close> bytes of color code points are appended, and
  reading them back does \<open>f\<close> to the state.
\<close>

definition emits :: "nat \<Rightarrow> (co_ColorState \<Rightarrow> co_ColorState) \<Rightarrow> bytes \<Rightarrow> bytes \<Rightarrow> bool" where
  "emits n f out out' \<longleftrightarrow>
     (\<exists>es. out' = out @ concat es \<and> length (concat es) \<le> n \<and> text_cps es \<and> list_all color_cp es \<and>
        (\<forall>cs. fold parse_color es cs = f cs))"

lemma emits_refl: "emits n (\<lambda>cs. cs) out out"
  unfolding emits_def by (rule exI [of _ "[]"]) simp

lemma emits_trans: "emits n f a b \<Longrightarrow> emits m g b c \<Longrightarrow> emits (n + m) (\<lambda>cs. g (f cs)) a c"
proof -
  assume "emits n f a b" "emits m g b c"
  then obtain es fs where "b = a @ concat es" "length (concat es) \<le> n" "text_cps es" "list_all color_cp es"
      "\<forall>cs. fold parse_color es cs = f cs" "c = b @ concat fs" "length (concat fs) \<le> m" "text_cps fs"
      "list_all color_cp fs" "\<forall>cs. fold parse_color fs cs = g cs"
    by (auto simp: emits_def)
  then show ?thesis unfolding emits_def by (intro exI [of _ "es @ fs"]) auto
qed

lemma emits_length: "emits n f a b \<Longrightarrow> length b \<le> length a + n"
  by (auto simp: emits_def)

lemma emits_if:
  "(b \<Longrightarrow> emits n f out out') \<Longrightarrow>
     emits n (\<lambda>cs. if b then f cs else cs) out (if b then out' else out)"
  by (simp add: emits_refl)

lemma bmp_range:
  assumes "k < 0x300" "cp = (0xF500 + of_nat k :: 32 word)"
  shows "drop_bit 12 cp = 0xF" "0x94 \<le> (ucast (0x80 OR (drop_bit 6 cp AND 0x3F)) :: byte)"
    "(ucast (0x80 OR (drop_bit 6 cp AND 0x3F)) :: byte) \<le> 0x9F"
proof -
  have u: "unat cp = 0xF500 + k"
    using assms by (simp add: unat_word_ariths unat_of_nat)
  then have "unat (drop_bit 12 cp) = 15"
    using assms(1) by (simp add: drop_bit_eq_div unat_div)
  then show "drop_bit 12 cp = 0xF" by (simp add: word_unat_eq_iff)
  have "unat (drop_bit 6 cp) = 980 + k div 64"
    using u by (simp add: drop_bit_eq_div unat_div)
  moreover have "k div 64 < 12" using assms(1) by simp
  moreover have "(980 + q) mod 64 = 20 + q" if "q < 12" for q :: nat
  proof -
    have "980 + q = (20 + q) + 15 * 64" by simp
    then have "(980 + q) mod 64 = (20 + q) mod 64" by (metis mod_mult_self1)
    with that show ?thesis by simp
  qed
  ultimately have "unat (drop_bit 6 cp) mod 64 = 20 + k div 64" by (simp only:)
  then have "unat (ucast (0x80 OR (drop_bit 6 cp AND 0x3F)) :: byte) = 148 + k div 64"
    by (simp only: cont_byte_unat)
  with \<open>k div 64 < 12\<close> show "0x94 \<le> (ucast (0x80 OR (drop_bit 6 cp AND 0x3F)) :: byte)"
    "(ucast (0x80 OR (drop_bit 6 cp AND 0x3F)) :: byte) \<le> 0x9F"
    by (simp_all only: word_le_nat_alt) simp_all
qed

lemma emits_bmp:
  assumes "k < 0x300" "cp = (0xF500 + of_nat k :: 32 word)" "length out + 3 \<le> cap"
    "\<And>p1 p2 cs. bmp_code_point 0xEF p1 p2 = cp \<Longrightarrow> 0x94 \<le> p1 \<Longrightarrow> p1 \<le> 0x9F \<Longrightarrow>
       parse_bmp_color 0xEF p1 p2 cs = f cs"
  shows "emits 3 f out (emit_pua_bmp cap out cp)"
proof -
  let ?b = "ucast (0x80 OR (drop_bit 6 cp AND 0x3F)) :: byte" and ?c = "ucast (0x80 OR (cp AND 0x3F)) :: byte"
  note r = bmp_range [OF assms(1,2)]
  have "emit_pua_bmp cap out cp = out @ concat [[0xEF, ?b, ?c]]"
    using assms(3) by (simp add: emit_pua_bmp_def)
  moreover have "utf8_cp [0xEF, ?b, ?c]"
    using cont_byte_range [of "drop_bit 6 cp"] cont_byte_range [of cp] by simp
  moreover have "color_cp [0xEF, ?b, ?c]" using r by simp
  moreover have "parse_color [0xEF, ?b, ?c] cs = f cs" for cs
    using assms(4) [of ?b ?c cs] r bmp_code_point_emit [OF r(1)] by simp
  ultimately show ?thesis
    unfolding emits_def by (intro exI [of _ "[[0xEF, ?b, ?c]]"]) simp
qed

lemma emits_attrs:
  assumes "length out + 3 \<le> cap"
  shows "emits 3 (\<lambda>cs. CO_CS_NORMAL) out (emit_pua_bmp cap out 0xF500)"
    "emits 3 (\<lambda>cs. cs\<lparr>intense := True\<rparr>) out (emit_pua_bmp cap out 0xF501)"
    "emits 3 (\<lambda>cs. cs\<lparr>underline := True\<rparr>) out (emit_pua_bmp cap out 0xF504)"
    "emits 3 (\<lambda>cs. cs\<lparr>blink := True\<rparr>) out (emit_pua_bmp cap out 0xF505)"
    "emits 3 (\<lambda>cs. cs\<lparr>inverse_video := True\<rparr>) out (emit_pua_bmp cap out 0xF507)"
proof -
  show "emits 3 (\<lambda>cs. CO_CS_NORMAL) out (emit_pua_bmp cap out 0xF500)"
    by (rule emits_bmp [of 0]) (auto simp: assms parse_bmp_color_def)
  show "emits 3 (\<lambda>cs. cs\<lparr>intense := True\<rparr>) out (emit_pua_bmp cap out 0xF501)"
    by (rule emits_bmp [of 1]) (auto simp: assms parse_bmp_color_def)
  show "emits 3 (\<lambda>cs. cs\<lparr>underline := True\<rparr>) out (emit_pua_bmp cap out 0xF504)"
    by (rule emits_bmp [of 4]) (auto simp: assms parse_bmp_color_def)
  show "emits 3 (\<lambda>cs. cs\<lparr>blink := True\<rparr>) out (emit_pua_bmp cap out 0xF505)"
    by (rule emits_bmp [of 5]) (auto simp: assms parse_bmp_color_def)
  show "emits 3 (\<lambda>cs. cs\<lparr>inverse_video := True\<rparr>) out (emit_pua_bmp cap out 0xF507)"
    by (rule emits_bmp [of 7]) (auto simp: assms parse_bmp_color_def)
qed

lemma emits_index:
  assumes "length out + 3 \<le> cap" "idx < 256"
  shows "emits 3 (set_fg_index idx) out (emit_pua_bmp cap out (0xF600 + of_nat idx))"
    "emits 3 (set_bg_index idx) out (emit_pua_bmp cap out (0xF700 + of_nat idx))"
proof -
  have u: "unat (0xF600 + of_nat idx :: 32 word) = 0xF600 + idx"
    "unat (0xF700 + of_nat idx :: 32 word) = 0xF700 + idx" "unat (of_nat idx :: 32 word) = idx"
    using assms(2) by (simp_all add: unat_word_ariths unat_of_nat)
  show "emits 3 (set_fg_index idx) out (emit_pua_bmp cap out (0xF600 + of_nat idx))"
  proof (rule emits_bmp [of "0x100 + idx"])
    fix p1 p2 :: byte and cs
    assume "bmp_code_point 0xEF p1 p2 = 0xF600 + of_nat idx" "0x94 \<le> p1" "p1 \<le> 0x9F"
    moreover have "\<not> p1 < 0x94" "\<not> 0x9F < p1" using calculation(2,3) by auto
    moreover have "(0xF600 :: 32 word) \<le> 0xF600 + of_nat idx" "0xF600 + of_nat idx \<le> (0xF6FF :: 32 word)"
      "0xF600 + of_nat idx \<noteq> (0xF500 :: 32 word)" "0xF600 + of_nat idx \<noteq> (0xF501 :: 32 word)"
      "0xF600 + of_nat idx \<noteq> (0xF504 :: 32 word)" "0xF600 + of_nat idx \<noteq> (0xF505 :: 32 word)"
      "0xF600 + of_nat idx \<noteq> (0xF507 :: 32 word)"
      using assms(2) by (simp_all only: word_le_nat_alt word_unat_eq_iff u) simp_all
    ultimately show "parse_bmp_color 0xEF p1 p2 cs = set_fg_index idx cs"
      using u by (simp add: parse_bmp_color_def del: set_fg_index.simps)
  qed (use assms in simp_all)
  show "emits 3 (set_bg_index idx) out (emit_pua_bmp cap out (0xF700 + of_nat idx))"
  proof (rule emits_bmp [of "0x200 + idx"])
    fix p1 p2 :: byte and cs
    assume "bmp_code_point 0xEF p1 p2 = 0xF700 + of_nat idx" "0x94 \<le> p1" "p1 \<le> 0x9F"
    moreover have "\<not> p1 < 0x94" "\<not> 0x9F < p1" using calculation(2,3) by auto
    moreover have "(0xF700 :: 32 word) \<le> 0xF700 + of_nat idx" "0xF700 + of_nat idx \<le> (0xF7FF :: 32 word)"
      "\<not> 0xF700 + of_nat idx \<le> (0xF6FF :: 32 word)"
      "0xF700 + of_nat idx \<noteq> (0xF500 :: 32 word)" "0xF700 + of_nat idx \<noteq> (0xF501 :: 32 word)"
      "0xF700 + of_nat idx \<noteq> (0xF504 :: 32 word)" "0xF700 + of_nat idx \<noteq> (0xF505 :: 32 word)"
      "0xF700 + of_nat idx \<noteq> (0xF507 :: 32 word)"
      using assms(2) by (simp_all only: word_le_nat_alt word_unat_eq_iff u) simp_all
    ultimately show "parse_bmp_color 0xEF p1 p2 cs = set_bg_index idx cs"
      using u by (simp add: parse_bmp_color_def del: set_bg_index.simps)
  qed (use assms in simp_all)
qed

lemma emits_cong: "emits n f a b \<Longrightarrow> n = m \<Longrightarrow> (\<And>cs. f cs = g cs) \<Longrightarrow> emits m g a b"
  by (simp add: emits_def)

lemma emits_smp:
  fixes q :: byte
  assumes "length out + 4 \<le> cap" "payload AND 0xFFF = payload"
    "q = (ucast (0xB0 + block) :: byte)" "0xB0 \<le> q" "q \<le> 0xB3"
    "\<And>p2 p3 cs. smp_payload p2 p3 = payload \<Longrightarrow> parse_smp_color q p2 p3 cs = f cs"
  shows "emits 4 f out (emit_pua_smp cap out block payload)"
proof -
  let ?c = "ucast (0x80 OR (drop_bit 6 payload AND 0x3F)) :: byte" and ?d = "ucast (0x80 OR (payload AND 0x3F)) :: byte"
  have "emit_pua_smp cap out block payload = out @ concat [[0xF3, q, ?c, ?d]]"
    using assms(1,3) by (simp add: emit_pua_smp_def)
  moreover have "utf8_cp [0xF3, q, ?c, ?d]"
  proof -
    have "utf8_cont q" using assms(4,5) by (simp add: utf8_cont_def word_nat_simps)
    then show ?thesis
      using cont_byte_range [of "drop_bit 6 payload"] cont_byte_range [of payload] by simp
  qed
  moreover have "color_cp [0xF3, q, ?c, ?d]" using assms(4,5) by simp
  moreover have "parse_color [0xF3, q, ?c, ?d] cs = f cs" for cs
    using assms(6) smp_payload_emit [OF assms(2)] by simp
  ultimately show ?thesis
    unfolding emits_def by (intro exI [of _ "[[0xF3, q, ?c, ?d]]"]) simp
qed

definition to_rgb_mode :: "int \<Rightarrow> int" where
  "to_rgb_mode i = (if i \<ge> 0 \<and> i \<le> 255 then -2 else i)"

lemma to_rgb_mode_twice: "to_rgb_mode (to_rgb_mode i) = to_rgb_mode i"
  by (simp add: to_rgb_mode_def)

lemma emits_rgb:
  assumes "length out + 8 \<le> cap"
  shows "emits 8 (\<lambda>cs. cs\<lparr>fg := to_rgb_mode (fg cs), fg_r := r, fg_g := g, fg_b := b\<rparr>) out
      (emit_pua_smp cap (emit_pua_smp cap out 0 (push_bit 8 (drop_bit 4 (ucast r)) OR ucast g))
        (0 + 1) (push_bit 8 (ucast r AND 0xF) OR ucast b))" (is "emits 8 ?F out ?fg")
    and "emits 8 (\<lambda>cs. cs\<lparr>bg := to_rgb_mode (bg cs), bg_r := r, bg_g := g, bg_b := b\<rparr>) out
      (emit_pua_smp cap (emit_pua_smp cap out 2 (push_bit 8 (drop_bit 4 (ucast r)) OR ucast g))
        (2 + 1) (push_bit 8 (ucast r AND 0xF) OR ucast b))" (is "emits 8 ?G out ?bg")
proof -
  have l: "length (emit_pua_smp cap out k p) + 4 \<le> cap" for k p
    using assms by (simp add: emit_pua_smp_def)
  define P :: "32 word" where "P = push_bit 8 (drop_bit 4 (ucast r)) OR ucast g"
  define Q :: "32 word" where "Q = push_bit 8 (ucast r AND 0xF) OR ucast b"
  note P = payload_hi [of r g, folded P_def] and Q = payload_lo [of r b, folded Q_def]
  let ?hi = "ucast (push_bit 4 (drop_bit 4 (ucast r) :: 32 word)) :: byte"
  have 1: "emits 4 (\<lambda>cs. cs\<lparr>fg := to_rgb_mode (fg cs), fg_r := ?hi, fg_g := g\<rparr>) out
      (emit_pua_smp cap out 0 P)"
    using assms
    by (intro emits_smp [where q = "0xB0"])
      (simp_all add: P parse_smp_color_def to_rgb_mode_def Let_def)
  have 2: "emits 4 (\<lambda>cs. cs\<lparr>fg := to_rgb_mode (fg cs),
      fg_r := ucast ((ucast (fg_r cs) AND 0xF0) OR (ucast r AND 0xF) :: 32 word), fg_b := b\<rparr>) out'
      (emit_pua_smp cap out' (0 + 1) Q)"
    if "length out' + 4 \<le> cap" for out'
    using that
    by (intro emits_smp [where q = "0xB1"])
      (simp_all add: Q parse_smp_color_def to_rgb_mode_def Let_def)
  have 3: "emits 4 (\<lambda>cs. cs\<lparr>bg := to_rgb_mode (bg cs), bg_r := ?hi, bg_g := g\<rparr>) out
      (emit_pua_smp cap out 2 P)"
    using assms
    by (intro emits_smp [where q = "0xB2"])
      (simp_all add: P parse_smp_color_def to_rgb_mode_def Let_def)
  have 4: "emits 4 (\<lambda>cs. cs\<lparr>bg := to_rgb_mode (bg cs),
      bg_r := ucast ((ucast (bg_r cs) AND 0xF0) OR (ucast r AND 0xF) :: 32 word), bg_b := b\<rparr>) out'
      (emit_pua_smp cap out' (2 + 1) Q)"
    if "length out' + 4 \<le> cap" for out'
    using that
    by (intro emits_smp [where q = "0xB3"])
      (simp_all add: Q parse_smp_color_def to_rgb_mode_def Let_def)
  show "emits 8 ?F out ?fg"
    unfolding P_def [symmetric] Q_def [symmetric]
    using emits_trans [OF 1 2 [OF l]]
    by (rule emits_cong, simp) (rule co_ColorState.equality, simp_all add: nibbles to_rgb_mode_twice)
  show "emits 8 ?G out ?bg"
    unfolding P_def [symmetric] Q_def [symmetric]
    using emits_trans [OF 3 4 [OF l]]
    by (rule emits_cong, simp) (rule co_ColorState.equality, simp_all add: nibbles to_rgb_mode_twice)
qed

text \<open>Well-formed states: what the parsers build, starting from \<open>CO_CS_NORMAL\<close>.\<close>

definition wf_plane :: "int \<Rightarrow> rgb_t \<Rightarrow> bool" where
  "wf_plane i c \<longleftrightarrow> i = -2 \<or> i = -1 \<or> 0 \<le> i \<and> i \<le> 255 \<and> xterm_palette ! nat i = c"

definition wf_cs :: "co_ColorState \<Rightarrow> bool" where
  "wf_cs cs \<longleftrightarrow> wf_plane (fg cs) (fg_r cs, fg_g cs, fg_b cs) \<and> wf_plane (bg cs) (bg_r cs, bg_g cs, bg_b cs)"

text \<open>What a terminal shows: no color at all, or an RGB value, for each plane.\<close>

definition plane_visual :: "int \<Rightarrow> rgb_t \<Rightarrow> rgb_t option" where
  "plane_visual i c = (if i = -1 then None else Some c)"

definition cs_visual where
  "cs_visual cs =
     (plane_visual (fg cs) (fg_r cs, fg_g cs, fg_b cs), plane_visual (bg cs) (bg_r cs, bg_g cs, bg_b cs),
      intense cs, underline cs, blink cs, inverse_video cs)"

definition plane_mode :: "int \<Rightarrow> rgb_t \<Rightarrow> int" where
  "plane_mode i c =
     (if 0 \<le> i \<and> i \<le> 255 then i
      else if xterm_palette ! find_nearest_palette c = c then int (find_nearest_palette c) else -2)"

lemma set_index_simps:
  "xterm_palette ! i = (r, g, b) \<Longrightarrow> set_fg_index i = (\<lambda>cs. cs\<lparr>fg := int i, fg_r := r, fg_g := g, fg_b := b\<rparr>)"
  "xterm_palette ! i = (r, g, b) \<Longrightarrow> set_bg_index i = (\<lambda>cs. cs\<lparr>bg := int i, bg_r := r, bg_g := g, bg_b := b\<rparr>)"
  by (simp_all add: fun_eq_iff)

lemma emits_mono: "emits n f a b \<Longrightarrow> n \<le> m \<Longrightarrow> emits m f a b"
  unfolding emits_def by (blast intro: le_trans)


definition put_reset where "put_reset w cs = (if w then CO_CS_NORMAL else cs)"
definition put_intense :: "bool \<Rightarrow> co_ColorState \<Rightarrow> co_ColorState" where
  "put_intense w cs = cs\<lparr>intense := intense cs \<or> w\<rparr>"
definition put_underline :: "bool \<Rightarrow> co_ColorState \<Rightarrow> co_ColorState" where
  "put_underline w cs = cs\<lparr>underline := underline cs \<or> w\<rparr>"
definition put_blink :: "bool \<Rightarrow> co_ColorState \<Rightarrow> co_ColorState" where
  "put_blink w cs = cs\<lparr>blink := blink cs \<or> w\<rparr>"
definition put_inverse :: "bool \<Rightarrow> co_ColorState \<Rightarrow> co_ColorState" where
  "put_inverse w cs = cs\<lparr>inverse_video := inverse_video cs \<or> w\<rparr>"
fun put_fg :: "bool \<Rightarrow> int \<Rightarrow> rgb_t \<Rightarrow> co_ColorState \<Rightarrow> co_ColorState" where
  "put_fg w i (r, g, b) cs = (if w then cs\<lparr>fg := i, fg_r := r, fg_g := g, fg_b := b\<rparr> else cs)"
fun put_bg :: "bool \<Rightarrow> int \<Rightarrow> rgb_t \<Rightarrow> co_ColorState \<Rightarrow> co_ColorState" where
  "put_bg w i (r, g, b) cs = (if w then cs\<lparr>bg := i, bg_r := r, bg_g := g, bg_b := b\<rparr> else cs)"

lemmas put_defs = put_reset_def put_intense_def put_underline_def put_blink_def put_inverse_def

lemma put_plane_sel:
  "fg (put_fg w i c cs) = (if w then i else fg cs)" "fg_r (put_fg w i c cs) = (if w then fst c else fg_r cs)"
  "fg_g (put_fg w i c cs) = (if w then fst (snd c) else fg_g cs)"
  "fg_b (put_fg w i c cs) = (if w then snd (snd c) else fg_b cs)"
  "bg (put_fg w i c cs) = bg cs" "bg_r (put_fg w i c cs) = bg_r cs" "bg_g (put_fg w i c cs) = bg_g cs"
  "bg_b (put_fg w i c cs) = bg_b cs" "intense (put_fg w i c cs) = intense cs"
  "underline (put_fg w i c cs) = underline cs" "blink (put_fg w i c cs) = blink cs"
  "inverse_video (put_fg w i c cs) = inverse_video cs"
  "bg (put_bg w i c cs) = (if w then i else bg cs)" "bg_r (put_bg w i c cs) = (if w then fst c else bg_r cs)"
  "bg_g (put_bg w i c cs) = (if w then fst (snd c) else bg_g cs)"
  "bg_b (put_bg w i c cs) = (if w then snd (snd c) else bg_b cs)"
  "fg (put_bg w i c cs) = fg cs" "fg_r (put_bg w i c cs) = fg_r cs" "fg_g (put_bg w i c cs) = fg_g cs"
  "fg_b (put_bg w i c cs) = fg_b cs" "intense (put_bg w i c cs) = intense cs"
  "underline (put_bg w i c cs) = underline cs" "blink (put_bg w i c cs) = blink cs"
  "inverse_video (put_bg w i c cs) = inverse_video cs"
  "co_ColorState.more (put_fg w i c cs) = co_ColorState.more cs"
  "co_ColorState.more (put_bg w i c cs) = co_ColorState.more cs"
  by (cases c; simp)+

lemma or_absorb: "(a \<or> b \<and> \<not> a) = (b \<or> a)"
  by blast

lemma emits_attr:
  assumes "length out + 3 \<le> cap"
  shows "emits 3 (put_reset w) out (emit_attr cap w 0xF500 out)"
    "emits 3 (put_intense w) out (emit_attr cap w 0xF501 out)"
    "emits 3 (put_underline w) out (emit_attr cap w 0xF504 out)"
    "emits 3 (put_blink w) out (emit_attr cap w 0xF505 out)"
    "emits 3 (put_inverse w) out (emit_attr cap w 0xF507 out)"
proof -
  have e: "put_reset True = (\<lambda>cs. CO_CS_NORMAL)" "put_intense True = (\<lambda>cs. cs\<lparr>intense := True\<rparr>)"
    "put_underline True = (\<lambda>cs. cs\<lparr>underline := True\<rparr>)" "put_blink True = (\<lambda>cs. cs\<lparr>blink := True\<rparr>)"
    "put_inverse True = (\<lambda>cs. cs\<lparr>inverse_video := True\<rparr>)"
    "put_reset False = (\<lambda>cs. cs)" "put_intense False = (\<lambda>cs. cs)" "put_underline False = (\<lambda>cs. cs)"
    "put_blink False = (\<lambda>cs. cs)" "put_inverse False = (\<lambda>cs. cs)"
    by (simp_all add: fun_eq_iff put_defs)
  note a = emits_attrs [OF assms]
  show "emits 3 (put_reset w) out (emit_attr cap w 0xF500 out)"
    by (cases w) (simp_all only: emit_attr_def e a emits_refl if_True if_False)
  show "emits 3 (put_intense w) out (emit_attr cap w 0xF501 out)"
    by (cases w) (simp_all only: emit_attr_def e a emits_refl if_True if_False)
  show "emits 3 (put_underline w) out (emit_attr cap w 0xF504 out)"
    by (cases w) (simp_all only: emit_attr_def e a emits_refl if_True if_False)
  show "emits 3 (put_blink w) out (emit_attr cap w 0xF505 out)"
    by (cases w) (simp_all only: emit_attr_def e a emits_refl if_True if_False)
  show "emits 3 (put_inverse w) out (emit_attr cap w 0xF507 out)"
    by (cases w) (simp_all only: emit_attr_def e a emits_refl if_True if_False)
qed

text \<open>What the codes of a transition do to the state of their reader.\<close>

definition transition_fun :: "co_ColorState \<Rightarrow> co_ColorState \<Rightarrow> co_ColorState \<Rightarrow> co_ColorState" where
  "transition_fun old new =
     (let cur = (if need_reset old new then CO_CS_NORMAL else old) in (\<lambda>cs.
      put_bg ((bg cur \<noteq> bg new \<or> (bg_r cur, bg_g cur, bg_b cur) \<noteq> (bg_r new, bg_g new, bg_b new)) \<and> bg new \<noteq> -1)
        (plane_mode (bg new) (bg_r new, bg_g new, bg_b new)) (bg_r new, bg_g new, bg_b new)
      (put_fg ((fg cur \<noteq> fg new \<or> (fg_r cur, fg_g cur, fg_b cur) \<noteq> (fg_r new, fg_g new, fg_b new)) \<and> fg new \<noteq> -1)
        (plane_mode (fg new) (fg_r new, fg_g new, fg_b new)) (fg_r new, fg_g new, fg_b new)
      (put_inverse (inverse_video new \<and> \<not> inverse_video cur) (put_blink (blink new \<and> \<not> blink cur)
      (put_underline (underline new \<and> \<not> underline cur) (put_intense (intense new \<and> \<not> intense cur)
      (put_reset (need_reset old new) cs))))))))"

lemma emits_plane:
  fixes cc :: rgb_t and ci :: int
  assumes "length out + 11 \<le> cap" "wf_plane i (r, g, b)"
  defines "change \<equiv> (ci \<noteq> i \<or> cc \<noteq> (r, g, b)) \<and> i \<noteq> -1"
  shows "emits 11 (put_fg change (plane_mode i (r, g, b)) (r, g, b)) out
      (emit_plane cap 0xF600 0 ci cc i (r, g, b) out)" (is "emits 11 ?F out ?fg")
    and "emits 11 (put_bg change (plane_mode i (r, g, b)) (r, g, b)) out
      (emit_plane cap 0xF700 2 ci cc i (r, g, b) out)" (is "emits 11 ?G out ?bg")
proof -
  have F: "put_fg True j (r, g, b) = (\<lambda>cs. cs\<lparr>fg := j, fg_r := r, fg_g := g, fg_b := b\<rparr>)"
    "put_fg False j (r, g, b) = (\<lambda>cs. cs)"
    and G: "put_bg True j (r, g, b) = (\<lambda>cs. cs\<lparr>bg := j, bg_r := r, bg_g := g, bg_b := b\<rparr>)"
    "put_bg False j (r, g, b) = (\<lambda>cs. cs)" for j
    by (simp_all add: fun_eq_iff)
  let ?n = "find_nearest_palette (r, g, b)"
  have n: "?n < 256" using find_nearest_palette_min by blast
  note ix = emits_index [of out cap]
  have "emits 11 ?F out ?fg \<and> emits 11 ?G out ?bg"
  proof (cases change)
    case False
    then have "?fg = out" "?bg = out" by (auto simp: emit_plane_def change_def)
    with False emits_refl show ?thesis by (simp add: F G)
  next
    case True
    then have ch: "(ci \<noteq> i \<or> cc \<noteq> (r, g, b)) \<and> i \<noteq> -1" by (simp add: change_def)
    show ?thesis
    proof (cases "0 \<le> i \<and> i \<le> 255")
      case pos: True
      then obtain k where k: "i = int k" "k < 256" by (intro that [of "nat i"]) auto
      with assms(2) have p: "xterm_palette ! k = (r, g, b)" by (simp add: wf_plane_def)
      have "emits 11 (set_fg_index k) out ?fg" "emits 11 (set_bg_index k) out ?bg"
        using ix [of k] assms(1) k ch by (auto simp: emit_plane_def intro: emits_mono)
      then show ?thesis using k True by (simp add: F G set_index_simps [OF p] plane_mode_def)
    next
      case False
      with assms(2) ch have i: "i = -2" by (auto simp: wf_plane_def)
      show ?thesis
      proof (cases "xterm_palette ! ?n = (r, g, b)")
        case eq: True
        have "emits 11 (set_fg_index ?n) out ?fg" "emits 11 (set_bg_index ?n) out ?bg"
          using ix [OF _ n] assms(1) eq i ch by (auto simp: emit_plane_def Let_def intro: emits_mono)
        then show ?thesis using i eq True by (simp add: F G set_index_simps [OF eq] plane_mode_def)
      next
        case ne: False
        obtain r' g' b' where q: "xterm_palette ! ?n = (r', g', b')" by (metis prod_cases3)
        have l: "length (emit_pua_bmp cap out c) + 8 \<le> cap" for c
          using assms(1) by (simp add: emit_pua_bmp_def)
        have "emits (3 + 8) (\<lambda>cs. (\<lambda>cs. cs\<lparr>fg := to_rgb_mode (fg cs), fg_r := r, fg_g := g, fg_b := b\<rparr>)
            (set_fg_index ?n cs)) out ?fg"
          using emits_trans [OF ix(1) [OF _ n] emits_rgb(1) [OF l]] assms(1) ne i ch
          by (simp add: emit_plane_def Let_def del: set_fg_index.simps)
        moreover have "emits (3 + 8) (\<lambda>cs. (\<lambda>cs. cs\<lparr>bg := to_rgb_mode (bg cs), bg_r := r, bg_g := g, bg_b := b\<rparr>)
            (set_bg_index ?n cs)) out ?bg"
          using emits_trans [OF ix(2) [OF _ n] emits_rgb(2) [OF l]] assms(1) ne i ch
          by (simp add: emit_plane_def Let_def del: set_bg_index.simps)
        ultimately show ?thesis
          using n ne i True by (simp add: F G set_index_simps [OF q] to_rgb_mode_def plane_mode_def del: set_fg_index.simps set_bg_index.simps)
      qed
    qed
  qed
  then show "emits 11 ?F out ?fg" "emits 11 ?G out ?bg" by blast+
qed

lemma emit_transition_emits:
  assumes "length out + 37 \<le> cap" "wf_cs new" "\<not> co_cs_equal old new"
  shows "emits 37 (transition_fun old new) out (emit_transition cap out old new)"
proof -
  define cur where "cur = (if need_reset old new then CO_CS_NORMAL else old)"
  define o1 where "o1 = emit_attr cap (need_reset old new) 0xF500 out"
  define o2 where "o2 = emit_attr cap (intense new \<and> \<not> intense cur) 0xF501 o1"
  define o3 where "o3 = emit_attr cap (underline new \<and> \<not> underline cur) 0xF504 o2"
  define o4 where "o4 = emit_attr cap (blink new \<and> \<not> blink cur) 0xF505 o3"
  define o5 where "o5 = emit_attr cap (inverse_video new \<and> \<not> inverse_video cur) 0xF507 o4"
  define o6 where "o6 = emit_plane cap 0xF600 0 (fg cur) (fg_r cur, fg_g cur, fg_b cur)
                     (fg new) (fg_r new, fg_g new, fg_b new) o5"
  define o7 where "o7 = emit_plane cap 0xF700 2 (bg cur) (bg_r cur, bg_g cur, bg_b cur)
                     (bg new) (bg_r new, bg_g new, bg_b new) o6"
  have out: "emit_transition cap out old new = o7"
    using assms(3) by (simp add: emit_transition_def Let_def o1_def o2_def o3_def o4_def o5_def o6_def o7_def cur_def)
  have wf: "wf_plane (fg new) (fg_r new, fg_g new, fg_b new)" "wf_plane (bg new) (bg_r new, bg_g new, bg_b new)"
    using assms(2) by (auto simp: wf_cs_def)
  have e1: "emits 3 (put_reset (need_reset old new)) out o1"
    unfolding o1_def by (rule emits_attr) (use assms(1) in simp)
  have e2: "emits 3 (put_intense (intense new \<and> \<not> intense cur)) o1 o2"
    unfolding o2_def by (rule emits_attr) (use emits_length [OF e1] assms(1) in simp)
  note e12 = emits_trans [OF e1 e2]
  have e3: "emits 3 (put_underline (underline new \<and> \<not> underline cur)) o2 o3"
    unfolding o3_def by (rule emits_attr) (use emits_length [OF e12] assms(1) in simp)
  note e13 = emits_trans [OF e12 e3]
  have e4: "emits 3 (put_blink (blink new \<and> \<not> blink cur)) o3 o4"
    unfolding o4_def by (rule emits_attr) (use emits_length [OF e13] assms(1) in simp)
  note e14 = emits_trans [OF e13 e4]
  have e5: "emits 3 (put_inverse (inverse_video new \<and> \<not> inverse_video cur)) o4 o5"
    unfolding o5_def by (rule emits_attr) (use emits_length [OF e14] assms(1) in simp)
  note e15 = emits_trans [OF e14 e5]
  have "length o5 + 11 \<le> cap" using emits_length [OF e15] assms(1) by simp
  note e16 = emits_trans [OF e15 emits_plane(1) [OF this wf(1), of "fg cur" "(fg_r cur, fg_g cur, fg_b cur)",
        folded o6_def]]
  have "length o6 + 11 \<le> cap" using emits_length [OF e16] assms(1) by simp
  note e17 = emits_trans [OF e16 emits_plane(2) [OF this wf(2), of "bg cur" "(bg_r cur, bg_g cur, bg_b cur)",
        folded o7_def]]
  show ?thesis
    unfolding out transition_fun_def Let_def cur_def [symmetric] by (rule emits_mono [OF e17]) simp
qed

lemma plane_mode_default: "plane_mode i c \<noteq> -1"
  by (simp add: plane_mode_def)

lemma plane_mode_visual: "wf_plane i c \<Longrightarrow> i \<noteq> -1 \<Longrightarrow> plane_visual (plane_mode i c) c = plane_visual i c"
  by (simp add: plane_mode_default plane_visual_def)

lemma wf_plane_mode: "wf_plane i c \<Longrightarrow> i \<noteq> -1 \<Longrightarrow> wf_plane (plane_mode i c) c"
  using find_nearest_palette_min [of c] by (auto simp: wf_plane_def plane_mode_def)

lemma transition_fun_visual:
  assumes "wf_cs new" "wf_cs R" "cs_visual R = cs_visual old"
  shows "cs_visual (transition_fun old new R) = cs_visual new" "wf_cs (transition_fun old new R)"
proof -
  define cur where "cur = (if need_reset old new then CO_CS_NORMAL else old)"
  define curR where "curR = (if need_reset old new then CO_CS_NORMAL else R)"
  note tf = transition_fun_def [of old new, unfolded Let_def, folded cur_def]
  have v: "plane_visual (fg curR) (fg_r curR, fg_g curR, fg_b curR) = plane_visual (fg cur) (fg_r cur, fg_g cur, fg_b cur)"
    "plane_visual (bg curR) (bg_r curR, bg_g curR, bg_b curR) = plane_visual (bg cur) (bg_r cur, bg_g cur, bg_b cur)"
    "intense curR = intense cur" "underline curR = underline cur" "blink curR = blink cur"
    "inverse_video curR = inverse_video cur"
    using assms(3) by (simp_all add: cur_def curR_def cs_visual_def)
  have wfn: "wf_plane (fg new) (fg_r new, fg_g new, fg_b new)" "wf_plane (bg new) (bg_r new, bg_g new, bg_b new)"
    and wfR: "wf_plane (fg curR) (fg_r curR, fg_g curR, fg_b curR)" "wf_plane (bg curR) (bg_r curR, bg_g curR, bg_b curR)"
    using assms by (auto simp: wf_cs_def curR_def CO_CS_NORMAL_def wf_plane_def)
  have def: "fg new = -1 \<Longrightarrow> fg cur = -1" "bg new = -1 \<Longrightarrow> bg cur = -1"
    and attr: "intense cur \<Longrightarrow> intense new" "underline cur \<Longrightarrow> underline new"
      "blink cur \<Longrightarrow> blink new" "inverse_video cur \<Longrightarrow> inverse_video new"
    by (auto simp: cur_def need_reset_def CO_CS_NORMAL_def split: if_splits)
  let ?S = "transition_fun old new R"
  have r: "put_reset (need_reset old new) R = curR" by (simp add: put_reset_def curR_def)
  note sel = put_plane_sel put_intense_def put_underline_def put_blink_def put_inverse_def
  have "plane_visual (fg ?S) (fg_r ?S, fg_g ?S, fg_b ?S) = plane_visual (fg new) (fg_r new, fg_g new, fg_b new)"
    using def(1) v(1) by (simp add: tf r sel del: put_fg.simps put_bg.simps) (auto simp: plane_visual_def plane_mode_default)
  moreover have "plane_visual (bg ?S) (bg_r ?S, bg_g ?S, bg_b ?S) = plane_visual (bg new) (bg_r new, bg_g new, bg_b new)"
    using def(2) v(2) by (simp add: tf r sel del: put_fg.simps put_bg.simps) (auto simp: plane_visual_def plane_mode_default)
  moreover have "intense ?S = intense new" "underline ?S = underline new" "blink ?S = blink new"
    "inverse_video ?S = inverse_video new"
    using attr v(3-6) by (auto simp: tf r sel simp del: put_fg.simps put_bg.simps)
  ultimately show "cs_visual ?S = cs_visual new" by (simp add: cs_visual_def)
  show "wf_cs ?S"
    using wfR wfn wf_plane_mode [OF wfn(1)] wf_plane_mode [OF wfn(2)]
    by (auto simp: tf r sel wf_cs_def simp del: put_fg.simps put_bg.simps)
qed

lemma emit_transition_reads:
  assumes "length out + 37 \<le> cap" "wf_cs new"
  obtains es where "emit_transition cap out old new = out @ concat es" "length (concat es) \<le> 37"
    "text_cps es" "list_all color_cp es"
    "\<And>R. wf_cs R \<Longrightarrow> cs_visual R = cs_visual old \<Longrightarrow>
       cs_visual (fold parse_color es R) = cs_visual new \<and> wf_cs (fold parse_color es R)"
proof (cases "co_cs_equal old new")
  case True
  then have "emit_transition cap out old new = out" by (simp add: emit_transition_def)
  moreover have "old = new" using True by (simp add: co_cs_equal_def)
  ultimately show ?thesis using that [of "[]"] by simp
next
  case False
  from emit_transition_emits [OF assms False] obtain es where
    es: "emit_transition cap out old new = out @ concat es" "length (concat es) \<le> 37" "text_cps es"
      "list_all color_cp es" "\<And>cs. fold parse_color es cs = transition_fun old new cs"
    by (auto simp: emits_def)
  show ?thesis
    by (rule that [OF es(1-4)]) (simp add: es(5) transition_fun_visual [OF assms(2)])
qed

section \<open>Painted text\<close>

text \<open>Every visible code point with what the terminal shows it in.\<close>

fun paint where
  "paint cs [] = []"
| "paint cs (t # ts) =
     (if color_cp t then paint (parse_color t cs) ts else (cs_visual cs, t) # paint cs ts)"

definition final_cs :: "co_ColorState \<Rightarrow> bytes list \<Rightarrow> co_ColorState" where
  "final_cs cs ts = fold parse_color (filter color_cp ts) cs"

lemma final_cs_simps [simp]:
  "final_cs cs [] = cs"
  "final_cs cs (t # ts) = (if color_cp t then final_cs (parse_color t cs) ts else final_cs cs ts)"
  by (simp_all add: final_cs_def)

lemma paint_colors:
  "list_all color_cp es \<Longrightarrow> paint cs (es @ ts) = paint (fold parse_color es cs) ts"
  "list_all color_cp es \<Longrightarrow> final_cs cs (es @ ts) = final_cs (fold parse_color es cs) ts"
  by (induction es arbitrary: cs) auto

lemma paint_vis: "map snd (paint cs ts) = vis_cps ts"
  by (induction ts arbitrary: cs) auto

lemma wf_set_index: "i < 256 \<Longrightarrow> wf_cs cs \<Longrightarrow> wf_cs (set_fg_index i cs) \<and> wf_cs (set_bg_index i cs)"
  by (auto simp: wf_cs_def wf_plane_def split: prod.splits)

lemma wf_parse_bmp: "wf_cs cs \<Longrightarrow> wf_cs (parse_bmp_color a b c cs)"
proof -
  assume wf: "wf_cs cs"
  have n: "wf_cs CO_CS_NORMAL" by (simp add: wf_cs_def wf_plane_def CO_CS_NORMAL_def)
  have u: "base \<le> cp \<Longrightarrow> cp \<le> base + 0xFF \<Longrightarrow> unat base < 0x10000 \<Longrightarrow> unat (cp - base) < 256" for cp base :: "32 word"
    by (simp add: word_le_nat_alt unat_sub unat_word_ariths)
  have "0xF600 \<le> cp \<and> cp \<le> 0xF6FF \<Longrightarrow> unat (cp - 0xF600) < 256"
    "0xF700 \<le> cp \<and> cp \<le> 0xF7FF \<Longrightarrow> unat (cp - 0xF700) < 256" for cp :: "32 word"
    using u [of "0xF600" cp] u [of "0xF700" cp] by simp_all
  with wf n wf_set_index show ?thesis
    unfolding parse_bmp_color_def Let_def
    by (auto simp: wf_cs_def simp del: set_fg_index.simps set_bg_index.simps)
qed

lemma wf_parse_smp: "wf_cs cs \<Longrightarrow> wf_cs (parse_smp_color b c d cs)"
  by (auto simp: parse_smp_color_def wf_cs_def wf_plane_def Let_def)

lemma wf_parse_color: "wf_cs cs \<Longrightarrow> wf_cs (parse_color t cs)"
  by (cases t rule: color_cp.cases) (auto simp: wf_parse_bmp wf_parse_smp)

lemma wf_fold_parse: "wf_cs cs \<Longrightarrow> wf_cs (fold parse_color es cs)"
  by (induction es arbitrary: cs) (auto simp: wf_parse_color)

lemma wf_normal: "wf_cs CO_CS_NORMAL"
  by (simp add: wf_cs_def wf_plane_def CO_CS_NORMAL_def)

lemma color_conditions:
  assumes "utf8_cp t" "p = t @ r"
  shows "hd p = 0xEF \<and> length p > 2 \<and> 0x94 \<le> p ! 1 \<and> p ! 1 \<le> 0x9F \<longleftrightarrow> color_cp t \<and> length t = 3"
    "hd p = 0xF3 \<and> length p > 3 \<and> 0xB0 \<le> p ! 1 \<and> p ! 1 \<le> 0xB3 \<longleftrightarrow> color_cp t \<and> length t = 4"
  using assms by (cases rule: utf8_cp_cases [OF assms(1)]; auto simp: word_nat_simps)+

lemma color_length: "color_cp t \<Longrightarrow> length t = 3 \<or> length t = 4"
  by (cases t rule: color_cp.cases) auto

lemma consume_pua_cp:
  assumes "utf8_cp t"
  shows "consume_pua (t @ r) cs = (if color_cp t then consume_pua r (parse_color t cs) else (t @ r, cs))"
  using assms
proof (cases rule: utf8_cp_cases)
  case (one a)
  with assms have "a \<noteq> 0xEF" "a \<noteq> 0xF3" by auto
  with one show ?thesis by (cases "(a # r, cs)" rule: consume_pua.cases) auto
next
  case (two a b)
  with assms have "a \<noteq> 0xEF" "a \<noteq> 0xF3" by auto
  with two show ?thesis by (cases "(a # b # r, cs)" rule: consume_pua.cases) auto
next
  case (three a b c)
  with assms show ?thesis by auto
next
  case (four a b c d)
  with assms show ?thesis by auto
qed

lemma consume_pua_text:
  "text_cps ts \<Longrightarrow> consume_pua (concat ts) cs =
     (concat (dropWhile color_cp ts), fold parse_color (takeWhile color_cp ts) cs)"
  by (induction ts arbitrary: cs) (auto simp: consume_pua_cp)

lemma cp_len_hd: "utf8_cp t \<Longrightarrow> cp_len (hd (t @ r)) = length t"
  by (cases rule: utf8_cp_cases [of t]) (auto simp: cp_len_def word_nat_simps)

text \<open>Writing one visible code point in a new state.\<close>

lemma length_emit_transition: "length out \<le> length (emit_transition cap out old new)"
proof -
  have b: "length o' \<le> length (emit_pua_bmp cap o' cp)" for o' cp by (simp add: emit_pua_bmp_def)
  have s: "length o' \<le> length (emit_pua_smp cap o' k p)" for o' k p by (simp add: emit_pua_smp_def)
  have a: "length o' \<le> length (emit_attr cap w cp o')" for o' w cp by (simp add: emit_attr_def b)
  have p: "length o' \<le> length (emit_plane cap base block ci cc i c o')" for base block ci cc i c o'
    by (auto simp: emit_plane_def Let_def split: prod.splits intro: b le_trans [OF b le_trans [OF s s]])
  note chain = le_trans [OF le_trans [OF le_trans [OF le_trans [OF le_trans [OF le_trans [OF a a] a] a] a] p] p]
  show ?thesis
  proof (cases "co_cs_equal old new")
    case True
    then show ?thesis by (simp add: emit_transition_def)
  next
    case False
    show ?thesis
      unfolding emit_transition_def Let_def if_not_P [OF False] by (rule chain)
  qed
qed

lemma length_wp_safe_list_ge: "length out \<le> length (wp_safe_list cap out bs)"
proof (induction bs arbitrary: out)
  case (Cons b bs)
  have "length out \<le> length (WP_SAFE cap out b)" by (simp add: WP_SAFE_def)
  with Cons [of "WP_SAFE cap out b"] show ?case by simp
qed simp

lemma wp_safe_list_room: "length out + length bs \<le> cap \<Longrightarrow> wp_safe_list cap out bs = out @ bs"
  using wp_safe_list_take [of cap out bs] by simp

lemma emit_cp:
  assumes "length out + 41 \<le> cap" "wf_cs new" "utf8_cp t" "\<not> color_cp t"
  obtains es where "wp_safe_list cap (emit_transition cap out old new) t = out @ concat (es @ [t])"
    "text_cps (es @ [t])"
    "\<And>R us. wf_cs R \<Longrightarrow> cs_visual R = cs_visual old \<Longrightarrow>
       \<exists>R'. wf_cs R' \<and> cs_visual R' = cs_visual new \<and>
         paint R (es @ t # us) = (cs_visual new, t) # paint R' us \<and> final_cs R (es @ t # us) = final_cs R' us"
proof -
  obtain es where es: "emit_transition cap out old new = out @ concat es" "length (concat es) \<le> 37"
    "text_cps es" "list_all color_cp es"
    "\<And>R. wf_cs R \<Longrightarrow> cs_visual R = cs_visual old \<Longrightarrow>
       cs_visual (fold parse_color es R) = cs_visual new \<and> wf_cs (fold parse_color es R)"
    using emit_transition_reads [of out cap new old] assms(1,2) by auto
  have "length t \<le> 4" using utf8_cp_length [OF assms(3)] by auto
  then have "wp_safe_list cap (emit_transition cap out old new) t = out @ concat (es @ [t])"
    using es(1,2) assms(1) by (simp add: wp_safe_list_room)
  moreover have "\<exists>R'. wf_cs R' \<and> cs_visual R' = cs_visual new \<and>
         paint R (es @ t # us) = (cs_visual new, t) # paint R' us \<and> final_cs R (es @ t # us) = final_cs R' us"
    if "wf_cs R" "cs_visual R = cs_visual old" for R us
    using es(5) [OF that] assms(4) by (intro exI [of _ "fold parse_color es R"]) (simp add: paint_colors es(4))
  ultimately show ?thesis using that es(3) assms(3) by simp
qed

section \<open>Collapsing, merging, escaping\<close>

lemma collapse_color_step:
  assumes "utf8_cp t" "color_cp t" "length out < lbuf_cap"
  shows "collapse_loop (t @ r) e p out = collapse_loop r e (parse_color t p) out"
  using color_length [OF assms(2)]
proof
  assume l: "length t = 3"
  then obtain a b c where t: "t = [a, b, c]" by (auto simp: length_Suc_conv numeral_3_eq_3)
  show ?thesis
    using assms color_conditions(1) [OF assms(1) refl, of r] l
    by (subst collapse_loop.simps) (simp add: t)
next
  assume l: "length t = 4"
  then obtain a b c d where t: "t = [a, b, c, d]"
    by (auto simp: length_Suc_conv numeral_eq_Suc)
  show ?thesis
    using assms color_conditions [OF assms(1) refl, of r] l
    by (subst collapse_loop.simps) (auto simp: t)
qed

lemma collapse_vis_step:
  assumes "utf8_cp t" "\<not> color_cp t" "length out < lbuf_cap"
  shows "collapse_loop (t @ r) e p out =
    collapse_loop r p p (wp_safe_list lbuf_cap (emit_transition lbuf_cap out e p) t)"
proof -
  have "fst (co_visible_advance (t @ r) (Suc 0)) = r"
    using visible_advance_run_path [OF vam.scan_cp [OF assms(1)], of 1 0 r] assms(2)
    by (simp add: co_visible_advance_def)
  with assms color_conditions [OF assms(1) refl, of r] utf8_cp_nonempty show ?thesis
    by (subst collapse_loop.simps) (auto simp: Let_def)
qed

lemma collapse_loop_full: "lbuf_cap \<le> length out \<Longrightarrow> collapse_loop p e q out = Some (out, e, q)"
  by (subst collapse_loop.simps) simp

lemma collapse_loop_total:
  "text_cps ts \<Longrightarrow> \<exists>out' e' p'. collapse_loop (concat ts) e p out = Some (out', e', p') \<and> length out \<le> length out'"
proof (induction ts arbitrary: e p out)
  case Nil
  then show ?case by (subst collapse_loop.simps) simp
next
  case (Cons t ts)
  show ?case
  proof (cases "lbuf_cap \<le> length out")
    case True
    then show ?thesis by (simp add: collapse_loop_full)
  next
    case False
    let ?out = "wp_safe_list lbuf_cap (emit_transition lbuf_cap out e p) t"
    have "length out \<le> length ?out"
      by (rule le_trans [OF length_emit_transition length_wp_safe_list_ge])
    moreover from Cons.IH [of p p ?out] Cons.prems obtain o' e' p' where
      "collapse_loop (concat ts) p p ?out = Some (o', e', p')" "length ?out \<le> length o'" by auto
    ultimately show ?thesis
      using Cons False
      by (cases "color_cp t") (auto simp: collapse_color_step collapse_vis_step)
  qed
qed

lemma collapse_loop_text:
  assumes "text_cps ts" "wf_cs e" "wf_cs p"
    "collapse_loop (concat ts) e p out = Some (out', e', p')" "length out' + 41 \<le> lbuf_cap"
  shows "wf_cs e' \<and> p' = final_cs p ts \<and> (\<exists>us. out' = out @ concat us \<and> text_cps us \<and>
    (\<forall>R. wf_cs R \<longrightarrow> cs_visual R = cs_visual e \<longrightarrow>
       paint R us = paint p ts \<and> wf_cs (final_cs R us) \<and> cs_visual (final_cs R us) = cs_visual e'))"
  using assms
proof (induction ts arbitrary: e p out)
  case Nil
  have "collapse_loop [] e p out = Some (out, e, p)" by (subst collapse_loop.simps) simp
  with Nil.prems(4) have "out' = out" "e' = e" "p' = p" by simp_all
  with Nil show ?case by (auto intro!: exI [of _ "[]"])
next
  case (Cons t ts)
  have room: "length out + 41 \<le> lbuf_cap"
    using collapse_loop_total [OF Cons.prems(1), of e p out] Cons.prems(4,5) by auto
  show ?case
  proof (cases "color_cp t")
    case True
    with Cons.prems room have "collapse_loop (concat ts) e (parse_color t p) out = Some (out', e', p')"
      by (simp add: collapse_color_step)
    with Cons.IH [of e "parse_color t p" out] Cons.prems True show ?thesis by (simp add: wf_parse_color)
  next
    case False
    let ?out = "wp_safe_list lbuf_cap (emit_transition lbuf_cap out e p) t"
    have st: "collapse_loop (concat ts) p p ?out = Some (out', e', p')"
      using False Cons.prems room by (simp add: collapse_vis_step)
    have t: "utf8_cp t" using Cons.prems(1) by simp
    obtain es where es: "?out = out @ concat (es @ [t])" "text_cps (es @ [t])"
      and rd: "\<And>R us. wf_cs R \<Longrightarrow> cs_visual R = cs_visual e \<Longrightarrow>
         \<exists>R'. wf_cs R' \<and> cs_visual R' = cs_visual p \<and> paint R (es @ t # us) = (cs_visual p, t) # paint R' us \<and>
           final_cs R (es @ t # us) = final_cs R' us"
      using emit_cp [OF room Cons.prems(3) t False, of e] by metis
    from Cons.IH [OF _ _ _ st] Cons.prems obtain us where
      us: "wf_cs e'" "p' = final_cs p ts" "out' = ?out @ concat us" "text_cps us"
      "\<And>R. wf_cs R \<Longrightarrow> cs_visual R = cs_visual p \<Longrightarrow>
         paint R us = paint p ts \<and> wf_cs (final_cs R us) \<and> cs_visual (final_cs R us) = cs_visual e'"
      by auto
    have "paint R (es @ t # us) = paint p (t # ts) \<and> wf_cs (final_cs R (es @ t # us)) \<and>
        cs_visual (final_cs R (es @ t # us)) = cs_visual e'"
      if "wf_cs R" "cs_visual R = cs_visual e" for R
      using rd [OF that, of us] us(5) False by auto
    moreover have "out' = out @ concat (es @ t # us)" "text_cps (es @ t # us)" using us es by auto
    ultimately show ?thesis using us(1,2) False by (intro conjI exI [of _ "es @ t # us"]) auto
  qed
qed

lemma paint_append_colors:
  assumes "list_all color_cp es"
  shows "paint cs (us @ es) = paint cs us" "final_cs cs (us @ es) = fold parse_color es (final_cs cs us)"
proof -
  have "paint c es = []" "final_cs c es = fold parse_color es c" for c
    using paint_colors [OF assms, of c "[]"] by simp_all
  then show "paint cs (us @ es) = paint cs us" "final_cs cs (us @ es) = fold parse_color es (final_cs cs us)"
    by (induction us arbitrary: cs) auto
qed

lemma co_collapse_color_total: "text_cps ts \<Longrightarrow> \<exists>out. co_collapse_color (concat ts) = Some out"
  using collapse_loop_total [of ts CO_CS_NORMAL CO_CS_NORMAL "[]"]
  by (auto simp: co_collapse_color_def)

lemma co_collapse_color_text:
  assumes "text_cps ts" "co_collapse_color (concat ts) = Some out" "length out + 41 \<le> lbuf_cap"
  shows "\<exists>us. out = concat us \<and> text_cps us \<and> paint CO_CS_NORMAL us = paint CO_CS_NORMAL ts \<and>
    cs_visual (final_cs CO_CS_NORMAL us) = cs_visual (final_cs CO_CS_NORMAL ts)"
proof -
  obtain o1 e p where l: "collapse_loop (concat ts) CO_CS_NORMAL CO_CS_NORMAL [] = Some (o1, e, p)"
    using collapse_loop_total [OF assms(1)] by blast
  have out: "out = (if co_cs_equal p e then o1 else emit_transition lbuf_cap o1 e p)"
    using assms(2) l by (simp add: co_collapse_color_def)
  then have r: "length o1 + 41 \<le> lbuf_cap"
    using assms(3) length_emit_transition [of o1 lbuf_cap e p] by (auto split: if_splits)
  from collapse_loop_text [OF assms(1) wf_normal wf_normal l r] obtain us where
    e: "wf_cs e" and p: "p = final_cs CO_CS_NORMAL ts" and us: "o1 = concat us" "text_cps us"
      "paint CO_CS_NORMAL us = paint CO_CS_NORMAL ts" "wf_cs (final_cs CO_CS_NORMAL us)"
      "cs_visual (final_cs CO_CS_NORMAL us) = cs_visual e"
    using wf_normal by auto
  have wfp: "wf_cs p" by (simp add: p final_cs_def wf_fold_parse wf_normal)
  show ?thesis
  proof (cases "co_cs_equal p e")
    case True
    then have "p = e" by (simp add: co_cs_equal_def)
    with True out us p show ?thesis by auto
  next
    case False
    have "length o1 + 37 \<le> lbuf_cap" using r by simp
    from emit_transition_reads [OF this wfp, of e] obtain es where
      es: "emit_transition lbuf_cap o1 e p = o1 @ concat es" "text_cps es" "list_all color_cp es"
        "\<And>R. wf_cs R \<Longrightarrow> cs_visual R = cs_visual e \<Longrightarrow> cs_visual (fold parse_color es R) = cs_visual p"
      by metis
    have "out = concat (us @ es)" using out False es(1) us(1) by simp
    with us es paint_append_colors [OF es(3), of CO_CS_NORMAL us] p show ?thesis
      by (intro exI [of _ "us @ es"]) auto
  qed
qed

lemma co_apply_color_text:
  assumes "text_cps ts" "wf_cs cs" "length (concat ts) + 41 \<le> lbuf_cap"
  shows "\<exists>es. co_apply_color (concat ts) cs = concat (es @ ts) \<and> text_cps es \<and>
    list_all color_cp es \<and> cs_visual (final_cs CO_CS_NORMAL es) = cs_visual cs"
proof -
  have "length ([] :: bytes) + 37 \<le> lbuf_cap" by (simp add: lbuf_cap_eq)
  from emit_transition_reads [OF this assms(2), of CO_CS_NORMAL] obtain es where
    es: "emit_transition lbuf_cap [] CO_CS_NORMAL cs = concat es" "length (concat es) \<le> 37" "text_cps es"
      "list_all color_cp es" "cs_visual (fold parse_color es CO_CS_NORMAL) = cs_visual cs"
    using wf_normal by (metis append_Nil)
  have "co_apply_color (concat ts) cs = concat (es @ ts)"
  proof (cases "concat ts = []")
    case False
    have "length (concat es) + length (concat ts) \<le> lbuf_cap" using es(2) assms(3) by simp
    with False es(1) wp_safe_copy_take_take [of lbuf_cap "concat es" "concat ts"] show ?thesis
      by (simp add: co_apply_color_def del: concat_eq_Nil_conv)
  qed (simp add: co_apply_color_def es(1))
  moreover have "final_cs CO_CS_NORMAL es = fold parse_color es CO_CS_NORMAL"
    using paint_colors(2) [OF es(4), of CO_CS_NORMAL "[]"] by simp
  ultimately show ?thesis using es by auto
qed

text \<open>\<open>co_merge\<close>: position by position, the code point and colors of one of the two.\<close>

definition merge_pick where
  "merge_pick s a b = (if snd a = s then b else a)"

declare merge_loop.simps [simp del]

lemma merge_loop_step:
  fixes sA sB :: co_ColorState
  assumes "text_cps as" "text_cps bs" "dropWhile color_cp as = a # as'" "dropWhile color_cp bs = b # bs'"
    "length out < lbuf_cap"
  defines "sA' \<equiv> fold parse_color (takeWhile color_cp as) sA"
  defines "sB' \<equiv> fold parse_color (takeWhile color_cp bs) sB"
  shows "merge_loop s (concat as) (concat bs) sA sB e out =
    merge_loop s (concat as') (concat bs') sA' sB' (if a = s then sB' else sA')
      (wp_safe_list lbuf_cap (emit_transition lbuf_cap out e (if a = s then sB' else sA')) (if a = s then b else a))"
proof -
  have ab: "utf8_cp a" "utf8_cp b"
    using text_dropWhile [OF assms(1), of color_cp] text_dropWhile [OF assms(2), of color_cp] assms(3,4) by auto
  have ne: "concat as \<noteq> []" "concat bs \<noteq> []"
    using assms(3,4) co_skip_color_text [OF assms(1)] co_skip_color_text [OF assms(2)] ab
    by (auto simp del: concat_eq_Nil_conv)
  have c: "consume_pua (concat as) sA = (a @ concat as', sA')" "consume_pua (concat bs) sB = (b @ concat bs', sB')"
    using consume_pua_text [OF assms(1), of sA] consume_pua_text [OF assms(2), of sB] assms(3,4)
    by (simp_all add: sA'_def sB'_def)
  have eq: "length a = length s \<and> a = s \<longleftrightarrow> a = s" by auto
  show ?thesis
    using ne ab assms(5)
    by (subst merge_loop.simps)
      (auto simp: c cp_len_hd Let_def simp del: concat_eq_Nil_conv)
qed

lemma merge_loop_end:
  assumes "text_cps as" "text_cps bs" "vis_cps as = [] \<or> vis_cps bs = []"
  shows "merge_loop s (concat as) (concat bs) sA sB e out = (out, e)"
proof -
  have "dropWhile color_cp ts = []" if "vis_cps ts = []" for ts
    using that by (auto simp: filter_empty_conv)
  with assms(3) have "dropWhile color_cp as = [] \<or> dropWhile color_cp bs = []" by blast
  with consume_pua_text [OF assms(1), of sA] consume_pua_text [OF assms(2), of sB] show ?thesis
    by (subst merge_loop.simps) (auto simp: Let_def split: prod.splits simp del: concat_eq_Nil_conv dropWhile_eq_Nil_conv)
qed

lemma paint_drop: "paint cs ts = paint (fold parse_color (takeWhile color_cp ts) cs) (dropWhile color_cp ts)"
  by (induction ts arbitrary: cs) auto

lemma merge_loop_mono: "length out \<le> length (fst (merge_loop s pa pb sA sB e out))"
proof (induction s pa pb sA sB e out rule: merge_loop.induct)
  case (1 s pa pb sA sB e out)
  show ?case
  proof (cases "pa = [] \<or> pb = [] \<or> length out \<ge> lbuf_cap \<or>
      fst (consume_pua pa sA) = [] \<or> fst (consume_pua pb sB) = []")
    case True
    then show ?thesis by (subst merge_loop.simps) (auto simp: Let_def split: prod.splits)
  next
    case False
    obtain pa' sA' pb' sB' where c: "consume_pua pa sA = (pa', sA')" "consume_pua pb sB = (pb', sB')"
      by (metis surj_pair)
    let ?m = "cp_len (hd pa') = length s \<and> take (cp_len (hd pa')) pa' = s"
    let ?st = "if ?m then sB' else sA'"
    let ?src = "if ?m then take (cp_len (hd pb')) pb' else take (cp_len (hd pa')) pa'"
    let ?out = "wp_safe_list lbuf_cap (emit_transition lbuf_cap out e ?st) ?src"
    have st: "merge_loop s pa pb sA sB e out =
        merge_loop s (drop (cp_len (hd pa')) pa') (drop (cp_len (hd pb')) pb') sA' sB' ?st ?out"
      using False c by (subst merge_loop.simps) (auto simp: Let_def)
    have "length out \<le> length ?out"
      by (rule le_trans [OF length_emit_transition length_wp_safe_list_ge])
    also have "\<dots> \<le> length (fst (merge_loop s (drop (cp_len (hd pa')) pa') (drop (cp_len (hd pb')) pb') sA' sB' ?st ?out))"
      using False c by (intro "1.IH" [OF _ c(1) [symmetric] _ c(2) [symmetric]]) (auto simp: Let_def)
    finally show ?thesis unfolding st .
  qed
qed

lemma merge_loop_text:
  assumes "text_cps as" "text_cps bs" "length (vis_cps as) = length (vis_cps bs)"
    "wf_cs sA" "wf_cs sB" "merge_loop s (concat as) (concat bs) sA sB e out = (out', e')"
    "length out' + 41 \<le> lbuf_cap" "wf_cs e"
  shows "wf_cs e' \<and> (\<exists>us. out' = out @ concat us \<and> text_cps us \<and>
    (\<forall>R. wf_cs R \<longrightarrow> cs_visual R = cs_visual e \<longrightarrow>
       paint R us = map2 (merge_pick s) (paint sA as) (paint sB bs) \<and>
       wf_cs (final_cs R us) \<and> cs_visual (final_cs R us) = cs_visual e'))"
  using assms
proof (induction "length (vis_cps as)" arbitrary: as bs sA sB e out)
  case 0
  then have "vis_cps as = []" "vis_cps bs = []" by simp_all
  then have "paint sA as = []" "paint sB bs = []"
    using paint_vis [of sA as] paint_vis [of sB bs] by simp_all
  with 0 merge_loop_end [of as bs s sA sB e out] show ?case by (auto intro!: exI [of _ "[]"])
next
  case (Suc n)
  obtain a as' where a: "dropWhile color_cp as = a # as'"
    using Suc(2) by (cases "dropWhile color_cp as") (auto simp: dropWhile_eq_Nil_conv)
  obtain b bs' where b: "dropWhile color_cp bs = b # bs'"
    using Suc(2,5) by (cases "dropWhile color_cp bs") (auto simp: dropWhile_eq_Nil_conv)
  have av: "\<not> color_cp a" "\<not> color_cp b" using a b by (simp_all add: dropWhile_eq_Cons_conv)
  have tx: "utf8_cp a" "utf8_cp b" "text_cps as'" "text_cps bs'"
    using text_dropWhile [OF Suc.prems(1), of color_cp] text_dropWhile [OF Suc.prems(2), of color_cp] a b by auto
  have vis: "vis_cps as = a # vis_cps as'" "vis_cps bs = b # vis_cps bs'"
  proof -
    have "vis_cps ts = vis_cps (dropWhile color_cp ts)" for ts by (induction ts) auto
    from this [of as] this [of bs] a b av show "vis_cps as = a # vis_cps as'" "vis_cps bs = b # vis_cps bs'"
      by simp_all
  qed
  define sA' where "sA' = fold parse_color (takeWhile color_cp as) sA"
  define sB' where "sB' = fold parse_color (takeWhile color_cp bs) sB"
  define st where "st = (if a = s then sB' else sA')"
  define t where "t = (if a = s then b else a)"
  have wf: "wf_cs sA'" "wf_cs sB'" "wf_cs st" using Suc.prems by (auto simp: sA'_def sB'_def st_def wf_fold_parse)
  have t: "utf8_cp t" "\<not> color_cp t" using tx av by (auto simp: t_def)
  have room: "length out + 41 \<le> lbuf_cap"
    using merge_loop_mono [of out s "concat as" "concat bs" sA sB e] Suc.prems(6,7) by simp
  let ?out = "wp_safe_list lbuf_cap (emit_transition lbuf_cap out e st) t"
  have "merge_loop s (concat as') (concat bs') sA' sB' st ?out = (out', e')"
    using merge_loop_step [OF Suc.prems(1,2) a b, of out s sA sB e] room Suc.prems(6)
    unfolding sA'_def [symmetric] sB'_def [symmetric] st_def [symmetric] t_def [symmetric] by simp
  from Suc.hyps(1) [OF _ tx(3,4) _ wf(1,2) this Suc.prems(7) wf(3)] Suc.hyps(2) Suc.prems(3) vis obtain us where
    us: "wf_cs e'" "out' = ?out @ concat us" "text_cps us"
      "\<And>R. wf_cs R \<Longrightarrow> cs_visual R = cs_visual st \<Longrightarrow>
         paint R us = map2 (merge_pick s) (paint sA' as') (paint sB' bs') \<and>
         wf_cs (final_cs R us) \<and> cs_visual (final_cs R us) = cs_visual e'"
    by auto
  obtain es where es: "?out = out @ concat (es @ [t])" "text_cps (es @ [t])"
    and rd: "\<And>R us. wf_cs R \<Longrightarrow> cs_visual R = cs_visual e \<Longrightarrow>
       \<exists>R'. wf_cs R' \<and> cs_visual R' = cs_visual st \<and> paint R (es @ t # us) = (cs_visual st, t) # paint R' us \<and>
         final_cs R (es @ t # us) = final_cs R' us"
    using emit_cp [OF room wf(3) t, of e] by metis
  have "paint sA as = (cs_visual sA', a) # paint sA' as'" "paint sB bs = (cs_visual sB', b) # paint sB' bs'"
    using paint_drop [of sA as] paint_drop [of sB bs] a b av by (simp_all add: sA'_def sB'_def)
  then have pk: "map2 (merge_pick s) (paint sA as) (paint sB bs) =
      (cs_visual st, t) # map2 (merge_pick s) (paint sA' as') (paint sB' bs')"
    by (simp add: merge_pick_def st_def t_def)
  have "paint R (es @ t # us) = map2 (merge_pick s) (paint sA as) (paint sB bs) \<and>
      wf_cs (final_cs R (es @ t # us)) \<and> cs_visual (final_cs R (es @ t # us)) = cs_visual e'"
    if "wf_cs R" "cs_visual R = cs_visual e" for R
    using rd [OF that, of us] us(4) pk by auto
  moreover have "out' = out @ concat (es @ t # us)" "text_cps (es @ t # us)" using us es by auto
  ultimately show ?case using us(1) by (intro conjI exI [of _ "es @ t # us"]) auto
qed

lemma co_merge_text:
  assumes "text_cps as" "text_cps bs" "length (vis_cps as) = length (vis_cps bs)"
    "utf8_cp s" "\<not> color_cp s" "length (co_merge (concat as) (concat bs) s) + 41 \<le> lbuf_cap"
  shows "\<exists>us. co_merge (concat as) (concat bs) s = concat us \<and> text_cps us \<and>
    paint CO_CS_NORMAL us = map2 (merge_pick s) (paint CO_CS_NORMAL as) (paint CO_CS_NORMAL bs) \<and>
    cs_visual (final_cs CO_CS_NORMAL us) = cs_visual CO_CS_NORMAL"
proof -
  have "length s \<le> lbuf_cap" using utf8_cp_length [OF assms(4)] by (auto simp: lbuf_cap_eq)
  then have sp: "co_strip_color s = s" "s \<noteq> []"
    using co_strip_color_text [of "[s]"] assms(4,5) by auto
  obtain o1 e where l: "merge_loop s (concat as) (concat bs) CO_CS_NORMAL CO_CS_NORMAL CO_CS_NORMAL [] = (o1, e)"
    by fastforce
  have out: "co_merge (concat as) (concat bs) s =
      (if co_cs_equal e CO_CS_NORMAL then o1 else emit_transition lbuf_cap o1 e CO_CS_NORMAL)"
    using assms(1-3) sp l by (simp add: co_merge_def)
  have r: "length o1 + 41 \<le> lbuf_cap"
    using assms(6) length_emit_transition [of o1 lbuf_cap e CO_CS_NORMAL] unfolding out by (auto split: if_splits)
  from merge_loop_text [OF assms(1-3) wf_normal wf_normal l r wf_normal] obtain us where
    us: "wf_cs e" "o1 = concat us" "text_cps us"
      "paint CO_CS_NORMAL us = map2 (merge_pick s) (paint CO_CS_NORMAL as) (paint CO_CS_NORMAL bs)"
      "wf_cs (final_cs CO_CS_NORMAL us)" "cs_visual (final_cs CO_CS_NORMAL us) = cs_visual e"
    using wf_normal by auto
  show ?thesis
  proof (cases "co_cs_equal e CO_CS_NORMAL")
    case True
    then have "e = CO_CS_NORMAL" by (simp add: co_cs_equal_def)
    with True out us show ?thesis by auto
  next
    case False
    have "length o1 + 37 \<le> lbuf_cap" using r by simp
    from emit_transition_reads [OF this wf_normal, of e] obtain es where
      es: "emit_transition lbuf_cap o1 e CO_CS_NORMAL = o1 @ concat es" "text_cps es" "list_all color_cp es"
        "\<And>R. wf_cs R \<Longrightarrow> cs_visual R = cs_visual e \<Longrightarrow> cs_visual (fold parse_color es R) = cs_visual CO_CS_NORMAL"
      by metis
    have "co_merge (concat as) (concat bs) s = concat (us @ es)" using out False es(1) us(2) by simp
    with us es paint_append_colors [OF es(3), of CO_CS_NORMAL us] show ?thesis
      by (intro exI [of _ "us @ es"]) auto
  qed
qed

text \<open>\<open>co_escape\<close>: a backslash in front of the first visible character and of every special one.\<close>

definition escape_cp :: "bytes \<Rightarrow> bool" where
  "escape_cp t \<longleftrightarrow> (\<exists>b. t = [b] \<and> co_isescape b)"

fun escape_cps :: "bool \<Rightarrow> bytes list \<Rightarrow> bytes list" where
  "escape_cps first [] = []"
| "escape_cps first (t # ts) =
     (if color_cp t then t # escape_cps first ts
      else if first \<or> escape_cp t then [0x5C] # t # escape_cps False ts
      else t # escape_cps False ts)"

fun unescape_cps :: "bytes list \<Rightarrow> bytes list" where
  "unescape_cps [] = []"
| "unescape_cps [t] = (if t = [0x5C] then [] else [t])"
| "unescape_cps (t # u # ts) = (if t = [0x5C] then u # unescape_cps ts else t # unescape_cps (u # ts))"

lemma unescape_Cons: "t \<noteq> [0x5C] \<Longrightarrow> unescape_cps (t # ts) = t # unescape_cps ts"
  by (cases ts) auto

lemma unescape_escape: "unescape_cps (escape_cps first ts) = ts"
proof (induction ts arbitrary: first)
  case (Cons t ts)
  have "escape_cp [0x5C]" by (simp add: escape_cp_def co_isescape_def)
  then have "color_cp t \<Longrightarrow> t \<noteq> [0x5C]" "\<not> escape_cp t \<Longrightarrow> t \<noteq> [0x5C]" by auto
  with Cons show ?case by (auto simp: unescape_Cons)
qed simp

declare escape_loop.simps [simp del]

lemma escape_loop_step:
  assumes "list_all color_cp cs" "text_cps cs" "utf8_cp t" "\<not> color_cp t" "\<not> lbuf_cap \<le> length acc"
  shows "escape_loop (concat cs @ t @ r) first (take lbuf_cap acc) =
    escape_loop r (if first \<or> escape_cp t then False else first)
      (take lbuf_cap (((acc @ concat cs) @ (if first \<or> escape_cp t then [0x5C] else [])) @ t))"
proof -
  have sk: "co_skip_color (concat cs @ t @ r) = t @ r"
  proof -
    have "co_skip_color (concat cs @ q) = co_skip_color q" for q
      using assms(1,2)
    proof (induction cs)
      case (Cons c cs)
      then show ?case by (simp add: co_skip_color_color del: co_skip_color.simps)
    qed simp
    with co_skip_color_visible [OF assms(3,4)] show ?thesis by simp
  qed
  obtain b u where t: "t = b # u" using assms(3) by (cases t) auto
  have len: "cp_len b = Suc (length u)" using cp_len_hd [OF assms(3), of r] t by simp
  have e: "b < 0x80 \<and> co_isescape b \<longleftrightarrow> escape_cp t"
  proof -
    have "u = [] \<longleftrightarrow> b < 0x80" using len by (auto simp: cp_len_def split: if_splits)
    moreover have "co_isescape b \<Longrightarrow> b < 0x80" by (auto simp: co_isescape_def)
    ultimately show ?thesis by (auto simp: escape_cp_def t)
  qed
  have l: "\<not> length (u @ r) < length u" "take (length u) (u @ r) = u" "drop (length u) (u @ r) = r" by simp_all
  have p: "take (length (concat cs @ t @ r) - length (t @ r)) (concat cs @ t @ r) = concat cs" by simp
  show ?thesis
  proof (cases "first \<or> escape_cp t")
    case True
    then show ?thesis
      using assms(5) e wp_safe_list_take [of lbuf_cap acc "concat cs"]
        WP_SAFE_take [of lbuf_cap "acc @ concat cs" "0x5C"]
        wp_safe_list_take [of lbuf_cap "(acc @ concat cs) @ [0x5C]" t] len sk p l
      unfolding t
      by (subst escape_loop.simps) (auto simp: Let_def simp del: take_append length_append length_concat)
  next
    case False
    then show ?thesis
      using assms(5) e wp_safe_list_take [of lbuf_cap acc "concat cs"]
        wp_safe_list_take [of lbuf_cap "acc @ concat cs" t] len sk p l
      unfolding t
      by (subst escape_loop.simps) (auto simp: Let_def simp del: take_append length_append length_concat)
  qed
qed

lemma escape_loop_text:
  "text_cps ts \<Longrightarrow>
     escape_loop (concat ts) first (take lbuf_cap acc) = take lbuf_cap (acc @ concat (escape_cps first ts))"
proof (induction "length ts" arbitrary: ts first acc rule: less_induct)
  case less
  have esc_colors: "escape_cps f (cs @ us) = cs @ escape_cps f us" if "list_all color_cp cs" for cs us f
    using that by (induction cs) auto
  show ?case
  proof (cases "lbuf_cap \<le> length acc")
    case True
    then show ?thesis by (subst escape_loop.simps) simp
  next
    case False
    define cs where "cs = takeWhile color_cp ts"
    have ts: "ts = cs @ dropWhile color_cp ts" by (simp add: cs_def)
    have cs: "list_all color_cp cs" "text_cps cs"
      using less.prems by (auto simp: cs_def list_all_iff dest: set_takeWhileD)
    show ?thesis
    proof (cases "dropWhile color_cp ts")
      case Nil
      then have "ts = cs" using ts by (metis append_Nil2)
      with cs have e: "escape_cps first ts = ts" using esc_colors [of ts first "[]"] by simp
      have "co_skip_color (concat ts) = []" using co_skip_color_text [OF less.prems] Nil by simp
      then show ?thesis
        using False wp_safe_list_take [of lbuf_cap acc "concat ts"] e
        by (subst escape_loop.simps) (auto simp: Let_def simp del: take_append concat_eq_Nil_conv)
    next
      case (Cons t us)
      have "utf8_cp t" "text_cps us" "length us < length ts"
        using text_dropWhile [OF less.prems, of color_cp] length_dropWhile_le [of color_cp ts] unfolding Cons
        by auto
      moreover have "\<not> color_cp t" using Cons by (simp add: dropWhile_eq_Cons_conv)
      ultimately have t: "utf8_cp t" "\<not> color_cp t" "text_cps us" "length us < length ts" by auto
      have cat: "concat ts = concat cs @ t @ concat us" by (subst ts) (simp add: Cons)
      have es: "escape_cps first ts = cs @ escape_cps first (t # us)"
        using esc_colors [OF cs(1)] by (subst ts) (simp add: Cons)
      show ?thesis
        unfolding cat escape_loop_step [OF cs t(1,2) False] less.hyps [OF t(4,3)] es
        using t(2) by (simp del: take_append)
    qed
  qed
qed

lemma co_escape_text: "text_cps ts \<Longrightarrow> co_escape (concat ts) = take lbuf_cap (concat (escape_cps True ts))"
  using escape_loop_text [of ts True "[]"] by (simp add: co_escape_def)

section \<open>Properties\<close>

text \<open>\<open>find_nearest_palette\<close> returns a palette index at minimal distance from the color.\<close>

theorem nearest_palette_minimal:
  "find_nearest_palette c < 256 \<and>
   (\<forall>p \<in> set xterm_palette. rgb_dist c (xterm_palette ! find_nearest_palette c) \<le> rgb_dist c p)"
  by (rule find_nearest_palette_min)

theorem nearest_palette_minimal_witness:
  "rgb_dist (1, 2, 3) (xterm_palette ! find_nearest_palette (1, 2, 3)) \<le> rgb_dist (1, 2, 3) (0, 0, 0)"
proof -
  have "(0, 0, 0) \<in> set xterm_palette" by (simp add: xterm_palette_def)
  with nearest_palette_minimal [of "(1, 2, 3)"] show ?thesis by blast
qed

text \<open>C22: Encoder and decoder agree: the color codes that \<open>emit_transition\<close> writes between
  two states, at most 37 bytes, are consumed completely by \<open>consume_pua\<close>, and a reader in the
  old state ends up showing the new one, whichever of the codes for attributes, palette
  indices or 24-bit deltas it takes.\<close>

theorem transition_roundtrip:
  assumes "length out + 37 \<le> cap" "wf_cs old" "wf_cs new"
  shows "\<exists>codes. emit_transition cap out old new = out @ codes \<and> length codes \<le> 37 \<and>
    fst (consume_pua codes old) = [] \<and> cs_visual (snd (consume_pua codes old)) = cs_visual new"
proof -
  obtain es where "emit_transition cap out old new = out @ concat es" "length (concat es) \<le> 37"
    "text_cps es" "list_all color_cp es" "cs_visual (fold parse_color es old) = cs_visual new"
    using emit_transition_reads [OF assms(1,3)] assms(2) by metis
  moreover from this have "consume_pua (concat es) old = ([], fold parse_color es old)"
    by (simp add: consume_pua_text list_all_iff dropWhile_eq_Nil_conv [THEN iffD2] takeWhile_eq_all_conv [THEN iffD2])
  ultimately show ?thesis by (intro exI [of _ "concat es"]) simp
qed

theorem transition_roundtrip_witness:
  "\<exists>codes. emit_transition 100 [] CO_CS_NORMAL (CO_CS_NORMAL\<lparr>fg := -2, fg_r := 1, fg_g := 2, fg_b := 3\<rparr>) = codes \<and>
     cs_visual (snd (consume_pua codes CO_CS_NORMAL)) = (Some (1, 2, 3), None, False, False, False, False)"
  using transition_roundtrip
    [of "[]" 100 CO_CS_NORMAL "CO_CS_NORMAL\<lparr>fg := -2, fg_r := 1, fg_g := 2, fg_b := 3\<rparr>"]
  by (simp add: wf_cs_def wf_plane_def cs_visual_def plane_visual_def CO_CS_NORMAL_def)

text \<open>C2: \<open>co_collapse_color\<close> rewrites the color codes without changing what is shown: it
  returns on well-formed text, and when the result fits the line buffer it is well-formed,
  every visible code point is painted as before, and the color in force at the end is the
  same.\<close>

theorem collapse_preserves_painting:
  assumes "text_cps ts"
  shows "\<exists>out. co_collapse_color (concat ts) = Some out \<and>
    (length out + 41 \<le> lbuf_cap \<longrightarrow>
       (\<exists>us. out = concat us \<and> text_cps us \<and> paint CO_CS_NORMAL us = paint CO_CS_NORMAL ts \<and>
          cs_visual (final_cs CO_CS_NORMAL us) = cs_visual (final_cs CO_CS_NORMAL ts)))"
  using co_collapse_color_total [OF assms] co_collapse_color_text [OF assms] by metis

theorem collapse_preserves_painting_witness:
  "\<exists>us. [0xEF, 0x98, 0x81, 0x42] = concat us \<and>
     paint CO_CS_NORMAL us = paint CO_CS_NORMAL [[0xEF, 0x98, 0x82], [0xEF, 0x98, 0x81], [0x42]]"
proof -
  have "co_collapse_color [0xEF, 0x98, 0x82, 0xEF, 0x98, 0x81, 0x42] = Some [0xEF, 0x98, 0x81, 0x42]"
    by (simp add: co_collapse_color_def collapse_loop.simps lbuf_cap_eq co_visible_advance_def
        visible_advance_next_def emit_transition_def parse_bmp_color_def bmp_code_point_def
        co_cs_equal_def CO_CS_NORMAL_def xterm_palette_def need_reset_def emit_attr_def emit_plane_def
        emit_pua_bmp_def WP_SAFE_def)
  then show ?thesis
    using collapse_preserves_painting [of "[[0xEF, 0x98, 0x82], [0xEF, 0x98, 0x81], [0x42]]"]
    by (auto simp: utf8_cont_def lbuf_cap_eq)
qed

text \<open>C25: \<open>co_merge\<close> merges two strings of equal visible length position by position: where the
  first one shows the search character the second one's character is taken, with the colors
  it is painted in, and elsewhere the first one's; the result ends in the normal color.\<close>

theorem merge_picks:
  assumes "text_cps as" "text_cps bs" "length (vis_cps as) = length (vis_cps bs)"
    "utf8_cp s" "\<not> color_cp s" "length (co_merge (concat as) (concat bs) s) + 41 \<le> lbuf_cap"
  shows "\<exists>us. co_merge (concat as) (concat bs) s = concat us \<and> text_cps us \<and>
    paint CO_CS_NORMAL us = map2 (merge_pick s) (paint CO_CS_NORMAL as) (paint CO_CS_NORMAL bs) \<and>
    cs_visual (final_cs CO_CS_NORMAL us) = cs_visual CO_CS_NORMAL"
  using assms by (rule co_merge_text)

theorem merge_picks_witness:
  "\<exists>us. co_merge [0x41, 0x2A] [0x42, 0x43] [0x2A] = concat us \<and>
     paint CO_CS_NORMAL us = [(cs_visual CO_CS_NORMAL, [0x41]), (cs_visual CO_CS_NORMAL, [0x43])]"
proof -
  have "co_merge [0x41, 0x2A] [0x42, 0x43] [0x2A] = [0x41, 0x43]"
    by (simp add: co_merge_def merge_loop.simps lbuf_cap_eq co_visible_length_def co_strip_color_def
        strip_color_next_def WP_SAFE_def cp_len_def emit_transition_def co_cs_equal_def)
  then show ?thesis
    using merge_picks [of "[[0x41], [0x2A]]" "[[0x42], [0x43]]" "[0x2A]"]
    by (auto simp: lbuf_cap_eq merge_pick_def)
qed

text \<open>\<open>co_escape\<close> can be undone: its output is the input with a backslash in front of the
  first visible character and of every character special to the evaluator, and removing
  the backslashes gives the input back.\<close>

theorem escape_roundtrip:
  assumes "text_cps ts"
  shows "\<exists>us. co_escape (concat ts) = take lbuf_cap (concat us) \<and> unescape_cps us = ts"
  using assms by (intro exI [of _ "escape_cps True ts"]) (simp add: co_escape_text unescape_escape)

theorem escape_roundtrip_witness:
  "\<exists>us. co_escape [0x41, 0x25, 0x42] = take lbuf_cap (concat us) \<and> unescape_cps us = [[0x41], [0x25], [0x42]]"
  using escape_roundtrip [of "[[0x41], [0x25], [0x42]]"] by simp

end
