(* ===== verification/Color_Sort.thy ===== *)
theory Color_Sort
  imports Word_Cursor
begin

text \<open>
  Sorting of word lists and the set operations of \<open>mux/lib/color_ops.c\<close>: the
  comparators \<open>cmp_ascii\<close>, \<open>cmp_ascii_ci\<close>, \<open>cmp_numeric\<close>, \<open>cmp_dbref\<close>,
  \<open>build_sort_elems\<close>, \<open>emit_sorted\<close>, \<open>co_sort_words\<close>, \<open>co_setunion\<close>, \<open>co_setdiff\<close>,
  \<open>co_setinter\<close>, and the \<open>qsort\<close> of the freestanding build
  (\<open>mux/rv64/src/softlib.c\<close>, a Shellsort).  The set operations take the \<open>qsort\<close> they
  are linked with as an argument.  Two locales are the interfaces: \<open>comparator\<close>, the
  total preorder every comparison function is, and \<open>sorter\<close>, what a \<open>qsort\<close> promises
  for one; the comparators and the Shellsort are interpretations.
\<close>

section \<open>Elements and comparators\<close>

record sort_elem_t =
  word_bytes :: bytes
  plain :: bytes

text \<open>\<open>memcmp\<close> of equally long byte strings, as the difference of the first two that differ.\<close>

fun memcmp :: "bytes \<Rightarrow> bytes \<Rightarrow> int" where
  "memcmp (a # as) (b # bs) = (if a = b then memcmp as bs else uint a - uint b)"
| "memcmp _ _ = 0"

definition len_cmp :: "nat \<Rightarrow> nat \<Rightarrow> int" where
  "len_cmp la lb = of_bool (la > lb) - of_bool (la < lb)"

definition cmp_ascii :: "sort_elem_t \<Rightarrow> sort_elem_t \<Rightarrow> int" where
  "cmp_ascii sa sb =
     (let minlen = min (length (plain sa)) (length (plain sb));
          r = memcmp (take minlen (plain sa)) (take minlen (plain sb))
      in if r \<noteq> 0 then r else len_cmp (length (plain sa)) (length (plain sb)))"

definition ascii_lower :: "byte \<Rightarrow> byte" where
  "ascii_lower c = (if 0x41 \<le> c \<and> c \<le> 0x5A then c + 32 else c)"

fun memcmp_ci :: "bytes \<Rightarrow> bytes \<Rightarrow> int" where
  "memcmp_ci (a # as) (b # bs) =
     (let ca = ascii_lower a; cb = ascii_lower b
      in if ca \<noteq> cb then uint ca - uint cb else memcmp_ci as bs)"
| "memcmp_ci _ _ = 0"

definition cmp_ascii_ci :: "sort_elem_t \<Rightarrow> sort_elem_t \<Rightarrow> int" where
  "cmp_ascii_ci sa sb =
     (let minlen = min (length (plain sa)) (length (plain sb));
          r = memcmp_ci (take minlen (plain sa)) (take minlen (plain sb))
      in if r \<noteq> 0 then r else len_cmp (length (plain sa)) (length (plain sb)))"

text \<open>\<open>strtoll(buf, NULL, 10)\<close>, saturating at the bounds of a 64-bit integer.\<close>

definition is_digit_byte :: "byte \<Rightarrow> bool" where
  "is_digit_byte b \<longleftrightarrow> 0x30 \<le> b \<and> b \<le> 0x39"

definition is_space_byte :: "byte \<Rightarrow> bool" where
  "is_space_byte b \<longleftrightarrow> b = 0x20 \<or> 0x09 \<le> b \<and> b \<le> 0x0D"

fun digits_value :: "int \<Rightarrow> bytes \<Rightarrow> int" where
  "digits_value v [] = v"
| "digits_value v (b # bs) =
     (if is_digit_byte b then digits_value (v * 10 + (uint b - 0x30)) bs else v)"

definition strtoll :: "bytes \<Rightarrow> int" where
  "strtoll s =
     (let s = dropWhile is_space_byte s;
          (neg, s) = (case s of
                        [] \<Rightarrow> (False, s)
                      | b # r \<Rightarrow> if b = 0x2D then (True, r) else if b = 0x2B then (False, r) else (False, s));
          v = digits_value 0 s;
          v = (if neg then - v else v)
      in max (- (2 ^ 63)) (min (2 ^ 63 - 1) v))"

definition parse_i64 :: "bytes \<Rightarrow> int" where
  "parse_i64 p = strtoll (take (min (length p) 63) p)"

definition cmp_numeric :: "sort_elem_t \<Rightarrow> sort_elem_t \<Rightarrow> int" where
  "cmp_numeric sa sb =
     (let la = parse_i64 (plain sa); lb = parse_i64 (plain sb)
      in of_bool (la > lb) - of_bool (la < lb))"

definition skip_hash :: "bytes \<Rightarrow> bytes" where
  "skip_hash p = (case p of [] \<Rightarrow> [] | b # r \<Rightarrow> if b = 0x23 then r else p)"

definition cmp_dbref :: "sort_elem_t \<Rightarrow> sort_elem_t \<Rightarrow> int" where
  "cmp_dbref sa sb =
     (let da = parse_i64 (skip_hash (plain sa)); db = parse_i64 (skip_hash (plain sb))
      in of_bool (da > db) - of_bool (da < db))"

definition get_cmp :: "char \<Rightarrow> sort_elem_t \<Rightarrow> sort_elem_t \<Rightarrow> int" where
  "get_cmp sort_type =
     (if sort_type = CHR ''i'' \<or> sort_type = CHR ''I'' then cmp_ascii_ci
      else if sort_type = CHR ''n'' \<or> sort_type = CHR ''N'' then cmp_numeric
      else if sort_type = CHR ''d'' \<or> sort_type = CHR ''D'' then cmp_dbref
      else cmp_ascii)"

definition build_sort_elems :: "bytes list \<Rightarrow> sort_elem_t list" where
  "build_sort_elems words =
     map (\<lambda>w. \<lparr>word_bytes = w, plain = co_strip_color (take (min (length w) (256 - 1)) w)\<rparr>) words"

fun emit_sorted_loop :: "nat \<Rightarrow> sort_elem_t list \<Rightarrow> byte \<Rightarrow> bytes \<Rightarrow> bytes" where
  "emit_sorted_loop i [] osep out = out"
| "emit_sorted_loop i (e # es) osep out =
     (if length out \<ge> lbuf_cap then out
      else emit_sorted_loop (i + 1) es osep
             (wp_safe_copy lbuf_cap (if i > 0 then WP_SAFE lbuf_cap out osep else out) (word_bytes e)))"

definition emit_sorted :: "sort_elem_t list \<Rightarrow> byte \<Rightarrow> bytes" where
  "emit_sorted elems osep = emit_sorted_loop 0 elems osep []"

section \<open>The Shellsort of softlib.c\<close>

definition swap_at :: "'a list \<Rightarrow> nat \<Rightarrow> nat \<Rightarrow> 'a list" where
  "swap_at xs i j = xs[i := xs ! j, j := xs ! i]"

function shell_sift :: "('a \<Rightarrow> 'a \<Rightarrow> int) \<Rightarrow> nat \<Rightarrow> 'a list \<Rightarrow> nat \<Rightarrow> 'a list" where
  "shell_sift compar gap xs j =
     (if 0 < gap \<and> j \<ge> gap \<and> compar (xs ! j) (xs ! (j - gap)) < 0
      then shell_sift compar gap (swap_at xs j (j - gap)) (j - gap) else xs)"
  by pat_completeness auto
termination
  by (relation "measure (\<lambda>(compar, gap, xs, j). j)") auto

declare shell_sift.simps [simp del]

fun shell_pass :: "('a \<Rightarrow> 'a \<Rightarrow> int) \<Rightarrow> nat \<Rightarrow> nat list \<Rightarrow> 'a list \<Rightarrow> 'a list" where
  "shell_pass compar gap [] xs = xs"
| "shell_pass compar gap (i # is) xs = shell_pass compar gap is (shell_sift compar gap xs i)"

function shell_gaps :: "('a \<Rightarrow> 'a \<Rightarrow> int) \<Rightarrow> nat \<Rightarrow> 'a list \<Rightarrow> 'a list" where
  "shell_gaps compar gap xs =
     (if gap \<ge> 1 then shell_gaps compar (gap div 3) (shell_pass compar gap [gap ..< length xs] xs) else xs)"
  by pat_completeness auto
termination
  by (relation "measure (\<lambda>(compar, gap, xs). gap)") auto

declare shell_gaps.simps [simp del]

function knuth_gap :: "nat \<Rightarrow> nat \<Rightarrow> nat" where
  "knuth_gap n gap = (if gap < n div 3 then knuth_gap n (gap * 3 + 1) else gap)"
  by pat_completeness auto
termination
  by (relation "measure (\<lambda>(n, gap). n - gap)") auto

declare knuth_gap.simps [simp del]

definition qsort :: "('a \<Rightarrow> 'a \<Rightarrow> int) \<Rightarrow> 'a list \<Rightarrow> 'a list" where
  "qsort compar xs = shell_gaps compar (knuth_gap (length xs) 1) xs"

section \<open>Sorting and set operations\<close>

text \<open>
  \<open>srt\<close> is the \<open>qsort\<close> of the build, \<open>m1\<close> and \<open>m2\<close> whether the two scratch
  allocations succeed.
\<close>

type_synonym elem_sorter =
  "(sort_elem_t \<Rightarrow> sort_elem_t \<Rightarrow> int) \<Rightarrow> sort_elem_t list \<Rightarrow> sort_elem_t list"

definition co_sort_words ::
  "elem_sorter \<Rightarrow> bool \<Rightarrow> bool \<Rightarrow> bytes \<Rightarrow> byte \<Rightarrow> byte \<Rightarrow> char \<Rightarrow> bytes" where
  "co_sort_words srt m1 m2 list delim osep sort_type =
     (if \<not> m1 then []
      else
        (let words = split_words list delim wc_max
         in if length words \<le> 1 then
              (case words of [] \<Rightarrow> [] | w # _ \<Rightarrow> take (LBUF_SIZE - 1) w)
            else if \<not> m2 then []
            else emit_sorted (srt (get_cmp sort_type) (build_sort_elems words)) osep))"

text \<open>The merge loops; \<open>push_new\<close> appends unless the last element compares equal.\<close>

definition elems_equal :: "('a \<Rightarrow> 'a \<Rightarrow> int) \<Rightarrow> 'a \<Rightarrow> 'a \<Rightarrow> bool" where
  "elems_equal cmp a b \<longleftrightarrow> cmp a b = 0"

definition push_new :: "('a \<Rightarrow> 'a \<Rightarrow> int) \<Rightarrow> 'a list \<Rightarrow> 'a \<Rightarrow> 'a list" where
  "push_new cmp merged e =
     (if merged = [] \<or> \<not> elems_equal cmp (last merged) e then merged @ [e] else merged)"

fun union_loop ::
  "('a \<Rightarrow> 'a \<Rightarrow> int) \<Rightarrow> 'a list \<Rightarrow> 'a list \<Rightarrow> 'a list \<Rightarrow> 'a list" where
  "union_loop cmp [] [] merged = merged"
| "union_loop cmp (a # as) [] merged = union_loop cmp as [] (push_new cmp merged a)"
| "union_loop cmp [] (b # bs) merged = union_loop cmp [] bs (push_new cmp merged b)"
| "union_loop cmp (a # as) (b # bs) merged =
     (let r = cmp a b
      in if r < 0 then union_loop cmp as (b # bs) (push_new cmp merged a)
         else if r > 0 then union_loop cmp (a # as) bs (push_new cmp merged b)
         else union_loop cmp as bs (push_new cmp merged b))"

definition co_setunion ::
  "elem_sorter \<Rightarrow> bool \<Rightarrow> bool \<Rightarrow> bytes \<Rightarrow> bytes \<Rightarrow> byte \<Rightarrow> byte \<Rightarrow> char \<Rightarrow> bytes" where
  "co_setunion srt m1 m2 list1 list2 delim osep sort_type =
     (if \<not> m1 \<or> \<not> m2 then []
      else
        (let cmp = get_cmp sort_type;
             e1 = srt cmp (build_sort_elems (split_words list1 delim wc_max));
             e2 = srt cmp (build_sort_elems (split_words list2 delim wc_max))
         in if length e1 = 1 \<and> length e2 = 1 \<and> cmp (hd e1) (hd e2) = 0 then emit_sorted e1 osep
            else emit_sorted (union_loop cmp e1 e2 []) osep))"

fun diff_skip ::
  "('a \<Rightarrow> 'a \<Rightarrow> int) \<Rightarrow> 'a \<Rightarrow> 'a list \<Rightarrow> 'a list" where
  "diff_skip cmp a [] = []"
| "diff_skip cmp a (b # bs) = (if cmp b a < 0 then diff_skip cmp a bs else b # bs)"

fun diff_loop ::
  "('a \<Rightarrow> 'a \<Rightarrow> int) \<Rightarrow> 'a list \<Rightarrow> 'a list \<Rightarrow> 'a list \<Rightarrow> 'a list" where
  "diff_loop cmp [] bs result = result"
| "diff_loop cmp (a # as) bs result =
     (if result \<noteq> [] \<and> elems_equal cmp (last result) a then diff_loop cmp as bs result
      else
        (let bs = diff_skip cmp a bs
         in if bs \<noteq> [] \<and> elems_equal cmp a (hd bs) then diff_loop cmp as bs result
            else diff_loop cmp as bs (result @ [a])))"

definition co_setdiff ::
  "elem_sorter \<Rightarrow> bool \<Rightarrow> bool \<Rightarrow> bytes \<Rightarrow> bytes \<Rightarrow> byte \<Rightarrow> byte \<Rightarrow> char \<Rightarrow> bytes" where
  "co_setdiff srt m1 m2 list1 list2 delim osep sort_type =
     (if \<not> m1 \<or> \<not> m2 then []
      else
        (let cmp = get_cmp sort_type;
             e1 = srt cmp (build_sort_elems (split_words list1 delim wc_max));
             e2 = srt cmp (build_sort_elems (split_words list2 delim wc_max))
         in emit_sorted (diff_loop cmp e1 e2 []) osep))"

fun inter_loop ::
  "('a \<Rightarrow> 'a \<Rightarrow> int) \<Rightarrow> 'a list \<Rightarrow> 'a list \<Rightarrow> 'a list \<Rightarrow> 'a list" where
  "inter_loop cmp (a # as) (b # bs) result =
     (let r = cmp a b
      in if r < 0 then inter_loop cmp as (b # bs) result
         else if r > 0 then inter_loop cmp (a # as) bs result
         else inter_loop cmp as bs (push_new cmp result a))"
| "inter_loop cmp _ _ result = result"

definition co_setinter ::
  "elem_sorter \<Rightarrow> bool \<Rightarrow> bool \<Rightarrow> bytes \<Rightarrow> bytes \<Rightarrow> byte \<Rightarrow> byte \<Rightarrow> char \<Rightarrow> bytes" where
  "co_setinter srt m1 m2 list1 list2 delim osep sort_type =
     (if \<not> m1 \<or> \<not> m2 then []
      else
        (let cmp = get_cmp sort_type;
             e1 = srt cmp (build_sort_elems (split_words list1 delim wc_max));
             e2 = srt cmp (build_sort_elems (split_words list2 delim wc_max))
         in emit_sorted (inter_loop cmp e1 e2 []) osep))"

section \<open>Interfaces\<close>

locale comparator =
  fixes cmp :: "'a \<Rightarrow> 'a \<Rightarrow> int"
  assumes swap: "cmp a b < 0 \<longleftrightarrow> 0 < cmp b a"
    and trans: "cmp a b \<le> 0 \<Longrightarrow> cmp b c \<le> 0 \<Longrightarrow> cmp a c \<le> 0"
begin

lemma self [simp]: "cmp a a = 0"
  using swap [of a a] by linarith

lemma eq_sym: "cmp a b = 0 \<longleftrightarrow> cmp b a = 0"
  using swap [of a b] swap [of b a] by linarith

lemma total: "cmp a b \<le> 0 \<or> cmp b a \<le> 0"
  using swap [of a b] by linarith

lemma not_less: "\<not> cmp a b < 0 \<longleftrightarrow> cmp b a \<le> 0"
  using swap [of a b] by linarith

lemma less_le_trans: "cmp a b < 0 \<Longrightarrow> cmp b c \<le> 0 \<Longrightarrow> cmp a c < 0"
  using trans [of b c a] not_less [of a c] swap [of a b] by linarith

lemma le_less_trans: "cmp a b \<le> 0 \<Longrightarrow> cmp b c < 0 \<Longrightarrow> cmp a c < 0"
  using trans [of c a b] not_less [of a c] swap [of b c] by linarith

lemma eq_trans: "cmp a b = 0 \<Longrightarrow> cmp b c = 0 \<Longrightarrow> cmp a c = 0"
  using trans [of a b c] trans [of c b a] eq_sym [of a b] eq_sym [of b c] not_less [of a c] by linarith

lemma eq_cong: "cmp a b = 0 \<Longrightarrow> cmp a c = 0 \<longleftrightarrow> cmp b c = 0"
  using eq_trans [of b a c] eq_trans [of a b c] eq_sym [of a b] by blast

lemma transp_le: "transp (\<lambda>a b. cmp a b \<le> 0)"
  using trans by (auto intro: transpI)

lemma transp_less: "transp (\<lambda>a b. cmp a b < 0)"
  using less_le_trans by (intro transpI) (meson less_imp_le)

lemma ordering_of_sorted:
  "sorted_wrt (\<lambda>a b. cmp a b < 0) xs \<Longrightarrow> sorted_wrt (\<lambda>a b. cmp a b \<le> 0) xs"
  by (rule sorted_wrt_mono_rel) auto

end

locale sorter =
  fixes srt :: "('a \<Rightarrow> 'a \<Rightarrow> int) \<Rightarrow> 'a list \<Rightarrow> 'a list"
  assumes srt_mset: "comparator cmp \<Longrightarrow> mset (srt cmp xs) = mset xs"
    and srt_sorted: "comparator cmp \<Longrightarrow> sorted_wrt (\<lambda>a b. cmp a b \<le> 0) (srt cmp xs)"
begin

lemma srt_set: "comparator cmp \<Longrightarrow> set (srt cmp xs) = set xs"
  by (metis srt_mset set_mset_mset)

lemma srt_length: "comparator cmp \<Longrightarrow> length (srt cmp xs) = length xs"
  by (metis srt_mset size_mset)

end

section \<open>The comparators are total preorders\<close>

lemma key_comparator:
  "comparator (\<lambda>a b. of_bool (f a > f b) - of_bool (f a < f b) :: int)" for f :: "'a \<Rightarrow> 'b :: linorder"
  by unfold_locales (auto split: if_splits)

lemma cmp_numeric_key:
  "cmp_numeric = (\<lambda>a b. of_bool (parse_i64 (plain a) > parse_i64 (plain b))
     - of_bool (parse_i64 (plain a) < parse_i64 (plain b)))"
  by (simp add: cmp_numeric_def fun_eq_iff Let_def)

lemma cmp_dbref_key:
  "cmp_dbref = (\<lambda>a b. of_bool (parse_i64 (skip_hash (plain a)) > parse_i64 (skip_hash (plain b)))
     - of_bool (parse_i64 (skip_hash (plain a)) < parse_i64 (skip_hash (plain b))))"
  by (simp add: cmp_dbref_def fun_eq_iff Let_def)

interpretation numeric: comparator cmp_numeric
  unfolding cmp_numeric_key by (rule key_comparator)

interpretation dbref: comparator cmp_dbref
  unfolding cmp_dbref_key by (rule key_comparator)

text \<open>Lexicographic comparison of byte strings through a map of the bytes.\<close>

fun lex_cmp :: "(byte \<Rightarrow> byte) \<Rightarrow> bytes \<Rightarrow> bytes \<Rightarrow> int" where
  "lex_cmp f [] [] = 0"
| "lex_cmp f [] (b # bs) = -1"
| "lex_cmp f (a # as) [] = 1"
| "lex_cmp f (a # as) (b # bs) = (if f a = f b then lex_cmp f as bs else uint (f a) - uint (f b))"

lemma lex_comparator: "comparator (\<lambda>a b. lex_cmp f (g a) (g b))"
proof
  have s: "lex_cmp f x y < 0 \<longleftrightarrow> 0 < lex_cmp f y x" for x y
    by (induction f x y rule: lex_cmp.induct) auto
  then show "lex_cmp f (g a) (g b) < 0 \<longleftrightarrow> 0 < lex_cmp f (g b) (g a)" for a b .
  have t: "lex_cmp f x y \<le> 0 \<Longrightarrow> lex_cmp f y z \<le> 0 \<Longrightarrow> lex_cmp f x z \<le> 0" for x y z
  proof (induction f x y arbitrary: z rule: lex_cmp.induct)
    case (1 f)
    then show ?case by simp
  next
    case (2 f b bs)
    then show ?case by (cases z) auto
  next
    case (3 f a as)
    then show ?case by simp
  next
    case (4 f a as b bs)
    then show ?case
      by (cases z) (auto split: if_splits dest: word_uint_eqI simp: word_uint_eq_iff)
  qed
  then show "lex_cmp f (g a) (g b) \<le> 0 \<Longrightarrow> lex_cmp f (g b) (g c) \<le> 0 \<Longrightarrow> lex_cmp f (g a) (g c) \<le> 0" for a b c .
qed

lemma memcmp_take:
  "(let r = memcmp (take (min (length x) (length y)) x) (take (min (length x) (length y)) y)
    in if r \<noteq> 0 then r else len_cmp (length x) (length y)) = lex_cmp id x y"
proof (induction x arbitrary: y)
  case Nil
  then show ?case by (cases y) (auto simp: len_cmp_def)
next
  case (Cons a x)
  show ?case
  proof (cases y)
    case (Cons b y')
    with Cons.IH [of y'] show ?thesis
      by (auto simp: Let_def len_cmp_def word_uint_eq_iff split: if_splits)
  qed (auto simp: len_cmp_def)
qed

lemma memcmp_ci_take:
  "(let r = memcmp_ci (take (min (length x) (length y)) x) (take (min (length x) (length y)) y)
    in if r \<noteq> 0 then r else len_cmp (length x) (length y)) = lex_cmp ascii_lower x y"
proof (induction x arbitrary: y)
  case Nil
  then show ?case by (cases y) (auto simp: len_cmp_def)
next
  case (Cons a x)
  show ?case
  proof (cases y)
    case (Cons b y')
    with Cons.IH [of y'] show ?thesis
      by (auto simp: Let_def len_cmp_def word_uint_eq_iff split: if_splits)
  qed (auto simp: len_cmp_def)
qed

lemma cmp_ascii_lex: "cmp_ascii = (\<lambda>a b. lex_cmp id (plain a) (plain b))"
  using memcmp_take by (simp add: cmp_ascii_def fun_eq_iff Let_def)

lemma cmp_ascii_ci_lex: "cmp_ascii_ci = (\<lambda>a b. lex_cmp ascii_lower (plain a) (plain b))"
  using memcmp_ci_take by (simp add: cmp_ascii_ci_def fun_eq_iff Let_def)

interpretation ascii: comparator cmp_ascii
  unfolding cmp_ascii_lex by (rule lex_comparator)

interpretation ascii_ci: comparator cmp_ascii_ci
  unfolding cmp_ascii_ci_lex by (rule lex_comparator)

lemma get_cmp_comparator: "comparator (get_cmp sort_type)"
  unfolding get_cmp_def
  using numeric.comparator_axioms dbref.comparator_axioms ascii.comparator_axioms
    ascii_ci.comparator_axioms by simp

lemma lex_cmp_0: "lex_cmp f x y = 0 \<longleftrightarrow> map f x = map f y"
  by (induction f x y rule: lex_cmp.induct) (auto simp: word_uint_eq_iff)

lemma cmp_ascii_0: "cmp_ascii a b = 0 \<longleftrightarrow> plain a = plain b"
  by (simp add: cmp_ascii_lex lex_cmp_0)

section \<open>The Shellsort sorts\<close>

lemma length_swap_at [simp]: "length (swap_at xs i j) = length xs"
  by (simp add: swap_at_def)

lemma mset_swap_at: "i < length xs \<Longrightarrow> j < length xs \<Longrightarrow> mset (swap_at xs i j) = mset xs"
  by (simp add: swap_at_def mset_swap)

lemma shell_sift_mset:
  "j < length xs \<Longrightarrow> mset (shell_sift cmp gap xs j) = mset xs \<and> length (shell_sift cmp gap xs j) = length xs"
proof (induction cmp gap xs j rule: shell_sift.induct)
  case (1 cmp gap xs j)
  show ?case
  proof (cases "0 < gap \<and> gap \<le> j \<and> cmp (xs ! j) (xs ! (j - gap)) < 0")
    case True
    with 1 have "mset (shell_sift cmp gap (swap_at xs j (j - gap)) (j - gap)) = mset (swap_at xs j (j - gap)) \<and>
        length (shell_sift cmp gap (swap_at xs j (j - gap)) (j - gap)) = length (swap_at xs j (j - gap))"
      by auto
    with True 1(2) show ?thesis by (subst (1 2) shell_sift.simps) (simp add: mset_swap_at)
  next
    case False
    then show ?thesis by (subst (1 2) shell_sift.simps) auto
  qed
qed

lemma shell_pass_mset:
  "\<forall>i \<in> set is. i < length xs \<Longrightarrow>
     mset (shell_pass cmp gap is xs) = mset xs \<and> length (shell_pass cmp gap is xs) = length xs"
proof (induction cmp gap "is" xs rule: shell_pass.induct)
  case (2 cmp gap i "is" xs)
  then show ?case using shell_sift_mset [of i xs cmp gap] by simp
qed simp

lemma shell_gaps_mset: "mset (shell_gaps cmp gap xs) = mset xs"
proof (induction cmp gap xs rule: shell_gaps.induct)
  case (1 cmp gap xs)
  then show ?case
    using shell_pass_mset [of "[gap ..< length xs]" xs cmp gap] by (subst shell_gaps.simps) simp
qed

text \<open>The last pass, with gap 1, is an insertion sort.\<close>

fun ins_rev :: "('a \<Rightarrow> 'a \<Rightarrow> int) \<Rightarrow> 'a \<Rightarrow> 'a list \<Rightarrow> 'a list" where
  "ins_rev cmp x [] = [x]"
| "ins_rev cmp x (y # ys) = (if cmp x y < 0 then y # ins_rev cmp x ys else x # y # ys)"

lemma set_ins_rev: "set (ins_rev cmp x ys) = insert x (set ys)"
  by (induction ys) auto

lemma swap_at_adjacent: "swap_at (ys @ y # x # zs) (Suc (length ys)) (length ys) = ys @ x # y # zs"
  by (simp add: swap_at_def list_update_append nth_append)

lemma shell_sift_1:
  "shell_sift cmp 1 (ys @ x # zs) (length ys) = rev (ins_rev cmp x (rev ys)) @ zs"
proof (induction ys arbitrary: zs rule: rev_induct)
  case Nil
  then show ?case by (subst shell_sift.simps) simp
next
  case (snoc y ys)
  show ?case
    using snoc [of "y # zs"] swap_at_adjacent [of ys y x zs]
    by (subst shell_sift.simps) (simp add: nth_append)
qed

lemma upt_len: "[length ys ..< length (ys @ z # zs)] = length ys # [Suc (length ys) ..< length (ys @ z # zs)]"
  by (simp add: upt_conv_Cons del: upt_Suc)

text \<open>The gaps 1, 4, 13, 40, ...; every gap the program uses is one of them.\<close>

fun knuth_number :: "nat \<Rightarrow> nat" where
  "knuth_number 0 = 1"
| "knuth_number (Suc k) = knuth_number k * 3 + 1"

lemma knuth_gap_number: "\<exists>k. knuth_gap n (knuth_number i) = knuth_number k"
proof (induction "n - knuth_number i" arbitrary: i rule: less_induct)
  case less
  show ?case
  proof (cases "knuth_number i < n div 3")
    case True
    have "n - knuth_number (Suc i) < n - knuth_number i" using True by simp
    from less.hyps [OF this] True show ?thesis by (subst knuth_gap.simps) simp
  next
    case False
    then show ?thesis by (subst knuth_gap.simps) auto
  qed
qed

context comparator
begin

lemma sorted_ins_rev:
  "sorted_wrt (\<lambda>a b. cmp b a \<le> 0) ys \<Longrightarrow> sorted_wrt (\<lambda>a b. cmp b a \<le> 0) (ins_rev cmp x ys)"
proof (induction ys)
  case (Cons y ys)
  then show ?case
    using not_less [of x y] trans [of _ y x] by (auto simp: set_ins_rev)
qed simp

lemma shell_pass_1:
  "sorted_wrt (\<lambda>a b. cmp a b \<le> 0) ys \<Longrightarrow>
     sorted_wrt (\<lambda>a b. cmp a b \<le> 0) (shell_pass cmp 1 [length ys ..< length (ys @ zs)] (ys @ zs))"
proof (induction zs arbitrary: ys)
  case (Cons z zs)
  let ?ys = "rev (ins_rev cmp z (rev ys))"
  have s: "sorted_wrt (\<lambda>a b. cmp a b \<le> 0) ?ys"
    using Cons.prems sorted_ins_rev [of "rev ys" z] by (simp add: sorted_wrt_rev)
  have "length (ins_rev cmp z us) = Suc (length us)" for us by (induction us) auto
  then have l: "length ?ys = Suc (length ys)" by simp
  then have "shell_pass cmp 1 [length ys ..< length (ys @ z # zs)] (ys @ z # zs) =
      shell_pass cmp 1 [length ?ys ..< length (?ys @ zs)] (?ys @ zs)"
    unfolding upt_len by (simp add: shell_sift_1 [unfolded One_nat_def] del: upt_Suc)
  with Cons.IH [OF s] show ?case by simp
qed simp

lemma shell_gaps_sorted: "sorted_wrt (\<lambda>a b. cmp a b \<le> 0) (shell_gaps cmp (knuth_number k) xs)"
proof (induction k arbitrary: xs)
  case 0
  have "shell_gaps cmp 0 ys = ys" for ys by (subst shell_gaps.simps) simp
  then have "shell_gaps cmp 1 xs = shell_pass cmp 1 [1 ..< length xs] xs" by (subst shell_gaps.simps) simp
  moreover have "sorted_wrt (\<lambda>a b. cmp a b \<le> 0) (shell_pass cmp 1 [1 ..< length xs] xs)"
    using shell_pass_1 [of "[hd xs]" "tl xs"] by (cases xs) auto
  ultimately show ?case by simp
next
  case (Suc k)
  have "Suc (knuth_number k * 3) div 3 = knuth_number k" by presburger
  with Suc show ?case by (subst shell_gaps.simps) simp
qed

lemma qsort_sorted: "sorted_wrt (\<lambda>a b. cmp a b \<le> 0) (qsort cmp xs)"
  using knuth_gap_number [of "length xs" 0] shell_gaps_sorted by (auto simp: qsort_def)

end

lemma qsort_mset: "mset (qsort cmp xs) = mset xs"
  by (simp add: qsort_def shell_gaps_mset)

interpretation softlib: sorter qsort
  by unfold_locales (auto simp: qsort_mset comparator.qsort_sorted)

section \<open>Output\<close>

lemma emit_sorted_loop_spec:
  "emit_sorted_loop i es osep (take lbuf_cap acc) = take lbuf_cap (acc @ emit_words osep i (map word_bytes es))"
proof (induction es arbitrary: i acc)
  case (Cons e es)
  show ?case
  proof (cases "lbuf_cap \<le> length acc")
    case True
    then show ?thesis by simp
  next
    case False
    then have "emit_sorted_loop i (e # es) osep (take lbuf_cap acc) =
        emit_sorted_loop (i + 1) es osep (take lbuf_cap (acc @ emit_words osep i [word_bytes e]))"
      using emit_word_step [of i acc osep "word_bytes e"] by (cases "0 < i") (simp_all del: take_append)
    then show ?thesis
      using Cons.IH [of "i + 1" "acc @ emit_words osep i [word_bytes e]"]
      by (simp add: emit_words_Cons del: take_append)
  qed
qed simp

lemma emit_sorted_spec: "emit_sorted es osep = take lbuf_cap (join_on [osep] (map word_bytes es))"
  using emit_sorted_loop_spec [of 0 es osep "[]"] by (simp add: emit_sorted_def emit_words_start)

lemma word_bytes_build [simp]: "map word_bytes (build_sort_elems ws) = ws"
  by (simp add: build_sort_elems_def o_def)

lemma length_build [simp]: "length (build_sort_elems ws) = length ws"
  by (simp add: build_sort_elems_def)

context sorter
begin

lemma srt_short: "comparator cmp \<Longrightarrow> length xs \<le> 1 \<Longrightarrow> srt cmp xs = xs"
  using srt_mset [of cmp xs] srt_length [of cmp xs] by (cases xs) auto

end

lemma co_sort_words_short:
  "length (split_words list d wc_max) \<le> 1 \<Longrightarrow>
     co_sort_words srt True True list d osep ty = take lbuf_cap (join_on [osep] (split_words list d wc_max))"
  by (cases "split_words list d wc_max") (auto simp: co_sort_words_def LBUF_SIZE_cap)

section \<open>The merge loops\<close>

text \<open>An element of the list compares equal to \<open>x\<close>: membership as the set operations see it.\<close>

definition has_equal :: "('a \<Rightarrow> 'a \<Rightarrow> int) \<Rightarrow> 'a list \<Rightarrow> 'a \<Rightarrow> bool" where
  "has_equal cmp xs x \<longleftrightarrow> (\<exists>m \<in> set xs. cmp m x = 0)"

abbreviation ascending :: "('a \<Rightarrow> 'a \<Rightarrow> int) \<Rightarrow> 'a list \<Rightarrow> bool" where
  "ascending cmp \<equiv> sorted_wrt (\<lambda>a b. cmp a b \<le> 0)"

abbreviation strictly_ascending :: "('a \<Rightarrow> 'a \<Rightarrow> int) \<Rightarrow> 'a list \<Rightarrow> bool" where
  "strictly_ascending cmp \<equiv> sorted_wrt (\<lambda>a b. cmp a b < 0)"

definition below :: "('a \<Rightarrow> 'a \<Rightarrow> int) \<Rightarrow> 'a list \<Rightarrow> 'a list \<Rightarrow> bool" where
  "below cmp ms xs \<longleftrightarrow> (\<forall>m \<in> set ms. \<forall>x \<in> set xs. cmp m x \<le> 0)"

lemma has_equal_simps [simp]:
  "has_equal cmp [] x = False"
  "has_equal cmp (a # as) x = (cmp a x = 0 \<or> has_equal cmp as x)"
  "has_equal cmp (as @ bs) x = (has_equal cmp as x \<or> has_equal cmp bs x)"
  by (auto simp: has_equal_def)

lemma below_simps [simp]:
  "below cmp [] xs" "below cmp ms []"
  "below cmp ms (a # as) = ((\<forall>m \<in> set ms. cmp m a \<le> 0) \<and> below cmp ms as)"
  "below cmp (ms @ ns) xs = (below cmp ms xs \<and> below cmp ns xs)"
  "below cmp [m] xs = (\<forall>x \<in> set xs. cmp m x \<le> 0)"
  by (auto simp: below_def)

lemma in_push_new: "x \<in> set (push_new cmp ms e) \<Longrightarrow> x = e \<or> x \<in> set ms"
  by (auto simp: push_new_def split: if_splits)

lemma set_union_loop: "set (union_loop cmp as bs ms) \<subseteq> set as \<union> set bs \<union> set ms"
  by (induction cmp as bs ms rule: union_loop.induct)
    (auto simp: Let_def dest!: in_push_new subsetD split: if_splits)

lemma set_diff_loop: "set (diff_loop cmp as bs ms) \<subseteq> set as \<union> set ms"
  by (induction cmp as bs ms rule: diff_loop.induct) (auto simp: Let_def)

lemma set_inter_loop: "set (inter_loop cmp as bs ms) \<subseteq> set as \<union> set ms"
  by (induction cmp as bs ms rule: inter_loop.induct)
    (auto simp: Let_def dest!: in_push_new subsetD split: if_splits)

context comparator
begin

lemma eq_le: "cmp a b = 0 \<Longrightarrow> cmp b c \<le> 0 \<Longrightarrow> cmp a c \<le> 0"
  using trans [of a b c] by simp

lemma has_equal_cong: "cmp a x = 0 \<Longrightarrow> has_equal cmp as a = has_equal cmp as x"
  unfolding has_equal_def using eq_cong [of a x] eq_sym by metis

lemma strictly_ascending_push_new:
  assumes "strictly_ascending cmp ms" and "\<forall>m \<in> set ms. cmp m e \<le> 0"
  shows "strictly_ascending cmp (push_new cmp ms e)"
proof (cases ms rule: rev_cases)
  case Nil
  then show ?thesis by (simp add: push_new_def)
next
  case (snoc ns n)
  then show ?thesis
    using assms less_le_trans [of _ n e] by (auto simp: push_new_def elems_equal_def sorted_wrt_append)
qed

lemma has_equal_push_new [simp]:
  "has_equal cmp (push_new cmp ms e) x \<longleftrightarrow> has_equal cmp ms x \<or> cmp e x = 0"
proof (cases ms rule: rev_cases)
  case (snoc ns n)
  then show ?thesis using eq_cong [of n e x] by (auto simp: push_new_def elems_equal_def)
qed (simp add: push_new_def)

lemma below_push_new: "below cmp ms xs \<Longrightarrow> \<forall>x \<in> set xs. cmp e x \<le> 0 \<Longrightarrow> below cmp (push_new cmp ms e) xs"
  by (auto simp: push_new_def)

lemma push_new_le [simp]:
  "\<forall>m \<in> set ms. cmp m x \<le> 0 \<Longrightarrow> cmp e x \<le> 0 \<Longrightarrow> \<forall>m \<in> set (push_new cmp ms e). cmp m x \<le> 0"
  by (auto dest: in_push_new)

lemma union_loop_spec:
  "ascending cmp as \<Longrightarrow> ascending cmp bs \<Longrightarrow> strictly_ascending cmp ms \<Longrightarrow>
     below cmp ms as \<Longrightarrow> below cmp ms bs \<Longrightarrow>
     strictly_ascending cmp (union_loop cmp as bs ms) \<and>
     (\<forall>x. has_equal cmp (union_loop cmp as bs ms) x \<longleftrightarrow>
        has_equal cmp ms x \<or> has_equal cmp as x \<or> has_equal cmp bs x)"
proof (induction "length as + length bs" arbitrary: as bs ms rule: less_induct)
  case less
  note asc = less.prems(1,2) and le = less.prems(4,5)
  have pick: "e \<in> set as \<union> set bs \<Longrightarrow> strictly_ascending cmp (push_new cmp ms e)" for e
    using less.prems(3) le by (intro strictly_ascending_push_new) (auto simp: below_def)
  have step: "strictly_ascending cmp (union_loop cmp as bs ms) \<and>
     (\<forall>x. has_equal cmp (union_loop cmp as bs ms) x \<longleftrightarrow>
        has_equal cmp ms x \<or> has_equal cmp as x \<or> has_equal cmp bs x)"
    if u: "union_loop cmp as bs ms = union_loop cmp as' bs' (push_new cmp ms e)"
      and e: "e \<in> set as \<union> set bs"
      and l: "length as' + length bs' < length as + length bs"
      and s: "ascending cmp as'" "ascending cmp bs'" "set as' \<subseteq> set as" "set bs' \<subseteq> set bs"
      and b: "\<forall>x \<in> set as' \<union> set bs'. cmp e x \<le> 0"
      and h: "\<And>x. cmp e x = 0 \<or> has_equal cmp as' x \<or> has_equal cmp bs' x \<longleftrightarrow> has_equal cmp as x \<or> has_equal cmp bs x"
    for as' bs' e
  proof -
    have "below cmp ms as'" "below cmp ms bs'" using le s(3,4) by (auto simp: below_def)
    with b have "below cmp (push_new cmp ms e) as'" "below cmp (push_new cmp ms e) bs'"
      by (simp_all add: below_push_new)
    from less.hyps [OF l s(1,2) pick [OF e] this] h show ?thesis unfolding u by simp
  qed
  show ?case
  proof (cases as)
    case Nil
    then show ?thesis
      using less.prems(3) asc step [of as "tl bs" "hd bs"] by (cases bs) auto
  next
    case (Cons a as')
    show ?thesis
    proof (cases bs)
      case Nil
      then show ?thesis using Cons asc step [of as' bs a] by auto
    next
      case b: (Cons b bs')
      consider "cmp a b < 0" | "cmp b a < 0" "cmp a b > 0" | "cmp a b = 0" "cmp b a = 0"
        using swap [of a b] swap [of b a] by linarith
      then show ?thesis
      proof cases
        case 1
        then have "\<forall>x \<in> set bs. cmp a x \<le> 0" using b asc less_le_trans [of a b] by fastforce
        with 1 show ?thesis using Cons b asc by (intro step [of as' bs a]) auto
      next
        case 2
        then have "\<forall>x \<in> set as. cmp b x \<le> 0" using Cons asc less_le_trans [of b a] by fastforce
        with 2 show ?thesis using Cons b asc by (intro step [of as bs' b]) auto
      next
        case 3
        then have "\<forall>x \<in> set as'. cmp b x \<le> 0" using Cons asc eq_le [of b a] by fastforce
        moreover have "union_loop cmp as bs ms = union_loop cmp as' bs' (push_new cmp ms b)"
          using 3 Cons b by simp
        ultimately show ?thesis
          using Cons b asc eq_cong [OF 3(1)] by (intro step [of as' bs' b]) auto
      qed
    qed
  qed
qed

lemma has_equal_diff_skip:
  "cmp a x \<le> 0 \<Longrightarrow> has_equal cmp (diff_skip cmp a bs) x = has_equal cmp bs x"
proof (induction bs)
  case (Cons b bs)
  then show ?case using less_le_trans [of b a x] by auto
qed simp

lemma diff_skip_hd:
  "ascending cmp bs \<Longrightarrow>
     (diff_skip cmp a bs \<noteq> [] \<and> cmp a (hd (diff_skip cmp a bs)) = 0) = has_equal cmp bs a"
proof (induction bs)
  case (Cons b bs)
  show ?case
  proof (cases "cmp b a < 0")
    case True
    then show ?thesis using Cons by simp
  next
    case False
    have "m \<in> set bs \<Longrightarrow> cmp m a = 0 \<Longrightarrow> cmp b a = 0" for m
      using Cons.prems False trans [of b m a] by simp
    then have "has_equal cmp bs a \<Longrightarrow> cmp b a = 0" by (auto simp: has_equal_def)
    with False show ?thesis using eq_sym [of a b] by auto
  qed
qed simp

lemma ascending_diff_skip: "ascending cmp bs \<Longrightarrow> ascending cmp (diff_skip cmp a bs)"
  by (induction bs) auto

lemma strictly_ascending_snoc:
  "strictly_ascending cmp ms \<Longrightarrow> \<forall>m \<in> set ms. cmp m a \<le> 0 \<Longrightarrow> \<not> (ms \<noteq> [] \<and> cmp (last ms) a = 0) \<Longrightarrow>
     strictly_ascending cmp (ms @ [a])"
  using strictly_ascending_push_new [of ms a] unfolding push_new_def elems_equal_def by presburger

lemma has_equal_last: "ms \<noteq> [] \<Longrightarrow> cmp (last ms) a = 0 \<Longrightarrow> has_equal cmp ms a"
  unfolding has_equal_def using last_in_set by blast

lemma diff_loop_spec:
  "ascending cmp as \<Longrightarrow> ascending cmp bs \<Longrightarrow> strictly_ascending cmp ms \<Longrightarrow> below cmp ms as \<Longrightarrow>
     strictly_ascending cmp (diff_loop cmp as bs ms) \<and>
     (\<forall>x. has_equal cmp (diff_loop cmp as bs ms) x \<longleftrightarrow>
        has_equal cmp ms x \<or> has_equal cmp as x \<and> \<not> has_equal cmp bs x)"
proof (induction as arbitrary: bs ms)
  case (Cons a as)
  let ?bs = "diff_skip cmp a bs"
  have as: "ascending cmp as" "below cmp ms as" using Cons.prems by auto
  have skip: "has_equal cmp as x \<Longrightarrow> has_equal cmp ?bs x = has_equal cmp bs x" for x
  proof -
    assume "has_equal cmp as x"
    then obtain m where "m \<in> set as" "cmp m x = 0" by (auto simp: has_equal_def)
    then have "cmp a x \<le> 0" using Cons.prems(1) trans [of a m x] by simp
    then show ?thesis by (rule has_equal_diff_skip)
  qed
  have mem: "cmp a x = 0 \<Longrightarrow> has_equal cmp bs x = has_equal cmp bs a" for x
    using has_equal_cong by blast
  show ?case
  proof (cases "ms \<noteq> [] \<and> cmp (last ms) a = 0")
    case True
    then have "cmp a x = 0 \<Longrightarrow> has_equal cmp ms x" for x
      using has_equal_last has_equal_cong by blast
    with True Cons.IH [OF as(1) Cons.prems(2,3) as(2)] show ?thesis
      by (auto simp: elems_equal_def)
  next
    case False
    show ?thesis
    proof (cases "has_equal cmp bs a")
      case True
      then have "diff_loop cmp (a # as) bs ms = diff_loop cmp as ?bs ms"
        using False diff_skip_hd [OF Cons.prems(2), of a] by (auto simp: elems_equal_def Let_def)
      with True Cons.IH [OF as(1) ascending_diff_skip [OF Cons.prems(2)] Cons.prems(3) as(2)] show ?thesis
        using skip mem by (simp only: has_equal_simps) blast
    next
      case f: False
      then have e: "diff_loop cmp (a # as) bs ms = diff_loop cmp as ?bs (ms @ [a])"
        using False diff_skip_hd [OF Cons.prems(2), of a] by (auto simp: elems_equal_def Let_def)
      have "strictly_ascending cmp (ms @ [a])"
        using strictly_ascending_snoc False Cons.prems(3,4) by simp
      with Cons.IH [OF as(1) ascending_diff_skip [OF Cons.prems(2)], of "ms @ [a]" a] f Cons.prems show ?thesis
        unfolding e using skip mem by (simp only: has_equal_simps below_simps) (simp, blast)
    qed
  qed
qed simp

lemma not_has_equal_above:
  assumes "cmp c d < 0" and "ascending cmp (d # ds)" and "cmp c x = 0"
  shows "\<not> has_equal cmp (d # ds) x"
proof
  assume "has_equal cmp (d # ds) x"
  then obtain m where m: "m \<in> set (d # ds)" "cmp m x = 0" by (auto simp: has_equal_def)
  with assms have "cmp c m < 0" using less_le_trans [of c d m] by auto
  moreover have "cmp c m = 0" using assms(3) m(2) eq_sym eq_trans by blast
  ultimately show False by simp
qed

lemma inter_loop_spec:
  "ascending cmp as \<Longrightarrow> ascending cmp bs \<Longrightarrow> strictly_ascending cmp ms \<Longrightarrow> below cmp ms as \<Longrightarrow>
     strictly_ascending cmp (inter_loop cmp as bs ms) \<and>
     (\<forall>x. has_equal cmp (inter_loop cmp as bs ms) x \<longleftrightarrow>
        has_equal cmp ms x \<or> has_equal cmp as x \<and> has_equal cmp bs x)"
proof (induction "length as + length bs" arbitrary: as bs ms rule: less_induct)
  case less
  show ?case
  proof (cases "as = [] \<or> bs = []")
    case True
    then show ?thesis using less.prems(3) by (cases as) auto
  next
    case False
    then obtain a as' b bs' where ab: "as = a # as'" "bs = b # bs'" by (meson list.exhaust)
    have asc: "ascending cmp as'" "ascending cmp bs'" "below cmp ms as'" using less.prems ab by auto
    consider "cmp a b < 0" | "cmp b a < 0" "cmp a b > 0" | "cmp a b = 0" "cmp b a = 0"
      using swap [of a b] swap [of b a] by linarith
    then show ?thesis
    proof cases
      case 1
      with less.hyps [OF _ asc(1) less.prems(2,3) asc(3)] not_has_equal_above [OF 1, of bs'] less.prems(2)
      show ?thesis unfolding ab by simp blast
    next
      case 2
      with less.hyps [OF _ less.prems(1) asc(2) less.prems(3,4)] not_has_equal_above [OF 2(1), of as'] less.prems(1)
      show ?thesis unfolding ab by simp blast
    next
      case 3
      have "strictly_ascending cmp (push_new cmp ms a)" "below cmp (push_new cmp ms a) as'"
        using less.prems ab by (simp_all add: strictly_ascending_push_new below_push_new)
      note ih = less.hyps [OF _ asc(1,2) this]
      have u: "inter_loop cmp as bs ms = inter_loop cmp as' bs' (push_new cmp ms a)" using 3 ab by simp
      show ?thesis unfolding u using ih ab eq_cong [OF 3(1)] by auto
    qed
  qed
qed

end

section \<open>The commands, over any contract-abiding qsort\<close>

abbreviation elems_of :: "bytes \<Rightarrow> byte \<Rightarrow> sort_elem_t list" where
  "elems_of list delim \<equiv> build_sort_elems (split_words list delim wc_max)"

locale word_sorter = sorter srt for srt :: elem_sorter
begin

lemma ascending_srt: "ascending (get_cmp ty) (srt (get_cmp ty) xs)"
  using srt_sorted get_cmp_comparator by blast

lemma has_equal_srt: "has_equal cmp (srt (get_cmp ty) xs) x = has_equal cmp xs x"
  by (simp add: has_equal_def srt_set get_cmp_comparator)

lemma co_sort_words_spec:
  "\<exists>es. co_sort_words srt True True list d osep ty = take lbuf_cap (join_on [osep] (map word_bytes es)) \<and>
     mset es = mset (elems_of list d) \<and> ascending (get_cmp ty) es"
proof (cases "length (split_words list d wc_max) \<le> 1")
  case True
  have "length xs \<le> 1 \<Longrightarrow> ascending (get_cmp ty) xs" for xs by (cases xs) auto
  with True have "ascending (get_cmp ty) (elems_of list d)" by simp
  with co_sort_words_short [OF True, of srt osep ty] show ?thesis
    by (intro exI [of _ "elems_of list d"]) simp
next
  case False
  then show ?thesis
    by (intro exI [of _ "srt (get_cmp ty) (elems_of list d)"])
      (simp add: co_sort_words_def emit_sorted_spec ascending_srt srt_mset get_cmp_comparator)
qed

lemma union_single:
  "ascending (get_cmp ty) e1 \<Longrightarrow> ascending (get_cmp ty) e2 \<Longrightarrow>
   es = (if length e1 = 1 \<and> length e2 = 1 \<and> get_cmp ty (hd e1) (hd e2) = 0 then e1
         else union_loop (get_cmp ty) e1 e2 []) \<Longrightarrow>
   strictly_ascending (get_cmp ty) es \<and> set es \<subseteq> set e1 \<union> set e2 \<and>
     (\<forall>x. has_equal (get_cmp ty) es x \<longleftrightarrow> has_equal (get_cmp ty) e1 x \<or> has_equal (get_cmp ty) e2 x)"
proof (goal_cases)
  case 1
  show ?case
  proof (cases "length e1 = 1 \<and> length e2 = 1 \<and> get_cmp ty (hd e1) (hd e2) = 0")
    case True
    then obtain a b where "e1 = [a]" "e2 = [b]" by (auto simp: length_Suc_conv)
    with True 1(3) comparator.eq_cong [OF get_cmp_comparator, of ty a b] show ?thesis by auto
  next
    case False
    then have "es = union_loop (get_cmp ty) e1 e2 []" using 1(3) by argo
    then show ?thesis
      using comparator.union_loop_spec [OF get_cmp_comparator 1(1,2), of "[]"]
        set_union_loop [of "get_cmp ty" e1 e2 "[]"] by simp
  qed
qed

lemma co_setunion_spec:
  "\<exists>es. co_setunion srt True True l1 l2 d osep ty = take lbuf_cap (join_on [osep] (map word_bytes es)) \<and>
     strictly_ascending (get_cmp ty) es \<and> set es \<subseteq> set (elems_of l1 d) \<union> set (elems_of l2 d) \<and>
     (\<forall>x. has_equal (get_cmp ty) es x \<longleftrightarrow>
        has_equal (get_cmp ty) (elems_of l1 d) x \<or> has_equal (get_cmp ty) (elems_of l2 d) x)"
proof -
  let ?e1 = "srt (get_cmp ty) (elems_of l1 d)" and ?e2 = "srt (get_cmp ty) (elems_of l2 d)"
  let ?es = "if length ?e1 = 1 \<and> length ?e2 = 1 \<and> get_cmp ty (hd ?e1) (hd ?e2) = 0 then ?e1
         else union_loop (get_cmp ty) ?e1 ?e2 []"
  have "co_setunion srt True True l1 l2 d osep ty = emit_sorted ?es osep"
    by (simp add: co_setunion_def Let_def)
  with union_single [OF ascending_srt ascending_srt refl, of ty "elems_of l1 d" "elems_of l2 d"] show ?thesis
    unfolding has_equal_srt srt_set [OF get_cmp_comparator] emit_sorted_spec by blast
qed

lemma co_setdiff_spec:
  "\<exists>es. co_setdiff srt True True l1 l2 d osep ty = take lbuf_cap (join_on [osep] (map word_bytes es)) \<and>
     strictly_ascending (get_cmp ty) es \<and> set es \<subseteq> set (elems_of l1 d) \<and>
     (\<forall>x. has_equal (get_cmp ty) es x \<longleftrightarrow>
        has_equal (get_cmp ty) (elems_of l1 d) x \<and> \<not> has_equal (get_cmp ty) (elems_of l2 d) x)"
proof -
  let ?e1 = "srt (get_cmp ty) (elems_of l1 d)" and ?e2 = "srt (get_cmp ty) (elems_of l2 d)"
  let ?es = "diff_loop (get_cmp ty) ?e1 ?e2 []"
  have "co_setdiff srt True True l1 l2 d osep ty = emit_sorted ?es osep"
    by (simp add: co_setdiff_def Let_def)
  moreover have "set ?es \<subseteq> set (elems_of l1 d)"
    using set_diff_loop [of "get_cmp ty" ?e1 ?e2 "[]"] by (simp add: srt_set get_cmp_comparator)
  moreover note comparator.diff_loop_spec [OF get_cmp_comparator ascending_srt [of ty "elems_of l1 d"]
      ascending_srt [of ty "elems_of l2 d"], of "[]"]
  ultimately show ?thesis
    unfolding emit_sorted_spec by (intro exI [of _ ?es]) (simp add: has_equal_srt)
qed

lemma co_setinter_spec:
  "\<exists>es. co_setinter srt True True l1 l2 d osep ty = take lbuf_cap (join_on [osep] (map word_bytes es)) \<and>
     strictly_ascending (get_cmp ty) es \<and> set es \<subseteq> set (elems_of l1 d) \<and>
     (\<forall>x. has_equal (get_cmp ty) es x \<longleftrightarrow>
        has_equal (get_cmp ty) (elems_of l1 d) x \<and> has_equal (get_cmp ty) (elems_of l2 d) x)"
proof -
  let ?e1 = "srt (get_cmp ty) (elems_of l1 d)" and ?e2 = "srt (get_cmp ty) (elems_of l2 d)"
  let ?es = "inter_loop (get_cmp ty) ?e1 ?e2 []"
  have "co_setinter srt True True l1 l2 d osep ty = emit_sorted ?es osep"
    by (simp add: co_setinter_def Let_def)
  moreover have "set ?es \<subseteq> set (elems_of l1 d)"
    using set_inter_loop [of "get_cmp ty" ?e1 ?e2 "[]"] by (simp add: srt_set get_cmp_comparator)
  moreover note comparator.inter_loop_spec [OF get_cmp_comparator ascending_srt [of ty "elems_of l1 d"]
      ascending_srt [of ty "elems_of l2 d"], of "[]"]
  ultimately show ?thesis
    unfolding emit_sorted_spec by (intro exI [of _ ?es]) (simp add: has_equal_srt)
qed

end

interpretation softlib_words: word_sorter qsort
  by unfold_locales

section \<open>Properties\<close>

text \<open>C28: The Shellsort of the freestanding build is a \<open>qsort\<close>: for every comparison function
  that is a total preorder it permutes its argument into ascending order.\<close>

theorem qsort_sorts:
  assumes "comparator cmp"
  shows "mset (qsort cmp xs) = mset xs \<and> sorted_wrt (\<lambda>a b. cmp a b \<le> 0) (qsort cmp xs)"
  using softlib.srt_mset [OF assms] softlib.srt_sorted [OF assms] by blast

theorem qsort_sorts_witness:
  "sorted_wrt (\<lambda>a b. cmp_numeric a b \<le> 0)
     (qsort cmp_numeric (build_sort_elems [[0x39], [0x31, 0x30], [0x2D, 0x31]]))"
  using qsort_sorts [OF numeric.comparator_axioms] by blast

text \<open>C29: The four comparison functions are total preorders, so \<open>qsort\<close> may be used with them,
  and the default one identifies exactly the words with the same plain text.\<close>

theorem comparators_total_preorders:
  "comparator (get_cmp sort_type) \<and> (cmp_ascii a b = 0 \<longleftrightarrow> plain a = plain b)"
  by (simp add: get_cmp_comparator cmp_ascii_0)

text \<open>C27: \<open>co_sort_words\<close> outputs the words of the list, all of them and no others, in ascending
  order of the chosen comparison, joined with the output separator.\<close>

theorem sort_words_sorts:
  assumes "word_sorter srt"
  shows "\<exists>es. co_sort_words srt True True list d osep ty = take lbuf_cap (join_on [osep] (map word_bytes es)) \<and>
     mset es = mset (build_sort_elems (split_words list d wc_max)) \<and>
     sorted_wrt (\<lambda>a b. get_cmp ty a b \<le> 0) es"
  using assms by (rule word_sorter.co_sort_words_spec)

theorem sort_words_sorts_witness:
  "\<exists>es. co_sort_words qsort True True [0x42, 0x20, 0x41] 0x20 0x20 CHR ''a'' = take lbuf_cap (join_on [0x20] (map word_bytes es)) \<and>
     mset es = mset (build_sort_elems (split_words [0x42, 0x20, 0x41] 0x20 wc_max)) \<and>
     sorted_wrt (\<lambda>a b. get_cmp CHR ''a'' a b \<le> 0) es"
  using sort_words_sorts [OF softlib_words.word_sorter_axioms, of "[0x42, 0x20, 0x41]" "0x20" "0x20" "CHR ''a''"] by blast

text \<open>C18: \<open>co_setunion\<close> outputs words of the two lists in strictly ascending order (so without
  duplicates), and a word compares equal to one of them exactly when it compares equal to
  a word of one of the lists.\<close>

theorem setunion_is_union:
  assumes "word_sorter srt"
  shows "\<exists>es. co_setunion srt True True l1 l2 d osep ty = take lbuf_cap (join_on [osep] (map word_bytes es)) \<and>
     sorted_wrt (\<lambda>a b. get_cmp ty a b < 0) es \<and>
     set es \<subseteq> set (build_sort_elems (split_words l1 d wc_max)) \<union> set (build_sort_elems (split_words l2 d wc_max)) \<and>
     (\<forall>x. has_equal (get_cmp ty) es x \<longleftrightarrow>
        has_equal (get_cmp ty) (build_sort_elems (split_words l1 d wc_max)) x \<or>
        has_equal (get_cmp ty) (build_sort_elems (split_words l2 d wc_max)) x)"
  using assms by (rule word_sorter.co_setunion_spec)

theorem setunion_is_union_witness:
  "\<exists>es. co_setunion qsort True True [0x42, 0x20, 0x41] [0x41] 0x20 0x20 CHR ''a'' = take lbuf_cap (join_on [0x20] (map word_bytes es)) \<and>
     sorted_wrt (\<lambda>a b. get_cmp CHR ''a'' a b < 0) es"
  using setunion_is_union [OF softlib_words.word_sorter_axioms, of "[0x42, 0x20, 0x41]" "[0x41]" "0x20" "0x20" "CHR ''a''"] by blast

text \<open>\<open>co_setdiff\<close> outputs, in strictly ascending order, words of the first list: exactly
  those that compare equal to no word of the second.\<close>

theorem setdiff_is_difference:
  assumes "word_sorter srt"
  shows "\<exists>es. co_setdiff srt True True l1 l2 d osep ty = take lbuf_cap (join_on [osep] (map word_bytes es)) \<and>
     sorted_wrt (\<lambda>a b. get_cmp ty a b < 0) es \<and>
     set es \<subseteq> set (build_sort_elems (split_words l1 d wc_max)) \<and>
     (\<forall>x. has_equal (get_cmp ty) es x \<longleftrightarrow>
        has_equal (get_cmp ty) (build_sort_elems (split_words l1 d wc_max)) x \<and>
        \<not> has_equal (get_cmp ty) (build_sort_elems (split_words l2 d wc_max)) x)"
  using assms by (rule word_sorter.co_setdiff_spec)

theorem setdiff_is_difference_witness:
  "\<exists>es. co_setdiff qsort True True [0x42, 0x20, 0x41] [0x41] 0x20 0x20 CHR ''a'' = take lbuf_cap (join_on [0x20] (map word_bytes es)) \<and>
     sorted_wrt (\<lambda>a b. get_cmp CHR ''a'' a b < 0) es"
  using setdiff_is_difference [OF softlib_words.word_sorter_axioms, of "[0x42, 0x20, 0x41]" "[0x41]" "0x20" "0x20" "CHR ''a''"] by blast

text \<open>\<open>co_setinter\<close> outputs, in strictly ascending order, words of the first list: exactly
  those that compare equal to a word of the second.\<close>

theorem setinter_is_intersection:
  assumes "word_sorter srt"
  shows "\<exists>es. co_setinter srt True True l1 l2 d osep ty = take lbuf_cap (join_on [osep] (map word_bytes es)) \<and>
     sorted_wrt (\<lambda>a b. get_cmp ty a b < 0) es \<and>
     set es \<subseteq> set (build_sort_elems (split_words l1 d wc_max)) \<and>
     (\<forall>x. has_equal (get_cmp ty) es x \<longleftrightarrow>
        has_equal (get_cmp ty) (build_sort_elems (split_words l1 d wc_max)) x \<and>
        has_equal (get_cmp ty) (build_sort_elems (split_words l2 d wc_max)) x)"
  using assms by (rule word_sorter.co_setinter_spec)

theorem setinter_is_intersection_witness:
  "\<exists>es. co_setinter qsort True True [0x42, 0x20, 0x41] [0x41] 0x20 0x20 CHR ''a'' = take lbuf_cap (join_on [0x20] (map word_bytes es)) \<and>
     sorted_wrt (\<lambda>a b. get_cmp CHR ''a'' a b < 0) es"
  using setinter_is_intersection [OF softlib_words.word_sorter_axioms, of "[0x42, 0x20, 0x41]" "[0x41]" "0x20" "0x20" "CHR ''a''"] by blast

end
