(* ===== verification/Mux_Number.thy ===== *)
theory Mux_Number
  imports Mux_Prelude
begin

text \<open>
  The number printers and readers of \<open>mux/lib/mathutil.cpp\<close> that the whole server uses
  (\<open>mux_utox\<close>, \<open>mux_ui64too\<close>, \<open>mux_utoa\<close>, \<open>mux_i64toa\<close>, \<open>mux_atoi64\<close>, \<open>is_integer\<close>,
  \<open>is_rational\<close>), with the character class tables of \<open>mux/lib/stringutil.cpp\<close> they read.

  A C string is the list of its bytes; the terminating NUL is what \<open>peek\<close> reads behind the
  end.  An \<open>unsigned long\<close> or \<open>uint64_t\<close> is a 64-bit word, so that the sums of
  \<open>mux_atoi64\<close> wrap the way they do in C.  A printer returns the bytes it stores before
  the NUL; their number is its return value.
\<close>

section \<open>Character classes\<close>

definition peek :: "bytes \<Rightarrow> byte" where
  "peek s = (case s of [] \<Rightarrow> 0 | b # _ \<Rightarrow> b)"

definition mux_isdigit :: "byte \<Rightarrow> bool" where
  "mux_isdigit b \<longleftrightarrow> 0x30 \<le> b \<and> b \<le> 0x39"

definition mux_isspace :: "byte \<Rightarrow> bool" where
  "mux_isspace b \<longleftrightarrow> 0x09 \<le> b \<and> b \<le> 0x0D \<or> b = 0x20"

definition mux_isazAZ :: "byte \<Rightarrow> bool" where
  "mux_isazAZ b \<longleftrightarrow> 0x41 \<le> b \<and> b \<le> 0x5A \<or> 0x61 \<le> b \<and> b \<le> 0x7A"

definition mux_toupper_ascii :: "byte \<Rightarrow> byte" where
  "mux_toupper_ascii b = (if 0x61 \<le> b \<and> b \<le> 0x7A then b - 0x20 else b)"

definition ascii :: "string \<Rightarrow> bytes" where
  "ascii s = map of_char s"

section \<open>Printing\<close>

function ReverseDigits :: "nat \<Rightarrow> nat \<Rightarrow> bytes \<Rightarrow> bytes" where
  "ReverseDigits pFirst pLast buf =
     (if pFirst < pLast then
        (let temp = buf ! pLast
         in ReverseDigits (pFirst + 1) (pLast - 1) (buf[pLast := buf ! pFirst, pFirst := temp]))
      else buf)"
  by pat_completeness auto
termination by (relation "measure (\<lambda>(i, j, _). j - i)") auto

declare ReverseDigits.simps [simp del]

definition Digits16U :: bytes where "Digits16U = ascii ''0123456789ABCDEF''"
definition Digits16L :: bytes where "Digits16L = ascii ''0123456789abcdef''"

function utox_loop :: "bytes \<Rightarrow> 64 word \<Rightarrow> bytes \<Rightarrow> bytes" where
  "utox_loop pDigits uval buf =
     (if uval > 15 then utox_loop pDigits (uval div 16) (buf @ [pDigits ! unat (uval mod 16)])
      else buf @ [pDigits ! unat uval])"
  by pat_completeness auto
termination
  by (relation "measure (\<lambda>(_, u, _). unat u)") (auto simp: unat_div word_less_nat_alt intro!: div_less_dividend)

definition mux_utox :: "64 word \<Rightarrow> bool \<Rightarrow> bytes" where
  "mux_utox uval bUpperCase =
     (let pDigits = if bUpperCase then Digits16U else Digits16L;
          buf = utox_loop pDigits uval []
      in ReverseDigits 0 (length buf - 1) buf)"

definition mux_ui64tox :: "64 word \<Rightarrow> bool \<Rightarrow> bytes" where
  "mux_ui64tox uval bUpperCase =
     (let pDigits = if bUpperCase then Digits16U else Digits16L;
          buf = utox_loop pDigits uval []
      in ReverseDigits 0 (length buf - 1) buf)"

function utoo_loop :: "64 word \<Rightarrow> bytes \<Rightarrow> bytes" where
  "utoo_loop uval buf =
     (if uval > 7 then utoo_loop (uval div 8) (buf @ [ucast (0x30 + uval mod 8)])
      else buf @ [ucast (0x30 + uval)])"
  by pat_completeness auto
termination
  by (relation "measure (\<lambda>(u, _). unat u)") (auto simp: unat_div word_less_nat_alt intro!: div_less_dividend)

definition mux_utoo :: "64 word \<Rightarrow> bytes" where
  "mux_utoo uval = (let buf = utoo_loop uval [] in ReverseDigits 0 (length buf - 1) buf)"

definition mux_ui64too :: "64 word \<Rightarrow> bytes" where
  "mux_ui64too uval = (let buf = utoo_loop uval [] in ReverseDigits 0 (length buf - 1) buf)"

definition Digits100 :: bytes where
  "Digits100 = ascii (''001020304050607080900111213141516171819102122232425262728292'' @
     ''031323334353637383930414243444546474849405152535455565758595'' @
     ''061626364656667686960717273747576777879708182838485868788898'' @
     ''09192939495969798999'')"

function utoa_loop :: "64 word \<Rightarrow> bytes \<Rightarrow> bytes" where
  "utoa_loop uval buf =
     (if uval > 99 then
        (let z = unat (push_bit 1 (uval mod 100))
         in utoa_loop (uval div 100) (buf @ [Digits100 ! z, Digits100 ! (z + 1)]))
      else
        (let z = unat (push_bit 1 uval); buf = buf @ [Digits100 ! z]
         in if uval > 9 then buf @ [Digits100 ! (z + 1)] else buf))"
  by pat_completeness auto
termination
  by (relation "measure (\<lambda>(u, _). unat u)") (auto simp: unat_div word_less_nat_alt intro!: div_less_dividend)

declare utox_loop.simps [simp del] utoo_loop.simps [simp del] utoa_loop.simps [simp del]

definition mux_utoa :: "64 word \<Rightarrow> bytes" where
  "mux_utoa uval = (let buf = utoa_loop uval [] in ReverseDigits 0 (length buf - 1) buf)"

definition mux_ui64toa :: "64 word \<Rightarrow> bytes" where
  "mux_ui64toa uval = (let buf = utoa_loop uval [] in ReverseDigits 0 (length buf - 1) buf)"

text \<open>The least value is negated as \<open>INT64_MAX + 1\<close>, the others as signed numbers.\<close>

definition mux_ltoa :: "64 word \<Rightarrow> bytes" where
  "mux_ltoa val =
     (if val <s 0 then
        0x2D # mux_utoa (if val = 0x8000000000000000 then 0x7FFFFFFFFFFFFFFF + 1 else - val)
      else mux_utoa val)"

definition mux_i64toa :: "64 word \<Rightarrow> bytes" where
  "mux_i64toa val =
     (if val <s 0 then
        0x2D # mux_ui64toa (if val = 0x8000000000000000 then 0x7FFFFFFFFFFFFFFF + 1 else - val)
      else mux_ui64toa val)"

section \<open>Reading\<close>

definition TableATOI :: "64 word list list" where
  "TableATOI =
     [[ 0,  1,  2,  3,  4,  5,  6,  7,  8,  9],
      [10, 11, 12, 13, 14, 15, 16, 17, 18, 19],
      [20, 21, 22, 23, 24, 25, 26, 27, 28, 29],
      [30, 31, 32, 33, 34, 35, 36, 37, 38, 39],
      [40, 41, 42, 43, 44, 45, 46, 47, 48, 49],
      [50, 51, 52, 53, 54, 55, 56, 57, 58, 59],
      [60, 61, 62, 63, 64, 65, 66, 67, 68, 69],
      [70, 71, 72, 73, 74, 75, 76, 77, 78, 79],
      [80, 81, 82, 83, 84, 85, 86, 87, 88, 89],
      [90, 91, 92, 93, 94, 95, 96, 97, 98, 99]]"

text \<open>The loop is entered with \<open>c0\<close>, the first byte, a digit.\<close>

fun atoi64_loop :: "64 word \<Rightarrow> bytes \<Rightarrow> 64 word" where
  "atoi64_loop sm (c0 # c1 # s) =
     (if mux_isdigit c1 then
        (let sm = 100 * sm + TableATOI ! unat (c0 - 0x30) ! unat (c1 - 0x30)
         in if mux_isdigit (peek s) then atoi64_loop sm s else sm)
      else 10 * sm + ucast (c0 - 0x30))"
| "atoi64_loop sm [c0] = 10 * sm + ucast (c0 - 0x30)"
| "atoi64_loop sm [] = sm"

definition atoi64_word :: "bytes \<Rightarrow> 64 word" where
  "atoi64_word pString =
     (if mux_isdigit (peek pString) then atoi64_loop 0 pString
      else
        (let pString = dropWhile mux_isspace pString;
             LeadingCharacter = peek pString;
             pString = (if LeadingCharacter = 0x2D \<or> LeadingCharacter = 0x2B then tl pString else pString)
         in if \<not> mux_isdigit (peek pString) then 0
            else
              (let sm = atoi64_loop 0 pString
               in if LeadingCharacter = 0x2D then - sm else sm)))"

definition mux_atoi64 :: "bytes \<Rightarrow> int" where
  "mux_atoi64 pString = sint (atoi64_word pString)"

text \<open>\<open>mux_atol\<close> on a platform with a 64-bit \<open>long\<close>: the same sums, in a signed variable.\<close>

definition mux_atol :: "bytes \<Rightarrow> int" where
  "mux_atol pString = sint (atoi64_word pString)"

text \<open>The verdict and the count stored through \<open>pDigits\<close>.\<close>

definition is_integer :: "bytes \<Rightarrow> bool \<times> nat" where
  "is_integer str =
     (let str = dropWhile mux_isspace str;
          sign = (peek str = 0x2D \<or> peek str = 0x2B);
          str = (if sign then tl str else str)
      in if sign \<and> peek str = 0 then (False, 0)
         else if \<not> mux_isdigit (peek str) then (False, 0)
         else
           (let nDigits = length (takeWhile mux_isdigit str);
                str = dropWhile mux_isspace (dropWhile mux_isdigit str)
            in (peek str = 0, nDigits)))"

definition is_rational :: "bytes \<Rightarrow> bool" where
  "is_rational str =
     (let str = dropWhile mux_isspace str;
          sign = (peek str = 0x2D \<or> peek str = 0x2B);
          str = (if sign then tl str else str)
      in if sign \<and> peek str = 0 then False
         else
           (let got_one = mux_isdigit (peek str);
                str = dropWhile mux_isdigit str;
                str = (if peek str = 0x2E then tl str else str);
                got_one = (got_one \<or> mux_isdigit (peek str))
            in if \<not> got_one then False
               else peek (dropWhile mux_isspace (dropWhile mux_isdigit str)) = 0))"

section \<open>Reversal\<close>

lemma nth_swap_ends:
  assumes "p < q" "q < length xs"
  shows "xs[q := xs ! p, p := xs ! q] ! k = (if k = p then xs ! q else if k = q then xs ! p else xs ! k)"
  using assms by (cases "k < length xs") (auto simp: nth_list_update nth_list_update_neq)

lemma ReverseDigits_nth:
  assumes "k < length buf" "j < length buf"
  shows "length (ReverseDigits i j buf) = length buf \<and>
    ReverseDigits i j buf ! k = (if i \<le> k \<and> k \<le> j then buf ! (i + j - k) else buf ! k)"
  using assms
proof (induction i j buf rule: ReverseDigits.induct)
  case (1 i j buf)
  show ?case
  proof (cases "i < j")
    case True
    then have "length (ReverseDigits (i + 1) (j - 1) (buf[j := buf ! i, i := buf ! j])) = length buf \<and>
      ReverseDigits (i + 1) (j - 1) (buf[j := buf ! i, i := buf ! j]) ! k =
        (if i + 1 \<le> k \<and> k \<le> j - 1 then buf[j := buf ! i, i := buf ! j] ! (i + 1 + (j - 1) - k)
         else buf[j := buf ! i, i := buf ! j] ! k)"
      using "1.IH" "1.prems" by simp
    with True "1.prems" show ?thesis
      by (subst (1 2) ReverseDigits.simps) (auto simp: Let_def nth_swap_ends)
  next
    case False
    then have "i \<le> k \<Longrightarrow> k \<le> j \<Longrightarrow> i + j - k = k" by linarith
    with False show ?thesis using "1.prems" by (subst (1 2) ReverseDigits.simps) auto
  qed
qed

lemma ReverseDigits_rev: "ReverseDigits 0 (length buf - 1) buf = rev buf"
proof (cases "buf = []")
  case False
  then have n: "length (ReverseDigits 0 (length buf - 1) buf) = length buf"
    "k < length buf \<Longrightarrow> ReverseDigits 0 (length buf - 1) buf ! k = buf ! (length buf - 1 - k)" for k
    using ReverseDigits_nth [of _ buf "length buf - 1" 0] by auto
  show ?thesis by (intro nth_equalityI) (simp_all only: n length_rev rev_nth Suc_eq_plus1 diff_diff_left add.commute)
qed (simp add: ReverseDigits.simps)

section \<open>The digits of a number\<close>

function digits :: "nat \<Rightarrow> nat \<Rightarrow> nat list" where
  "digits b n = (if n < b \<or> b < 2 then [n] else digits b (n div b) @ [n mod b])"
  by pat_completeness auto
termination by (relation "measure snd") (auto intro!: div_less_dividend)

definition digits_val :: "nat \<Rightarrow> nat list \<Rightarrow> nat" where
  "digits_val b ds = foldl (\<lambda>v d. v * b + d) 0 ds"

declare digits.simps [simp del]

lemma digits_small [simp]: "n < b \<Longrightarrow> digits b n = [n]"
  by (simp add: digits.simps)

lemma digits_step: "2 \<le> b \<Longrightarrow> b \<le> n \<Longrightarrow> digits b n = digits b (n div b) @ [n mod b]"
  by (subst digits.simps) simp

lemma digits_val_digits [simp]: "digits_val b (digits b n) = n"
proof (induction b n rule: digits.induct)
  case (1 b n)
  then show ?case by (cases "n < b \<or> b < 2") (simp_all add: digits.simps [of b n] digits_val_def)
qed

lemma digits_less: "2 \<le> b \<Longrightarrow> d \<in> set (digits b n) \<Longrightarrow> d < b"
proof (induction b n rule: digits.induct)
  case (1 b n)
  then show ?case by (cases "n < b") (auto simp: digits_step)
qed

lemma digits_nonempty [simp]: "digits b n \<noteq> []"
  by (simp add: digits.simps [of b n])

lemma digits_hd: "2 \<le> b \<Longrightarrow> 0 < n \<Longrightarrow> hd (digits b n) \<noteq> 0"
proof (induction b n rule: digits.induct)
  case (1 b n)
  show ?case
  proof (cases "n < b")
    case False
    then have "hd (digits b (n div b)) \<noteq> 0" using 1 by (simp add: div_greater_zero_iff)
    then show ?thesis using False "1.prems" by (simp add: digits_step)
  qed (use "1.prems" in simp)
qed

lemma digits_length: "2 \<le> b \<Longrightarrow> n < b ^ Suc k \<Longrightarrow> length (digits b n) \<le> Suc k"
proof (induction k arbitrary: n)
  case (Suc k)
  show ?case
  proof (cases "n < b")
    case False
    have "n div b < b ^ Suc k" using Suc.prems by (intro less_mult_imp_div_less) (simp add: mult.commute)
    then have "length (digits b (n div b)) \<le> Suc k" by (rule Suc.IH [OF Suc.prems(1)])
    then show ?thesis using False Suc.prems(1) by (simp add: digits_step)
  qed simp
qed simp

lemma digits_two: "100 \<le> n \<Longrightarrow> digits 10 n = digits 10 (n div 100) @ [n div 10 mod 10, n mod 10]"
  by (simp add: digits_step [of 10 n] digits_step [of 10 "n div 10"] div_mult2_eq [symmetric])

section \<open>The tables\<close>

definition digit_byte :: "nat \<Rightarrow> byte" where
  "digit_byte d = 0x30 + of_nat d"

lemma concat_pairs:
  "length (concat (map (\<lambda>n. [f n, g n]) [0 ..< k])) = 2 * k"
  "n < k \<Longrightarrow> concat (map (\<lambda>n. [f n, g n]) [0 ..< k]) ! (2 * n) = f n"
  "n < k \<Longrightarrow> concat (map (\<lambda>n. [f n, g n]) [0 ..< k]) ! (2 * n + 1) = g n"
proof -
  show len: "length (concat (map (\<lambda>n. [f n, g n]) [0 ..< k])) = 2 * k" for k by (induction k) simp_all
  show "n < k \<Longrightarrow> concat (map (\<lambda>n. [f n, g n]) [0 ..< k]) ! (2 * n) = f n"
    by (induction k) (auto simp: nth_append len less_Suc_eq)
  show "n < k \<Longrightarrow> concat (map (\<lambda>n. [f n, g n]) [0 ..< k]) ! (2 * n + 1) = g n"
    by (induction k) (auto simp: nth_append len less_Suc_eq)
qed

lemma Digits16_eq:
  "Digits16U = map (\<lambda>n. if n < 10 then digit_byte n else 0x37 + of_nat n) [0 ..< 16]"
  "Digits16L = map (\<lambda>n. if n < 10 then digit_byte n else 0x57 + of_nat n) [0 ..< 16]"
  by code_simp+

lemma Digits100_eq: "Digits100 = concat (map (\<lambda>n. [digit_byte (n mod 10), digit_byte (n div 10)]) [0 ..< 100])"
  by code_simp

lemma Digits100_nth:
  "n < 100 \<Longrightarrow> Digits100 ! (2 * n) = digit_byte (n mod 10)"
  "n < 100 \<Longrightarrow> Digits100 ! (2 * n + 1) = digit_byte (n div 10)"
  unfolding Digits100_eq by (simp_all only: concat_pairs)

lemma TableATOI_eq: "TableATOI = map (\<lambda>a. map (\<lambda>b. of_nat (10 * a + b)) [0 ..< 10]) [0 ..< 10]"
  by code_simp

lemma TableATOI_nth: "a < 10 \<Longrightarrow> b < 10 \<Longrightarrow> TableATOI ! a ! b = of_nat (10 * a + b)"
  by (simp add: TableATOI_eq)

lemma word_of_nat_inj8: "m < 256 \<Longrightarrow> n < 256 \<Longrightarrow> (of_nat m :: byte) = of_nat n \<longleftrightarrow> m = n"
  by (simp add: word_of_nat_eq_iff take_bit_nat_eq_self)

lemma digit_byte_inj: "inj_on digit_byte {..< 10}"
  by (auto simp: inj_on_def digit_byte_def word_of_nat_inj8)

section \<open>The printers write the digits\<close>

lemma utox_loop_digits:
  "utox_loop ds u buf = buf @ rev (map ((!) ds) (digits 16 (unat u)))"
proof (induction ds u buf rule: utox_loop.induct)
  case (1 ds u buf)
  show ?case
  proof (cases "u > 15")
    case True
    then have "16 \<le> unat u" by (simp add: word_less_nat_alt)
    then show ?thesis using 1 True
      by (simp add: utox_loop.simps [of ds u buf] digits_step unat_div unat_mod)
  next
    case False
    then have "unat u < 16" by (simp add: word_less_nat_alt)
    then show ?thesis using False by (simp add: utox_loop.simps [of ds u buf])
  qed
qed

lemma take_bit_8_64: "take_bit 8 (take_bit 64 a + take_bit 64 b) = take_bit 8 (a + b)" for a b :: int
proof -
  have "take_bit 8 (take_bit 64 a + take_bit 64 b) = take_bit 8 (take_bit 8 (take_bit 64 a) + take_bit 8 (take_bit 64 b))"
    by (simp only: take_bit_add)
  also have "\<dots> = take_bit 8 (a + b)" by (simp add: take_bit_add)
  finally show ?thesis .
qed

lemma ucast_plus: "(ucast (a + b) :: byte) = ucast a + ucast b" for a b :: "64 word"
  by transfer (simp add: take_bit_8_64)

lemma ucast_digit: "ucast (0x30 + u) = digit_byte (unat u)" for u :: "64 word"
  by (simp add: ucast_plus digit_byte_def)

lemma utoo_loop_digits:
  "utoo_loop u buf = buf @ rev (map digit_byte (digits 8 (unat u)))"
proof (induction u buf rule: utoo_loop.induct)
  case (1 u buf)
  show ?case
  proof (cases "u > 7")
    case True
    then have "8 \<le> unat u" by (simp add: word_less_nat_alt)
    then show ?thesis using 1 True
      by (simp add: utoo_loop.simps [of u buf] digits_step unat_div unat_mod ucast_digit)
  next
    case False
    then have "unat u < 8" by (simp add: word_less_nat_alt)
    then show ?thesis using False by (simp add: utoo_loop.simps [of u buf] ucast_digit)
  qed
qed

lemma Digits100_word:
  fixes u :: "64 word"
  assumes "unat u < 100"
  shows "Digits100 ! unat (u * 2) = digit_byte (unat u mod 10)"
    "Digits100 ! Suc (unat (u * 2)) = digit_byte (unat u div 10)"
proof -
  have "unat (u * 2) = 2 * unat u"
    using assms unat_mult_lem [of u 2] by (simp add: mult.commute)
  then show "Digits100 ! unat (u * 2) = digit_byte (unat u mod 10)"
    "Digits100 ! Suc (unat (u * 2)) = digit_byte (unat u div 10)"
    using Digits100_nth [OF assms] by simp_all
qed

lemma utoa_loop_digits:
  "utoa_loop u buf = buf @ rev (map digit_byte (digits 10 (unat u)))"
proof (induction u buf rule: utoa_loop.induct)
  case (1 u buf)
  show ?case
  proof (cases "u > 99")
    case True
    then have u: "100 \<le> unat u" by (simp add: word_less_nat_alt)
    have m: "unat (u mod 100) = unat u mod 100" by (simp add: unat_mod)
    then have "unat (u mod 100) < 100" by simp
    note D = Digits100_word [OF this, unfolded m]
    have "unat u mod 100 mod 10 = unat u mod 10" "unat u mod 100 div 10 = unat u div 10 mod 10"
      by (simp add: mod_mod_cancel, simp add: mod_mult2_eq [of _ 10 10, simplified])
    then show ?thesis using 1 True
      by (simp add: utoa_loop.simps [of u buf] digits_two [OF u] unat_div Let_def D)
  next
    case False
    then have u: "unat u < 100" by (simp add: word_less_nat_alt)
    moreover have "9 < u \<longleftrightarrow> 10 \<le> unat u" by (simp add: word_less_nat_alt) linarith
    ultimately show ?thesis using False
      by (simp add: utoa_loop.simps [of u buf] Let_def Digits100_word digits_step)
  qed
qed

lemma printers_digits:
  "mux_utox u up = map ((!) (if up then Digits16U else Digits16L)) (digits 16 (unat u))"
  "mux_ui64tox u up = map ((!) (if up then Digits16U else Digits16L)) (digits 16 (unat u))"
  "mux_utoo u = map digit_byte (digits 8 (unat u))" "mux_ui64too u = map digit_byte (digits 8 (unat u))"
  "mux_utoa u = map digit_byte (digits 10 (unat u))" "mux_ui64toa u = map digit_byte (digits 10 (unat u))"
  unfolding mux_utox_def mux_ui64tox_def mux_utoo_def mux_ui64too_def mux_utoa_def mux_ui64toa_def Let_def ReverseDigits_rev
  by (simp_all add: utox_loop_digits utoo_loop_digits utoa_loop_digits)

section \<open>A printer as an interface\<close>

text \<open>A printer writes the digits of its argument in its base, with one byte per digit.  All
  that the callers rely on follows from that.\<close>

locale radix_printer =
  fixes b :: nat and digit :: "nat \<Rightarrow> byte" and print :: "64 word \<Rightarrow> bytes"
  assumes base: "8 \<le> b" and digit_inj: "inj_on digit {..< b}"
    and prints: "print w = map digit (digits b (unat w))"
begin

lemma print_inj: "print v = print w \<longleftrightarrow> v = w"
proof
  assume "print v = print w"
  then have "digits b (unat v) = digits b (unat w)"
    using digits_less [of b] base map_inj_on [of digit "digits b (unat v)" "digits b (unat w)"]
    by (auto simp: prints intro: inj_on_subset [OF digit_inj])
  then have "digits_val b (digits b (unat v)) = digits_val b (digits b (unat w))" by simp
  then show "v = w" by (simp add: word_unat_eq_iff)
qed simp

lemma print_nonempty: "print w \<noteq> []"
  by (simp add: prints)

lemma print_no_leading_zero: "w \<noteq> 0 \<Longrightarrow> hd (print w) \<noteq> digit 0"
proof -
  assume "w \<noteq> 0"
  then have "hd (digits b (unat w)) \<noteq> 0" using base by (intro digits_hd) (auto simp: unat_gt_0)
  moreover have "hd (digits b (unat w)) < b" using base by (intro digits_less [of b _ "unat w"]) auto
  ultimately show ?thesis
    using inj_onD [OF digit_inj, of "hd (digits b (unat w))" 0] base by (auto simp: prints hd_map)
qed

lemma print_length: "2 ^ 64 \<le> b ^ Suc k \<Longrightarrow> length (print w) \<le> Suc k"
proof -
  assume k: "2 ^ 64 \<le> b ^ Suc k"
  have "unat w < 2 ^ 64" using unsigned_less [of w] by simp
  with k have "unat w < b ^ Suc k" by (rule order.strict_trans2 [rotated])
  then show ?thesis using base by (simp add: prints del: power_Suc) (rule digits_length, simp_all)
qed

end

lemma hex_inj: "inj_on ((!) (if up then Digits16U else Digits16L)) {..< 16}"
proof -
  have "distinct Digits16U \<and> distinct Digits16L \<and> length Digits16U = 16 \<and> length Digits16L = 16" by code_simp
  then show ?thesis by (auto intro!: inj_on_nth)
qed

interpretation utox: radix_printer 16 "(!) (if up then Digits16U else Digits16L)" "\<lambda>u. mux_utox u up" for up
  by unfold_locales (simp_all add: hex_inj printers_digits)

interpretation ui64tox: radix_printer 16 "(!) (if up then Digits16U else Digits16L)" "\<lambda>u. mux_ui64tox u up" for up
  by unfold_locales (simp_all add: hex_inj printers_digits)

lemma octal_inj: "inj_on digit_byte {..< 8}"
  by (rule inj_on_subset [OF digit_byte_inj]) auto

interpretation utoo: radix_printer 8 digit_byte mux_utoo
  by unfold_locales (simp_all add: octal_inj printers_digits)

interpretation ui64too: radix_printer 8 digit_byte mux_ui64too
  by unfold_locales (simp_all add: octal_inj printers_digits)

interpretation utoa: radix_printer 10 digit_byte mux_utoa
  by unfold_locales (simp_all add: digit_byte_inj printers_digits)

interpretation ui64toa: radix_printer 10 digit_byte mux_ui64toa
  by unfold_locales (simp_all add: digit_byte_inj printers_digits)

section \<open>Reading back\<close>

lemma digit_byte_props:
  assumes "d < 10"
  shows "mux_isdigit (digit_byte d)" "digit_byte d - 0x30 = of_nat d" "unat (of_nat d :: byte) = d"
    "\<not> mux_isspace (digit_byte d)" "digit_byte d \<noteq> 0x2D" "digit_byte d \<noteq> 0x2B" "digit_byte d \<noteq> 0x20"
    "digit_byte d \<noteq> 0x2E" "digit_byte d \<noteq> 0x3A" "digit_byte d \<noteq> 0" "ucast (of_nat d :: byte) = (of_nat d :: 64 word)"
proof -
  have "d \<in> {0, 1, 2, 3, 4, 5, 6, 7, 8, 9}" using assms by simp presburger
  then show "mux_isdigit (digit_byte d)" "digit_byte d - 0x30 = of_nat d" "unat (of_nat d :: byte) = d"
    "\<not> mux_isspace (digit_byte d)" "digit_byte d \<noteq> 0x2D" "digit_byte d \<noteq> 0x2B" "digit_byte d \<noteq> 0x20"
    "digit_byte d \<noteq> 0x2E" "digit_byte d \<noteq> 0x3A" "digit_byte d \<noteq> 0" "ucast (of_nat d :: byte) = (of_nat d :: 64 word)"
    by (auto simp: digit_byte_def mux_isdigit_def mux_isspace_def)
qed

lemma peek_simps [simp]: "peek [] = 0" "peek (x # xs) = x" "peek (x # xs @ ys) = x"
  by (simp_all add: peek_def)

lemma peek_append [simp]: "xs \<noteq> [] \<Longrightarrow> peek (xs @ ys) = hd xs"
  by (cases xs) simp_all

lemma not_isdigit_0 [simp]: "\<not> mux_isdigit 0"
  by (simp add: mux_isdigit_def)

lemma not_isspace_0 [simp]: "\<not> mux_isspace 0"
  by (simp add: mux_isspace_def)

lemma digits_val_Nil [simp]: "digits_val b [] = 0"
  by (simp add: digits_val_def)

lemma foldl_digits: "foldl (\<lambda>v d. v * b + d) a ds = a * b ^ length ds + foldl (\<lambda>v d. v * b + d) 0 ds" for a b :: nat
proof (induction ds rule: rev_induct)
  case (snoc d ds)
  then show ?case by (simp only: foldl_append foldl.simps length_append) (simp add: algebra_simps)
qed simp

lemma digits_val_Cons: "digits_val b (d # ds) = d * b ^ length ds + digits_val b ds"
  using foldl_digits [of b d ds] by (simp add: digits_val_def)

lemma digits_val_append: "digits_val b (ds @ es) = digits_val b ds * b ^ length es + digits_val b es"
  using foldl_digits [of b "digits_val b ds" es] by (simp add: digits_val_def)

lemma atoi64_loop_digits:
  assumes "\<forall>d \<in> set ds. d < 10" "\<not> mux_isdigit (peek rest)" "ds \<noteq> []"
  shows "atoi64_loop a (map digit_byte ds @ rest) = a * 10 ^ length ds + of_nat (digits_val 10 ds)"
  using assms
proof (induction ds arbitrary: a rule: induct_list012)
  case (2 d)
  then show ?case by (cases rest) (simp_all add: digit_byte_props digits_val_Cons algebra_simps)
next
  case (3 d e ds)
  then have d: "d < 10" "e < 10" by auto
  show ?case
  proof (cases "ds = []")
    case True
    then show ?thesis using 3 d
      by (simp add: digit_byte_props TableATOI_nth Let_def digits_val_Cons algebra_simps)
  next
    case False
    then have "mux_isdigit (hd (map digit_byte ds))" using 3 by (cases ds) (auto simp: digit_byte_props)
    moreover have "atoi64_loop (100 * a + of_nat (10 * d + e)) (map digit_byte ds @ rest) =
        (100 * a + of_nat (10 * d + e)) * 10 ^ length ds + of_nat (digits_val 10 ds)"
      using False 3 by auto
    ultimately show ?thesis using d False
      by (simp add: digit_byte_props TableATOI_nth Let_def digits_val_Cons algebra_simps)
  qed
qed simp

text \<open>The bytes of a signed numeral: an optional sign and digits.\<close>

definition sign_bytes :: "byte option \<Rightarrow> bytes" where
  "sign_bytes sg = (case sg of None \<Rightarrow> [] | Some c \<Rightarrow> [c])"

definition numeral_val :: "byte option \<Rightarrow> nat list \<Rightarrow> int" where
  "numeral_val sg ds = (if sg = Some 0x2D then - int (digits_val 10 ds) else int (digits_val 10 ds))"

definition is_sign :: "byte option \<Rightarrow> bool" where
  "is_sign sg \<longleftrightarrow> sg \<in> {None, Some 0x2D, Some 0x2B}"

lemma sign_byte_props: "\<not> mux_isspace 0x2D" "\<not> mux_isspace 0x2B" "\<not> mux_isdigit 0x2D" "\<not> mux_isdigit 0x2B"
  by (simp_all add: mux_isspace_def mux_isdigit_def)

lemma space_not_digit: "mux_isspace c \<Longrightarrow> \<not> mux_isdigit c"
  by (auto simp: mux_isspace_def mux_isdigit_def word_le_nat_alt)

lemma hd_digit_byte:
  assumes "\<forall>d \<in> set ds. d < 10" "ds \<noteq> []"
  obtains d es where "ds = d # es" "d < 10" "mux_isdigit (digit_byte d)" "\<not> mux_isspace (digit_byte d)"
    "digit_byte d \<noteq> 0x2D" "digit_byte d \<noteq> 0x2B" "digit_byte d \<noteq> 0"
  using assms by (cases ds) (auto simp: digit_byte_props)

lemma dropWhile_prefix: "\<forall>x \<in> set xs. P x \<Longrightarrow> dropWhile P (xs @ ys) = dropWhile P ys"
  by (induction xs) auto

lemma dropWhile_peek: "\<not> P (peek ys) \<Longrightarrow> dropWhile P ys = ys"
  by (cases ys) auto

lemma atoi64_word_numeral:
  assumes "\<forall>c \<in> set sp. mux_isspace c" "is_sign sg" "\<forall>d \<in> set ds. d < 10" "ds \<noteq> []" "\<not> mux_isdigit (peek rest)"
  shows "atoi64_word (sp @ sign_bytes sg @ map digit_byte ds @ rest) = of_int (numeral_val sg ds)"
proof -
  obtain d es where d: "ds = d # es" "d < 10" "mux_isdigit (digit_byte d)" "\<not> mux_isspace (digit_byte d)"
    "digit_byte d \<noteq> 0x2D" "digit_byte d \<noteq> 0x2B"
    using assms(3,4) by (rule hd_digit_byte)
  have L: "atoi64_loop 0 (digit_byte d # map digit_byte es @ rest) = of_nat (digits_val 10 ds)"
    using atoi64_loop_digits [OF assms(3,5,4), of 0] by (simp add: d(1))
  have D: "dropWhile mux_isspace (sp @ sign_bytes sg @ map digit_byte ds @ rest) = sign_bytes sg @ map digit_byte ds @ rest"
    using assms(1,2) d by (auto simp: dropWhile_prefix is_sign_def sign_bytes_def sign_byte_props)
  consider "sp = []" "sg = None" | "sp = []" "sg \<noteq> None" | c sp' where "sp = c # sp'" by (cases sp) auto
  then show ?thesis
  proof cases
    case 1
    then show ?thesis using d(3) L by (simp add: atoi64_word_def sign_bytes_def d(1) numeral_val_def)
  next
    case 2
    then show ?thesis using assms(2) D d(3) L
      by (auto simp: atoi64_word_def sign_bytes_def d(1) numeral_val_def is_sign_def sign_byte_props)
  next
    case 3
    then have "\<not> mux_isdigit (peek (sp @ sign_bytes sg @ map digit_byte ds @ rest))"
      using assms(1) by (auto simp: space_not_digit)
    then show ?thesis using assms(2) d L
      unfolding atoi64_word_def D by (auto simp: Let_def sign_bytes_def numeral_val_def is_sign_def)
  qed
qed

lemma negation_printed: "(if v = 0x8000000000000000 then 0x7FFFFFFFFFFFFFFF + 1 else - v) = - v" for v :: "64 word"
  by simp

lemma i64toa_numeral:
  "mux_i64toa v = (if v <s 0 then sign_bytes (Some 0x2D) @ map digit_byte (digits 10 (unat (- v)))
     else sign_bytes None @ map digit_byte (digits 10 (unat v)))"
  unfolding mux_i64toa_def negation_printed by (simp add: sign_bytes_def printers_digits)

lemma atoi64_i64toa:
  assumes "\<not> mux_isdigit (peek rest)"
  shows "atoi64_word (mux_i64toa v @ rest) = v"
proof -
  have d: "\<forall>d \<in> set (digits 10 n). d < 10" for n using digits_less [of 10 _ n] by auto
  show ?thesis
    using atoi64_word_numeral [of "[]" "Some 0x2D" "digits 10 (unat (- v))" rest]
      atoi64_word_numeral [of "[]" None "digits 10 (unat v)" rest] assms d
    by (simp add: i64toa_numeral is_sign_def numeral_val_def)
qed

lemma takeWhile_prefix: "\<forall>x \<in> set xs. P x \<Longrightarrow> takeWhile P (xs @ ys) = xs @ takeWhile P ys"
  by (induction xs) auto

lemma takeWhile_digits:
  assumes "\<forall>d \<in> set ds. d < 10" "\<not> mux_isdigit (peek rest)"
  shows "takeWhile mux_isdigit (map digit_byte ds @ rest) = map digit_byte ds"
    "dropWhile mux_isdigit (map digit_byte ds @ rest) = rest"
proof -
  have c: "\<forall>c \<in> set (map digit_byte ds). mux_isdigit c" using assms(1) by (auto simp: digit_byte_props)
  have r: "takeWhile mux_isdigit rest = []" "dropWhile mux_isdigit rest = rest" using assms(2) by (cases rest; simp)+
  show "takeWhile mux_isdigit (map digit_byte ds @ rest) = map digit_byte ds"
    by (simp only: takeWhile_prefix [OF c] r append_Nil2)
  show "dropWhile mux_isdigit (map digit_byte ds @ rest) = rest"
    by (simp only: dropWhile_prefix [OF c] r)
qed

lemma is_integer_numeral:
  assumes "\<forall>c \<in> set sp. mux_isspace c" "is_sign sg" "\<forall>d \<in> set ds. d < 10" "ds \<noteq> []" "\<forall>c \<in> set sp'. mux_isspace c"
  shows "is_integer (sp @ sign_bytes sg @ map digit_byte ds @ sp') = (True, length ds)"
proof -
  obtain d es where d: "ds = d # es" "d < 10" "mux_isdigit (digit_byte d)" "\<not> mux_isspace (digit_byte d)"
    "digit_byte d \<noteq> 0x2D" "digit_byte d \<noteq> 0x2B" "digit_byte d \<noteq> 0"
    using assms(3,4) by (rule hd_digit_byte)
  have D: "dropWhile mux_isspace (sp @ sign_bytes sg @ map digit_byte ds @ sp') = sign_bytes sg @ map digit_byte ds @ sp'"
    using assms(1,2) d by (auto simp: dropWhile_prefix is_sign_def sign_bytes_def sign_byte_props)
  have n: "\<not> mux_isdigit (peek sp')" using assms(5) by (cases sp') (auto simp: space_not_digit)
  have e: "dropWhile mux_isspace sp' = []" using assms(5) by simp
  have "(if peek (sign_bytes sg @ map digit_byte ds @ sp') = 0x2D \<or> peek (sign_bytes sg @ map digit_byte ds @ sp') = 0x2B
      then tl (sign_bytes sg @ map digit_byte ds @ sp') else sign_bytes sg @ map digit_byte ds @ sp') = map digit_byte ds @ sp'"
    using assms(2) d by (auto simp: is_sign_def sign_bytes_def)
  moreover have "peek (map digit_byte ds @ sp') = digit_byte d" by (simp add: d(1))
  ultimately show ?thesis
    unfolding is_integer_def D Let_def using d takeWhile_digits [OF assms(3) n] by (simp add: e)
qed

lemma isdigit_digit_byte: "mux_isdigit c \<Longrightarrow> \<exists>d < 10. c = digit_byte d"
  by (intro exI [of _ "unat (c - 0x30)"])
    (auto simp: mux_isdigit_def digit_byte_def word_le_nat_alt unat_sub_if_size word_size)

lemma digits_of_bytes:
  assumes "\<forall>c \<in> set cs. mux_isdigit c"
  shows "\<exists>ds. cs = map digit_byte ds \<and> (\<forall>d \<in> set ds. d < 10)"
  using assms
proof (induction cs)
  case (Cons c cs)
  then obtain ds d where "cs = map digit_byte ds" "\<forall>d \<in> set ds. d < 10" "c = digit_byte d" "d < 10"
    using isdigit_digit_byte [of c] by auto
  then show ?case by (intro exI [of _ "d # ds"]) simp
qed simp

lemma peek_zero: "0 \<notin> set s \<Longrightarrow> peek s = 0 \<longleftrightarrow> s = []"
  by (cases s) auto

lemma spaces_takeWhile: "\<forall>c \<in> set (takeWhile P s). P c"
  using set_takeWhileD by fastforce

lemma optional_sign:
  obtains sg where "is_sign sg" "s = sign_bytes sg @ (if peek s = 0x2D \<or> peek s = 0x2B then tl s else s)"
proof (cases "peek s = 0x2D \<or> peek s = 0x2B")
  case True
  then show ?thesis by (intro that [of "Some (peek s)"]) (cases s; auto simp: is_sign_def sign_bytes_def)+
next
  case False
  then show ?thesis by (intro that [of None]) (simp_all add: is_sign_def sign_bytes_def)
qed

lemma is_integer_parts:
  assumes "is_integer s = (True, n)" "0 \<notin> set s"
  obtains sp sg ds sp' where "s = sp @ sign_bytes sg @ map digit_byte ds @ sp'" "\<forall>c \<in> set sp. mux_isspace c"
    "is_sign sg" "\<forall>d \<in> set ds. d < 10" "ds \<noteq> []" "\<forall>c \<in> set sp'. mux_isspace c" "length ds = n"
proof -
  define t where "t = dropWhile mux_isspace s"
  define u where "u = (if peek t = 0x2D \<or> peek t = 0x2B then tl t else t)"
  obtain sg where sg: "is_sign sg" "t = sign_bytes sg @ u" unfolding u_def by (rule optional_sign)
  have s: "s = takeWhile mux_isspace s @ t" by (simp add: t_def)
  have u: "mux_isdigit (peek u)" "length (takeWhile mux_isdigit u) = n"
      "peek (dropWhile mux_isspace (dropWhile mux_isdigit u)) = 0"
    using assms(1) unfolding is_integer_def t_def [symmetric] Let_def u_def [symmetric] by (auto split: if_splits)
  obtain ds where ds: "takeWhile mux_isdigit u = map digit_byte ds" "\<forall>d \<in> set ds. d < 10"
    using digits_of_bytes [OF spaces_takeWhile] by blast
  have z: "0 \<notin> set (dropWhile mux_isspace (dropWhile mux_isdigit u))"
    using assms(2) s sg(2) by (metis Un_iff set_append set_dropWhileD)
  have "takeWhile mux_isspace (dropWhile mux_isdigit u) = dropWhile mux_isdigit u"
    using u(3) z takeWhile_dropWhile_id [of mux_isspace "dropWhile mux_isdigit u"] by (simp add: peek_zero)
  then have sp: "\<forall>c \<in> set (dropWhile mux_isdigit u). mux_isspace c"
    using spaces_takeWhile [of mux_isspace "dropWhile mux_isdigit u"] by simp
  have "u = map digit_byte ds @ dropWhile mux_isdigit u" by (simp add: ds(1) [symmetric])
  moreover have "ds \<noteq> []" using u(1) ds(1) by (cases u) auto
  moreover have "length ds = n" using u(2) ds(1) by simp
  ultimately show ?thesis
    using that [of "takeWhile mux_isspace s" sg ds "dropWhile mux_isdigit u"] sp sg ds(2) s spaces_takeWhile by metis
qed

lemma is_integer_rational: "fst (is_integer s) \<Longrightarrow> is_rational s"
proof -
  have k: "peek (dropWhile mux_isspace x) = 0 \<Longrightarrow> peek x \<noteq> 0x2E" for x
    using dropWhile_peek [of mux_isspace x] by (auto simp: mux_isspace_def)
  show "fst (is_integer s) \<Longrightarrow> is_rational s"
    by (auto simp: is_integer_def is_rational_def Let_def dest: k split: if_splits)
qed

section \<open>Properties\<close>

text \<open>The six printers agree with the digits of the number in base 16, 8 and 10, most
  significant first (the decimal ones although they take two digits at a time from a table).
  Different numbers get different texts, there is no leading zero, and the longest texts have
  16, 22 and 20 bytes.\<close>

theorem printers_write_digits:
  "mux_ui64tox u up = map ((!) (if up then Digits16U else Digits16L)) (digits 16 (unat u)) \<and> mux_utox u up = mux_ui64tox u up \<and>
   mux_ui64too u = map digit_byte (digits 8 (unat u)) \<and> mux_utoo u = mux_ui64too u \<and>
   mux_ui64toa u = map digit_byte (digits 10 (unat u)) \<and> mux_utoa u = mux_ui64toa u \<and>
   digits_val 10 (digits 10 (unat u)) = unat u \<and>
   length (mux_ui64tox u up) \<le> 16 \<and> length (mux_ui64too u) \<le> 22 \<and> length (mux_ui64toa u) \<le> 20 \<and>
   (mux_ui64toa u = mux_ui64toa v \<longleftrightarrow> u = v)"
  using ui64tox.print_length [of 15 u up] ui64too.print_length [of 21 u] ui64toa.print_length [of 19 u]
  by (simp add: printers_digits(2,4,6) [symmetric] ui64toa.print_inj) (simp add: printers_digits)

text \<open>C24: What \<open>mux_i64toa\<close> prints is an integer for \<open>is_integer\<close>, and \<open>mux_atoi64\<close> reads the
  same number back, whatever follows it as long as that is no digit.\<close>

theorem i64_print_read:
  assumes "\<not> mux_isdigit (peek rest)"
  shows "mux_atoi64 (mux_i64toa v @ rest) = sint v \<and> mux_atol (mux_ltoa v @ rest) = sint v \<and>
    fst (is_integer (mux_i64toa v))"
proof -
  have l: "mux_ltoa v = mux_i64toa v" unfolding mux_ltoa_def mux_i64toa_def printers_digits ..
  have d: "\<forall>d \<in> set (digits 10 n). d < 10" for n using digits_less [of 10 _ n] by auto
  have i: "is_integer (sign_bytes sg @ map digit_byte (digits 10 n)) = (True, length (digits 10 n))" if "is_sign sg" for sg n
    using is_integer_numeral [of "[]" sg "digits 10 n" "[]"] d [of n] that by simp
  have "is_sign (Some 0x2D)" "is_sign None" by (simp_all add: is_sign_def)
  then have "fst (is_integer (mux_i64toa v))" unfolding i64toa_numeral by (simp only: i fst_conv simp_thms split: if_split)
  then show ?thesis unfolding mux_atoi64_def mux_atol_def l atoi64_i64toa [OF assms] by blast
qed

theorem i64_print_read_witness:
  "mux_atoi64 (mux_i64toa 42 @ [0x20, 0x35]) = sint (42 :: 64 word)"
proof -
  have "\<not> mux_isdigit (peek [0x20, 0x35])" by code_simp
  then show ?thesis using i64_print_read [of "[0x20, 0x35]" 42] by blast
qed

text \<open>\<open>is_integer\<close> accepts exactly the strings of spaces, an optional sign, at least one digit
  and spaces, and counts the digits; on such a string \<open>mux_atoi64\<close> gives the number it denotes
  modulo \<open>2 ^ 64\<close>, as a signed value, and \<open>is_rational\<close> accepts it too.\<close>

theorem is_integer_exact:
  assumes "0 \<notin> set s"
  shows "(is_integer s = (True, n) \<longleftrightarrow>
      (\<exists>sp sg ds sp'. s = sp @ sign_bytes sg @ map digit_byte ds @ sp' \<and> (\<forall>c \<in> set sp \<union> set sp'. mux_isspace c) \<and>
         is_sign sg \<and> (\<forall>d \<in> set ds. d < 10) \<and> ds \<noteq> [] \<and> length ds = n \<and>
         mux_atoi64 s = signed_take_bit 63 (numeral_val sg ds))) \<and>
    (fst (is_integer s) \<longrightarrow> is_rational s)"
    (is "(?L \<longleftrightarrow> ?R) \<and> _")
proof (intro conjI iffI impI)
  assume ?L
  then obtain sp sg ds sp' where p: "s = sp @ sign_bytes sg @ map digit_byte ds @ sp'" "\<forall>c \<in> set sp. mux_isspace c"
    "is_sign sg" "\<forall>d \<in> set ds. d < 10" "ds \<noteq> []" "\<forall>c \<in> set sp'. mux_isspace c" "length ds = n"
    using assms by (rule is_integer_parts)
  have "\<not> mux_isdigit (peek sp')" using p(6) by (cases sp') (auto simp: space_not_digit)
  then have "mux_atoi64 s = signed_take_bit 63 (numeral_val sg ds)"
    unfolding mux_atoi64_def p(1) by (simp add: atoi64_word_numeral p signed_of_int)
  with p show ?R by (intro exI [of _ sp] exI [of _ sg] exI [of _ ds] exI [of _ sp']) auto
next
  assume ?R
  then show ?L using is_integer_numeral by blast
qed (rule is_integer_rational)

theorem is_integer_exact_witness: "is_rational [0x20, 0x2D, 0x34, 0x32]"
proof -
  have "is_integer [0x20, 0x2D, 0x34, 0x32] = (True, 2)" by code_simp
  then show ?thesis using is_integer_exact [of "[0x20, 0x2D, 0x34, 0x32]" 2] by simp
qed

end
