(* ===== verification/Calendar.thy ===== *)
theory Calendar
  imports Mux_Prelude "HOL-Library.Signed_Division"
begin

text \<open>
  The civil calendar of \<open>mux/lib/timeutil.cpp\<close>: the floor divisions built from C's
  truncating ones, leap years and valid dates, the conversions between a Gregorian date
  and the count of days since January 1 of the year 1 (\<open>FixedFromGregorian\<close>,
  \<open>GregorianFromFixed\<close> with its one-year cache), and between a fielded time and the
  linear time in units of 100 ns since 1601 (\<open>FieldedTimeToLinearTime\<close>,
  \<open>LinearTimeToFieldedTime\<close>).

  A C \<open>int\<close> or \<open>int64_t\<close> is an integer; \<open>sdiv\<close> and \<open>smod\<close> are C's \<open>/\<close> and \<open>%\<close>.  The
  theorems on bounds show that on the dates the module accepts no operation leaves the
  range of its C type.  The casts to \<open>int\<close>, \<open>short\<close> and \<open>unsigned short\<close> wrap.
\<close>

section \<open>Floor division from truncating division\<close>

definition INT_MIN :: int where "INT_MIN = - (2 ^ 31)"
definition INT64_MIN :: int where "INT64_MIN = - (2 ^ 63)"

definition iMod :: "int \<Rightarrow> int \<Rightarrow> int" where
  "iMod x y =
     (if y < 0 then
        (if x \<le> 0 then (if INT_MIN = x \<and> -1 = y then 0 else x smod y)
         else ((x - 1) smod y) + y + 1)
      else
        (if x < 0 then ((x + 1) smod y) + y - 1 else x smod y))"

definition i64Mod :: "int \<Rightarrow> int \<Rightarrow> int" where
  "i64Mod x y =
     (if y < 0 then
        (if x \<le> 0 then (if INT64_MIN = x \<and> -1 = y then 0 else x smod y)
         else ((x - 1) smod y) + y + 1)
      else
        (if x < 0 then ((x + 1) smod y) + y - 1 else x smod y))"

definition iFloorDivision :: "int \<Rightarrow> int \<Rightarrow> int" where
  "iFloorDivision x y =
     (if y < 0 then (if x \<le> 0 then x sdiv y else (x - y - 1) sdiv y)
      else (if x < 0 then (x - y + 1) sdiv y else x sdiv y))"

definition i64FloorDivision :: "int \<Rightarrow> int \<Rightarrow> int" where
  "i64FloorDivision x y =
     (if INT64_MIN = x \<and> -1 = y then INT64_MIN
      else if y < 0 then (if x \<le> 0 then x sdiv y else (x - y - 1) sdiv y)
      else (if x < 0 then (x - y + 1) sdiv y else x sdiv y))"

text \<open>The quotient, and the modulus stored through \<open>piMod\<close>.\<close>

definition iFloorDivisionMod :: "int \<Rightarrow> int \<Rightarrow> int \<times> int" where
  "iFloorDivisionMod x y =
     (if y < 0 then
        (if x \<le> 0 then (x sdiv y, if INT_MIN = x \<and> -1 = y then 0 else x smod y)
         else ((x - y - 1) sdiv y, ((x - 1) smod y) + y + 1))
      else
        (if x < 0 then ((x - y + 1) sdiv y, ((x + 1) smod y) + y - 1)
         else (x sdiv y, x smod y)))"

definition i64FloorDivisionMod :: "int \<Rightarrow> int \<Rightarrow> int \<times> int" where
  "i64FloorDivisionMod x y =
     (if y < 0 then
        (if x \<le> 0 then (x sdiv y, if INT64_MIN = x \<and> -1 = y then 0 else x smod y)
         else ((x - y - 1) sdiv y, ((x - 1) smod y) + y + 1))
      else
        (if x < 0 then ((x - y + 1) sdiv y, ((x + 1) smod y) + y - 1)
         else (x sdiv y, x smod y)))"

section \<open>Dates\<close>

definition daystab :: "int list" where
  "daystab = [31, 29, 31, 30, 31, 30, 31, 31, 30, 31, 30, 31]"

definition isLeapYear :: "int \<Rightarrow> bool" where
  "isLeapYear iYear \<longleftrightarrow>
     (if iMod iYear 4 \<noteq> 0 then False
      else (let wMod = iMod iYear 400 in \<not> (wMod = 100 \<or> wMod = 200 \<or> wMod = 300)))"

definition isValidDate :: "int \<Rightarrow> int \<Rightarrow> int \<Rightarrow> bool" where
  "isValidDate iYear iMonth iDay \<longleftrightarrow>
     (if iYear < -27256 \<or> 30826 < iYear then False
      else if iMonth < 1 \<or> 12 < iMonth then False
      else if iDay < 1 \<or> daystab ! nat (iMonth - 1) < iDay then False
      else if iMonth = 2 \<and> iDay = 29 \<and> \<not> isLeapYear iYear then False
      else True)"

definition FixedFromGregorian :: "int \<Rightarrow> int \<Rightarrow> int \<Rightarrow> int" where
  "FixedFromGregorian iYear iMonth iDay =
     (let iYear = iYear - 1;
          iFixedDay = 365 * iYear;
          iFixedDay = iFixedDay + iFloorDivision iYear 4;
          iFixedDay = iFixedDay - iFloorDivision iYear 100;
          iFixedDay = iFixedDay + iFloorDivision iYear 400;
          iFixedDay = iFixedDay + iFloorDivision (367 * iMonth - 362) 12;
          iFixedDay = iFixedDay + iDay
      in if iMonth > 2 then
           (if isLeapYear (iYear + 1) then iFixedDay - 1 else iFixedDay - 2)
         else iFixedDay)"

definition FixedFromGregorian_Adjusted :: "int \<Rightarrow> int \<Rightarrow> int \<Rightarrow> int" where
  "FixedFromGregorian_Adjusted iYear iMonth iDay = FixedFromGregorian iYear iMonth iDay - 584389"

record GregorianDate =
  gdYear :: int
  gdMonth :: int
  gdDayOfYear :: int
  gdDayOfMonth :: int
  gdDayOfWeek :: int

text \<open>The static variables of \<open>GregorianFromFixed\<close>.\<close>

record greg_cache =
  cache_iYear :: int
  cache_iJan1st :: int
  cache_iMar1st :: int

definition greg_cache_init :: greg_cache where
  "greg_cache_init = \<lparr>cache_iYear = 99999, cache_iJan1st = 0, cache_iMar1st = 0\<rparr>"

definition GregorianFromFixed :: "greg_cache \<Rightarrow> int \<Rightarrow> greg_cache \<times> GregorianDate" where
  "GregorianFromFixed cache iFixedDay =
     (let d0 = iFixedDay - 1;
          (n400, d1) = iFloorDivisionMod d0 146097;
          (n100, d2) = iFloorDivisionMod d1 36524;
          (n4, d3) = iFloorDivisionMod d2 1461;
          (n1, d4) = iFloorDivisionMod d3 365;
          iYear = 400 * n400 + 100 * n100 + 4 * n4 + n1;
          iYear = (if n100 \<noteq> 4 \<and> n1 \<noteq> 4 then iYear + 1 else iYear);
          cache = (if iYear = cache_iYear cache then cache
                   else \<lparr>cache_iYear = iYear, cache_iJan1st = FixedFromGregorian iYear 1 1,
                         cache_iMar1st = FixedFromGregorian iYear 3 1\<rparr>);
          iPriorDays = iFixedDay - cache_iJan1st cache;
          iCorrection = (if iFixedDay < cache_iMar1st cache then 0
                         else if isLeapYear iYear then 1 else 2);
          iMonth = (12 * (iPriorDays + iCorrection) + 373) sdiv 367
      in (cache,
          \<lparr>gdYear = iYear, gdMonth = iMonth, gdDayOfYear = iPriorDays + 1,
           gdDayOfMonth = iFixedDay - FixedFromGregorian iYear iMonth 1 + 1,
           gdDayOfWeek = iMod iFixedDay 7\<rparr>))"

definition GregorianFromFixed_Adjusted :: "greg_cache \<Rightarrow> int \<Rightarrow> greg_cache \<times> GregorianDate" where
  "GregorianFromFixed_Adjusted cache iFixedDay = GregorianFromFixed cache (iFixedDay + 584389)"

section \<open>Fielded and linear time\<close>

definition FACTOR_100NS_PER_SECOND :: int where "FACTOR_100NS_PER_SECOND = 10000000"
definition FACTOR_100NS_PER_MINUTE :: int where "FACTOR_100NS_PER_MINUTE = FACTOR_100NS_PER_SECOND * 60"
definition FACTOR_100NS_PER_HOUR :: int where "FACTOR_100NS_PER_HOUR = FACTOR_100NS_PER_MINUTE * 60"
definition FACTOR_100NS_PER_DAY :: int where "FACTOR_100NS_PER_DAY = FACTOR_100NS_PER_HOUR * 24"
definition FACTOR_NANOSECONDS_PER_100NS :: int where "FACTOR_NANOSECONDS_PER_100NS = 100"
definition FACTOR_100NS_PER_MICROSECOND :: int where "FACTOR_100NS_PER_MICROSECOND = 10"
definition FACTOR_100NS_PER_MILLISECOND :: int where "FACTOR_100NS_PER_MILLISECOND = 10000"
definition EPOCH_OFFSET :: int where "EPOCH_OFFSET = 116444736000000000"
definition EARLIEST_VALID_DATE :: int where "EARLIEST_VALID_DATE = -9106391088000000000"
definition LATEST_VALID_DATE :: int where "LATEST_VALID_DATE = 9222834959999999999"

lemmas time_factors = FACTOR_100NS_PER_SECOND_def FACTOR_100NS_PER_MINUTE_def FACTOR_100NS_PER_HOUR_def
  FACTOR_100NS_PER_DAY_def FACTOR_NANOSECONDS_PER_100NS_def FACTOR_100NS_PER_MICROSECOND_def
  FACTOR_100NS_PER_MILLISECOND_def

definition to_ushort :: "int \<Rightarrow> int" where "to_ushort x = x mod 65536"
definition to_short :: "int \<Rightarrow> int" where "to_short x = (x + 32768) mod 65536 - 32768"
definition to_int :: "int \<Rightarrow> int" where "to_int x = (x + 2147483648) mod 4294967296 - 2147483648"

record FIELDEDTIME =
  iYear :: int
  iMonth :: int
  iDayOfWeek :: int
  iDayOfMonth :: int
  iDayOfYear :: int
  iHour :: int
  iMinute :: int
  iSecond :: int
  iMillisecond :: int
  iMicrosecond :: int
  iNanosecond :: int

definition FIELDEDTIME_zero :: FIELDEDTIME where
  "FIELDEDTIME_zero =
     \<lparr>iYear = 0, iMonth = 0, iDayOfWeek = 0, iDayOfMonth = 0, iDayOfYear = 0, iHour = 0, iMinute = 0,
      iSecond = 0, iMillisecond = 0, iMicrosecond = 0, iNanosecond = 0\<rparr>"

text \<open>The success flag, the updated structure and the value stored through \<open>plt\<close>.\<close>

definition FieldedTimeToLinearTime :: "FIELDEDTIME \<Rightarrow> bool \<times> FIELDEDTIME \<times> int" where
  "FieldedTimeToLinearTime ft =
     (if \<not> isValidDate (iYear ft) (iMonth ft) (iDayOfMonth ft) then (False, ft, 0)
      else
        (let iFixedDay = FixedFromGregorian_Adjusted (iYear ft) (iMonth ft) (iDayOfMonth ft);
             ft = ft\<lparr>iDayOfWeek := to_ushort (iMod (iFixedDay + 1) 7)\<rparr>;
             lt = iFixedDay * FACTOR_100NS_PER_DAY;
             lt = lt + iHour ft * FACTOR_100NS_PER_HOUR;
             lt = lt + iMinute ft * FACTOR_100NS_PER_MINUTE;
             lt = lt + iSecond ft * FACTOR_100NS_PER_SECOND;
             lt = lt + iMicrosecond ft * FACTOR_100NS_PER_MICROSECOND;
             lt = lt + iMillisecond ft * FACTOR_100NS_PER_MILLISECOND;
             lt = lt + iNanosecond ft sdiv FACTOR_NANOSECONDS_PER_100NS
         in (True, ft, lt)))"

text \<open>The success flag, the structure filled in and the updated cache.\<close>

definition LinearTimeToFieldedTime :: "greg_cache \<Rightarrow> int \<Rightarrow> bool \<times> FIELDEDTIME \<times> greg_cache" where
  "LinearTimeToFieldedTime cache lt =
     (let (d0, ns100) = i64FloorDivisionMod lt FACTOR_100NS_PER_DAY;
          (cache, gd) = GregorianFromFixed_Adjusted cache (to_int d0)
      in if \<not> isValidDate (gdYear gd) (gdMonth gd) (gdDayOfMonth gd) then (False, FIELDEDTIME_zero, cache)
         else
           (let hour = ns100 sdiv FACTOR_100NS_PER_HOUR;
                ns100 = ns100 smod FACTOR_100NS_PER_HOUR;
                minute = ns100 sdiv FACTOR_100NS_PER_MINUTE;
                ns100 = ns100 smod FACTOR_100NS_PER_MINUTE;
                second = ns100 sdiv FACTOR_100NS_PER_SECOND;
                ns100 = ns100 smod FACTOR_100NS_PER_SECOND;
                milli = ns100 sdiv FACTOR_100NS_PER_MILLISECOND;
                ns100 = ns100 smod FACTOR_100NS_PER_MILLISECOND;
                micro = ns100 sdiv FACTOR_100NS_PER_MICROSECOND;
                ns100 = ns100 smod FACTOR_100NS_PER_MICROSECOND
            in (True,
                \<lparr>iYear = to_short (gdYear gd), iMonth = to_ushort (gdMonth gd),
                 iDayOfWeek = to_ushort (gdDayOfWeek gd), iDayOfMonth = to_ushort (gdDayOfMonth gd),
                 iDayOfYear = to_ushort (gdDayOfYear gd), iHour = to_ushort hour,
                 iMinute = to_ushort minute, iSecond = to_ushort second,
                 iMillisecond = to_ushort milli, iMicrosecond = to_ushort micro,
                 iNanosecond = to_ushort (ns100 * FACTOR_NANOSECONDS_PER_100NS)\<rparr>, cache)))"

section \<open>The divisions round down\<close>

lemma sdiv_nonneg: "0 \<le> x \<Longrightarrow> 0 \<le> y \<Longrightarrow> x sdiv y = x div y" for x y :: int
  by (cases "x = 0") (auto simp: signed_divide_int_def sgn_if)

lemma smod_nonneg: "0 \<le> x \<Longrightarrow> 0 \<le> y \<Longrightarrow> x smod y = x mod y" for x y :: int
  by (cases "x = 0") (auto simp: signed_modulo_int_def sgn_if)

lemma sdiv_neg:
  "x < 0 \<Longrightarrow> 0 < y \<Longrightarrow> x sdiv y = - ((- x) div y)" "0 < x \<Longrightarrow> y < 0 \<Longrightarrow> x sdiv y = - (x div (- y))"
  "x \<le> 0 \<Longrightarrow> y < 0 \<Longrightarrow> x sdiv y = x div y" for x y :: int
  by (auto simp: signed_divide_int_def sgn_if)

lemma smod_neg:
  "x < 0 \<Longrightarrow> x smod y = - ((- x) mod \<bar>y\<bar>)" "0 < x \<Longrightarrow> x smod y = x mod \<bar>y\<bar>" for x y :: int
  by (auto simp: signed_modulo_int_def sgn_if)

lemma div_mod_unique: "a = b * q + r \<Longrightarrow> 0 \<le> r \<Longrightarrow> r < b \<Longrightarrow> a div b = q \<and> a mod b = r" for a b q r :: int
  using int_div_pos_eq [of a b q r] int_mod_pos_eq [of a b q r] by simp

lemma div_modE:
  fixes x k :: int
  assumes "0 < k"
  obtains q r where "x = k * q + r" "0 \<le> r" "r < k" "x div k = q" "x mod k = r"
  using assms by (intro that [of "x div k" "x mod k"]) auto

lemma floor_div_up: "0 < y \<Longrightarrow> - ((y - 1 - x) div y) = x div y" for x y :: int
proof -
  assume y: "0 < y"
  obtain q r where q: "x = y * q + r" "0 \<le> r" "r < y" "x div y = q" by (rule div_modE [OF y])
  then have "y - 1 - x = y * (- q) + (y - 1 - r)" by (simp add: algebra_simps)
  from div_mod_unique [OF this] q show ?thesis by simp
qed

lemma floor_mod_up: "0 < y \<Longrightarrow> y - 1 - (- x - 1) mod y = x mod y" for x y :: int
proof -
  assume y: "0 < y"
  obtain q r where q: "x = y * q + r" "0 \<le> r" "r < y" "x mod y = r" by (rule div_modE [OF y])
  then have "- x - 1 = y * (- q - 1) + (y - 1 - r)" by (simp add: algebra_simps)
  from div_mod_unique [OF this] q show ?thesis by simp
qed

lemma trunc_floor_div:
  "y \<noteq> 0 \<Longrightarrow>
     (if y < 0 then (if x \<le> 0 then x sdiv y else (x - y - 1) sdiv y)
      else (if x < 0 then (x - y + 1) sdiv y else x sdiv y)) = x div y" for x y :: int
proof -
  assume "y \<noteq> 0"
  then consider "y < 0" "x \<le> 0" | "y < 0" "0 < x" | "0 < y" "x < 0" | "0 < y" "0 \<le> x" by linarith
  then show ?thesis
  proof cases
    case 1
    then show ?thesis by (simp add: sdiv_neg)
  next
    case 2
    then show ?thesis
      using floor_div_up [of "- y" "- x"] by (simp add: sdiv_neg(2) algebra_simps)
  next
    case 3
    then show ?thesis using floor_div_up [of y x] by (simp add: sdiv_neg(1) algebra_simps)
  next
    case 4
    then show ?thesis by (simp add: sdiv_nonneg)
  qed
qed

lemma trunc_floor_mod:
  "y \<noteq> 0 \<Longrightarrow>
     (if y < 0 then (if x \<le> 0 then x smod y else ((x - 1) smod y) + y + 1)
      else (if x < 0 then ((x + 1) smod y) + y - 1 else x smod y)) = x mod y" for x y :: int
proof -
  assume "y \<noteq> 0"
  then consider "y < 0" "x \<le> 0" | "y < 0" "0 < x" | "0 < y" "x < 0" | "0 < y" "0 \<le> x" by linarith
  then show ?thesis
  proof cases
    case 1
    then show ?thesis
      using mod_minus_minus [of "- x" "- y"] by (cases "x = 0") (auto simp: smod_neg(1))
  next
    case 2
    have "(x - 1) smod y = (x - 1) mod (- y)"
      using 2 by (cases "x = 1") (auto simp: smod_neg(2))
    with 2 show ?thesis
      using floor_mod_up [of "- y" "- x"] mod_minus_minus [of "x" "y"] by (simp add: algebra_simps)
  next
    case 3
    have "(x + 1) smod y = - ((- x - 1) mod y)"
      using 3 by (cases "x = -1") (auto simp: smod_neg(1))
    with 3 show ?thesis using floor_mod_up [of y x] by simp
  next
    case 4
    then show ?thesis by (simp add: smod_nonneg)
  qed
qed

lemma floor_divisions [simp]:
  assumes "y \<noteq> 0"
  shows "iFloorDivision x y = x div y" "iMod x y = x mod y" "i64Mod x y = x mod y"
    "iFloorDivisionMod x y = (x div y, x mod y)" "i64FloorDivisionMod x y = (x div y, x mod y)"
proof -
  have m: "x mod -1 = 0" for x :: int by simp
  show "iFloorDivision x y = x div y"
    unfolding iFloorDivision_def by (rule trunc_floor_div [OF assms])
  show "iMod x y = x mod y"
    using trunc_floor_mod [OF assms, of x] by (auto simp: iMod_def split: if_splits)
  show "i64Mod x y = x mod y"
    using trunc_floor_mod [OF assms, of x] by (auto simp: i64Mod_def split: if_splits)
  show "iFloorDivisionMod x y = (x div y, x mod y)"
    using trunc_floor_mod [OF assms, of x] trunc_floor_div [OF assms, of x]
    by (auto simp: iFloorDivisionMod_def split: if_splits)
  show "i64FloorDivisionMod x y = (x div y, x mod y)"
    using trunc_floor_mod [OF assms, of x] trunc_floor_div [OF assms, of x]
    by (auto simp: i64FloorDivisionMod_def split: if_splits)
qed

lemma i64FloorDivision_floor: "y \<noteq> 0 \<Longrightarrow> \<not> (x = INT64_MIN \<and> y = -1) \<Longrightarrow> i64FloorDivision x y = x div y"
  using trunc_floor_div [of y x] by (auto simp: i64FloorDivision_def split: if_splits)

section \<open>Dates and day counts\<close>

lemma isLeapYear_iff: "isLeapYear y \<longleftrightarrow> y mod 4 = 0 \<and> (y mod 100 \<noteq> 0 \<or> y mod 400 = 0)"
proof -
  obtain r where r: "y mod 400 = r" "0 \<le> r" "r < 400" by simp
  have "y mod 100 = r mod 100" unfolding r(1) [symmetric] by (simp add: mod_mod_cancel)
  moreover have "(r = 100 \<or> r = 200 \<or> r = 300) = (r mod 100 = 0 \<and> r \<noteq> 0)"
    using r(2,3) by presburger
  ultimately show ?thesis using r(1) by (auto simp: isLeapYear_def Let_def)
qed

definition leap_add :: "int \<Rightarrow> int" where
  "leap_add y = of_bool (isLeapYear y)"

text \<open>The days before January 1, and the days before the month in a year that starts in March.\<close>

definition jan1 :: "int \<Rightarrow> int" where
  "jan1 y = 365 * (y - 1) + (y - 1) div 4 - (y - 1) div 100 + (y - 1) div 400"

definition month_days :: "int \<Rightarrow> int" where
  "month_days m = (367 * m - 362) div 12"

lemma Fixed_eq:
  "FixedFromGregorian y m d = jan1 y + month_days m + d - (if m > 2 then 2 - leap_add y else 0)"
  by (auto simp: FixedFromGregorian_def jan1_def month_days_def leap_add_def Let_def)

text \<open>The cycle of 400, 100, 4 and 1 years.\<close>

lemma year_digits:
  obtains a b c e :: int where "y - 1 = 400 * a + 100 * b + 4 * c + e" "0 \<le> b" "b < 4" "0 \<le> c" "c < 25" "0 \<le> e" "e < 4"
proof -
  obtain a R where R: "y - 1 = 400 * a + R" "0 \<le> R" "R < 400" using div_modE [of 400 "y - 1"] by auto
  obtain b S where S: "R = 100 * b + S" "0 \<le> S" "S < 100" using div_modE [of 100 R] by auto
  obtain c e where e: "S = 4 * c + e" "0 \<le> e" "e < 4" using div_modE [of 4 S] by auto
  show ?thesis using R S e by (intro that [of a b c e]) linarith+
qed

lemma jan1_digits:
  assumes "y - 1 = 400 * a + 100 * b + 4 * c + e" "0 \<le> b" "b < 4" "0 \<le> c" "c < 25" "0 \<le> e" "e < 4"
  shows "jan1 y = 146097 * a + 36524 * b + 1461 * c + 365 * e"
    "isLeapYear y \<longleftrightarrow> e = 3 \<and> (c = 24 \<longrightarrow> b = 3)"
proof -
  have "(y - 1) div 4 = 100 * a + 25 * b + c" "(y - 1) div 100 = 4 * a + b" "(y - 1) div 400 = a"
    using assms div_mod_unique [of "y - 1" 4 "100 * a + 25 * b + c" e]
      div_mod_unique [of "y - 1" 100 "4 * a + b" "4 * c + e"]
      div_mod_unique [of "y - 1" 400 a "100 * b + 4 * c + e"] by auto
  then show "jan1 y = 146097 * a + 36524 * b + 1461 * c + 365 * e"
    using assms(1) by (simp add: jan1_def)
  have "y mod 4 = 0 \<longleftrightarrow> e = 3"
    using assms div_mod_unique [of y 4 "100 * a + 25 * b + c" "e + 1"]
      div_mod_unique [of y 4 "100 * a + 25 * b + c + 1" 0] by (cases "e = 3") auto
  moreover have "y mod 100 = 0 \<longleftrightarrow> c = 24 \<and> e = 3"
    using assms div_mod_unique [of y 100 "4 * a + b" "4 * c + e + 1"]
      div_mod_unique [of y 100 "4 * a + b + 1" 0] by (cases "c = 24 \<and> e = 3") auto
  moreover have "y mod 400 = 0 \<longleftrightarrow> b = 3 \<and> c = 24 \<and> e = 3"
    using assms div_mod_unique [of y 400 a "100 * b + 4 * c + e + 1"]
      div_mod_unique [of y 400 "a + 1" 0] by (cases "b = 3 \<and> c = 24 \<and> e = 3") auto
  ultimately show "isLeapYear y \<longleftrightarrow> e = 3 \<and> (c = 24 \<longrightarrow> b = 3)"
    by (auto simp: isLeapYear_iff)
qed

text \<open>The year \<open>GregorianFromFixed\<close> computes.\<close>

definition greg_year :: "int \<Rightarrow> int" where
  "greg_year n =
     (let d1 = (n - 1) mod 146097; d2 = d1 mod 36524; d3 = d2 mod 1461;
          n100 = d1 div 36524; n1 = d3 div 365;
          y = 400 * ((n - 1) div 146097) + 100 * n100 + 4 * (d2 div 1461) + n1
      in if n100 \<noteq> 4 \<and> n1 \<noteq> 4 then y + 1 else y)"

lemma if_add: "(if P then y + 1 else y) = y + (if P then 1 else 0)" for y :: int
  by simp

lemma greg_year_steps:
  assumes "n - 1 = 146097 * n400 + d1" "0 \<le> d1" "d1 < 146097" "d1 = 36524 * n100 + d2" "0 \<le> d2" "d2 < 36524"
    "d2 = 1461 * n4 + d3" "0 \<le> d3" "d3 < 1461" "d3 = 365 * n1 + d4" "0 \<le> d4" "d4 < 365"
  shows "greg_year n =
    400 * n400 + 100 * n100 + 4 * n4 + n1 + (if n100 \<noteq> 4 \<and> n1 \<noteq> 4 then 1 else 0)"
proof -
  have 1: "(n - 1) div 146097 = n400" "(n - 1) mod 146097 = d1"
    using div_mod_unique [OF assms(1-3)] by auto
  have 2: "d1 div 36524 = n100" "d1 mod 36524 = d2"
    using div_mod_unique [OF assms(4-6)] by auto
  have 3: "d2 div 1461 = n4" "d2 mod 1461 = d3"
    using div_mod_unique [OF assms(7-9)] by auto
  have 4: "d3 div 365 = n1"
    using div_mod_unique [OF assms(10-12)] by auto
  show ?thesis unfolding greg_year_def Let_def 1 2 3 4 by (rule if_add)
qed

lemma greg_year_correct:
  assumes "jan1 y < n" "n \<le> jan1 y + 365 + leap_add y"
  shows "greg_year n = y"
proof -
  obtain a b c e where D: "y - 1 = 400 * a + 100 * b + 4 * c + e" "0 \<le> b" "b < 4" "0 \<le> c" "c < 25" "0 \<le> e" "e < 4"
    by (rule year_digits)
  note J = jan1_digits [OF D]
  define r where "r = n - 1 - jan1 y"
  have n: "n - 1 = 146097 * a + (36524 * b + 1461 * c + 365 * e + r)" using J(1) by (simp add: r_def)
  have r: "0 \<le> r" "r < 365 + leap_add y" using assms by (auto simp: r_def)
  show ?thesis
  proof (cases "r < 365")
    case True
    have "greg_year n = 400 * a + 100 * b + 4 * c + e + (if b \<noteq> 4 \<and> e \<noteq> 4 then 1 else 0)"
      by (rule greg_year_steps [OF n, of b "1461 * c + 365 * e + r" c "365 * e + r" e r])
        (use D r True in linarith)+
    with D show ?thesis by simp
  next
    case False
    with r have "isLeapYear y" by (cases "isLeapYear y") (auto simp: leap_add_def)
    with r False have "r = 365" by (simp add: leap_add_def)
    note \<open>isLeapYear y\<close>
    with J(2) have e: "e = 3" "c = 24 \<longrightarrow> b = 3" by auto
    show ?thesis
    proof (cases "c = 24")
      case True
      have "greg_year n = 400 * a + 100 * 4 + 4 * 0 + 0 + (if (4 :: int) \<noteq> 4 \<and> (0 :: int) \<noteq> 4 then 1 else 0)"
        by (rule greg_year_steps [of n a 146096 4 0 0 0 0 0]) (use n e True \<open>r = 365\<close> in linarith)+
      with D e True show ?thesis by simp
    next
      case False
      have "greg_year n = 400 * a + 100 * b + 4 * c + 4 + (if b \<noteq> 4 \<and> (4 :: int) \<noteq> 4 then 1 else 0)"
        by (rule greg_year_steps [of n a "36524 * b + 1461 * c + 1460" b "1461 * c + 1460" c 1460 4 0])
          (use n e D False \<open>r = 365\<close> in linarith)+
      with D e show ?thesis by simp
    qed
  qed
qed

text \<open>Every day lies in exactly one year.\<close>

lemma jan1_Suc: "jan1 (y + 1) = jan1 y + 365 + leap_add y"
proof -
  obtain a b c e where D: "y - 1 = 400 * a + 100 * b + 4 * c + e" "0 \<le> b" "b < 4" "0 \<le> c" "c < 25" "0 \<le> e" "e < 4"
    by (rule year_digits)
  note J = jan1_digits [OF D]
  consider "e < 3" | "e = 3" "c < 24" | "e = 3" "c = 24" "b < 3" | "e = 3" "c = 24" "b = 3"
    using D by linarith
  then show ?thesis
  proof cases
    case 1
    with J D jan1_digits(1) [of "y + 1" a b c "e + 1"] show ?thesis by (simp add: leap_add_def)
  next
    case 2
    with J D jan1_digits(1) [of "y + 1" a b "c + 1" 0] show ?thesis by (simp add: leap_add_def)
  next
    case 3
    with J D jan1_digits(1) [of "y + 1" a "b + 1" 0 0] show ?thesis by (simp add: leap_add_def)
  next
    case 4
    with J D jan1_digits(1) [of "y + 1" "a + 1" 0 0 0] show ?thesis by (simp add: leap_add_def)
  qed
qed

lemma jan1_mono: "x \<le> y \<Longrightarrow> jan1 x \<le> jan1 y"
proof (induction y rule: int_ge_induct)
  case (step i)
  then show ?case using jan1_Suc [of i] by (simp add: leap_add_def)
qed simp

text \<open>A day of a month, without the bounds on the year.\<close>

definition civil_date :: "int \<Rightarrow> int \<Rightarrow> int \<Rightarrow> bool" where
  "civil_date y m d \<longleftrightarrow> 1 \<le> m \<and> m \<le> 12 \<and> 1 \<le> d \<and> d \<le> daystab ! nat (m - 1) \<and> (m = 2 \<longrightarrow> d = 29 \<longrightarrow> isLeapYear y)"

lemma isValidDate_iff: "isValidDate y m d \<longleftrightarrow> -27256 \<le> y \<and> y \<le> 30826 \<and> civil_date y m d"
  by (auto simp: isValidDate_def civil_date_def)

lemma month_cases:
  fixes m :: int
  assumes "1 \<le> m" "m \<le> 12"
  shows "m \<in> {1, 2, 3, 4, 5, 6, 7, 8, 9, 10, 11, 12}"
  using assms by simp presburger

lemma month_table:
  "month_days 1 = 0" "month_days 2 = 31" "month_days 3 = 61" "month_days 4 = 92" "month_days 5 = 122"
  "month_days 6 = 153" "month_days 7 = 183" "month_days 8 = 214" "month_days 9 = 245" "month_days 10 = 275"
  "month_days 11 = 306" "month_days 12 = 336"
  by (simp_all add: month_days_def)

lemma daystab_table:
  "daystab ! 0 = 31" "daystab ! Suc 0 = 29" "daystab ! 2 = 31" "daystab ! 3 = 30" "daystab ! 4 = 31"
  "daystab ! 5 = 30" "daystab ! 6 = 31" "daystab ! 7 = 31" "daystab ! 8 = 30" "daystab ! 9 = 31"
  "daystab ! 10 = 30" "daystab ! 11 = 31"
  by (simp_all add: daystab_def)

lemma quotient_between: "q * k \<le> a \<Longrightarrow> a < (q + 1) * k \<Longrightarrow> a div k = q" for a q k :: int
  using div_mod_unique [of a k q "a - k * q"] by (simp add: algebra_simps)

lemma month_recovered:
  assumes "1 \<le> m" "m \<le> 12" "1 \<le> d" "d \<le> daystab ! nat (m - 1)"
  shows "(12 * (month_days m + d - 1) + 373) div 367 = m"
  using month_cases [OF assms(1,2)] assms(3,4)
  by (intro quotient_between) (auto simp: month_table daystab_table)

lemma month_of_year:
  assumes "civil_date y m d"
  shows "0 \<le> month_days m" "m \<le> 2 \<Longrightarrow> month_days m + d \<le> 59 + leap_add y"
    "2 < m \<Longrightarrow> 61 \<le> month_days m" "2 < m \<Longrightarrow> month_days m + d \<le> 367"
  using month_cases [of m] assms
  by (auto simp: civil_date_def month_table daystab_table leap_add_def)

lemma leap_add_cases: "leap_add y = 0 \<or> leap_add y = 1"
  by (simp add: leap_add_def)

lemma Fixed_in_year:
  assumes "civil_date y m d"
  shows "jan1 y < FixedFromGregorian y m d" "FixedFromGregorian y m d \<le> jan1 y + 365 + leap_add y"
    "FixedFromGregorian y m d < FixedFromGregorian y 3 1 \<longleftrightarrow> m \<le> 2"
  using month_of_year [OF assms] leap_add_cases [of y] assms
  by (auto simp: Fixed_eq month_table civil_date_def)

definition cache_ok :: "greg_cache \<Rightarrow> bool" where
  "cache_ok c \<longleftrightarrow> cache_iYear c = 99999 \<or>
     cache_iJan1st c = FixedFromGregorian (cache_iYear c) 1 1 \<and>
     cache_iMar1st c = FixedFromGregorian (cache_iYear c) 3 1"

lemma cache_ok_init: "cache_ok greg_cache_init"
  by (simp add: cache_ok_def greg_cache_init_def)

lemma numeral_neq_zero_int: "(numeral n :: int) \<noteq> 0"
  by simp

lemma GregorianFromFixed_eq:
  assumes "cache_ok c" "greg_year n \<noteq> 99999"
  defines "y \<equiv> greg_year n"
  defines "prior \<equiv> n - FixedFromGregorian y 1 1"
  defines "m \<equiv> (12 * (prior + (if n < FixedFromGregorian y 3 1 then 0 else 2 - leap_add y)) + 373) sdiv 367"
  shows "\<exists>c'. GregorianFromFixed c n = (c',
      \<lparr>gdYear = y, gdMonth = m, gdDayOfYear = prior + 1,
       gdDayOfMonth = n - FixedFromGregorian y m 1 + 1, gdDayOfWeek = n mod 7\<rparr>) \<and> cache_ok c'"
proof -
  have "(if n < FixedFromGregorian y 3 1 then 0 else 2 - leap_add y) =
      (if n < FixedFromGregorian y 3 1 then 0 else if isLeapYear y then 1 else 2)"
    by (simp add: leap_add_def)
  note m = m_def [unfolded this]
  have y: "y = (if (n - 1) mod 146097 div 36524 \<noteq> 4 \<and> (n - 1) mod 146097 mod 36524 mod 1461 div 365 \<noteq> 4
      then 400 * ((n - 1) div 146097) + 100 * ((n - 1) mod 146097 div 36524) +
        4 * ((n - 1) mod 146097 mod 36524 div 1461) + (n - 1) mod 146097 mod 36524 mod 1461 div 365 + 1
      else 400 * ((n - 1) div 146097) + 100 * ((n - 1) mod 146097 div 36524) +
        4 * ((n - 1) mod 146097 mod 36524 div 1461) + (n - 1) mod 146097 mod 36524 mod 1461 div 365)"
    unfolding y_def greg_year_def Let_def ..
  define c' where "c' = (if y = cache_iYear c then c else \<lparr>cache_iYear = y,
      cache_iJan1st = FixedFromGregorian y 1 1, cache_iMar1st = FixedFromGregorian y 3 1\<rparr>)"
  have c': "cache_iJan1st c' = FixedFromGregorian y 1 1" "cache_iMar1st c' = FixedFromGregorian y 3 1" "cache_ok c'"
    using assms(1,2) by (auto simp: c'_def cache_ok_def y_def)
  have "GregorianFromFixed c n = (c', \<lparr>gdYear = y, gdMonth = m, gdDayOfYear = prior + 1,
       gdDayOfMonth = n - FixedFromGregorian y m 1 + 1, gdDayOfWeek = n mod 7\<rparr>)"
    unfolding GregorianFromFixed_def floor_divisions(2,4) [OF numeral_neq_zero_int]
    by (simp only: Let_def split_conv y [symmetric] c'_def [symmetric] c' m prior_def)
  with c'(3) show ?thesis by blast
qed

lemma greg_year_Fixed: "civil_date y m d \<Longrightarrow> greg_year (FixedFromGregorian y m d) = y"
  using Fixed_in_year(1,2) by (intro greg_year_correct) auto

lemma Gregorian_of_Fixed:
  assumes "civil_date y m d" "cache_ok c" "y \<noteq> 99999"
  shows "\<exists>c' gd. GregorianFromFixed c (FixedFromGregorian y m d) = (c', gd) \<and> cache_ok c' \<and>
    gdYear gd = y \<and> gdMonth gd = m \<and> gdDayOfMonth gd = d \<and>
    gdDayOfWeek gd = FixedFromGregorian y m d mod 7 \<and>
    gdDayOfYear gd = FixedFromGregorian y m d - FixedFromGregorian y 1 1 + 1"
proof -
  let ?n = "FixedFromGregorian y m d"
  have y: "greg_year ?n = y" using assms(1) by (rule greg_year_Fixed)
  have "?n - FixedFromGregorian y 1 1 + (if ?n < FixedFromGregorian y 3 1 then 0 else 2 - leap_add y) = month_days m + d - 1"
    using Fixed_in_year(3) [OF assms(1)] by (simp add: Fixed_eq month_table)
  moreover have "1 \<le> m" "m \<le> 12" "1 \<le> d" "d \<le> daystab ! nat (m - 1)" using assms(1) by (auto simp: civil_date_def)
  ultimately have "(12 * (?n - FixedFromGregorian y 1 1 + (if ?n < FixedFromGregorian y 3 1 then 0 else 2 - leap_add y)) + 373) sdiv 367 = m"
    using month_recovered month_of_year(1) [OF assms(1)] by (simp add: sdiv_nonneg)
  moreover have "?n - FixedFromGregorian y m 1 + 1 = d" by (simp add: Fixed_eq)
  ultimately show ?thesis
    using GregorianFromFixed_eq [OF assms(2), of ?n] assms(3) unfolding y by auto
qed

text \<open>Every day has a date.\<close>

lemma step_between:
  fixes f :: "int \<Rightarrow> int"
  assumes "f p < n" "n \<le> f (p + int k)"
  shows "\<exists>i. p \<le> i \<and> i < p + int k \<and> f i < n \<and> n \<le> f (i + 1)"
  using assms(2)
proof (induction k)
  case (Suc k)
  show ?case
  proof (cases "n \<le> f (p + int k)")
    case True
    with Suc.IH obtain i where "p \<le> i \<and> i < p + int k \<and> f i < n \<and> n \<le> f (i + 1)" by blast
    then show ?thesis by (intro exI [of _ i]) simp
  next
    case False
    with Suc.prems show ?thesis by (intro exI [of _ "p + int k"]) (simp add: algebra_simps)
  qed
qed (use assms(1) in simp)

lemma jan1_cycle: "jan1 (400 * a + 1) = 146097 * a"
  using jan1_digits(1) [of "400 * a + 1" a 0 0 0] by simp

lemma day_has_year: "\<exists>y. jan1 y < n \<and> n \<le> jan1 (y + 1)"
proof -
  obtain a r where a: "n - 1 = 146097 * a + r" "0 \<le> r" "r < 146097" using div_modE [of 146097 "n - 1"] by auto
  have e: "400 * a + 1 + int 400 = 400 * (a + 1) + 1" by simp
  have "jan1 (400 * a + 1) < n" using a jan1_cycle [of a] by linarith
  moreover have "n \<le> jan1 (400 * a + 1 + int 400)" unfolding e jan1_cycle using a by simp
  ultimately show ?thesis using step_between [of jan1 "400 * a + 1" n 400] by blast
qed

lemma day_has_date: "\<exists>y m d. civil_date y m d \<and> FixedFromGregorian y m d = n"
proof -
  obtain y where y: "jan1 y < n" "n \<le> jan1 (y + 1)" using day_has_year by blast
  let ?f = "\<lambda>m. FixedFromGregorian y m 1 - 1"
  have "month_days 13 = 367" by (simp add: month_days_def)
  then have "?f 1 < n" "n \<le> ?f (1 + int 12)" using y by (simp_all add: Fixed_eq month_table jan1_Suc)
  then obtain m where m: "1 \<le> m" "m \<le> 12" "?f m < n" "n \<le> ?f (m + 1)"
    using step_between [of ?f 1 n 12] by auto
  let ?d = "n - FixedFromGregorian y m 1 + 1"
  have "FixedFromGregorian y m ?d = n" by (simp add: Fixed_eq)
  moreover have "?d \<le> daystab ! nat (m - 1) \<and> (m = 2 \<longrightarrow> ?d = 29 \<longrightarrow> isLeapYear y)"
    using month_cases [OF m(1,2)] m(4) leap_add_cases [of y] \<open>month_days 13 = 367\<close>
    by (auto simp: Fixed_eq month_table daystab_table leap_add_def)
  ultimately show ?thesis using m unfolding civil_date_def by (intro exI [of _ y] exI [of _ m] exI [of _ ?d]) simp
qed

section \<open>Linear time\<close>

lemma jan1_eval: "jan1 99999 = 36523519" "jan1 30827 = 11258965" "jan1 (-27256) = -9955416"
  by (simp_all add: jan1_def)

lemma to_ushort_id: "0 \<le> x \<Longrightarrow> x < 65536 \<Longrightarrow> to_ushort x = x"
  by (simp add: to_ushort_def)

lemma to_short_id: "-32768 \<le> x \<Longrightarrow> x < 32768 \<Longrightarrow> to_short x = x"
  by (simp add: to_short_def)

lemma year_of_day_range:
  assumes "civil_date y m d"
  shows "x \<le> y \<Longrightarrow> jan1 x < FixedFromGregorian y m d" "y < x \<Longrightarrow> FixedFromGregorian y m d \<le> jan1 x"
  using Fixed_in_year(1,2) [OF assms] jan1_mono [of x y] jan1_mono [of "y + 1" x] jan1_Suc [of y] by auto

text \<open>The first tick of the first valid date and the last one of the last.\<close>

definition first_valid_tick :: int where
  "first_valid_tick = FixedFromGregorian_Adjusted (-27256) 1 1 * FACTOR_100NS_PER_DAY"

definition last_valid_tick :: int where
  "last_valid_tick = (FixedFromGregorian_Adjusted 30826 12 31 + 1) * FACTOR_100NS_PER_DAY - 1"

lemma tick_range_eval:
  "first_valid_tick = -9106390656000000000" "last_valid_tick = 9222834527999999999"
  unfolding first_valid_tick_def last_valid_tick_def
  by (simp_all add: FixedFromGregorian_Adjusted_def Fixed_eq jan1_def month_table leap_add_def isLeapYear_iff time_factors)

lemma time_split:
  fixes ns :: int
  assumes "0 \<le> ns" "ns < FACTOR_100NS_PER_DAY"
  obtains h mi s ml mc r where
    "ns = h * 36000000000 + mi * 600000000 + s * 10000000 + ml * 10000 + mc * 10 + r"
    "0 \<le> h" "h < 24" "0 \<le> mi" "mi < 60" "0 \<le> s" "s < 60" "0 \<le> ml" "ml < 1000" "0 \<le> mc" "mc < 1000"
    "0 \<le> r" "r < 10"
proof -
  obtain h n1 where 1: "ns = 36000000000 * h + n1" "0 \<le> n1" "n1 < 36000000000" using div_modE [of 36000000000 ns] by auto
  obtain mi n2 where 2: "n1 = 600000000 * mi + n2" "0 \<le> n2" "n2 < 600000000" using div_modE [of 600000000 n1] by auto
  obtain s n3 where 3: "n2 = 10000000 * s + n3" "0 \<le> n3" "n3 < 10000000" using div_modE [of 10000000 n2] by auto
  obtain ml n4 where 4: "n3 = 10000 * ml + n4" "0 \<le> n4" "n4 < 10000" using div_modE [of 10000 n3] by auto
  obtain mc r where 5: "n4 = 10 * mc + r" "0 \<le> r" "r < 10" using div_modE [of 10 n4] by auto
  have "ns < 864000000000" using assms(2) by (simp add: time_factors)
  then show ?thesis using assms(1) 1 2 3 4 5 by (intro that [of h mi s ml mc r]) linarith+
qed

lemma split_time_fields:
  fixes h mi s ml mc r :: int
  assumes "0 \<le> h" "h < 24" "0 \<le> mi" "mi < 60" "0 \<le> s" "s < 60" "0 \<le> ml" "ml < 1000" "0 \<le> mc" "mc < 1000" "0 \<le> r" "r < 10"
  defines "n5 \<equiv> mc * 10 + r"
  defines "n4 \<equiv> ml * 10000 + n5"
  defines "n3 \<equiv> s * 10000000 + n4"
  defines "n2 \<equiv> mi * 600000000 + n3"
  defines "n1 \<equiv> h * 36000000000 + n2"
  shows "n1 sdiv 36000000000 = h" "n1 smod 36000000000 = n2" "n2 sdiv 600000000 = mi" "n2 smod 600000000 = n3"
    "n3 sdiv 10000000 = s" "n3 smod 10000000 = n4" "n4 sdiv 10000 = ml" "n4 smod 10000 = n5" "n5 sdiv 10 = mc" "n5 smod 10 = r"
proof -
  note defs = n1_def n2_def n3_def n4_def n5_def
  have b: "0 \<le> n5" "n5 < 10000" "0 \<le> n4" "n4 < 10000000" "0 \<le> n3" "n3 < 600000000" "0 \<le> n2" "n2 < 36000000000" "0 \<le> n1"
    using assms(1-12) unfolding defs by linarith+
  show "n1 sdiv 36000000000 = h" "n1 smod 36000000000 = n2"
    using div_mod_unique [of n1 36000000000 h n2] b by (simp_all add: n1_def sdiv_nonneg smod_nonneg)
  show "n2 sdiv 600000000 = mi" "n2 smod 600000000 = n3"
    using div_mod_unique [of n2 600000000 mi n3] b by (simp_all add: n2_def sdiv_nonneg smod_nonneg)
  show "n3 sdiv 10000000 = s" "n3 smod 10000000 = n4"
    using div_mod_unique [of n3 10000000 s n4] b by (simp_all add: n3_def sdiv_nonneg smod_nonneg)
  show "n4 sdiv 10000 = ml" "n4 smod 10000 = n5"
    using div_mod_unique [of n4 10000 ml n5] b by (simp_all add: n4_def sdiv_nonneg smod_nonneg)
  show "n5 sdiv 10 = mc" "n5 smod 10 = r"
    using div_mod_unique [of n5 10 mc r] b assms(11,12) by (simp_all add: n5_def sdiv_nonneg smod_nonneg)
qed

text \<open>A linear time is a date and the fields of a time of day.\<close>

definition tick_of :: "int \<Rightarrow> int \<Rightarrow> int \<Rightarrow> int \<Rightarrow> int \<Rightarrow> int \<Rightarrow> int \<Rightarrow> int \<Rightarrow> int \<Rightarrow> int" where
  "tick_of y m d h mi s ml mc r =
     FixedFromGregorian_Adjusted y m d * 864000000000 +
     (h * 36000000000 + (mi * 600000000 + (s * 10000000 + (ml * 10000 + (mc * 10 + r)))))"

definition time_of_day :: "int \<Rightarrow> int \<Rightarrow> int \<Rightarrow> int \<Rightarrow> int \<Rightarrow> int \<Rightarrow> bool" where
  "time_of_day h mi s ml mc r \<longleftrightarrow> 0 \<le> h \<and> h < 24 \<and> 0 \<le> mi \<and> mi < 60 \<and> 0 \<le> s \<and> s < 60 \<and>
     0 \<le> ml \<and> ml < 1000 \<and> 0 \<le> mc \<and> mc < 1000 \<and> 0 \<le> r \<and> r < 10"

lemma tick_cases:
  obtains y m d h mi s ml mc r where "lt = tick_of y m d h mi s ml mc r" "civil_date y m d" "time_of_day h mi s ml mc r"
proof -
  obtain q ns where q: "lt = 864000000000 * q + ns" "0 \<le> ns" "ns < 864000000000" using div_modE [of 864000000000 lt] by auto
  obtain y m d where d: "civil_date y m d" "FixedFromGregorian y m d = q + 584389" using day_has_date by blast
  have "ns < FACTOR_100NS_PER_DAY" using q(3) by (simp add: time_factors)
  with q(2) obtain h mi s ml mc r where t: "ns = h * 36000000000 + mi * 600000000 + s * 10000000 + ml * 10000 + mc * 10 + r"
    "time_of_day h mi s ml mc r" by (rule time_split) (simp add: time_of_day_def)
  have "lt = tick_of y m d h mi s ml mc r"
    unfolding tick_of_def FixedFromGregorian_Adjusted_def d(2) q(1) t(1) by simp
  then show ?thesis using d(1) t(2) by (rule that)
qed

lemma tick_day:
  assumes "time_of_day h mi s ml mc r"
  shows "tick_of y m d h mi s ml mc r div 864000000000 = FixedFromGregorian_Adjusted y m d"
    "tick_of y m d h mi s ml mc r mod 864000000000 = h * 36000000000 + (mi * 600000000 + (s * 10000000 + (ml * 10000 + (mc * 10 + r))))"
proof -
  have b: "0 \<le> h * 36000000000 + (mi * 600000000 + (s * 10000000 + (ml * 10000 + (mc * 10 + r))))"
    "h * 36000000000 + (mi * 600000000 + (s * 10000000 + (ml * 10000 + (mc * 10 + r)))) < 864000000000"
    using assms unfolding time_of_day_def by linarith+
  have e: "tick_of y m d h mi s ml mc r = 864000000000 * FixedFromGregorian_Adjusted y m d +
      (h * 36000000000 + (mi * 600000000 + (s * 10000000 + (ml * 10000 + (mc * 10 + r)))))"
    unfolding tick_of_def by (rule arg_cong2 [of _ _ _ _ "(+)"]) (rule mult.commute, rule refl)
  note u = div_mod_unique [OF e b]
  show "tick_of y m d h mi s ml mc r div 864000000000 = FixedFromGregorian_Adjusted y m d"
    using u by (rule conjunct1)
  show "tick_of y m d h mi s ml mc r mod 864000000000 =
      h * 36000000000 + (mi * 600000000 + (s * 10000000 + (ml * 10000 + (mc * 10 + r))))"
    using u by (rule conjunct2)
qed

definition fields_of :: "int \<Rightarrow> int \<Rightarrow> int \<Rightarrow> int \<Rightarrow> int \<Rightarrow> int \<Rightarrow> int \<Rightarrow> int \<Rightarrow> int \<Rightarrow> FIELDEDTIME" where
  "fields_of y m d h mi s ml mc r =
     \<lparr>iYear = y, iMonth = m, iDayOfWeek = FixedFromGregorian y m d mod 7, iDayOfMonth = d,
      iDayOfYear = FixedFromGregorian y m d - FixedFromGregorian y 1 1 + 1, iHour = h, iMinute = mi,
      iSecond = s, iMillisecond = ml, iMicrosecond = mc, iNanosecond = r * 100\<rparr>"

lemma civil_date_small:
  "civil_date y m d \<Longrightarrow> 0 \<le> d \<and> d < 32 \<and> 0 \<le> m \<and> m < 13"
  using month_cases [of m] by (auto simp: civil_date_def daystab_table)

lemma day_of_year_small:
  assumes "civil_date y m d"
  shows "0 \<le> FixedFromGregorian y m d - FixedFromGregorian y 1 1 + 1"
    "FixedFromGregorian y m d - FixedFromGregorian y 1 1 + 1 \<le> 366"
  using Fixed_in_year(1,2) [OF assms] leap_add_cases [of y] by (auto simp: Fixed_eq month_table)

text \<open>The values of an \<open>int64_t\<close>.\<close>

definition is_int64 :: "int \<Rightarrow> bool" where
  "is_int64 x \<longleftrightarrow> - 9223372036854775808 \<le> x \<and> x < 9223372036854775808"

lemma tick_int64:
  assumes "civil_date y m d" "time_of_day h mi s ml mc r" "is_int64 (tick_of y m d h mi s ml mc r)"
  shows "to_int (FixedFromGregorian_Adjusted y m d) = FixedFromGregorian_Adjusted y m d" "y \<noteq> 99999"
proof -
  have "FixedFromGregorian_Adjusted y m d = tick_of y m d h mi s ml mc r div 864000000000"
    by (simp only: tick_day(1) [OF assms(2)])
  moreover have "- 10675200 \<le> tick_of y m d h mi s ml mc r div 864000000000"
    using assms(3) zdiv_mono1 [of "- 9223372036854775808" "tick_of y m d h mi s ml mc r" 864000000000] by (simp add: is_int64_def)
  moreover have "tick_of y m d h mi s ml mc r div 864000000000 \<le> 10675199"
    using assms(3) zdiv_mono1 [of "tick_of y m d h mi s ml mc r" 9223372036854775807 864000000000] by (simp add: is_int64_def)
  ultimately have b: "- 10675200 \<le> FixedFromGregorian_Adjusted y m d" "FixedFromGregorian_Adjusted y m d \<le> 10675199"
    by simp_all
  then show "to_int (FixedFromGregorian_Adjusted y m d) = FixedFromGregorian_Adjusted y m d" by (simp add: to_int_def)
  show "y \<noteq> 99999" using b year_of_day_range(1) [OF assms(1), of 99999]
    by (auto simp: FixedFromGregorian_Adjusted_def jan1_eval)
qed

lemma Linear_of_tick:
  assumes "civil_date y m d" "time_of_day h mi s ml mc r" "cache_ok c" "is_int64 (tick_of y m d h mi s ml mc r)"
  shows "\<exists>c'. LinearTimeToFieldedTime c (tick_of y m d h mi s ml mc r) =
    (if isValidDate y m d then (True, fields_of y m d h mi s ml mc r, c') else (False, FIELDEDTIME_zero, c')) \<and> cache_ok c'"
proof -
  obtain c' gd where G: "GregorianFromFixed c (FixedFromGregorian y m d) = (c', gd)" "cache_ok c'"
    "gdYear gd = y" "gdMonth gd = m" "gdDayOfMonth gd = d" "gdDayOfWeek gd = FixedFromGregorian y m d mod 7"
    "gdDayOfYear gd = FixedFromGregorian y m d - FixedFromGregorian y 1 1 + 1"
    using Gregorian_of_Fixed [OF assms(1,3) tick_int64(2) [OF assms(1,2,4)]] by blast
  have adj: "GregorianFromFixed_Adjusted c (to_int (FixedFromGregorian_Adjusted y m d)) = (c', gd)"
    unfolding tick_int64(1) [OF assms(1,2,4)]
    using G(1) by (simp add: GregorianFromFixed_Adjusted_def FixedFromGregorian_Adjusted_def)
  have f: "FACTOR_100NS_PER_DAY = 864000000000" "FACTOR_100NS_PER_HOUR = 36000000000"
    "FACTOR_100NS_PER_MINUTE = 600000000" "FACTOR_100NS_PER_SECOND = 10000000"
    "FACTOR_100NS_PER_MILLISECOND = 10000" "FACTOR_100NS_PER_MICROSECOND = 10" "FACTOR_NANOSECONDS_PER_100NS = 100"
    by (simp_all add: time_factors)
  note t = assms(2) [unfolded time_of_day_def]
  have s: "to_ushort h = h" "to_ushort mi = mi" "to_ushort s = s" "to_ushort ml = ml" "to_ushort mc = mc"
    "to_ushort (r * 100) = r * 100" using t by (simp_all add: to_ushort_id)
  have ds: "to_ushort m = m" "to_ushort d = d" "to_ushort (FixedFromGregorian y m d mod 7) = FixedFromGregorian y m d mod 7"
    "to_ushort (FixedFromGregorian y m d - FixedFromGregorian y 1 1 + 1) = FixedFromGregorian y m d - FixedFromGregorian y 1 1 + 1"
    using civil_date_small [OF assms(1)] day_of_year_small [OF assms(1)]
    by (auto intro!: to_ushort_id order.strict_trans [OF pos_mod_bound])
  have ys: "isValidDate y m d \<Longrightarrow> to_short y = y" by (intro to_short_id) (auto simp: isValidDate_iff)
  have div: "i64FloorDivisionMod (tick_of y m d h mi s ml mc r) 864000000000 = (FixedFromGregorian_Adjusted y m d,
      h * 36000000000 + (mi * 600000000 + (s * 10000000 + (ml * 10000 + (mc * 10 + r)))))"
    by (simp only: floor_divisions(5) [OF numeral_neq_zero_int] tick_day [OF assms(2)])
  have sp: "(h * 36000000000 + (mi * 600000000 + (s * 10000000 + (ml * 10000 + (mc * 10 + r))))) sdiv 36000000000 = h"
    "(h * 36000000000 + (mi * 600000000 + (s * 10000000 + (ml * 10000 + (mc * 10 + r))))) smod 36000000000 = mi * 600000000 + (s * 10000000 + (ml * 10000 + (mc * 10 + r)))"
    "(mi * 600000000 + (s * 10000000 + (ml * 10000 + (mc * 10 + r)))) sdiv 600000000 = mi"
    "(mi * 600000000 + (s * 10000000 + (ml * 10000 + (mc * 10 + r)))) smod 600000000 = s * 10000000 + (ml * 10000 + (mc * 10 + r))"
    "(s * 10000000 + (ml * 10000 + (mc * 10 + r))) sdiv 10000000 = s"
    "(s * 10000000 + (ml * 10000 + (mc * 10 + r))) smod 10000000 = ml * 10000 + (mc * 10 + r)"
    "(ml * 10000 + (mc * 10 + r)) sdiv 10000 = ml" "(ml * 10000 + (mc * 10 + r)) smod 10000 = mc * 10 + r"
    "(mc * 10 + r) sdiv 10 = mc" "(mc * 10 + r) smod 10 = r"
    using split_time_fields [of h mi s ml mc r] t by simp_all
  show ?thesis
  proof (intro exI [of _ c'] conjI G(2))
    show "LinearTimeToFieldedTime c (tick_of y m d h mi s ml mc r) =
      (if isValidDate y m d then (True, fields_of y m d h mi s ml mc r, c') else (False, FIELDEDTIME_zero, c'))"
      unfolding LinearTimeToFieldedTime_def f div
      by (simp only: Let_def split_conv adj G(3-7) sp s ds ys fields_of_def refl not_not split: if_split) (simp add: ys)
  qed
qed

lemma Fielded_of_fields:
  assumes "isValidDate y m d"
  shows "FieldedTimeToLinearTime (fields_of y m d h mi s ml mc r) =
    (True, fields_of y m d h mi s ml mc r, tick_of y m d h mi s ml mc r)"
proof -
  have "(FixedFromGregorian y m d - 584388) mod 7 = FixedFromGregorian y m d mod 7"
    using mod_mult_self2 [of "FixedFromGregorian y m d" 7 "- 83484"] by simp
  then have w: "(1 + FixedFromGregorian_Adjusted y m d) mod 7 = FixedFromGregorian y m d mod 7"
    unfolding FixedFromGregorian_Adjusted_def by simp
  have "0 \<le> FixedFromGregorian y m d mod 7" "FixedFromGregorian y m d mod 7 < 7" by simp_all
  then have u: "to_ushort (FixedFromGregorian y m d mod 7) = FixedFromGregorian y m d mod 7" by (intro to_ushort_id) linarith+
  have r: "r * 100 sdiv 100 = r" by (simp add: signed_divide_int_def sgn_mult abs_mult sgn_mult_abs)
  show ?thesis
    using assms by (simp add: FieldedTimeToLinearTime_def fields_of_def Let_def w u r tick_of_def time_factors algebra_simps)
qed


section \<open>The range of valid times\<close>

lemma tick_valid_iff:
  assumes "civil_date y m d" "time_of_day h mi s ml mc r"
  shows "isValidDate y m d \<longleftrightarrow>
    first_valid_tick \<le> tick_of y m d h mi s ml mc r \<and> tick_of y m d h mi s ml mc r \<le> last_valid_tick"
proof -
  let ?t = "tick_of y m d h mi s ml mc r" and ?F = "FixedFromGregorian y m d"
  have "?F - 584389 = ?t div 864000000000"
    using tick_day(1) [OF assms(2)] by (simp add: FixedFromGregorian_Adjusted_def)
  then have lo: "first_valid_tick \<le> ?t \<longleftrightarrow> - 9955415 \<le> ?F" and hi: "?t \<le> last_valid_tick \<longleftrightarrow> ?F \<le> 11258965"
    unfolding tick_range_eval by linarith+
  have "- 27256 \<le> y \<longleftrightarrow> - 9955415 \<le> ?F"
    using year_of_day_range [OF assms(1), of "- 27256"] unfolding jan1_eval by linarith
  moreover have "y \<le> 30826 \<longleftrightarrow> ?F \<le> 11258965"
    using year_of_day_range [OF assms(1), of 30827] unfolding jan1_eval by linarith
  ultimately show ?thesis unfolding isValidDate_iff lo hi using assms(1) by blast
qed

text \<open>The ranges that the comments of \<open>FIELDEDTIME\<close> give its fields, all within a 16-bit integer.\<close>

definition fields_fit :: "FIELDEDTIME \<Rightarrow> bool" where
  "fields_fit ft \<longleftrightarrow> -32768 \<le> iYear ft \<and> iYear ft < 32768 \<and> 1 \<le> iMonth ft \<and> iMonth ft \<le> 12 \<and>
     0 \<le> iDayOfWeek ft \<and> iDayOfWeek ft \<le> 6 \<and> 1 \<le> iDayOfMonth ft \<and> iDayOfMonth ft \<le> 31 \<and>
     1 \<le> iDayOfYear ft \<and> iDayOfYear ft \<le> 366 \<and> 0 \<le> iHour ft \<and> iHour ft < 24 \<and> 0 \<le> iMinute ft \<and> iMinute ft < 60 \<and>
     0 \<le> iSecond ft \<and> iSecond ft < 60 \<and> 0 \<le> iMillisecond ft \<and> iMillisecond ft < 1000 \<and>
     0 \<le> iMicrosecond ft \<and> iMicrosecond ft < 1000 \<and> 0 \<le> iNanosecond ft \<and> iNanosecond ft < 1000 \<and>
     isValidDate (iYear ft) (iMonth ft) (iDayOfMonth ft)"

lemma fields_of_fit:
  assumes "isValidDate y m d" "time_of_day h mi s ml mc r"
  shows "fields_fit (fields_of y m d h mi s ml mc r)"
proof -
  have cd: "civil_date y m d" and y: "-27256 \<le> y" "y \<le> 30826" using assms(1) by (auto simp: isValidDate_iff)
  have "1 \<le> FixedFromGregorian y m d - FixedFromGregorian y 1 1 + 1" "FixedFromGregorian y m d - FixedFromGregorian y 1 1 + 1 \<le> 366"
    using Fixed_in_year(1,2) [OF cd] leap_add_cases [of y] by (auto simp: Fixed_eq [of y 1 1] month_table)
  moreover have "1 \<le> m" "1 \<le> d" using cd by (simp_all add: civil_date_def)
  ultimately show ?thesis using y civil_date_small [OF cd] assms by (simp add: fields_fit_def fields_of_def time_of_day_def)
qed

lemma Linear_to_Fielded_valid:
  assumes "cache_ok c" "is_int64 lt"
  shows "\<exists>ft c'. LinearTimeToFieldedTime c lt =
      (if first_valid_tick \<le> lt \<and> lt \<le> last_valid_tick then (True, ft, c') else (False, FIELDEDTIME_zero, c')) \<and>
    cache_ok c' \<and> (first_valid_tick \<le> lt \<and> lt \<le> last_valid_tick \<longrightarrow> fields_fit ft \<and> FieldedTimeToLinearTime ft = (True, ft, lt))"
proof -
  obtain y m d h mi s ml mc r where t: "lt = tick_of y m d h mi s ml mc r" "civil_date y m d" "time_of_day h mi s ml mc r"
    by (rule tick_cases)
  note v = tick_valid_iff [OF t(2,3), folded t(1)]
  obtain c' where "LinearTimeToFieldedTime c lt =
      (if isValidDate y m d then (True, fields_of y m d h mi s ml mc r, c') else (False, FIELDEDTIME_zero, c'))" "cache_ok c'"
    using Linear_of_tick [OF t(2,3) assms(1)] assms(2) unfolding t(1) by blast
  then show ?thesis using Fielded_of_fields [of y m d h mi s ml mc r, folded t(1)] fields_of_fit [OF _ t(3)] unfolding v [symmetric] by auto
qed

lemma valid_fields_linear:
  assumes "isValidDate y m d" "time_of_day h mi s ml mc r" "cache_ok c"
  shows "\<exists>c'. LinearTimeToFieldedTime c (tick_of y m d h mi s ml mc r) = (True, fields_of y m d h mi s ml mc r, c') \<and> cache_ok c'"
proof -
  have cd: "civil_date y m d" using assms(1) by (simp add: isValidDate_iff)
  have "is_int64 (tick_of y m d h mi s ml mc r)"
    using tick_valid_iff [OF cd assms(2)] assms(1) by (simp add: is_int64_def tick_range_eval)
  from Linear_of_tick [OF cd assms(2,3) this] assms(1) show ?thesis by simp
qed

section \<open>Properties\<close>

text \<open>C21: The day count of a date is turned back into the same date, with the right day of the
  year and of the week, whatever \<open>GregorianFromFixed\<close> has cached before; the cache stays
  consistent.  (The day of the week is right because it is 1 for Monday, January 1 of the
  year 1, and advances by one from each day to the next.)\<close>

theorem date_roundtrip:
  assumes "isValidDate y m d" "cache_ok c"
  shows "\<exists>c'. cache_ok c' \<and> GregorianFromFixed c (FixedFromGregorian y m d) =
    (c', \<lparr>gdYear = y, gdMonth = m, gdDayOfYear = FixedFromGregorian y m d - FixedFromGregorian y 1 1 + 1,
          gdDayOfMonth = d, gdDayOfWeek = FixedFromGregorian y m d mod 7\<rparr>)"
proof -
  have "civil_date y m d" "y \<noteq> 99999" using assms(1) by (auto simp: isValidDate_iff)
  from Gregorian_of_Fixed [OF this(1) assms(2) this(2)] show ?thesis by (auto intro!: GregorianDate.equality)
qed

theorem date_roundtrip_witness:
  "\<exists>c'. cache_ok c' \<and> GregorianFromFixed greg_cache_init (FixedFromGregorian 2024 2 29) =
    (c', \<lparr>gdYear = 2024, gdMonth = 2, gdDayOfYear = FixedFromGregorian 2024 2 29 - FixedFromGregorian 2024 1 1 + 1,
          gdDayOfMonth = 29, gdDayOfWeek = FixedFromGregorian 2024 2 29 mod 7\<rparr>)"
proof -
  have "isValidDate 2024 2 29" by code_simp
  then show ?thesis using cache_ok_init by (rule date_roundtrip)
qed

text \<open>C35: \<open>LinearTimeToFieldedTime\<close> accepts exactly the times from the first to the last tick of
  the valid years.  The fields it then yields are a valid date and a time of day, each within
  its range and so within its 16-bit type, and \<open>FieldedTimeToLinearTime\<close> turns them back into
  the same time (leaving them as they are); other times give zeroed fields.\<close>

theorem linear_fielded_linear:
  assumes "cache_ok c" "is_int64 lt"
  shows "\<exists>ft c'. LinearTimeToFieldedTime c lt =
      (if -9106390656000000000 \<le> lt \<and> lt \<le> 9222834527999999999 then (True, ft, c') else (False, FIELDEDTIME_zero, c')) \<and>
    cache_ok c' \<and>
    (-9106390656000000000 \<le> lt \<and> lt \<le> 9222834527999999999 \<longrightarrow> fields_fit ft \<and> FieldedTimeToLinearTime ft = (True, ft, lt))"
  using Linear_to_Fielded_valid [OF assms] unfolding tick_range_eval .

theorem linear_fielded_linear_witness:
  "\<exists>ft. fst (LinearTimeToFieldedTime greg_cache_init EPOCH_OFFSET) \<and> fields_fit ft \<and> FieldedTimeToLinearTime ft = (True, ft, EPOCH_OFFSET)"
  using linear_fielded_linear [OF cache_ok_init, of EPOCH_OFFSET] by (auto simp: is_int64_def EPOCH_OFFSET_def)

text \<open>C20: A valid date and time of day, in units of 100 ns, survives the way to linear time and
  back: all fields are the same, and the day of the week and of the year are those of the
  date.  The linear time and the day count fit their C types.\<close>

theorem fielded_linear_fielded:
  assumes "isValidDate y m d" "time_of_day h mi s ml mc r" "cache_ok c"
  shows "\<exists>lt c'. FieldedTimeToLinearTime (fields_of y m d h mi s ml mc r) = (True, fields_of y m d h mi s ml mc r, lt) \<and>
    LinearTimeToFieldedTime c lt = (True, fields_of y m d h mi s ml mc r, c') \<and> is_int64 lt \<and>
    \<bar>FixedFromGregorian_Adjusted y m d\<bar> < 2 ^ 31"
proof -
  have cd: "civil_date y m d" using assms(1) by (simp add: isValidDate_iff)
  note v = tick_valid_iff [OF cd assms(2)] and F = year_of_day_range [OF cd]
  have "jan1 (- 27256) < FixedFromGregorian y m d" "FixedFromGregorian y m d \<le> jan1 30827"
    using assms(1) by (auto simp: isValidDate_iff intro!: F)
  then have "\<bar>FixedFromGregorian_Adjusted y m d\<bar> < 2 ^ 31" by (simp add: FixedFromGregorian_Adjusted_def jan1_eval)
  moreover have "is_int64 (tick_of y m d h mi s ml mc r)" using v assms(1) by (simp add: is_int64_def tick_range_eval)
  ultimately show ?thesis using Fielded_of_fields [OF assms(1)] valid_fields_linear [OF assms] by blast
qed

theorem fielded_linear_fielded_witness:
  "\<exists>lt c'. FieldedTimeToLinearTime (fields_of 2000 2 29 23 59 59 0 0 0) = (True, fields_of 2000 2 29 23 59 59 0 0 0, lt) \<and>
    LinearTimeToFieldedTime greg_cache_init lt = (True, fields_of 2000 2 29 23 59 59 0 0 0, c') \<and> is_int64 lt \<and>
    \<bar>FixedFromGregorian_Adjusted 2000 2 29\<bar> < 2 ^ 31"
proof -
  have "isValidDate 2000 2 29" "time_of_day 23 59 59 0 0 0" by code_simp+
  then show ?thesis using cache_ok_init by (rule fielded_linear_fielded)
qed

text \<open>The day after a date.\<close>

definition next_date :: "int \<Rightarrow> int \<Rightarrow> int \<Rightarrow> int \<times> int \<times> int" where
  "next_date y m d =
     (if civil_date y m (d + 1) then (y, m, d + 1) else if m < 12 then (y, m + 1, 1) else (y + 1, 1, 1))"

text \<open>The day counts number the days of the calendar one after the other: January 1 of the
  year 1 is day 1, the day after a date has the next number, and every number is that of a
  date.\<close>

theorem day_count_consecutive:
  assumes "civil_date y m d" "next_date y m d = (y', m', d')"
  shows "civil_date y' m' d' \<and> FixedFromGregorian y' m' d' = FixedFromGregorian y m d + 1 \<and>
    FixedFromGregorian 1 1 1 = 1 \<and> (\<exists>y m d. civil_date y m d \<and> FixedFromGregorian y m d = n)"
proof -
  have m: "1 \<le> m" "m \<le> 12" using assms(1) by (auto simp: civil_date_def)
  have "civil_date y' m' d'" using assms month_cases [OF m]
    by (auto simp: next_date_def civil_date_def daystab_table split: if_splits)
  moreover have "FixedFromGregorian y' m' d' = FixedFromGregorian y m d + 1"
    using assms month_cases [OF m] leap_add_cases [of y]
    by (auto simp: next_date_def civil_date_def daystab_table Fixed_eq month_table jan1_Suc leap_add_def split: if_splits)
  moreover have "FixedFromGregorian 1 1 1 = 1" by code_simp
  ultimately show ?thesis using day_has_date [of n] by blast
qed

theorem day_count_consecutive_witness: "FixedFromGregorian 2024 3 1 = FixedFromGregorian 2024 2 29 + 1"
proof -
  have "civil_date 2024 2 29" "next_date 2024 2 29 = (2024, 3, 1)" by code_simp+
  then show ?thesis using day_count_consecutive [of 2024 2 29 2024 3 1] by blast
qed

end
