(* ===== verification/Time_Text.thy ===== *)
theory Time_Text
  imports Calendar Mux_Number
begin

text \<open>
  Times as text: \<open>ConvertToSecondsString\<close>, \<open>ParseFractionalSecondsString\<close> and
  \<open>do_convtime\<close> of \<open>mux/lib/timeutil.cpp\<close>, and the methods of \<open>CLinearTimeAbsolute\<close>
  (\<open>mux/lib/timeabsolute.cpp\<close>) that print and read times with them.

  A \<open>CLinearTimeAbsolute\<close> is its one member \<open>m_tAbsolute\<close>, an integer; a setter returns its
  verdict and the new value.  The static cache of \<open>GregorianFromFixed\<close> is passed through
  the printers.
\<close>

section \<open>Seconds\<close>

text \<open>Walk back over zeros from the last byte.\<close>

definition strip_zeros :: "bytes \<Rightarrow> bytes" where
  "strip_zeros s = rev (dropWhile (\<lambda>c. c = 0x30) (rev s))"

definition maxFracDigits :: nat where "maxFracDigits = 7"

definition clamp_digits :: "int \<Rightarrow> nat" where
  "clamp_digits nFracDigits =
     (if nFracDigits < 0 then 0 else if int maxFracDigits < nFracDigits then maxFracDigits else nat nFracDigits)"

definition ConvertToSecondsString :: "int \<Rightarrow> int \<Rightarrow> bytes" where
  "ConvertToSecondsString n64 nFracDigits =
     (let (lt, Leftover) = i64FloorDivisionMod n64 FACTOR_100NS_PER_SECOND;
          buffer = mux_i64toa (word_of_int lt)
      in if Leftover = 0 then buffer
         else
           (let nFracDigits = clamp_digits nFracDigits
            in if 0 < nFracDigits then
                 (let buf = mux_i64toa (word_of_int Leftover);
                      digits = replicate (maxFracDigits - length buf) 0x30 @ buf
                  in strip_zeros (buffer @ 0x2E # take nFracDigits digits))
               else buffer))"

definition PFSS_PRECISION :: nat where "PFSS_PRECISION = 7"

text \<open>The verdict and the value stored through \<open>i64\<close>.\<close>

definition ParseFractionalSecondsString :: "bytes \<Rightarrow> bool \<times> int" where
  "ParseFractionalSecondsString str =
     (let cursor = dropWhile mux_isspace str;
          bMinus = (peek cursor = 0x2D);
          cursor = (if bMinus then tl cursor else cursor)
      in if bMinus \<and> peek cursor = 0 then (False, 0)
         else
           (let integer = takeWhile mux_isdigit cursor;
                cursor = dropWhile mux_isdigit cursor;
                cursor = (if peek cursor = 0x2E then tl cursor else cursor);
                fractional = takeWhile mux_isdigit cursor;
                cursor = dropWhile mux_isspace (dropWhile mux_isdigit cursor);
                bGotOne = (integer \<noteq> [] \<or> fractional \<noteq> [])
            in if peek cursor \<noteq> 0 \<or> \<not> bGotOne then (False, 0)
               else
                 (let nBufferAvailable = 64 - PFSS_PRECISION - 1 - (if bMinus then 1 else 0);
                      bOverUnderflow = (length integer > nBufferAvailable);
                      aBuffer = (if bMinus then [0x2D] else []) @ take nBufferAvailable integer @
                        take PFSS_PRECISION fractional @ replicate (PFSS_PRECISION - length fractional) 0x30
                  in (True, if bOverUnderflow then (if bMinus then INT64_MIN else - INT64_MIN - 1)
                            else mux_atoi64 aBuffer))))"

section \<open>Dates\<close>

definition DayOfWeekString :: "bytes list" where
  "DayOfWeekString = map ascii [''Sun'', ''Mon'', ''Tue'', ''Wed'', ''Thu'', ''Fri'', ''Sat'']"

definition monthtab :: "bytes list" where
  "monthtab = map ascii [''Jan'', ''Feb'', ''Mar'', ''Apr'', ''May'', ''Jun'', ''Jul'', ''Aug'', ''Sep'', ''Oct'', ''Nov'', ''Dec'']"

definition MonthTabHash :: "32 word list" where
  "MonthTabHash =
     [0x004a414e, 0x00464542, 0x004d4152, 0x00415052,
      0x004d4159, 0x004a554e, 0x004a554c, 0x00415547,
      0x00534550, 0x004f4354, 0x004e4f56, 0x00444543]"

definition hash_letter :: "32 word \<Rightarrow> byte \<Rightarrow> 32 word" where
  "hash_letter iHash c = or (push_bit 8 iHash) (ucast (mux_toupper_ascii c))"

definition skip_blanks :: "bytes \<Rightarrow> bytes" where
  "skip_blanks p = dropWhile (\<lambda>c. c = 0x20) p"

text \<open>The rest of the string and the hash, or nothing for the result false.\<close>

definition ParseThreeLetters :: "bytes \<Rightarrow> (bytes \<times> 32 word) option" where
  "ParseThreeLetters str =
     (let p = skip_blanks str;
          token = takeWhile (\<lambda>c. c \<noteq> 0 \<and> c \<noteq> 0x20) p;
          q = dropWhile (\<lambda>c. c \<noteq> 0 \<and> c \<noteq> 0x20) p
      in if \<not> list_all mux_isazAZ token then None
         else if length token \<noteq> 3 then None
         else Some (skip_blanks q, foldl hash_letter 0 token))"

definition ParseDecimalSeconds :: "nat \<Rightarrow> bytes \<Rightarrow> int \<times> int \<times> int" where
  "ParseDecimalSeconds n p =
     (let n = min n 9;
          ns = mux_atoi64 (take n p @ replicate (9 - n) 0x30);
          iNano = to_ushort (ns smod 1000);
          ns = ns sdiv 1000;
          iMicro = to_ushort (ns smod 1000);
          iMilli = to_ushort (ns sdiv 1000)
      in (iMilli, iMicro, iNano))"

definition month_index :: "32 word \<Rightarrow> nat" where
  "month_index iHash = length (takeWhile (\<lambda>h. iHash \<noteq> h) MonthTabHash)"

definition skip_word :: "bytes \<Rightarrow> bytes" where
  "skip_word p = skip_blanks (dropWhile (\<lambda>c. c \<noteq> 0 \<and> c \<noteq> 0x20) p)"

definition skip_colon :: "bytes \<Rightarrow> bytes" where
  "skip_colon p =
     (let p = dropWhile (\<lambda>c. c \<noteq> 0 \<and> c \<noteq> 0x3A) p;
          p = (if peek p = 0x3A then tl p else p)
      in skip_blanks p)"

text \<open>The month, with or without the day of the week in front.\<close>

definition convtime_month :: "bytes \<Rightarrow> (bytes \<times> nat) option" where
  "convtime_month str =
     (case ParseThreeLetters str of
        None \<Rightarrow> None
      | Some (p, iHash) \<Rightarrow>
          (if month_index iHash = 12 then
             (case ParseThreeLetters p of
                None \<Rightarrow> None
              | Some (p, iHash) \<Rightarrow> (if month_index iHash = 12 then None else Some (p, month_index iHash)))
           else Some (p, month_index iHash)))"

definition convtime_year :: "FIELDEDTIME \<Rightarrow> bytes \<Rightarrow> bool \<times> FIELDEDTIME" where
  "convtime_year ft p =
     (if 5 < length (takeWhile mux_isdigit p) then (False, ft)
      else
        (let iYearLong = mux_atoi64 p
         in if iYearLong < -27256 \<or> 30826 < iYearLong then (False, ft)
            else
              (let ft = ft\<lparr>iYear := to_short iYearLong\<rparr>;
                   p = skip_blanks (dropWhile mux_isdigit p)
               in if peek p \<noteq> 0 then (False, ft)
                  else
                    (let ft = ft\<lparr>iDayOfYear := 0, iDayOfWeek := 0\<rparr>
                     in (isValidDate (iYear ft) (iMonth ft) (iDayOfMonth ft), ft)))))"

definition convtime_fraction :: "FIELDEDTIME \<Rightarrow> bytes \<Rightarrow> bool \<times> FIELDEDTIME" where
  "convtime_fraction ft p =
     (if peek p = 0x2E then
        (let p = tl p;
             (milli, micro, nano) = ParseDecimalSeconds (length (takeWhile (\<lambda>c. c \<noteq> 0 \<and> c \<noteq> 0x20) p)) p
         in convtime_year (ft\<lparr>iMillisecond := milli, iMicrosecond := micro, iNanosecond := nano\<rparr>) (skip_word p))
      else convtime_year ft (skip_word p))"

text \<open>The guard that the hours, minutes and seconds share: out of range, or no digit zero where
  the value is zero.\<close>

definition bad_field :: "int \<Rightarrow> int \<Rightarrow> bytes \<Rightarrow> bool" where
  "bad_field v limit p \<longleftrightarrow> v > limit \<or> v = 0 \<and> peek p \<noteq> 0x30"

definition do_convtime :: "bytes \<Rightarrow> bool \<times> FIELDEDTIME" where
  "do_convtime str =
     (let ft = FIELDEDTIME_zero
      in case convtime_month str of
        None \<Rightarrow> (False, ft)
      | Some (p, i) \<Rightarrow>
          (let ft = ft\<lparr>iMonth := to_ushort (int i + 1)\<rparr>;
               ft = ft\<lparr>iDayOfMonth := to_ushort (mux_atoi64 p)\<rparr>
           in if iDayOfMonth ft < 1 \<or> daystab ! i < iDayOfMonth ft then (False, ft)
              else
                (let p = skip_word p; ft = ft\<lparr>iHour := to_ushort (mux_atoi64 p)\<rparr>
                 in if bad_field (iHour ft) 23 p then (False, ft)
                    else
                      (let p = skip_colon p; ft = ft\<lparr>iMinute := to_ushort (mux_atoi64 p)\<rparr>
                       in if bad_field (iMinute ft) 59 p then (False, ft)
                          else
                            (let p = skip_colon p; ft = ft\<lparr>iSecond := to_ushort (mux_atoi64 p)\<rparr>
                             in if bad_field (iSecond ft) 59 p then (False, ft)
                                else convtime_fraction ft (dropWhile mux_isdigit p))))))"

text \<open>A conversion \<open>%0wd\<close> of \<open>mux_vsnprintf\<close>: the minus sign goes in front of the zeros.\<close>

definition fmt_0d :: "nat \<Rightarrow> int \<Rightarrow> bytes" where
  "fmt_0d nWidth i =
     (let pBuff = mux_ltoa (word_of_int i);
          nPadding = nWidth - length pBuff
      in if peek pBuff = 0x2D \<and> 0 < nPadding then 0x2D # replicate nPadding 0x30 @ tl pBuff
         else replicate nPadding 0x30 @ pBuff)"

definition fraction_text :: "nat \<Rightarrow> FIELDEDTIME \<Rightarrow> bytes" where
  "fraction_text nFracDigits ft =
     (if 0 < nFracDigits \<and> (iMillisecond ft \<noteq> 0 \<or> iMicrosecond ft \<noteq> 0 \<or> iNanosecond ft \<noteq> 0) then
        strip_zeros (take (nFracDigits + 1)
          (0x2E # fmt_0d 3 (iMillisecond ft) @ fmt_0d 3 (iMicrosecond ft) @ fmt_0d 3 (iNanosecond ft)))
      else [])"

definition ReturnDateString :: "greg_cache \<Rightarrow> int \<Rightarrow> int \<Rightarrow> bytes \<times> greg_cache" where
  "ReturnDateString cache m_tAbsolute nFracDigits =
     (let (ok, ft, cache) = LinearTimeToFieldedTime cache m_tAbsolute
      in if ok then
           (DayOfWeekString ! nat (iDayOfWeek ft) @ [0x20] @ monthtab ! nat (iMonth ft - 1) @ [0x20] @
            fmt_0d 2 (iDayOfMonth ft) @ [0x20] @ fmt_0d 2 (iHour ft) @ [0x3A] @ fmt_0d 2 (iMinute ft) @ [0x3A] @
            fmt_0d 2 (iSecond ft) @ fraction_text (clamp_digits nFracDigits) ft @ [0x20] @ fmt_0d 4 (iYear ft), cache)
         else ([], cache))"

text \<open>The name made of a time's fields, or from the static counter \<open>m_nCount\<close>.\<close>

definition ReturnUniqueString :: "greg_cache \<Rightarrow> int \<Rightarrow> int \<Rightarrow> bytes \<times> int \<times> greg_cache" where
  "ReturnUniqueString cache m_nCount m_tAbsolute =
     (let (ok, ft, cache) = LinearTimeToFieldedTime cache m_tAbsolute
      in if ok then
           (fmt_0d 4 (iYear ft) @ fmt_0d 2 (iMonth ft) @ fmt_0d 2 (iDayOfMonth ft) @ [0x2D] @
            fmt_0d 2 (iHour ft) @ fmt_0d 2 (iMinute ft) @ fmt_0d 2 (iSecond ft), m_nCount, cache)
         else (fmt_0d 3 m_nCount, m_nCount + 1, cache))"

definition SetString :: "bytes \<Rightarrow> bool \<times> int" where
  "SetString arg_tBuffer =
     (let (ok, ft) = do_convtime arg_tBuffer
      in if ok then
           (let (ok, ft, lt) = FieldedTimeToLinearTime ft
            in if ok then (True, lt) else (False, 0))
         else (False, 0))"

definition ReturnSecondsString :: "int \<Rightarrow> int \<Rightarrow> bytes" where
  "ReturnSecondsString m_tAbsolute nFracDigits = ConvertToSecondsString (m_tAbsolute - EPOCH_OFFSET) nFracDigits"

text \<open>A failure leaves the old value.\<close>

definition SetSecondsString :: "int \<Rightarrow> bytes \<Rightarrow> bool \<times> int" where
  "SetSecondsString m_tAbsolute arg_szSeconds =
     (let (ok, t) = ParseFractionalSecondsString arg_szSeconds
      in if \<not> ok then (False, m_tAbsolute)
         else
           (let t = t + EPOCH_OFFSET
            in if EARLIEST_VALID_DATE \<le> t \<and> t \<le> LATEST_VALID_DATE then (True, t) else (False, m_tAbsolute)))"

definition SetSeconds :: "int \<Rightarrow> int" where
  "SetSeconds arg_tSeconds = arg_tSeconds * FACTOR_100NS_PER_SECOND + EPOCH_OFFSET"

definition ReturnSeconds :: "int \<Rightarrow> int" where
  "ReturnSeconds m_tAbsolute = i64FloorDivision (m_tAbsolute - EPOCH_OFFSET) FACTOR_100NS_PER_SECOND"

section \<open>Padded numbers\<close>

definition padded :: "nat \<Rightarrow> nat \<Rightarrow> nat list" where
  "padded w n = replicate (w - length (digits 10 n)) 0 @ digits 10 n"

lemma digits_val_zeros: "digits_val b (replicate k 0) = 0"
  by (induction k) (simp_all add: digits_val_Cons)

lemma digits_10_less: "\<forall>d \<in> set (digits 10 n). d < 10"
  using digits_less [of 10 _ n] by auto

lemma padded_props [simp]:
  "\<forall>d \<in> set (padded w n). d < 10" "padded w n \<noteq> []" "digits_val 10 (padded w n) = n"
  using digits_less [of 10 _ n] by (auto simp: padded_def digits_val_append digits_val_zeros)

lemma padded_length: "n < 10 ^ Suc k \<Longrightarrow> length (padded (Suc k) n) = Suc k"
proof -
  assume n: "n < 10 ^ Suc k"
  have "(2::nat) \<le> 10" by simp
  from digits_length [OF this n] show ?thesis unfolding padded_def length_append length_replicate by linarith
qed

lemma digits_10_hd_digit: "mux_isdigit (hd (map digit_byte (digits 10 n)))"
  using hd_in_set [OF digits_nonempty [of 10 n]] digits_less [of 10 _ n] by (simp add: hd_map digit_byte_props)

lemma word_of_int_sint: "- (2 ^ 63) \<le> i \<Longrightarrow> i < 2 ^ 63 \<Longrightarrow> sint (word_of_int i :: 64 word) = i"
  by (simp add: signed_of_int signed_take_bit_int_eq_self)

lemma word_of_int_unat: "0 \<le> i \<Longrightarrow> i < 2 ^ 64 \<Longrightarrow> unat (word_of_int i :: 64 word) = nat i"
  by (simp add: unsigned_of_int take_bit_int_eq_self)

lemma i64toa_nonneg:
  assumes "0 \<le> i" "i < 2 ^ 63"
  shows "mux_i64toa (word_of_int i) = map digit_byte (digits 10 (nat i))"
proof -
  have "\<not> (word_of_int i :: 64 word) <s 0" using assms word_of_int_sint [of i] by (simp add: word_sless_alt)
  then show ?thesis using assms word_of_int_unat [of i] by (simp add: i64toa_numeral sign_bytes_def)
qed

lemma i64toa_neg:
  assumes "i < 0" "- (2 ^ 63) \<le> i"
  shows "mux_i64toa (word_of_int i) = 0x2D # map digit_byte (digits 10 (nat (- i)))"
proof -
  have "(word_of_int i :: 64 word) <s 0" using assms word_of_int_sint [of i] by (simp add: word_sless_alt)
  moreover have "unat (- word_of_int i :: 64 word) = nat (- i)"
    using assms word_of_int_unat [of "- i"] by simp
  ultimately show ?thesis by (simp add: i64toa_numeral sign_bytes_def)
qed

lemma ltoa_i64toa: "mux_ltoa v = mux_i64toa v"
  unfolding mux_ltoa_def mux_i64toa_def printers_digits ..

lemma digit_byte_0 [simp]: "digit_byte 0 = 0x30"
  by (simp add: digit_byte_def)

lemma fmt_0d_nonneg:
  assumes "0 \<le> i" "i < 2 ^ 63"
  shows "fmt_0d w i = map digit_byte (padded w (nat i))"
proof -
  obtain d es where "digits 10 (nat i) = d # es" "digit_byte d \<noteq> 0x2D"
    using digits_10_less digits_nonempty by (rule hd_digit_byte)
  then have "peek (map digit_byte (digits 10 (nat i))) \<noteq> 0x2D" by (simp only: list.map peek_simps not_False_eq_True)
  then show ?thesis
    unfolding fmt_0d_def ltoa_i64toa i64toa_nonneg [OF assms] padded_def Let_def map_append length_map by simp
qed

lemma fmt_0d_neg:
  assumes "i < 0" "- (2 ^ 63) \<le> i"
  shows "fmt_0d (Suc w) i = 0x2D # map digit_byte (padded w (nat (- i)))"
  unfolding fmt_0d_def ltoa_i64toa i64toa_neg [OF assms] padded_def Let_def map_append by simp

lemma atoi64_text:
  assumes "\<forall>d \<in> set ds. d < 10" "ds \<noteq> []" "digits_val 10 ds < 2 ^ 63" "\<not> mux_isdigit (peek rest)"
  shows "mux_atoi64 (map digit_byte ds @ rest) = int (digits_val 10 ds)"
    "mux_atoi64 (0x2D # map digit_byte ds @ rest) = - int (digits_val 10 ds)"
proof -
  have "atoi64_word (map digit_byte ds @ rest) = of_int (int (digits_val 10 ds))"
    "atoi64_word (0x2D # map digit_byte ds @ rest) = of_int (- int (digits_val 10 ds))"
    using atoi64_word_numeral [of "[]" None ds rest] atoi64_word_numeral [of "[]" "Some 0x2D" ds rest] assms
    by (simp_all add: is_sign_def sign_bytes_def numeral_val_def)
  then show "mux_atoi64 (map digit_byte ds @ rest) = int (digits_val 10 ds)"
    "mux_atoi64 (0x2D # map digit_byte ds @ rest) = - int (digits_val 10 ds)"
    unfolding mux_atoi64_def using assms(3) word_of_int_sint [of "int (digits_val 10 ds)"] word_of_int_sint [of "- int (digits_val 10 ds)"]
    by (simp_all del: of_int_of_nat_eq of_int_minus)
qed

section \<open>Digits dropped at the end\<close>

lemma digits_val_less: "\<forall>d \<in> set ds. d < 10 \<Longrightarrow> digits_val 10 ds < 10 ^ length ds"
proof (induction ds)
  case (Cons d ds)
  then have "digits_val 10 ds < 10 ^ length ds" "d \<le> 9" by auto
  then have "d * 10 ^ length ds + digits_val 10 ds < 9 * 10 ^ length ds + 10 ^ length ds"
    using mult_le_mono1 [of d 9 "10 ^ length ds"] by linarith
  then show ?case unfolding digits_val_Cons list.size power_Suc add_0_right add_Suc_right by linarith
qed simp

lemma digits_val_take:
  assumes "\<forall>d \<in> set ds. d < 10"
  shows "digits_val 10 (take k ds) * 10 ^ (length ds - k) = digits_val 10 ds - digits_val 10 ds mod 10 ^ (length ds - k)"
proof -
  have d: "digits_val 10 ds = digits_val 10 (take k ds) * 10 ^ (length ds - k) + digits_val 10 (drop k ds)"
    using digits_val_append [of 10 "take k ds" "drop k ds"] by simp
  have "digits_val 10 (drop k ds) < 10 ^ (length ds - k)"
    using digits_val_less [of "drop k ds"] assms by (auto dest: in_set_dropD)
  then have "digits_val 10 ds mod 10 ^ (length ds - k) = digits_val 10 (drop k ds)" unfolding d by simp
  then show ?thesis unfolding d by simp
qed

lemma zeros_at_end:
  obtains es j where "ds = es @ replicate j (0::nat)" "es = [] \<or> last es \<noteq> 0"
proof -
  have "\<exists>es j. ds = es @ replicate j (0::nat) \<and> (es = [] \<or> last es \<noteq> 0)"
  proof (induction ds rule: rev_induct)
    case (snoc d ds)
    then obtain es j where e: "ds = es @ replicate j 0" "es = [] \<or> last es \<noteq> 0" by blast
    show ?case
    proof (cases "d = 0")
      case True
      then have "ds @ [d] = es @ replicate (Suc j) 0" using e(1) by (simp add: replicate_append_same)
      then show ?thesis using e(2) by blast
    next
      case False
      then show ?thesis by (intro exI [of _ "ds @ [d]"] exI [of _ 0]) simp
    qed
  qed simp
  then show ?thesis using that by blast
qed

lemma digit_byte_zero_iff: "d < 10 \<Longrightarrow> digit_byte d = 0x30 \<longleftrightarrow> d = 0"
  using inj_onD [OF digit_byte_inj, of d 0] by auto

lemma strip_zeros_digits:
  assumes "\<forall>d \<in> set ds. d < 10"
  obtains es j where "ds = es @ replicate j 0" "strip_zeros (pre @ 0x2E # map digit_byte ds) = pre @ 0x2E # map digit_byte es"
proof -
  obtain es j where e: "ds = es @ replicate j 0" "es = [] \<or> last es \<noteq> 0" by (rule zeros_at_end)
  have z: "dropWhile (\<lambda>c. c = 0x30) (replicate j 0x30 @ xs) = dropWhile (\<lambda>c. c = 0x30) xs" for xs :: bytes
    by (rule dropWhile_prefix) simp
  have "dropWhile (\<lambda>c. c = 0x30) (rev (map digit_byte es) @ 0x2E # rev pre) = rev (map digit_byte es) @ 0x2E # rev pre"
  proof (cases es rule: rev_cases)
    case (snoc fs d)
    then have "digit_byte d \<noteq> 0x30" using e assms by (simp add: digit_byte_zero_iff)
    then show ?thesis by (simp add: snoc)
  qed simp
  then have "strip_zeros (pre @ 0x2E # map digit_byte ds) = pre @ 0x2E # map digit_byte es"
    unfolding strip_zeros_def e(1) map_append map_replicate digit_byte_0 rev_append rev.simps rev_replicate append_assoc append.simps z
    by simp
  with e(1) show ?thesis by (rule that)
qed

section \<open>Seconds as text\<close>

lemma parse_seconds_text:
  assumes ds: "\<forall>d \<in> set ds. d < 10" "ds \<noteq> []" "length ds \<le> 55" and es: "\<forall>d \<in> set es. d < 10" "length es \<le> 7"
    and dot: "f = (if dot then 0x2E # map digit_byte es else [])" "dot \<or> es = []"
    and v: "v = digits_val 10 ds * 10 ^ 7 + digits_val 10 es * 10 ^ (7 - length es)" "v < 2 ^ 63"
  shows "ParseFractionalSecondsString (map digit_byte ds @ f) = (True, int v)"
    "ParseFractionalSecondsString (0x2D # map digit_byte ds @ f) = (True, - int v)"
proof -
  obtain d ds' where d: "ds = d # ds'" "d < 10" "mux_isdigit (digit_byte d)" "\<not> mux_isspace (digit_byte d)" "digit_byte d \<noteq> 0x2D"
    "digit_byte d \<noteq> 0" using ds(1,2) by (rule hd_digit_byte)
  have "\<not> mux_isdigit 0x2E" "\<not> mux_isspace 0x2D" by (simp_all add: mux_isdigit_def mux_isspace_def)
  then have nf: "\<not> mux_isdigit (peek f)" by (simp add: dot(1))
  note T = takeWhile_digits [OF ds(1) nf] takeWhile_digits [OF es(1), of "[]", unfolded append_Nil2 peek_simps, OF not_isdigit_0]
  have P: "peek (map digit_byte ds @ f) = digit_byte d" by (simp add: d(1))
  have f: "takeWhile mux_isdigit (if peek f = 0x2E then tl f else f) = map digit_byte es"
    "dropWhile mux_isdigit (if peek f = 0x2E then tl f else f) = []"
    using T dot by (cases dot; simp)+
  have sp: "dropWhile mux_isspace (map digit_byte ds @ f) = map digit_byte ds @ f"
    "dropWhile mux_isspace (0x2D # map digit_byte ds @ f) = 0x2D # map digit_byte ds @ f"
    using d(4) by (auto simp: d(1) sign_byte_props)
  have val: "digits_val 10 (ds @ es @ replicate (7 - length es) 0) = v"
    using es(2) by (simp add: v(1) digits_val_append digits_val_zeros flip: power_add)
  have all: "\<forall>d \<in> set (ds @ es @ replicate (7 - length es) 0). d < 10" "ds @ es @ replicate (7 - length es) 0 \<noteq> []"
    using ds es by auto
  note A = atoi64_text [OF all, unfolded val, OF v(2), of "[]", unfolded append_Nil2 peek_simps, OF not_isdigit_0]
  have m: "map digit_byte ds @ map digit_byte es @ replicate (7 - length es) 0x30 = map digit_byte (ds @ es @ replicate (7 - length es) 0)" by simp
  have n: "map digit_byte ds \<noteq> []" "take 56 (map digit_byte ds) = map digit_byte ds" "take 55 (map digit_byte ds) = map digit_byte ds"
    "take 7 (map digit_byte es) = map digit_byte es" using ds es by auto
  show "ParseFractionalSecondsString (map digit_byte ds @ f) = (True, int v)"
    unfolding ParseFractionalSecondsString_def Let_def sp P
    by (simp only: d(5) if_False simp_thms T(1,2) f dropWhile.simps peek_simps)
      (use ds(3) in \<open>simp add: PFSS_PRECISION_def n m A(1) ds(2) del: map_append\<close>)
  show "ParseFractionalSecondsString (0x2D # map digit_byte ds @ f) = (True, - int v)"
    unfolding ParseFractionalSecondsString_def Let_def sp peek_simps list.sel
    by (simp only: P d(6) if_True if_False simp_thms T(1,2) f dropWhile.simps peek_simps)
      (use ds(3) in \<open>simp add: PFSS_PRECISION_def n m A(2) ds(2) del: map_append\<close>)
qed

lemma clamp_le: "clamp_digits k \<le> 7"
  by (auto simp: clamp_digits_def maxFracDigits_def)

lemma padded_7: "n < 10000000 \<Longrightarrow> length (padded 7 n) = 7"
  using padded_length [of n 6] by simp

lemma leftover_digits:
  assumes "0 < L" "L < 10000000" "k \<le> 7"
  obtains es where "\<forall>d \<in> set es. d < 10" "length es \<le> 7"
    "digits_val 10 es * 10 ^ (7 - length es) = L - L mod 10 ^ (7 - k)"
    "strip_zeros (pre @ 0x2E # take k (map digit_byte (padded 7 L))) = pre @ 0x2E # map digit_byte es"
proof -
  have l: "length (take k (padded 7 L)) = k" using assms by (simp add: padded_7)
  have all: "\<forall>d \<in> set (take k (padded 7 L)). d < 10" using padded_props(1) [of 7 L] by (auto dest: in_set_takeD)
  then obtain es j where e: "take k (padded 7 L) = es @ replicate j 0"
    "strip_zeros (pre @ 0x2E # map digit_byte (take k (padded 7 L))) = pre @ 0x2E # map digit_byte es"
    by (rule strip_zeros_digits)
  have k: "length es + j = k" using l unfolding e(1) by simp
  then have "7 - length es = j + (7 - k)" using assms(3) by linarith
  then have "digits_val 10 es * 10 ^ (7 - length es) = digits_val 10 es * 10 ^ j * 10 ^ (7 - k)"
    by (simp only: power_add mult.assoc)
  also have "digits_val 10 es * 10 ^ j = digits_val 10 (take k (padded 7 L))"
    unfolding e(1) by (simp add: digits_val_append digits_val_zeros)
  also have "digits_val 10 (take k (padded 7 L)) * 10 ^ (7 - k) = L - L mod 10 ^ (7 - k)"
    using digits_val_take [OF padded_props(1), of k 7 L] assms(2) by (simp add: padded_7)
  finally show ?thesis
    using that [of es] e(2) k assms(3) all unfolding e(1) take_map by simp
qed

lemma digits_10_length: "n < 10 ^ 20 \<Longrightarrow> length (digits 10 n) \<le> 20"
proof -
  assume "n < 10 ^ 20"
  then have n: "n < 10 ^ Suc 19" by simp
  have "(2::nat) \<le> 10" by simp
  from digits_length [OF this n] show ?thesis by simp
qed

lemma i64toa_leftover: assumes "L < 10000000" shows "mux_i64toa (word_of_int (int L)) = map digit_byte (digits 10 L)"
proof -
  have "0 \<le> int L" "int L < 2 ^ 63" using assms by simp_all
  from i64toa_nonneg [OF this] show ?thesis unfolding nat_int .
qed

lemma Convert_eq:
  assumes L: "n mod 10000000 = int L" "L < 10000000"
  shows "ConvertToSecondsString n k = (if L = 0 \<or> clamp_digits k = 0 then mux_i64toa (word_of_int (n div 10000000))
      else strip_zeros (mux_i64toa (word_of_int (n div 10000000)) @ 0x2E # take (clamp_digits k) (map digit_byte (padded 7 L))))"
    unfolding ConvertToSecondsString_def Let_def FACTOR_100NS_PER_SECOND_def floor_divisions(5) [OF numeral_neq_zero_int] split_conv L(1) i64toa_leftover [OF L(2)]
      padded_def map_append map_replicate digit_byte_0 length_map maxFracDigits_def of_nat_eq_0_iff zero_less_iff_neq_zero
    by (cases "L = 0"; cases "clamp_digits k = 0") (simp_all only: simp_thms if_True if_False)

lemma Convert_text:
  assumes "is_int64 n"
  obtains f dot es where "ConvertToSecondsString n k = mux_i64toa (word_of_int (n div 10000000)) @ f"
    "\<forall>d \<in> set es. d < 10" "length es \<le> 7" "f = (if dot then 0x2E # map digit_byte es else [])" "dot \<or> es = []"
    "digits_val 10 es * 10 ^ (7 - length es) = nat (n mod 10000000) - nat (n mod 10000000) mod 10 ^ (7 - clamp_digits k)"
proof -
  define L where "L = nat (n mod 10000000)"
  have L: "n mod 10000000 = int L" "L < 10000000" by (simp_all add: L_def)
  note C = Convert_eq [OF L, of k]
  show ?thesis
  proof (cases "L = 0 \<or> clamp_digits k = 0")
    case True
    then have "L - L mod 10 ^ (7 - clamp_digits k) = 0" using L(2) by auto
    then show ?thesis using that [of "[]" "[]" False] True by (simp add: C L_def [symmetric])
  next
    case False
    then have "0 < L" by simp
    from leftover_digits [OF this L(2) clamp_le [of k], of "mux_i64toa (word_of_int (n div 10000000))"]
    obtain es where "\<forall>d \<in> set es. d < 10" "length es \<le> 7"
      "digits_val 10 es * 10 ^ (7 - length es) = L - L mod 10 ^ (7 - clamp_digits k)"
      "strip_zeros (mux_i64toa (word_of_int (n div 10000000)) @ 0x2E # take (clamp_digits k) (map digit_byte (padded 7 L)))
         = mux_i64toa (word_of_int (n div 10000000)) @ 0x2E # map digit_byte es" by blast
    then show ?thesis using that [of "0x2E # map digit_byte es" es True] False by (simp add: C L_def [symmetric])
  qed
qed

lemma seconds_text_value:
  assumes "is_int64 n" "- 9223372036834775808 < n"
  shows "ParseFractionalSecondsString (ConvertToSecondsString n k) =
    (True, if 0 \<le> n then n - n mod 10 ^ (7 - clamp_digits k)
           else 10000000 * (n div 10000000) - (n mod 10000000 - n mod 10 ^ (7 - clamp_digits k)))"
proof -
  obtain f dot es where e: "ConvertToSecondsString n k = mux_i64toa (word_of_int (n div 10000000)) @ f"
    "\<forall>d \<in> set es. d < 10" "length es \<le> 7" "f = (if dot then 0x2E # map digit_byte es else [])" "dot \<or> es = []"
    "digits_val 10 es * 10 ^ (7 - length es) = nat (n mod 10000000) - nat (n mod 10000000) mod 10 ^ (7 - clamp_digits k)"
    using assms(1) by (rule Convert_text [where k = k])
  define q r m where "q = n div 10000000" "r = nat (n mod 10000000)" "m = nat (n mod 10 ^ (7 - clamp_digits k))"
  have n: "n = 10000000 * q + int r" "r < 10000000" by (simp_all add: q_r_m_def)
  have dv: "(10::int) ^ (7 - clamp_digits k) dvd 10000000"
    using le_imp_power_dvd [of "7 - clamp_digits k" 7 "10::int"] by simp
  have "n mod 10 ^ (7 - clamp_digits k) = n mod 10000000 mod 10 ^ (7 - clamp_digits k)" using dv by (simp add: mod_mod_cancel)
  then have m: "int m = int r mod 10 ^ (7 - clamp_digits k)" "n mod 10 ^ (7 - clamp_digits k) = int m" by (simp_all add: q_r_m_def)
  have "int m = int (r mod 10 ^ (7 - clamp_digits k))" unfolding m(1) zmod_int of_nat_power of_nat_numeral ..
  then have mr: "m = r mod 10 ^ (7 - clamp_digits k)" unfolding of_nat_eq_iff .
  then have le: "m \<le> r" by simp
  have val: "digits_val 10 (digits 10 x) * 10 ^ 7 + digits_val 10 es * 10 ^ (7 - length es) = x * 10 ^ 7 + (r - m)" for x
    by (simp only: e(6) q_r_m_def(2) [symmetric] mr digits_val_digits)
  have L: "length (digits 10 x) \<le> 55" if "x < 10 ^ 20" for x using digits_10_length [OF that] by simp
  have b: "- 9223372036854775808 \<le> n" "n < 9223372036854775808" using assms(1) unfolding is_int64_def by blast+
  show ?thesis
  proof (cases "0 \<le> n")
    case True
    then have "0 \<le> q" using n by linarith
    then obtain a where a: "q = int a" by (rule nonneg_int_cases)
    have "a < 1000000000000" "a * 10000000 + (r - m) < 9223372036854775808" using n b le unfolding a by linarith+
    then have q: "a < 10 ^ 20" "a * 10 ^ 7 + (r - m) < 2 ^ 63" "int a < 2 ^ 63" by simp_all
    have "ParseFractionalSecondsString (map digit_byte (digits 10 a) @ f) = (True, int (a * 10 ^ 7 + (r - m)))"
      by (rule parse_seconds_text(1) [OF digits_10_less digits_nonempty L [OF q(1)] e(2-5) val [symmetric] q(2)])
    then have "ParseFractionalSecondsString (ConvertToSecondsString n k) = (True, int (a * 10 ^ 7 + (r - m)))"
      unfolding e(1) q_r_m_def(1) [symmetric] a i64toa_nonneg [OF of_nat_0_le_iff q(3)] nat_int .
    moreover have "int (a * 10 ^ 7 + (r - m)) = n - int m" using n(1) le a by (simp add: of_nat_diff)
    ultimately show ?thesis using True by (simp only: m(2) if_True)
  next
    case False
    then have "0 \<le> - q" using n by linarith
    then obtain a where "- q = int a" by (rule nonneg_int_cases)
    then have a: "q = - int a" by simp
    have "a < 1000000000000" "a * 10000000 + (r - m) < 9223372036854775808" "0 < a"
      using n b le False assms(2) unfolding a by linarith+
    then have q: "a < 10 ^ 20" "a * 10 ^ 7 + (r - m) < 2 ^ 63" "- int a < 0" "- (2 ^ 63) \<le> - int a" by simp_all
    have "ParseFractionalSecondsString (0x2D # map digit_byte (digits 10 a) @ f) = (True, - int (a * 10 ^ 7 + (r - m)))"
      by (rule parse_seconds_text(2) [OF digits_10_less digits_nonempty L [OF q(1)] e(2-5) val [symmetric] q(2)])
    then have "ParseFractionalSecondsString (ConvertToSecondsString n k) = (True, - int (a * 10 ^ 7 + (r - m)))"
      unfolding e(1) q_r_m_def(1) [symmetric] a i64toa_neg [OF q(3,4)] minus_minus nat_int append.simps .
    moreover have "- int (a * 10 ^ 7 + (r - m)) = 10000000 * q - (int r - int m)" using le a by (simp add: of_nat_diff)
    moreover have "n mod 10000000 = int r" by (simp add: q_r_m_def)
    ultimately show ?thesis using False by (simp only: m(2) q_r_m_def(1) [symmetric] if_False)
  qed
qed

section \<open>The parts of a date text\<close>

lemma skip_blanks_digits:
  assumes "\<forall>d \<in> set ds. d < 10" "ds \<noteq> []"
  shows "skip_blanks (map digit_byte ds @ rest) = map digit_byte ds @ rest"
proof -
  obtain d es where "ds = d # es" "d < 10" using assms by (cases ds) auto
  then show ?thesis by (simp add: skip_blanks_def digit_byte_props)
qed

lemma skip_digits:
  assumes "\<forall>d \<in> set ds. d < 10"
  shows "skip_word (map digit_byte ds @ 0x20 # rest) = skip_blanks rest"
    "skip_colon (map digit_byte ds @ 0x3A # rest) = skip_blanks rest"
    "takeWhile (\<lambda>c. c \<noteq> 0 \<and> c \<noteq> 0x20) (map digit_byte ds @ 0x20 # rest) = map digit_byte ds"
proof -
  have 1: "\<forall>c \<in> set (map digit_byte ds). c \<noteq> 0 \<and> c \<noteq> 0x20" "\<forall>c \<in> set (map digit_byte ds). c \<noteq> 0 \<and> c \<noteq> 0x3A"
    using assms by (auto simp: digit_byte_props)
  show "skip_word (map digit_byte ds @ 0x20 # rest) = skip_blanks rest"
    unfolding skip_word_def dropWhile_prefix [OF 1(1)] by (simp add: skip_blanks_def)
  show "skip_colon (map digit_byte ds @ 0x3A # rest) = skip_blanks rest"
    unfolding skip_colon_def dropWhile_prefix [OF 1(2)] by simp
  show "takeWhile (\<lambda>c. c \<noteq> 0 \<and> c \<noteq> 0x20) (map digit_byte ds @ 0x20 # rest) = map digit_byte ds"
    unfolding takeWhile_prefix [OF 1(1)] by simp
qed

lemma ParseThreeLetters_text:
  assumes "list_all mux_isazAZ t" "length t = 3"
  shows "ParseThreeLetters (t @ 0x20 # rest) = Some (skip_blanks rest, foldl hash_letter 0 t)"
proof -
  have 1: "\<forall>c \<in> set t. c \<noteq> 0 \<and> c \<noteq> 0x20" using assms(1) by (auto simp: list_all_iff mux_isazAZ_def)
  have "skip_blanks (t @ 0x20 # rest) = t @ 0x20 # rest"
    using 1 assms(2) unfolding skip_blanks_def by (cases t) auto
  then show ?thesis
    unfolding ParseThreeLetters_def Let_def using assms
    by (simp add: takeWhile_prefix [OF 1] dropWhile_prefix [OF 1]) (simp add: skip_blanks_def)
qed

lemma month_texts:
  "list_all (\<lambda>i. list_all mux_isazAZ (monthtab ! i) \<and> length (monthtab ! i) = 3 \<and> month_index (foldl hash_letter 0 (monthtab ! i)) = i) [0 ..< 12]"
  by code_simp

lemma day_texts:
  "list_all (\<lambda>t. list_all mux_isazAZ t \<and> length t = 3 \<and> month_index (foldl hash_letter 0 t) = 12) DayOfWeekString"
  by code_simp

lemma convtime_month_text:
  assumes "w < 7" "i < 12"
  shows "convtime_month (DayOfWeekString ! w @ 0x20 # monthtab ! i @ 0x20 # rest) = Some (skip_blanks rest, i)"
proof -
  have m: "list_all mux_isazAZ (monthtab ! i)" "length (monthtab ! i) = 3" "month_index (foldl hash_letter 0 (monthtab ! i)) = i"
    using month_texts assms(2) unfolding list_all_iff by auto
  have "DayOfWeekString ! w \<in> set DayOfWeekString" using assms(1) by (intro nth_mem) (simp add: DayOfWeekString_def)
  then have d: "list_all mux_isazAZ (DayOfWeekString ! w)" "length (DayOfWeekString ! w) = 3"
    "month_index (foldl hash_letter 0 (DayOfWeekString ! w)) = 12"
    using day_texts unfolding list_all_iff by blast+
  obtain c t where c: "monthtab ! i = c # t" "mux_isazAZ c" using m(1,2) by (cases "monthtab ! i") auto
  have "c \<noteq> 0x20" using c(2) by (auto simp: mux_isazAZ_def)
  then have "skip_blanks (monthtab ! i @ 0x20 # rest) = monthtab ! i @ 0x20 # rest" by (simp add: c(1) skip_blanks_def)
  then show ?thesis
    unfolding convtime_month_def ParseThreeLetters_text [OF d(1,2)] using m(3) d(3) assms(2)
    by (simp add: ParseThreeLetters_text [OF m(1,2)])
qed

lemma two_digits:
  assumes "0 \<le> v" "v \<le> limit" "limit < 100" "\<not> mux_isdigit (peek rest)"
  shows "to_ushort (mux_atoi64 (fmt_0d 2 v @ rest)) = v" "\<not> bad_field v limit (fmt_0d 2 v @ rest)"
proof -
  have f: "fmt_0d 2 v = map digit_byte (padded 2 (nat v))" using assms by (intro fmt_0d_nonneg) simp_all
  have "nat v < 2 ^ 63" using assms by simp
  then have "mux_atoi64 (fmt_0d 2 v @ rest) = int (nat v)"
    unfolding f using atoi64_text(1) [OF padded_props(1,2), unfolded padded_props(3), OF _ assms(4)] by blast
  then show "to_ushort (mux_atoi64 (fmt_0d 2 v @ rest)) = v" using assms by (simp add: to_ushort_id)
  have "padded 2 0 = [0, 0]" by code_simp
  then show "\<not> bad_field v limit (fmt_0d 2 v @ rest)"
    using assms f by (cases "v = 0") (auto simp: bad_field_def)
qed

lemma year_text:
  assumes "0 \<le> y" "y \<le> 30826"
  shows "convtime_year ft (fmt_0d 4 y) =
    (isValidDate y (iMonth ft) (iDayOfMonth ft), ft\<lparr>iYear := y, iDayOfYear := 0, iDayOfWeek := 0\<rparr>)"
proof -
  have f: "fmt_0d 4 y = map digit_byte (padded 4 (nat y))" using assms by (intro fmt_0d_nonneg) simp_all
  have "nat y < 2 ^ 63" using assms by simp
  then have a: "mux_atoi64 (fmt_0d 4 y) = int (nat y)"
    unfolding f using atoi64_text(1) [OF padded_props(1,2), unfolded padded_props(3), of "nat y" "[]" 4] by simp
  have "nat y < 10 ^ Suc 4" "(2::nat) \<le> 10" using assms by simp_all
  from digits_length [OF this(2,1)] have l: "length (padded 4 (nat y)) \<le> 5"
    unfolding padded_def length_append length_replicate by linarith
  have t: "takeWhile mux_isdigit (fmt_0d 4 y) = fmt_0d 4 y" "dropWhile mux_isdigit (fmt_0d 4 y) = []"
    using takeWhile_digits [OF padded_props(1), of "[]" 4 "nat y"] by (simp_all add: f)
  have "length (fmt_0d 4 y) \<le> 5" using l by (simp add: f)
  then show ?thesis using assms unfolding convtime_year_def Let_def t a
    by (simp add: skip_blanks_def to_short_id)
qed

lemma negative_year_text:
  assumes "- 27256 \<le> y" "y < 0"
  shows "\<not> fst (convtime_year ft (fmt_0d 4 y))"
proof -
  have f: "fmt_0d 4 y = 0x2D # map digit_byte (padded 3 (nat (- y)))" using fmt_0d_neg [of y 3] assms by simp
  have "skip_blanks (dropWhile mux_isdigit (fmt_0d 4 y)) = fmt_0d 4 y" "peek (fmt_0d 4 y) \<noteq> 0"
    by (simp_all add: f sign_byte_props skip_blanks_def)
  then show ?thesis unfolding convtime_year_def Let_def by (simp split: if_split)
qed

section \<open>Fractions of a second\<close>

lemma fmt_3: "0 \<le> i \<Longrightarrow> i < 1000 \<Longrightarrow> fmt_0d 3 i = map digit_byte (padded 3 (nat i))"
  by (rule fmt_0d_nonneg) simp_all

lemma padded_3: "n < 1000 \<Longrightarrow> length (padded 3 n) = 3"
  using padded_length [of n 2] by simp

lemma fraction_text_digits:
  assumes "time_of_day h mi s ml mc r" "iMillisecond ft = ml" "iMicrosecond ft = mc" "iNanosecond ft = r * 100" "k \<le> 7"
  defines "S \<equiv> nat (ml * 10000 + mc * 10 + r)"
  obtains "fraction_text k ft = []" "S - S mod 10 ^ (7 - k) = 0"
  | es where "fraction_text k ft = 0x2E # map digit_byte es" "\<forall>d \<in> set es. d < 10" "length es \<le> 7"
      "digits_val 10 es * 10 ^ (9 - length es) = 100 * (S - S mod 10 ^ (7 - k))"
proof -
  note t = assms(1) [unfolded time_of_day_def]
  have S: "S = nat ml * 10000 + nat mc * 10 + nat r" "S < 10000000" using t by (auto simp: S_def)
  show ?thesis
  proof (cases "0 < k \<and> (ml \<noteq> 0 \<or> mc \<noteq> 0 \<or> r \<noteq> 0)")
    case False
    then have "fraction_text k ft = []" "S = 0 \<or> k = 0" using assms(2-4) by (auto simp: fraction_text_def S)
    then show ?thesis using that(1) S(2) by auto
  next
    case True
    define D where "D = padded 3 (nat ml) @ padded 3 (nat mc) @ padded 3 (nat (r * 100))"
    have "nat ml < 1000" "nat mc < 1000" "nat (r * 100) < 1000" using t by linarith+
    note p3 = this [THEN padded_3]
    have l: "length D = 9" by (simp add: D_def p3)
    have all: "\<forall>d \<in> set D. d < 10" unfolding D_def set_append ball_Un by (intro conjI padded_props)
    have r100: "nat (r * 100) = nat r * 100" using t by (simp add: nat_mult_distrib)
    have v: "digits_val 10 D = 100 * S"
      unfolding D_def digits_val_append padded_props(3) length_append p3 unfolding r100 S(1) by simp
    have all_k: "\<forall>d \<in> set (take k D). d < 10" using all by (auto dest: in_set_takeD)
    then obtain es j where e: "take k D = es @ replicate j 0"
      "strip_zeros ([] @ 0x2E # map digit_byte (take k D)) = [] @ 0x2E # map digit_byte es"
      by (rule strip_zeros_digits)
    have ek: "length es + j = k" using arg_cong [OF e(1), of length] l assms(5) by simp
    have "digits_val 10 es * 10 ^ (9 - length es) = digits_val 10 es * 10 ^ j * 10 ^ (9 - k)"
    proof -
      have "9 - length es = j + (9 - k)" using ek assms(5) by linarith
      then show ?thesis by (simp only: power_add mult.assoc)
    qed
    also have "digits_val 10 es * 10 ^ j = digits_val 10 (take k D)"
      unfolding e(1) by (simp add: digits_val_append digits_val_zeros)
    also have "digits_val 10 (take k D) * 10 ^ (9 - k) = 100 * S - 100 * S mod 10 ^ (9 - k)"
      using digits_val_take [OF all, of k] unfolding l v .
    also have "(10::nat) ^ (9 - k) = 100 * 10 ^ (7 - k)"
    proof -
      have "9 - k = 2 + (7 - k)" using assms(5) by linarith
      then show ?thesis by (simp only: power_add) simp
    qed
    finally have val: "digits_val 10 es * 10 ^ (9 - length es) = 100 * (S - S mod 10 ^ (7 - k))"
      by (simp only: mult_mod_right diff_mult_distrib2)
    have "0 \<le> ml" "ml < 1000" "0 \<le> mc" "mc < 1000" "0 \<le> r * 100" "r * 100 < 1000" using t by auto
    then have "fraction_text k ft = 0x2E # map digit_byte es"
      using True e(2) assms(2-4) by (simp add: fraction_text_def fmt_3 D_def take_map)
    moreover have "length es \<le> 7" using ek assms(5) by simp
    moreover have "\<forall>d \<in> set es. d < 10" using all_k unfolding e(1) by simp
    ultimately show ?thesis using that(2) val by blast
  qed
qed

lemma sdiv_int: "int a sdiv int b = int (a div b)" "int a smod int b = int (a mod b)"
  by (simp_all add: sdiv_nonneg smod_nonneg zdiv_int zmod_int)

lemma fraction_fields:
  "int (100 * V) smod 1000 = int (100 * (V mod 10))" "int (100 * V) sdiv 1000 = int (V div 10)"
  "int (V div 10) smod 1000 = int (V div 10 mod 1000)" "int (V div 10) sdiv 1000 = int (V div 10000)"
proof -
  have "100 * V mod 1000 = 100 * (V mod 10)" "100 * V div 1000 = V div 10" "V div 10 div 1000 = V div 10000"
    using mult_mod_right [of 100 V 10] div_mult_mult1 [of 100 V 10] div_mult2_eq [of V 10 1000] by simp_all
  then show "int (100 * V) smod 1000 = int (100 * (V mod 10))" "int (100 * V) sdiv 1000 = int (V div 10)"
    "int (V div 10) smod 1000 = int (V div 10 mod 1000)" "int (V div 10) sdiv 1000 = int (V div 10000)"
    using sdiv_int [of "100 * V" 1000] sdiv_int [of "V div 10" 1000] by (simp_all only: of_nat_numeral)
qed

lemma ParseDecimalSeconds_digits:
  assumes "\<forall>d \<in> set es. d < 10" "length es \<le> 7" "digits_val 10 es * 10 ^ (9 - length es) = 100 * V"
  shows "ParseDecimalSeconds (length es) (map digit_byte es @ rest) =
    (int (V div 10000), int (V div 10 mod 1000), int (100 * (V mod 10)))"
proof -
  have val: "digits_val 10 (es @ replicate (9 - length es) 0) = 100 * V"
    unfolding digits_val_append digits_val_zeros length_replicate using assms(3) by simp
  have all: "\<forall>d \<in> set (es @ replicate (9 - length es) 0). d < 10" "es @ replicate (9 - length es) 0 \<noteq> []"
    using assms(1,2) by auto
  have "length (es @ replicate (9 - length es) 0) = 9" using assms(2) by simp
  then have V: "100 * V < 1000000000" using digits_val_less [OF all(1)] unfolding val by simp
  then have V63: "100 * V < 2 ^ 63" by simp
  from atoi64_text(1) [OF all, unfolded val, OF V63, of "[]"]
  have a: "mux_atoi64 (map digit_byte (es @ replicate (9 - length es) 0)) = int (100 * V)" by simp
  have b: "take (min (length es) 9) (map digit_byte es @ rest) @ replicate (9 - min (length es) 9) 0x30
      = map digit_byte (es @ replicate (9 - length es) 0)" using assms(2) by simp
  have "V mod 10 < 10" "V div 10 mod 1000 < 1000" "V div 10000 < 1000" using V by simp_all
  then have "to_ushort (int (100 * (V mod 10))) = int (100 * (V mod 10))" "to_ushort (int (V div 10 mod 1000)) = int (V div 10 mod 1000)"
    "to_ushort (int (V div 10000)) = int (V div 10000)" by (intro to_ushort_id; linarith)+
  then show ?thesis unfolding ParseDecimalSeconds_def Let_def b a fraction_fields by simp
qed

section \<open>A printed date is read back\<close>

definition time_fields :: "int \<Rightarrow> int \<Rightarrow> int \<Rightarrow> int \<Rightarrow> int \<Rightarrow> FIELDEDTIME" where
  "time_fields m d h mi s =
     FIELDEDTIME_zero\<lparr>iMonth := m, iDayOfMonth := d, iHour := h, iMinute := mi, iSecond := s\<rparr>"

lemma skip_blanks_fmt: "skip_blanks (fmt_0d 4 y) = fmt_0d 4 y" if "- 27256 \<le> y" "y \<le> 30826"
proof (cases "0 \<le> y")
  case True
  then have "fmt_0d 4 y = map digit_byte (padded 4 (nat y))" using that by (intro fmt_0d_nonneg) simp_all
  then show ?thesis using skip_blanks_digits [OF padded_props(1,2), of 4 "nat y" "[]"] by simp
next
  case False
  then have "fmt_0d 4 y = 0x2D # map digit_byte (padded 3 (nat (- y)))" using fmt_0d_neg [of y 3] that by simp
  then show ?thesis by (simp add: skip_blanks_def)
qed

lemma convtime_fraction_text:
  assumes "time_of_day h mi s ml mc r" "iMillisecond ft = ml" "iMicrosecond ft = mc" "iNanosecond ft = r * 100" "k \<le> 7"
    "- 27256 \<le> y" "y \<le> 30826"
  defines "S \<equiv> nat (ml * 10000 + mc * 10 + r)"
  defines "V \<equiv> S - S mod 10 ^ (7 - k)"
  shows "convtime_fraction (time_fields m d h mi s) (fraction_text k ft @ 0x20 # fmt_0d 4 y) =
    convtime_year ((time_fields m d h mi s)\<lparr>iMillisecond := int (V div 10000), iMicrosecond := int (V div 10 mod 1000),
      iNanosecond := int (100 * (V mod 10))\<rparr>) (fmt_0d 4 y)"
  using assms(1-5)
proof (cases rule: fraction_text_digits)
  case 1
  then have "V = 0" "fraction_text k ft = []" by (simp_all add: V_def S_def)
  moreover have "skip_word (0x20 # fmt_0d 4 y) = fmt_0d 4 y"
    using skip_digits(1) [of "[]" "fmt_0d 4 y"] skip_blanks_fmt [OF assms(6,7)] by simp
  ultimately show ?thesis by (simp add: convtime_fraction_def time_fields_def FIELDEDTIME_zero_def)
next
  case (2 es)
  have D: "ParseDecimalSeconds (length es) (map digit_byte es @ 0x20 # fmt_0d 4 y) =
      (int (V div 10000), int (V div 10 mod 1000), int (100 * (V mod 10)))"
    using 2(2-4) by (intro ParseDecimalSeconds_digits) (simp_all add: V_def S_def)
  show ?thesis
    unfolding convtime_fraction_def 2(1) append.simps peek_simps list.sel Let_def skip_digits [OF 2(2)] length_map
      skip_blanks_fmt [OF assms(6,7)] D by simp
qed

lemma fraction_text_front:
  assumes "time_of_day h mi s ml mc r" "iMillisecond ft = ml" "iMicrosecond ft = mc" "iNanosecond ft = r * 100" "k \<le> 7"
  shows "\<not> mux_isdigit (peek (fraction_text k ft @ 0x20 # rest))"
  using assms by (cases rule: fraction_text_digits) (simp_all add: mux_isdigit_def)

lemma do_convtime_text:
  assumes "civil_date y m d" "- 27256 \<le> y" "y \<le> 30826" "time_of_day h mi s ml mc r" "k \<le> 7" "w < 7"
    and ft: "iMillisecond ft = ml" "iMicrosecond ft = mc" "iNanosecond ft = r * 100"
  shows "do_convtime (DayOfWeekString ! w @ 0x20 # monthtab ! nat (m - 1) @ 0x20 #
      fmt_0d 2 d @ 0x20 # fmt_0d 2 h @ 0x3A # fmt_0d 2 mi @ 0x3A # fmt_0d 2 s @ fraction_text k ft @ 0x20 # fmt_0d 4 y) =
    convtime_fraction (time_fields m d h mi s) (fraction_text k ft @ 0x20 # fmt_0d 4 y)"
proof -
  let ?Y = "fraction_text k ft @ 0x20 # fmt_0d 4 y"
  note t = assms(4) [unfolded time_of_day_def]
  have c: "\<not> mux_isdigit 0x20" "\<not> mux_isdigit 0x3A" by (simp_all add: mux_isdigit_def)
  have Y: "\<not> mux_isdigit (peek ?Y)" by (rule fraction_text_front [OF assms(4) ft assms(5)])
  have d: "1 \<le> d" "d \<le> 31" "d \<le> daystab ! nat (m - 1)" "nat (m - 1) < 12" "1 \<le> m" "m \<le> 12"
    using assms(1) civil_date_small [OF assms(1)] by (auto simp: civil_date_def)
  have f: "fmt_0d 2 v = map digit_byte (padded 2 (nat v))" if "0 \<le> v" "v < 100" for v using that by (intro fmt_0d_nonneg) simp_all
  have b: "skip_blanks (fmt_0d 2 v @ z) = fmt_0d 2 v @ z" "skip_word (fmt_0d 2 v @ 0x20 # z) = skip_blanks z"
    "skip_colon (fmt_0d 2 v @ 0x3A # z) = skip_blanks z" if "0 \<le> v" "v < 100" for v z
    using skip_blanks_digits [OF padded_props(1,2)] skip_digits(1,2) [OF padded_props(1)] f [OF that] by simp_all
  have ds: "dropWhile mux_isdigit (fmt_0d 2 s @ ?Y) = ?Y"
    using takeWhile_digits(2) [OF padded_props(1) Y] f [of s] t by simp
  have v: "to_ushort (mux_atoi64 (fmt_0d 2 d @ 0x20 # z)) = d" "to_ushort (mux_atoi64 (fmt_0d 2 h @ 0x3A # z)) = h"
    "\<not> bad_field h 23 (fmt_0d 2 h @ 0x3A # z)" "to_ushort (mux_atoi64 (fmt_0d 2 mi @ 0x3A # z)) = mi"
    "\<not> bad_field mi 59 (fmt_0d 2 mi @ 0x3A # z)" for z
    using two_digits [of d 31 "0x20 # z"] two_digits [of h 23 "0x3A # z"] two_digits [of mi 59 "0x3A # z"] t d c by simp_all
  have vs: "to_ushort (mux_atoi64 (fmt_0d 2 s @ ?Y)) = s" "\<not> bad_field s 59 (fmt_0d 2 s @ ?Y)"
    using two_digits [of s 59 ?Y] t Y by simp_all
  have mo: "to_ushort (int (nat (m - 1)) + 1) = m" using d by (simp add: to_ushort_id)
  have r: "0 \<le> d" "d < 100" "0 \<le> h" "h < 100" "0 \<le> mi" "mi < 100" "0 \<le> s" "s < 100" using d t by auto
  note skips = b [OF r(1,2)] b [OF r(3,4)] b [OF r(5,6)] b(1) [OF r(7,8)]
  have g: "\<not> (d < 1 \<or> daystab ! nat (m - 1) < d)" using d by simp
  show ?thesis
    unfolding do_convtime_def convtime_month_text [OF assms(6) d(4)] Let_def option.case prod.case skips v vs mo ds
    using g v(3,5) vs(2) by (simp add: FIELDEDTIME_zero_def time_fields_def)
qed

lemma ReturnDateString_text:
  assumes "isValidDate y m d" "time_of_day h mi s ml mc r" "cache_ok c"
  obtains w where "w < 7" "fst (ReturnDateString c (tick_of y m d h mi s ml mc r) k) =
    DayOfWeekString ! w @ 0x20 # monthtab ! nat (m - 1) @ 0x20 # fmt_0d 2 d @ 0x20 # fmt_0d 2 h @ 0x3A #
    fmt_0d 2 mi @ 0x3A # fmt_0d 2 s @ fraction_text (clamp_digits k) (fields_of y m d h mi s ml mc r) @ 0x20 # fmt_0d 4 y"
proof -
  obtain c' where "LinearTimeToFieldedTime c (tick_of y m d h mi s ml mc r) = (True, fields_of y m d h mi s ml mc r, c')"
    using valid_fields_linear [OF assms] by blast
  moreover have "nat (FixedFromGregorian y m d mod 7) < 7" by simp
  ultimately show ?thesis using that [of "nat (FixedFromGregorian y m d mod 7)"]
    by (simp add: ReturnDateString_def fields_of_def)
qed

lemma SetString_fields:
  assumes "isValidDate y m d"
  shows "FieldedTimeToLinearTime ((time_fields m d h mi s)\<lparr>iMillisecond := int (V div 10000), iMicrosecond := int (V div 10 mod 1000),
      iNanosecond := int (100 * (V mod 10)), iYear := y, iDayOfYear := 0, iDayOfWeek := 0\<rparr>) =
    (True, (time_fields m d h mi s)\<lparr>iMillisecond := int (V div 10000), iMicrosecond := int (V div 10 mod 1000),
      iNanosecond := int (100 * (V mod 10)), iYear := y, iDayOfYear := 0, iDayOfWeek := to_ushort ((FixedFromGregorian_Adjusted y m d + 1) mod 7)\<rparr>,
     tick_of y m d h mi s 0 0 0 + int V)"
proof -
  have "int (100 * (V mod 10)) sdiv 100 = int (V mod 10)" using sdiv_int(1) [of "100 * (V mod 10)" 100] by simp
  moreover have "10 * (V div 10) + V mod 10 = V" "1000 * (V div 10000) + V div 10 mod 1000 = V div 10"
    using div_mult2_eq [of V 10 1000] mult_div_mod_eq [of 10 V] mult_div_mod_eq [of 1000 "V div 10"] by simp_all
  then have "int V = 10000 * int (V div 10000) + 10 * int (V div 10 mod 1000) + int (V mod 10)" by linarith
  ultimately show ?thesis
    unfolding FieldedTimeToLinearTime_def Let_def using assms
    by (simp add: time_fields_def FIELDEDTIME_zero_def time_factors tick_of_def)
qed

lemma tick_mod:
  assumes "time_of_day h mi s ml mc r" "k \<le> 7"
  defines "S \<equiv> nat (ml * 10000 + mc * 10 + r)"
  shows "tick_of y m d h mi s 0 0 0 + int (S - S mod 10 ^ (7 - k)) =
    tick_of y m d h mi s ml mc r - tick_of y m d h mi s ml mc r mod 10 ^ (7 - k)"
proof -
  note t = assms(1) [unfolded time_of_day_def]
  have S: "int S = ml * 10000 + mc * 10 + r" using t by (simp add: S_def)
  have T: "tick_of y m d h mi s ml mc r = tick_of y m d h mi s 0 0 0 + int S" by (simp add: tick_of_def S)
  have "tick_of y m d h mi s 0 0 0 = 10 ^ 7 * (FixedFromGregorian_Adjusted y m d * 86400 + h * 3600 + mi * 60 + s)"
    by (simp add: tick_of_def algebra_simps)
  moreover have "(10::int) ^ (7 - k) dvd 10 ^ 7" by (rule le_imp_power_dvd) simp
  ultimately have "10 ^ (7 - k) dvd tick_of y m d h mi s 0 0 0" by (simp only: dvd_mult2)
  then have "tick_of y m d h mi s ml mc r mod 10 ^ (7 - k) = int S mod 10 ^ (7 - k)"
    unfolding T by (simp only: mod_add_left_eq [symmetric, of "tick_of y m d h mi s 0 0 0"] dvd_eq_mod_eq_0 add_0)
  also have "\<dots> = int (S mod 10 ^ (7 - k))" unfolding zmod_int of_nat_power of_nat_numeral ..
  finally show ?thesis unfolding T by (simp add: of_nat_diff)
qed

lemma SetString_ReturnDateString:
  assumes "isValidDate y m d" "time_of_day h mi s ml mc r" "cache_ok c"
  shows "SetString (fst (ReturnDateString c (tick_of y m d h mi s ml mc r) k)) =
    (if 0 \<le> y then (True, tick_of y m d h mi s ml mc r - tick_of y m d h mi s ml mc r mod 10 ^ (7 - clamp_digits k)) else (False, 0))"
proof -
  have y: "civil_date y m d" "- 27256 \<le> y" "y \<le> 30826" using assms(1) by (simp_all add: isValidDate_iff)
  define ft where "ft = fields_of y m d h mi s ml mc r"
  have ft: "iMillisecond ft = ml" "iMicrosecond ft = mc" "iNanosecond ft = r * 100" by (simp_all add: ft_def fields_of_def)
  obtain w where w: "w < 7" "fst (ReturnDateString c (tick_of y m d h mi s ml mc r) k) =
    DayOfWeekString ! w @ 0x20 # monthtab ! nat (m - 1) @ 0x20 # fmt_0d 2 d @ 0x20 # fmt_0d 2 h @ 0x3A #
    fmt_0d 2 mi @ 0x3A # fmt_0d 2 s @ fraction_text (clamp_digits k) ft @ 0x20 # fmt_0d 4 y"
    using assms unfolding ft_def by (rule ReturnDateString_text [where k = k])
  note D = do_convtime_text [OF y assms(2) clamp_le [of k] w(1) ft, folded w(2), unfolded convtime_fraction_text [OF assms(2) ft clamp_le [of k] y(2,3)]]
  show ?thesis
  proof (cases "0 \<le> y")
    case True
    have v: "isValidDate y (iMonth (time_fields m d h mi s)) (iDayOfMonth (time_fields m d h mi s))"
      using assms(1) by (simp add: time_fields_def)
    show ?thesis unfolding SetString_def Let_def D year_text [OF True y(3)] prod.case
      using v True SetString_fields [OF assms(1), where V = "nat (ml * 10000 + mc * 10 + r) - nat (ml * 10000 + mc * 10 + r) mod 10 ^ (7 - clamp_digits k)" and h = h and mi = mi and s = s]
        tick_mod [OF assms(2) clamp_le [of k], of y m d] by simp
  next
    case False
    then have "\<not> fst (do_convtime (fst (ReturnDateString c (tick_of y m d h mi s ml mc r) k)))"
      unfolding D by (intro negative_year_text [OF y(2)]) simp
    then show ?thesis using False
      by (cases "do_convtime (fst (ReturnDateString c (tick_of y m d h mi s ml mc r) k))") (simp add: SetString_def)
  qed
qed

lemma year_0_tick:
  assumes "civil_date y m d" "time_of_day h mi s ml mc r"
  shows "0 \<le> y \<longleftrightarrow> - 505227456000000000 \<le> tick_of y m d h mi s ml mc r"
proof -
  let ?t = "tick_of y m d h mi s ml mc r" and ?F = "FixedFromGregorian y m d"
  have "?F - 584389 = ?t div 864000000000"
    using tick_day(1) [OF assms(2)] by (simp add: FixedFromGregorian_Adjusted_def)
  then have "- 505227456000000000 \<le> ?t \<longleftrightarrow> - 365 \<le> ?F" by linarith
  moreover have "jan1 0 = - 366" by (simp add: jan1_def)
  ultimately show ?thesis using year_of_day_range [OF assms(1), of 0] by linarith
qed

section \<open>Properties\<close>

text \<open>C7: A date printed by \<open>ReturnDateString\<close> with \<open>k\<close> digits of a second is read back by
  \<open>SetString\<close> as the same time, cut off to \<open>k\<close> digits (to the tick, with seven), for every time
  from the year 0 to the last valid one.  A time of an earlier year, although it is valid and
  printed, is refused: \<open>do_convtime\<close> does not step over the minus sign of the year.\<close>

theorem date_text_roundtrip:
  assumes "first_valid_tick \<le> t" "t \<le> last_valid_tick" "cache_ok c"
  shows "SetString (fst (ReturnDateString c t k)) =
    (if - 505227456000000000 \<le> t then (True, t - t mod 10 ^ (7 - clamp_digits k)) else (False, 0))"
proof -
  obtain y m d h mi s ml mc r where t: "t = tick_of y m d h mi s ml mc r" "civil_date y m d" "time_of_day h mi s ml mc r"
    by (rule tick_cases)
  have "isValidDate y m d" using assms(1,2) unfolding tick_valid_iff [OF t(2,3)] t(1) by blast
  from SetString_ReturnDateString [OF this t(3) assms(3)] show ?thesis
    unfolding t(1) year_0_tick [OF t(2,3)] .
qed

theorem date_text_roundtrip_witness:
  "SetString (fst (ReturnDateString greg_cache_init 125911583991234567 3)) = (True, 125911583991230000)"
proof -
  have "clamp_digits 3 = 3" by code_simp
  then show ?thesis
    using date_text_roundtrip [of 125911583991234567 greg_cache_init 3] cache_ok_init by (simp add: tick_range_eval)
qed

text \<open>Seconds printed by \<open>ConvertToSecondsString\<close> are read back as the same time, cut off to
  the digits printed, when the time is not negative.  For a negative time that is no whole
  number of seconds the fraction, which belongs to the next lower second, is printed behind
  it with its minus sign, so the value that is read back differs: half a second before the
  origin is printed as \<open>-1.5\<close>.\<close>

theorem seconds_text_roundtrip:
  assumes "is_int64 n" "- 9223372036834775808 < n"
  shows "ParseFractionalSecondsString (ConvertToSecondsString n k) =
    (True, if 0 \<le> n then n - n mod 10 ^ (7 - clamp_digits k)
           else 10000000 * (n div 10000000) - (n mod 10000000 - n mod 10 ^ (7 - clamp_digits k))) \<and>
    ConvertToSecondsString (- 5000000) 7 = ascii ''-1.5''"
proof -
  have "ConvertToSecondsString (- 5000000) 7 = ascii ''-1.5''" by code_simp
  with seconds_text_value [OF assms] show ?thesis by blast
qed

theorem seconds_text_roundtrip_witness:
  "ParseFractionalSecondsString (ConvertToSecondsString 15000000 7) = (True, 15000000)"
proof -
  have "clamp_digits 7 = 7" by code_simp
  then show ?thesis using seconds_text_roundtrip [of 15000000 7] by (simp add: is_int64_def)
qed

text \<open>The text of a time in seconds, as \<open>ReturnSecondsString\<close> prints it, is accepted by
  \<open>SetSecondsString\<close> and sets the same time, cut off to the digits printed, for every valid
  time that is not before 1970; a setter that fails leaves the old time.\<close>

theorem absolute_seconds_roundtrip:
  assumes "EPOCH_OFFSET \<le> t" "t \<le> last_valid_tick"
  shows "SetSecondsString old (ReturnSecondsString t k) = (True, t - (t - EPOCH_OFFSET) mod 10 ^ (7 - clamp_digits k)) \<and>
    SetSecondsString old (ascii ''x'') = (False, old)"
proof -
  let ?m = "(t - EPOCH_OFFSET) mod 10 ^ (7 - clamp_digits k)"
  have "is_int64 (t - EPOCH_OFFSET)" using assms by (simp add: is_int64_def EPOCH_OFFSET_def tick_range_eval)
  from seconds_text_value [OF this, of k] assms
  have p: "ParseFractionalSecondsString (ReturnSecondsString t k) = (True, t - EPOCH_OFFSET - ?m)"
    by (simp add: ReturnSecondsString_def EPOCH_OFFSET_def)
  have m: "0 \<le> ?m" "?m \<le> t - EPOCH_OFFSET" using assms by (simp_all add: zmod_le_nonneg_dividend)
  have "ParseFractionalSecondsString (ascii ''x'') = (False, 0)" by code_simp
  moreover have "EARLIEST_VALID_DATE \<le> t - ?m" "t - ?m \<le> LATEST_VALID_DATE"
    using m assms unfolding EARLIEST_VALID_DATE_def LATEST_VALID_DATE_def EPOCH_OFFSET_def tick_range_eval by linarith+
  ultimately show ?thesis by (simp add: SetSecondsString_def p Let_def)
qed

theorem absolute_seconds_roundtrip_witness:
  "SetSecondsString 0 (ReturnSecondsString 125911583991234567 7) = (True, 125911583991234567)"
proof -
  have "clamp_digits 7 = 7" by code_simp
  then show ?thesis
    using absolute_seconds_roundtrip [of 125911583991234567 0 7] by (simp add: EPOCH_OFFSET_def tick_range_eval)
qed

text \<open>C36: \<open>SetSecondsString\<close> reads the text that \<open>ReturnSecondsString\<close> prints of a time since 1970
  to the tick, but the limit it checks against, \<open>LATEST_VALID_DATE\<close>, is twelve hours behind the last
  tick that \<open>LinearTimeToFieldedTime\<close> accepts: the times in between are set and have no
  fields, and every later one is refused.\<close>

theorem seconds_accepted_without_fields:
  assumes "EPOCH_OFFSET \<le> t" "is_int64 t" "cache_ok c"
  shows "SetSecondsString old (ReturnSecondsString t 7) =
      (if t \<le> last_valid_tick + 12 * FACTOR_100NS_PER_HOUR then (True, t) else (False, old)) \<and>
    (fst (LinearTimeToFieldedTime c t) \<longleftrightarrow> t \<le> last_valid_tick)"
proof -
  have k: "clamp_digits 7 = 7" by code_simp
  have "is_int64 (t - EPOCH_OFFSET)" using assms(1,2) by (simp add: is_int64_def EPOCH_OFFSET_def)
  from seconds_text_value [OF this, of 7] assms(1)
  have "ParseFractionalSecondsString (ReturnSecondsString t 7) = (True, t - EPOCH_OFFSET)"
    by (simp add: ReturnSecondsString_def EPOCH_OFFSET_def k)
  then have "SetSecondsString old (ReturnSecondsString t 7) =
      (if t \<le> last_valid_tick + 12 * FACTOR_100NS_PER_HOUR then (True, t) else (False, old))"
    using assms(1) by (simp add: SetSecondsString_def EARLIEST_VALID_DATE_def LATEST_VALID_DATE_def EPOCH_OFFSET_def tick_range_eval time_factors)
  moreover have "first_valid_tick \<le> t" using assms(1) by (simp add: EPOCH_OFFSET_def tick_range_eval)
  ultimately show ?thesis using Linear_to_Fielded_valid [OF assms(3,2)] by (auto split: if_splits)
qed

theorem seconds_accepted_without_fields_witness:
  "SetSecondsString 0 (ReturnSecondsString 9222834600000000000 7) = (True, 9222834600000000000) \<and>
   \<not> fst (LinearTimeToFieldedTime greg_cache_init 9222834600000000000)"
  using seconds_accepted_without_fields [of 9222834600000000000 greg_cache_init 0] cache_ok_init
  by (simp add: EPOCH_OFFSET_def is_int64_def tick_range_eval time_factors)

end
