(* ===== verification/Wild.thy ===== *)
theory Wild
  imports Mux_Number
begin

text \<open>
  Wildcard matching, \<open>mux/modules/engine/wild.cpp\<close>: the matcher without captures
  (\<open>quick_wild\<close>), the one that fills the arguments \<open>%0\<close> to \<open>%9\<close> of a \<open>$\<close>-command
  (\<open>wild\<close>), and the lower-casing of the pattern by \<open>mux_strlwr\<close> (\<open>mux/lib/stringutil.cpp\<close>).

  A pointer into a string is the rest of the string from there.  The Unicode case tables
  are a parameter \<open>tolower\<close>: for the character in front of a string, nothing, or the bytes
  of the description with the flag whether they are a mask for exclusive or.  The counter
  of calls \<open>wild_invk_ctr\<close> is passed through the functions, its limit \<open>wild_invk_lim\<close> is a
  parameter.
\<close>

unbundle bit_operations_syntax

section \<open>Characters\<close>

type_synonym case_table = "bytes \<Rightarrow> (bytes \<times> bool) option"

definition UTF8_CONTINUE :: nat where "UTF8_CONTINUE = 5"

definition utf8_FirstByte :: "byte \<Rightarrow> nat" where
  "utf8_FirstByte b =
     (if b < 0x80 then 1 else if b < 0xC0 then 5 else if b < 0xC2 then 6 else if b < 0xE0 then 2
      else if b < 0xF0 then 3 else if b < 0xF5 then 4 else 6)"

definition mux_tolower_ascii :: "byte \<Rightarrow> byte" where
  "mux_tolower_ascii b = (if 0x41 \<le> b \<and> b \<le> 0x5A then b + 0x20 else b)"

definition is_continuation :: "byte \<Rightarrow> bool" where
  "is_continuation b \<longleftrightarrow> \<not> (b = 0 \<or> UTF8_CONTINUE \<noteq> utf8_FirstByte b)"

definition wild_char_len :: "bytes \<Rightarrow> nat" where
  "wild_char_len dstr =
     (if peek dstr = 0 then 0
      else
        (let t = utf8_FirstByte (peek dstr)
         in if UTF8_CONTINUE \<le> t then 0
            else if list_all (\<lambda>j. is_continuation (peek (drop j dstr))) [1 ..< t] then t else 0))"

text \<open>Comparing bytes with the string in front; behind its end it reads as NUL.\<close>

fun bytes_match :: "bytes \<Rightarrow> bytes \<Rightarrow> bool" where
  "bytes_match tstr [] = True"
| "bytes_match tstr (f # fs) = (peek tstr = f \<and> bytes_match (tl tstr) fs)"

definition folded :: "case_table \<Rightarrow> bytes \<Rightarrow> nat \<Rightarrow> bytes" where
  "folded tolower dstr dlen =
     (case tolower dstr of
        None \<Rightarrow> take dlen dstr
      | Some (p, bXor) \<Rightarrow>
          (if bXor then (if length p = dlen then map2 (XOR) (take dlen dstr) p else take dlen dstr)
           else p))"

text \<open>On a match, the bytes to advance in the data and in the pattern.\<close>

definition wild_lit_eq :: "case_table \<Rightarrow> bytes \<Rightarrow> bytes \<Rightarrow> (nat \<times> nat) option" where
  "wild_lit_eq tolower tstr dstr =
     (let dc = peek dstr
      in if dc < 0x80 then
           (if mux_tolower_ascii dc \<noteq> peek tstr then None else Some (1, 1))
         else
           (let dlen = wild_char_len dstr
            in if dlen = 0 then None
               else
                 (let fold = folded tolower dstr dlen
                  in if bytes_match tstr fold then Some (dlen, length fold) else None)))"

text \<open>The step over a whole character, or over one byte of a malformed one.\<close>

definition wild_next :: "bytes \<Rightarrow> bytes" where
  "wild_next dstr = (let t = wild_char_len dstr in drop (if t \<noteq> 0 then t else 1) dstr)"

section \<open>Matching without captures\<close>

text \<open>The wildcards behind a star: the rest of the pattern and of the data.\<close>

fun skip_wildcards :: "bytes \<Rightarrow> bytes \<Rightarrow> (bytes \<times> bytes) option" where
  "skip_wildcards (c # tstr) dstr =
     (if c = 0x3F then
        (let t = wild_char_len dstr
         in if t = 0 then None else skip_wildcards tstr (drop t dstr))
      else if c = 0x2A then skip_wildcards tstr dstr
      else Some (c # tstr, dstr))"
| "skip_wildcards [] dstr = Some ([], dstr)"

definition skip_backslash :: "bytes \<Rightarrow> bytes" where
  "skip_backslash tstr = (if peek tstr = 0x5C then tl tstr else tstr)"

lemma wild_char_len_less: "wild_char_len d \<noteq> 0 \<Longrightarrow> d \<noteq> []"
  by (auto simp: wild_char_len_def)

lemma wild_lit_eq_advances: "wild_lit_eq lc t d = Some (n, k) \<Longrightarrow> 0 < n"
  by (auto simp: wild_lit_eq_def Let_def split: if_splits)

lemma wild_next_less: "peek d \<noteq> 0 \<Longrightarrow> length (wild_next d) < length d"
  by (cases d) (auto simp: wild_next_def Let_def)

lemma peek_nonzero: "peek d \<noteq> 0 \<Longrightarrow> 0 < length d"
  by (cases d) auto

lemma skip_wildcards_less: "skip_wildcards t d = Some (t', d') \<Longrightarrow> length t' \<le> length t \<and> length d' \<le> length d"
proof (induction t d rule: skip_wildcards.induct)
  case (1 c t d)
  then show ?case by (auto simp: Let_def split: if_splits)
qed simp

lemma skip_backslash_less: "length (skip_backslash t) \<le> length t"
  by (simp add: skip_backslash_def)

lemma star_less:
  "peek t = 0x2A \<Longrightarrow> skip_wildcards (tl t) d = Some (t', d') \<Longrightarrow> length (skip_backslash t') + length d' < length t + length d"
  using skip_wildcards_less [of "tl t" d t' d'] skip_backslash_less [of t'] by (cases t) auto

lemma question_less:
  "peek t = 0x3F \<Longrightarrow> length (tl t) + length (drop k d) < length t + length d"
  by (cases t) auto

lemma literal_less:
  "wild_lit_eq lc u d = Some (n, k) \<Longrightarrow> peek d \<noteq> 0 \<Longrightarrow> length u \<le> length t \<Longrightarrow> length (drop k u) + length (drop n d) < length t + length d"
  by (drule wild_lit_eq_advances, drule peek_nonzero, intro add_le_less_mono) auto

text \<open>The matcher proper, its loop over the pattern up to a star, and the scan for the
  literal behind the star.  The result is the verdict and the counter.\<close>

function (sequential) quick_wild_impl :: "case_table \<Rightarrow> nat \<Rightarrow> nat \<Rightarrow> bytes \<Rightarrow> bytes \<Rightarrow> bool \<times> nat"
  and quick_wild_loop :: "case_table \<Rightarrow> nat \<Rightarrow> nat \<Rightarrow> bytes \<Rightarrow> bytes \<Rightarrow> bool \<times> nat"
  and quick_wild_scan :: "case_table \<Rightarrow> nat \<Rightarrow> nat \<Rightarrow> bytes \<Rightarrow> bytes \<Rightarrow> bool \<times> nat" where
  "quick_wild_impl tolower lim ctr tstr dstr =
     (if ctr \<ge> lim then (False, ctr) else quick_wild_loop tolower lim (ctr + 1) tstr dstr)"
| "quick_wild_loop tolower lim ctr tstr dstr =
     (if peek tstr = 0x2A then
        (if peek (tl tstr) = 0 then (True, ctr)
         else
           (case skip_wildcards (tl tstr) dstr of
              None \<Rightarrow> (False, ctr)
            | Some (tstr', dstr') \<Rightarrow>
                (if peek (skip_backslash tstr') = 0 then (True, ctr)
                 else quick_wild_scan tolower lim ctr (skip_backslash tstr') dstr')))
      else if peek tstr = 0x3F then
        (if wild_char_len dstr = 0 then (False, ctr)
         else quick_wild_loop tolower lim ctr (tl tstr) (drop (wild_char_len dstr) dstr))
      else
        (case wild_lit_eq tolower (skip_backslash tstr) dstr of
           None \<Rightarrow> (False, ctr)
         | Some (dlen, tlen) \<Rightarrow>
             (if peek dstr = 0 then (True, ctr)
              else quick_wild_loop tolower lim ctr (drop tlen (skip_backslash tstr)) (drop dlen dstr))))"
| "quick_wild_scan tolower lim ctr tstr dstr =
     (if peek dstr = 0 then (False, ctr)
      else
        (case wild_lit_eq tolower tstr dstr of
           None \<Rightarrow> quick_wild_scan tolower lim ctr tstr (wild_next dstr)
         | Some (dlen, tlen) \<Rightarrow>
             (case quick_wild_impl tolower lim ctr (drop tlen tstr) (drop dlen dstr) of
                (True, ctr') \<Rightarrow> (True, ctr')
              | (False, ctr') \<Rightarrow> quick_wild_scan tolower lim ctr' tstr (wild_next dstr))))"
  by pat_completeness auto
termination
proof (relation "measure (\<lambda>x. case x of
        Inl (_, _, _, t, d) \<Rightarrow> 2 * (length t + length d) + 1
      | Inr (Inl (_, _, _, t, d)) \<Rightarrow> 2 * (length t + length d)
      | Inr (Inr (_, _, _, t, d)) \<Rightarrow> 2 * (length t + length d))", goal_cases)
  case (3 tolower lim ctr t d x a b)
  then show ?case using star_less [of t d a b] by simp
next
  case (4 tolower lim ctr t d)
  then show ?case using question_less [of t "wild_char_len d" d] by simp
next
  case (5 tolower lim ctr t d x a b)
  then show ?case using literal_less [of tolower "skip_backslash t" d a b t] skip_backslash_less by simp
next
  case (7 tolower lim ctr t d x a b)
  then show ?case using literal_less [of tolower t d a b t] by simp
qed (auto dest: wild_next_less)

section \<open>Lower-casing the pattern\<close>

definition strlwr_src :: "bytes \<Rightarrow> nat" where
  "strlwr_src a =
     (let src = utf8_FirstByte (peek a)
      in if src \<ge> UTF8_CONTINUE then 1
         else if list_all (\<lambda>j. is_continuation (peek (drop j a))) [1 ..< src] then src else 1)"

lemma strlwr_src_pos: "0 < strlwr_src a"
  by (simp add: strlwr_src_def Let_def utf8_FirstByte_def)

function mux_strlwr_loop :: "case_table \<Rightarrow> bytes \<Rightarrow> bytes \<Rightarrow> bytes" where
  "mux_strlwr_loop tolower a Buffer =
     (if peek a = 0 then Buffer
      else
        (let src = strlwr_src a; out = folded tolower a src
         in if LBUF_SIZE - 1 < length Buffer + length out then Buffer
            else mux_strlwr_loop tolower (drop src a) (Buffer @ out)))"
  by pat_completeness auto
termination
  by (relation "measure (\<lambda>(_, a, _). length a)") (auto simp: strlwr_src_pos dest: peek_nonzero)

definition mux_strlwr :: "case_table \<Rightarrow> bytes \<Rightarrow> bytes" where
  "mux_strlwr tolower a = mux_strlwr_loop tolower a []"

definition LoweredPattern :: "case_table \<Rightarrow> bytes \<Rightarrow> bytes" where
  "LoweredPattern tolower tstr = take (LBUF_SIZE - 1) (mux_strlwr tolower tstr)"

definition quick_wild :: "case_table \<Rightarrow> nat \<Rightarrow> nat \<Rightarrow> bytes \<Rightarrow> bytes \<Rightarrow> bool \<times> nat" where
  "quick_wild tolower lim ctr tstr dstr = quick_wild_impl tolower lim ctr (LoweredPattern tolower tstr) dstr"

section \<open>Matching with captures\<close>

text \<open>The bytes of the one character at \<open>pp\<close>, and the rest.\<close>

definition wild_capture_char :: "bytes \<Rightarrow> bytes \<times> bytes" where
  "wild_capture_char pp =
     (let t = utf8_FirstByte (peek pp); t = (if UTF8_CONTINUE \<le> t then 1 else t)
      in (take t pp, drop t pp))"

text \<open>Stepping back from the end of the bytes between \<open>lo\<close> and \<open>p\<close>, given in reverse.\<close>

fun step_back_char :: "bytes \<Rightarrow> bytes" where
  "step_back_char [] = []"
| "step_back_char (c # cs) =
     (if cs \<noteq> [] \<and> utf8_FirstByte c = UTF8_CONTINUE then step_back_char cs else cs)"

fun wild_step_back :: "bytes \<Rightarrow> nat \<Rightarrow> bytes" where
  "wild_step_back p 0 = p"
| "wild_step_back p (Suc n) = (if p = [] then p else wild_step_back (step_back_char p) n)"

text \<open>Filling \<open>n\<close> arguments with a character each.  The flag tells that the last argument
  was reached.\<close>

fun fill_questions :: "nat \<Rightarrow> nat \<Rightarrow> bytes list \<Rightarrow> nat \<Rightarrow> bytes \<Rightarrow> bytes list \<times> nat \<times> bytes \<times> bool" where
  "fill_questions nargs 0 args argpos datapos = (args, argpos, datapos, False)"
| "fill_questions nargs (Suc n) args argpos datapos =
     (let (ch, datapos) = wild_capture_char datapos;
          args = args[argpos := ch];
          argpos = argpos + 1
      in if argpos \<ge> nargs then (args, argpos, datapos, True)
         else fill_questions nargs n args argpos datapos)"

text \<open>The question marks behind a star: the rest of the pattern and of the data, and their
  number.\<close>

fun skip_questions :: "bytes \<Rightarrow> bytes \<Rightarrow> nat \<Rightarrow> (bytes \<times> bytes \<times> nat) option" where
  "skip_questions (c # tstr) dstr numextra =
     (if c = 0x3F then
        (let t = wild_char_len dstr
         in if t = 0 then None else skip_questions tstr (drop t dstr) (numextra + 1))
      else Some (c # tstr, dstr, numextra))"
| "skip_questions [] dstr numextra = Some ([], dstr, numextra)"

lemma skip_questions_less: "skip_questions t d n = Some (t', d', n') \<Longrightarrow> length t' \<le> length t \<and> length d' \<le> length d"
proof (induction t d n rule: skip_questions.induct)
  case (1 c t d n)
  then show ?case by (auto simp: Let_def split: if_splits)
qed simp

text \<open>What the scan forward to a non-wildcard ends with: a failure, a jump to the fast
  routine, or a literal to look for.\<close>

datatype wildcards =
  WFail
| WQuick bytes bytes
| WAnchor (w_tstr: bytes) (w_dstr: bytes) (w_arg: nat) (w_argpos: nat) (w_datapos: bytes) (w_numextra: nat)

definition fill_star :: "nat \<Rightarrow> bytes list \<Rightarrow> nat \<Rightarrow> nat \<Rightarrow> bytes \<Rightarrow> bytes list \<times> nat \<times> bytes \<times> bool" where
  "fill_star nargs args arg argpos datapos =
     (if argpos < arg then
        (let args = args[argpos := []]; argpos = argpos + 1
         in if argpos \<ge> nargs then (args, argpos, datapos, True)
            else fill_questions nargs (arg - argpos) args argpos datapos)
      else (args, argpos, datapos, False))"

function (sequential) wild1_wildcards ::
    "nat \<Rightarrow> bytes list \<Rightarrow> bytes \<Rightarrow> bytes \<Rightarrow> nat \<Rightarrow> nat \<Rightarrow> bytes \<Rightarrow> bytes list \<times> wildcards" where
  "wild1_wildcards nargs args tstr dstr arg argpos datapos =
     (case fill_star nargs args arg argpos datapos of (args, argpos, datapos, full) \<Rightarrow>
        if full then (args, WQuick tstr dstr)
        else
          (case skip_questions (tl tstr) dstr 0 of
             None \<Rightarrow> (args, WFail)
           | Some (tstr', dstr', numextra) \<Rightarrow>
               (let arg = arg + 1 + numextra
                in if peek tstr' = 0x2A then wild1_wildcards nargs args tstr' dstr' arg argpos datapos
                   else (args, WAnchor tstr' dstr' arg argpos datapos numextra))))"
  by pat_completeness auto
termination
proof (relation "measure (\<lambda>(_, _, t, _). length t)", goal_cases)
  case (2 nargs args t d arg argpos datapos)
  then show ?case by (cases t) (auto dest!: skip_questions_less)
qed simp

declare wild1_wildcards.simps [simp del]

definition fill_result :: "nat \<Rightarrow> bytes list \<Rightarrow> nat \<Rightarrow> bytes \<Rightarrow> nat \<Rightarrow> bytes \<Rightarrow> bytes list" where
  "fill_result nargs args argpos datapos numextra dstr =
     (let passed = take (length datapos - length dstr) datapos;
          kept = length (wild_step_back (rev passed) numextra);
          args = args[argpos := takeWhile (\<lambda>c. c \<noteq> 0) (take kept datapos)];
          argpos = argpos + 1
      in if argpos \<ge> nargs then args
         else fst (fill_questions nargs numextra args argpos (drop kept datapos)))"

lemma wild1_wildcards_less:
  "wild1_wildcards nargs args t d arg argpos dp = (args', WAnchor t' d' arg' argpos' dp' k) \<Longrightarrow> t \<noteq> [] \<Longrightarrow>
     length t' < length t \<and> length d' \<le> length d"
proof (induction nargs args t d arg argpos dp rule: wild1_wildcards.induct)
  case (1 nargs args t d arg argpos dp)
  obtain a2 p2 dp2 full where f: "fill_star nargs args arg argpos dp = (a2, p2, dp2, full)" by (cases "fill_star nargs args arg argpos dp") auto
  from "1.prems" f obtain t2 d2 k2 where s: "\<not> full" "skip_questions (tl t) d 0 = Some (t2, d2, k2)"
    by (subst (asm) wild1_wildcards.simps) (auto split: if_splits option.splits)
  have l: "length t2 < length t" "length d2 \<le> length d" using skip_questions_less [OF s(2)] "1.prems"(2) by (cases t; auto)+
  show ?case
  proof (cases "peek t2 = 0x2A")
    case True
    then have "t2 \<noteq> []" by auto
    with "1.IH" [OF f [symmetric] refl refl _ s(2) refl refl refl True] True "1.prems" f s l show ?thesis
      by (subst (asm) (2) wild1_wildcards.simps) (auto simp: Let_def)
  next
    case False
    with "1.prems" f s l show ?thesis by (subst (asm) wild1_wildcards.simps) (auto simp: Let_def)
  qed
qed

lemma anchor_less:
  "(args', WAnchor t' d' arg' argpos' dp' k) = wild1_wildcards nargs args t d arg argpos dp \<Longrightarrow> peek t = 0x2A \<Longrightarrow>
     length (skip_backslash t') + length d' < length t + length d"
  by (drule sym, drule wild1_wildcards_less) (use skip_backslash_less [of t'] in \<open>auto simp: peek_def\<close>)

text \<open>The matcher, its loop over the pattern up to a star, and the loop that looks for the
  literal behind the star.  The result is the verdict, the counter and the arguments.\<close>

function (sequential) wild1 :: "case_table \<Rightarrow> nat \<Rightarrow> nat \<Rightarrow> nat \<Rightarrow> bytes list \<Rightarrow> bytes \<Rightarrow> bytes \<Rightarrow> nat \<Rightarrow> bool \<times> nat \<times> bytes list"
  and wild1_loop :: "case_table \<Rightarrow> nat \<Rightarrow> nat \<Rightarrow> nat \<Rightarrow> bytes list \<Rightarrow> bytes \<Rightarrow> bytes \<Rightarrow> nat \<Rightarrow> bool \<times> nat \<times> bytes list"
  and wild1_scan :: "case_table \<Rightarrow> nat \<Rightarrow> nat \<Rightarrow> nat \<Rightarrow> bytes list \<Rightarrow> bytes \<Rightarrow> bytes \<Rightarrow> nat \<Rightarrow> nat \<Rightarrow> bytes \<Rightarrow> nat \<Rightarrow> bool \<times> nat \<times> bytes list" where
  "wild1 tolower lim nargs ctr args tstr dstr arg =
     (if ctr \<ge> lim then (False, ctr, args) else wild1_loop tolower lim nargs (ctr + 1) args tstr dstr arg)"
| "wild1_loop tolower lim nargs ctr args tstr dstr arg =
     (if peek tstr = 0x2A then
        (if peek (tl tstr) = 0 then (True, ctr, args[arg := takeWhile (\<lambda>c. c \<noteq> 0) (take (LBUF_SIZE - 1) dstr)])
         else
           (case wild1_wildcards nargs args tstr dstr arg arg dstr of
              (args', WFail) \<Rightarrow> (False, ctr, args')
            | (args', WQuick tstr' dstr') \<Rightarrow>
                (let (value, ctr') = quick_wild_impl tolower lim ctr tstr' dstr' in (value, ctr', args'))
            | (args', WAnchor tstr' dstr' arg' argpos datapos numextra) \<Rightarrow>
                wild1_scan tolower lim nargs ctr args' (skip_backslash tstr') dstr' arg' argpos datapos numextra))
      else if peek tstr = 0x3F then
        (let t = wild_char_len dstr
         in if t = 0 then (False, ctr, args)
            else
              (let args = args[arg := take t dstr]
               in if arg + 1 \<ge> nargs then
                    (let (value, ctr') = quick_wild_impl tolower lim ctr (tl tstr) (drop t dstr) in (value, ctr', args))
                  else wild1_loop tolower lim nargs ctr args (tl tstr) (drop t dstr) (arg + 1)))
      else
        (case wild_lit_eq tolower (skip_backslash tstr) dstr of
           None \<Rightarrow> (False, ctr, args)
         | Some (dlen, tlen) \<Rightarrow>
             (if peek dstr = 0 then (True, ctr, args)
              else wild1_loop tolower lim nargs ctr args (drop tlen (skip_backslash tstr)) (drop dlen dstr) arg)))"
| "wild1_scan tolower lim nargs ctr args tstr dstr arg argpos datapos numextra =
     (if peek tstr = 0 then
        (True, ctr, fill_result nargs args argpos datapos numextra (dropWhile (\<lambda>c. c \<noteq> 0) dstr))
      else
        (case wild_lit_eq tolower tstr dstr of
           None \<Rightarrow>
             (if peek dstr = 0 then (False, ctr, args)
              else wild1_scan tolower lim nargs ctr args tstr (wild_next dstr) arg argpos datapos numextra)
         | Some (dlen, tlen) \<Rightarrow>
             (if peek dstr = 0 then (True, ctr, fill_result nargs args argpos datapos numextra dstr)
              else
                (case (if arg < nargs then wild1 tolower lim nargs ctr args (drop tlen tstr) (drop dlen dstr) arg
                       else (let (value, ctr') = quick_wild_impl tolower lim ctr (drop tlen tstr) (drop dlen dstr)
                             in (value, ctr', args))) of
                   (True, ctr', args') \<Rightarrow> (True, ctr', fill_result nargs args' argpos datapos numextra dstr)
                 | (False, ctr', args') \<Rightarrow>
                     wild1_scan tolower lim nargs ctr' args' tstr (wild_next dstr) arg argpos datapos numextra))))"
  by pat_completeness auto
termination
proof (relation "measure (\<lambda>x. case x of
        Inl (_, _, _, _, _, t, d, _) \<Rightarrow> 2 * (length t + length d) + 1
      | Inr (Inl (_, _, _, _, _, t, d, _)) \<Rightarrow> 2 * (length t + length d)
      | Inr (Inr (_, _, _, _, _, t, d, _)) \<Rightarrow> 2 * (length t + length d))", goal_cases)
  case 3
  then show ?case by (auto dest!: anchor_less)
next
  case (4 tolower lim nargs ctr args t d arg)
  then show ?case using question_less [of t "wild_char_len d" d] by simp
next
  case (5 tolower lim nargs ctr args t d arg x a b)
  then show ?case using literal_less [of tolower "skip_backslash t" d a b t] skip_backslash_less by simp
next
  case (7 tolower lim nargs ctr args t d arg argpos dp k x a b)
  then show ?case using literal_less [of tolower t d a b t] by simp
qed (auto dest: wild_next_less)

section \<open>The entry point\<close>

text \<open>The literals in front of the first wildcard: a verdict, or the rest of both strings.\<close>

function wild_fast :: "case_table \<Rightarrow> bytes \<Rightarrow> bytes \<Rightarrow> bool + (bytes \<times> bytes)" where
  "wild_fast tolower lt dstr =
     (if peek lt = 0x2A \<or> peek lt = 0x3F then Inr (lt, dstr)
      else
        (case wild_lit_eq tolower (skip_backslash lt) dstr of
           None \<Rightarrow> Inl False
         | Some (dlen, tlen) \<Rightarrow>
             (if peek dstr = 0 then Inl True
              else wild_fast tolower (drop tlen (skip_backslash lt)) (drop dlen dstr))))"
  by pat_completeness auto
termination
proof (relation "measure (\<lambda>(_, _, d). length d)", goal_cases)
  case (2 tolower lt d x a b)
  then show ?case using wild_lit_eq_advances [of tolower "skip_backslash lt" d a b] by (cases d) auto
qed simp

definition is_wildcard :: "byte \<Rightarrow> bool" where
  "is_wildcard c \<longleftrightarrow> c = 0x3F \<or> c = 0x2A"

text \<open>The verdict, the counter, and the arguments: the buffers that hold something after a
  match, the others freed.\<close>

definition wild :: "case_table \<Rightarrow> nat \<Rightarrow> bytes \<Rightarrow> bytes \<Rightarrow> nat \<Rightarrow> bool \<times> nat \<times> bytes option list" where
  "wild tolower lim tstr dstr nargs =
     (case wild_fast tolower (LoweredPattern tolower tstr) dstr of
        Inl value \<Rightarrow> (value, 0, replicate nargs None)
      | Inr (lt, dstr') \<Rightarrow>
          (let allocated = min nargs (length (filter is_wildcard (takeWhile (\<lambda>c. c \<noteq> 0) lt)));
               (value, ctr, arglist) =
                 (if nargs \<noteq> 0 then wild1 tolower lim nargs 0 (replicate nargs []) lt dstr' 0
                  else (let (value, ctr) = quick_wild_impl tolower lim 0 lt dstr' in (value, ctr, [])))
           in (value, ctr,
               map (\<lambda>i. if i < allocated \<and> arglist ! i \<noteq> [] \<and> value then Some (arglist ! i) else None) [0 ..< nargs])))"

declare quick_wild_impl.simps [simp del] quick_wild_loop.simps [simp del] quick_wild_scan.simps [simp del]
  wild1.simps [simp del] wild1_loop.simps [simp del] wild1_scan.simps [simp del]
  wild_fast.simps [simp del] mux_strlwr_loop.simps [simp del]

section \<open>Well-formed data\<close>

text \<open>A text of whole UTF-8 characters.\<close>

function wf_text :: "bytes \<Rightarrow> bool" where
  "wf_text d =
     (if d = [] then True else if wild_char_len d = 0 then False else wf_text (drop (wild_char_len d) d))"
  by pat_completeness auto
termination by (relation "measure length") auto

declare wf_text.simps [simp del]

lemma wf_text_Nil [simp]: "wf_text []"
  by (subst wf_text.simps) simp

lemma wild_char_len_Nil [simp]: "wild_char_len [] = 0"
  by (simp add: wild_char_len_def)

lemma wild_char_len_le: "wild_char_len d \<le> length d"
proof (rule ccontr)
  assume "\<not> wild_char_len d \<le> length d"
  then have t: "length d < utf8_FirstByte (peek d)" "d \<noteq> []"
    "list_all (\<lambda>j. is_continuation (peek (drop j d))) [1 ..< utf8_FirstByte (peek d)]"
    by (auto simp: wild_char_len_def Let_def split: if_splits)
  then have "length d \<in> set [1 ..< utf8_FirstByte (peek d)]" by (cases d) auto
  with t(3) have "is_continuation (peek (drop (length d) d))" unfolding list_all_iff by blast
  then show False by (simp add: is_continuation_def)
qed

lemma wf_text_step:
  assumes "wf_text d" "d \<noteq> []"
  shows "peek d \<noteq> 0" "wild_char_len d \<noteq> 0" "wild_next d = drop (wild_char_len d) d" "wf_text (wild_next d)"
    "length (wild_next d) < length d"
proof -
  have w: "wild_char_len d \<noteq> 0" "wf_text (drop (wild_char_len d) d)" using assms wf_text.simps [of d] by (simp_all split: if_splits)
  then show "wild_char_len d \<noteq> 0" "wild_next d = drop (wild_char_len d) d" "wf_text (wild_next d)"
    by (simp_all add: wild_next_def)
  show p: "peek d \<noteq> 0" using w(1) by (auto simp: wild_char_len_def)
  show "length (wild_next d) < length d" using p by (rule wild_next_less)
qed

lemma wf_text_peek: "wf_text d \<Longrightarrow> peek d = 0 \<longleftrightarrow> d = []"
  using wf_text_step(1) by auto

lemma FirstByte_ascii: "b < 0x80 \<Longrightarrow> utf8_FirstByte b = 1"
  by (simp add: utf8_FirstByte_def)

lemma lit_eq_length:
  assumes "wild_lit_eq lc t d = Some (n, k)" "d \<noteq> []" "wf_text d"
  shows "n = wild_char_len d" "drop n d = wild_next d"
proof -
  have "peek d < 0x80 \<Longrightarrow> wild_char_len d = 1"
    using wf_text_step(1) [OF assms(3,2)] by (simp add: wild_char_len_def FirstByte_ascii UTF8_CONTINUE_def)
  then show "n = wild_char_len d" using assms(1) by (auto simp: wild_lit_eq_def Let_def split: if_splits)
  then show "drop n d = wild_next d" using wf_text_step(3) [OF assms(3,2)] by simp
qed

lemma lit_eq_Nil: "wild_lit_eq lc t [] = (if peek t = 0 then Some (1, 1) else None)"
  by (auto simp: wild_lit_eq_def mux_tolower_ascii_def)

text \<open>Positions further on in a text.\<close>

inductive reach :: "bytes \<Rightarrow> bytes \<Rightarrow> bool" where
  reach_refl: "reach d d"
| reach_step: "d \<noteq> [] \<Longrightarrow> reach (wild_next d) e \<Longrightarrow> reach d e"

inductive_cases reach_NilE: "reach [] e"

lemma reach_trans: "reach d e \<Longrightarrow> reach e f \<Longrightarrow> reach d f"
  by (induction rule: reach.induct) (auto intro: reach.intros)

lemma reach_wf: "reach d e \<Longrightarrow> wf_text d \<Longrightarrow> wf_text e"
  by (induction rule: reach.induct) (auto dest: wf_text_step(4))

lemma reach_iff: "reach d e \<longleftrightarrow> d = e \<or> d \<noteq> [] \<and> reach (wild_next d) e"
  by (subst reach.simps) auto

lemma reach_end: "wf_text d \<Longrightarrow> reach d []"
proof (induction "length d" arbitrary: d rule: less_induct)
  case less
  then show ?case using wf_text_step(4,5) [of d] by (subst reach_iff) auto
qed

lemma reach_next: "reach d e \<Longrightarrow> e \<noteq> [] \<Longrightarrow> d \<noteq> [] \<and> reach (wild_next d) (wild_next e)"
proof (induction rule: reach.induct)
  case (reach_step d e)
  then show ?case using reach.intros by blast
qed (auto intro: reach.intros)

lemma reach_before: "reach (wild_next d) e \<Longrightarrow> d \<noteq> [] \<Longrightarrow> \<exists>f. reach d f \<and> f \<noteq> [] \<and> wild_next f = e"
proof (induction "wild_next d" e arbitrary: d rule: reach.induct)
  case reach_refl
  then show ?case by (auto intro: reach.intros)
next
  case (reach_step e)
  then show ?case using reach.reach_step by blast
qed

section \<open>The reference matcher\<close>

text \<open>A star matches any number of characters, tried one after the other.\<close>

function glob :: "case_table \<Rightarrow> bytes \<Rightarrow> bytes \<Rightarrow> bool" where
  "glob lc t d =
     (if peek t = 0x2A then glob lc (tl t) d \<or> (if peek d = 0 then False else glob lc t (wild_next d))
      else if peek t = 0x3F then
        (if wild_char_len d = 0 then False else glob lc (tl t) (drop (wild_char_len d) d))
      else
        (case wild_lit_eq lc (skip_backslash t) d of
           None \<Rightarrow> False
         | Some (n, k) \<Rightarrow> if peek d = 0 then True else glob lc (drop k (skip_backslash t)) (drop n d)))"
  by pat_completeness auto
termination
proof (relation "measure (\<lambda>(_, t, d). length t + length d)", goal_cases)
  case (2 lc t d)
  then show ?case by (cases t) auto
next
  case (3 lc t d)
  then show ?case using wild_next_less by simp
next
  case (4 lc t d)
  then show ?case using question_less [of t "wild_char_len d" d] by simp
next
  case (5 lc t d x n k)
  then show ?case using literal_less [of lc "skip_backslash t" d n k t] skip_backslash_less by simp
qed simp

declare glob.simps [simp del]

definition star_glob :: "case_table \<Rightarrow> bytes \<Rightarrow> bytes \<Rightarrow> bool" where
  "star_glob lc t d \<longleftrightarrow> (\<exists>e. reach d e \<and> glob lc t e)"

lemma glob_star: "wf_text d \<Longrightarrow> peek t = 0x2A \<Longrightarrow> glob lc t d \<longleftrightarrow> star_glob lc (tl t) d"
proof (induction "length d" arbitrary: d rule: less_induct)
  case less
  have "glob lc t d \<longleftrightarrow> glob lc (tl t) d \<or> peek d \<noteq> 0 \<and> glob lc t (wild_next d)"
    using less.prems by (subst glob.simps) simp
  also have "\<dots> \<longleftrightarrow> glob lc (tl t) d \<or> d \<noteq> [] \<and> star_glob lc (tl t) (wild_next d)"
    using less.hyps [of "wild_next d"] less.prems wf_text_step(4,5) [of d] wf_text_peek [of d] by auto
  also have "\<dots> \<longleftrightarrow> star_glob lc (tl t) d"
    unfolding star_glob_def by (subst (2) reach_iff) blast
  finally show ?case .
qed

lemma glob_question:
  "wf_text d \<Longrightarrow> peek t = 0x3F \<Longrightarrow> glob lc t d \<longleftrightarrow> d \<noteq> [] \<and> glob lc (tl t) (wild_next d)"
  using wf_text_step(2,3) [of d] by (cases "d = []"; subst glob.simps) auto

lemma glob_end: "\<not> is_wildcard (peek t) \<Longrightarrow> glob lc t [] \<longleftrightarrow> peek (skip_backslash t) = 0"
  by (subst glob.simps) (simp add: is_wildcard_def lit_eq_Nil)

lemma glob_literal:
  "wf_text d \<Longrightarrow> d \<noteq> [] \<Longrightarrow> \<not> is_wildcard (peek t) \<Longrightarrow>
     glob lc t d \<longleftrightarrow> (\<exists>n k. wild_lit_eq lc (skip_backslash t) d = Some (n, k) \<and> glob lc (drop k (skip_backslash t)) (wild_next d))"
  using wf_text_step(1) [of d] lit_eq_length(2) [of lc "skip_backslash t" d]
  by (subst glob.simps) (auto simp: is_wildcard_def split: option.splits)

section \<open>The fast matcher agrees with the reference\<close>

lemma star_glob_star: "wf_text d \<Longrightarrow> peek t = 0x2A \<Longrightarrow> star_glob lc t d \<longleftrightarrow> star_glob lc (tl t) d"
  unfolding star_glob_def using glob_star [of _ t lc] reach_wf [of d] reach_trans reach_refl
  unfolding star_glob_def by blast

lemma star_glob_question:
  assumes "wf_text d" "peek t = 0x3F"
  shows "star_glob lc t d \<longleftrightarrow> d \<noteq> [] \<and> star_glob lc (tl t) (wild_next d)"
  unfolding star_glob_def using glob_question [OF reach_wf [OF _ assms(1)] assms(2)] reach_next reach_before by metis

lemma skip_wildcards_glob:
  "wf_text d \<Longrightarrow>
     (case skip_wildcards t d of
        None \<Rightarrow> \<not> star_glob lc t d
      | Some (t', d') \<Rightarrow> wf_text d' \<and> (star_glob lc t d \<longleftrightarrow> star_glob lc t' d') \<and> \<not> is_wildcard (peek t'))"
proof (induction t d rule: skip_wildcards.induct)
  case (1 c t d)
  consider "c = 0x3F" "d = []" | "c = 0x3F" "d \<noteq> []" | "c = 0x2A" | "\<not> is_wildcard c" by (auto simp: is_wildcard_def)
  then show ?case
  proof cases
    case 1
    then show ?thesis using star_glob_question [of "[]" "c # t" lc] by simp
  next
    case 2
    then show ?thesis
      using "1.IH"(1) [OF _ refl] "1.prems" wf_text_step(2-4) [OF "1.prems"] star_glob_question [OF "1.prems", of "c # t" lc]
      by (auto simp: Let_def split: option.splits)
  next
    case 3
    then show ?thesis using "1.IH"(2) "1.prems" star_glob_star [OF "1.prems", of "c # t" lc] by (auto split: option.splits)
  next
    case 4
    then show ?thesis using "1.prems" by (auto simp: is_wildcard_def)
  qed
qed (simp add: is_wildcard_def)

text \<open>A literal somewhere in the data, with a match of the rest behind it.\<close>

definition anchored :: "case_table \<Rightarrow> bytes \<Rightarrow> bytes \<Rightarrow> bool" where
  "anchored lc u d \<longleftrightarrow>
     (\<exists>e n k. reach d e \<and> e \<noteq> [] \<and> wild_lit_eq lc u e = Some (n, k) \<and> glob lc (drop k u) (wild_next e))"

lemma anchored_step:
  "anchored lc u d \<longleftrightarrow> d \<noteq> [] \<and>
     ((\<exists>n k. wild_lit_eq lc u d = Some (n, k) \<and> glob lc (drop k u) (wild_next d)) \<or> anchored lc u (wild_next d))"
  unfolding anchored_def by (subst reach_iff) (auto elim: reach_NilE)

lemma star_glob_end:
  assumes "wf_text d" "\<not> is_wildcard (peek t)" "peek (skip_backslash t) = 0"
  shows "star_glob lc t d"
  unfolding star_glob_def using reach_end [OF assms(1)] glob_end [OF assms(2)] assms(3) by blast

lemma star_glob_anchor:
  assumes "wf_text d" "\<not> is_wildcard (peek t)" "peek (skip_backslash t) \<noteq> 0"
  shows "star_glob lc t d \<longleftrightarrow> anchored lc (skip_backslash t) d"
  unfolding star_glob_def anchored_def
  using glob_literal [OF reach_wf [OF _ assms(1)] _ assms(2)] glob_end [OF assms(2)] assms(3) by metis

text \<open>A verdict with the counter after it decides a property: it is right when it is yes, and
  when it is no and the limit was not reached.\<close>

definition decides :: "nat \<Rightarrow> nat \<Rightarrow> bool \<Rightarrow> bool \<times> nat \<Rightarrow> bool" where
  "decides lim ctr P r \<longleftrightarrow> ctr \<le> snd r \<and> (fst r \<longrightarrow> P) \<and> (snd r < lim \<longrightarrow> \<not> fst r \<longrightarrow> \<not> P)"

lemma decides_simps [simp]:
  "decides lim ctr P (True, ctr) \<longleftrightarrow> P" "decides lim ctr P (False, ctr) \<longleftrightarrow> (ctr < lim \<longrightarrow> \<not> P)"
  by (simp_all add: decides_def)

lemma decides_Suc: "decides lim (Suc ctr) P r \<Longrightarrow> decides lim ctr P r"
  by (auto simp: decides_def)

lemma loop_star:
  assumes "wf_text d" "peek t = 0x2A"
    and scan: "\<And>t' d'. peek (tl t) \<noteq> 0 \<Longrightarrow> skip_wildcards (tl t) d = Some (t', d') \<Longrightarrow> peek (skip_backslash t') \<noteq> 0 \<Longrightarrow>
      wf_text d' \<Longrightarrow> decides lim ctr (anchored lc (skip_backslash t') d') (quick_wild_scan lc lim ctr (skip_backslash t') d')"
  shows "decides lim ctr (glob lc t d) (quick_wild_loop lc lim ctr t d)"
proof (cases "peek (tl t) = 0")
  case True
  then have "star_glob lc (tl t) d"
    using assms(1) by (intro star_glob_end) (auto simp: is_wildcard_def skip_backslash_def)
  then show ?thesis using True assms(2) glob_star [OF assms(1,2), of lc] by (simp add: quick_wild_loop.simps [of lc lim ctr t d])
next
  case False
  note g = glob_star [OF assms(1,2), of lc] and s = skip_wildcards_glob [OF assms(1), where t = "tl t" and lc = lc]
  show ?thesis
  proof (cases "skip_wildcards (tl t) d")
    case None
    then show ?thesis using False assms(2) s g by (simp add: quick_wild_loop.simps [of lc lim ctr t d])
  next
    case (Some p)
    obtain t' d' where p: "p = (t', d')" by (cases p)
    have w: "wf_text d'" "star_glob lc (tl t) d \<longleftrightarrow> star_glob lc t' d'" "\<not> is_wildcard (peek t')"
      using s by (simp_all add: Some p)
    then show ?thesis
      using False assms(2) Some p g scan [OF False Some [unfolded p] _ w(1)]
        star_glob_end [OF w(1,3), of lc] star_glob_anchor [OF w(1,3), of lc]
      by (cases "peek (skip_backslash t') = 0") (simp_all add: quick_wild_loop.simps [of lc lim ctr t d])
  qed
qed

lemma loop_question:
  assumes "wf_text d" "peek t = 0x3F"
    and rest: "d \<noteq> [] \<Longrightarrow> decides lim ctr (glob lc (tl t) (wild_next d)) (quick_wild_loop lc lim ctr (tl t) (wild_next d))"
  shows "decides lim ctr (glob lc t d) (quick_wild_loop lc lim ctr t d)"
  using rest assms(2) glob_question [OF assms(1,2), of lc] wf_text_step(2,3) [OF assms(1)]
  by (cases "d = []") (simp_all add: quick_wild_loop.simps [of lc lim ctr t d] quick_wild_loop.simps [of lc lim ctr t "[]"])

lemma loop_literal:
  assumes "wf_text d" "\<not> is_wildcard (peek t)"
    and rest: "\<And>n k. d \<noteq> [] \<Longrightarrow> wild_lit_eq lc (skip_backslash t) d = Some (n, k) \<Longrightarrow>
      decides lim ctr (glob lc (drop k (skip_backslash t)) (wild_next d))
        (quick_wild_loop lc lim ctr (drop k (skip_backslash t)) (wild_next d))"
  shows "decides lim ctr (glob lc t d) (quick_wild_loop lc lim ctr t d)"
proof (cases "d = []")
  case True
  then show ?thesis using assms(2) glob_end [OF assms(2), of lc]
    by (simp add: quick_wild_loop.simps [of lc lim ctr t "[]"] is_wildcard_def lit_eq_Nil)
next
  case False
  note g = glob_literal [OF assms(1) False assms(2), of lc] and w = wf_text_step(1) [OF assms(1) False]
  show ?thesis
  proof (cases "wild_lit_eq lc (skip_backslash t) d")
    case None
    then show ?thesis using assms(2) g by (simp add: quick_wild_loop.simps [of lc lim ctr t d] is_wildcard_def)
  next
    case (Some p)
    obtain n k where p: "p = (n, k)" by (cases p)
    then show ?thesis using assms(2) g Some w rest [OF False] lit_eq_length(2) [OF _ False assms(1)]
      by (simp add: quick_wild_loop.simps [of lc lim ctr t d] is_wildcard_def)
  qed
qed

lemma scan_step:
  assumes "wf_text d"
    and rest: "d \<noteq> [] \<Longrightarrow> wild_lit_eq lc t d = None \<Longrightarrow>
      decides lim ctr (anchored lc t (wild_next d)) (quick_wild_scan lc lim ctr t (wild_next d))"
    and here: "\<And>n k. d \<noteq> [] \<Longrightarrow> wild_lit_eq lc t d = Some (n, k) \<Longrightarrow>
      decides lim ctr (glob lc (drop k t) (wild_next d)) (quick_wild_impl lc lim ctr (drop k t) (wild_next d))"
    and further: "\<And>n k c. d \<noteq> [] \<Longrightarrow> wild_lit_eq lc t d = Some (n, k) \<Longrightarrow> quick_wild_impl lc lim ctr (drop k t) (wild_next d) = (False, c) \<Longrightarrow>
      decides lim c (anchored lc t (wild_next d)) (quick_wild_scan lc lim c t (wild_next d))"
  shows "decides lim ctr (anchored lc t d) (quick_wild_scan lc lim ctr t d)"
proof (cases "d = []")
  case True
  then show ?thesis using anchored_step [of lc t "[]"] by (simp add: quick_wild_scan.simps [of lc lim ctr t "[]"])
next
  case False
  note w = wf_text_step(1) [OF assms(1) False] and a = anchored_step [of lc t d]
  show ?thesis
  proof (cases "wild_lit_eq lc t d")
    case None
    then show ?thesis using rest [OF False None] a False w by (simp add: quick_wild_scan.simps [of lc lim ctr t d])
  next
    case (Some p)
    obtain n k where p: "p = (n, k)" by (cases p)
    note Some = Some [unfolded p]
    obtain v c where i: "quick_wild_impl lc lim ctr (drop k t) (wild_next d) = (v, c)" by fastforce
    have "quick_wild_scan lc lim ctr t d = (if v then (True, c) else quick_wild_scan lc lim c t (wild_next d))"
      using w Some i lit_eq_length(2) [OF Some False assms(1)]
      by (simp add: quick_wild_scan.simps [of lc lim ctr t d])
    then show ?thesis
      using here [OF False Some] further [OF False Some] i a Some False
      by (cases v) (auto simp: decides_def)
  qed
qed

lemma quick_wild_glob:
  "wf_text d \<Longrightarrow> decides lim ctr (glob lc t d) (quick_wild_impl lc lim ctr t d)"
  "wf_text d \<Longrightarrow> decides lim ctr (glob lc t d) (quick_wild_loop lc lim ctr t d)"
  "wf_text d \<Longrightarrow> decides lim ctr (anchored lc t d) (quick_wild_scan lc lim ctr t d)"
proof (induction lc lim ctr t d and lc lim ctr t d and lc lim ctr t d
    rule: quick_wild_impl_quick_wild_loop_quick_wild_scan.induct)
  case (1 lc lim ctr t d)
  then show ?case by (cases "ctr \<ge> lim") (auto simp: quick_wild_impl.simps intro: decides_Suc)
next
  case (2 lc lim ctr t d)
  consider "peek t = 0x2A" | "peek t = 0x3F" | "\<not> is_wildcard (peek t)" by (auto simp: is_wildcard_def)
  then show ?case
  proof cases
    case 1
    show ?thesis by (rule loop_star [OF "2.prems" 1]) (rule "2.IH"(1) [OF 1 _ _ refl])
  next
    case 2
    show ?thesis
    proof (rule loop_question [OF "2.prems" 2])
      assume d: "d \<noteq> []"
      note w = wf_text_step [OF "2.prems" d]
      show "decides lim ctr (glob lc (tl t) (wild_next d)) (quick_wild_loop lc lim ctr (tl t) (wild_next d))"
        unfolding w(3) using 2 w(2,4) by (intro "2.IH"(2)) (simp_all add: w(3))
    qed
  next
    case 3
    show ?thesis
    proof (rule loop_literal [OF "2.prems" 3])
      fix n k assume d: "d \<noteq> []" and l: "wild_lit_eq lc (skip_backslash t) d = Some (n, k)"
      note w = wf_text_step [OF "2.prems" d] and e = lit_eq_length(2) [OF l d "2.prems"]
      show "decides lim ctr (glob lc (drop k (skip_backslash t)) (wild_next d))
          (quick_wild_loop lc lim ctr (drop k (skip_backslash t)) (wild_next d))"
        using "2.IH"(3) [OF _ _ l refl w(1)] 3 w(4) by (simp add: is_wildcard_def e)
    qed
  qed
next
  case (3 lc lim ctr t d)
  show ?case
  proof (rule scan_step [OF "3.prems"])
    assume d: "d \<noteq> []" "wild_lit_eq lc t d = None"
    show "decides lim ctr (anchored lc t (wild_next d)) (quick_wild_scan lc lim ctr t (wild_next d))"
      using "3.IH"(1) [OF _ d(2)] wf_text_step [OF "3.prems" d(1)] by blast
  next
    fix n k assume d: "d \<noteq> []" and l: "wild_lit_eq lc t d = Some (n, k)"
    note w = wf_text_step [OF "3.prems" d] and e = lit_eq_length(2) [OF l d "3.prems"]
    show "decides lim ctr (glob lc (drop k t) (wild_next d)) (quick_wild_impl lc lim ctr (drop k t) (wild_next d))"
      using "3.IH"(2) [OF w(1) l refl] w(4) unfolding e .
    fix c assume i: "quick_wild_impl lc lim ctr (drop k t) (wild_next d) = (False, c)"
    show "decides lim c (anchored lc t (wild_next d)) (quick_wild_scan lc lim c t (wild_next d))"
      using "3.IH"(3) [OF w(1) l refl _ _ w(4), unfolded e, OF i [symmetric]] by simp
  qed
qed

section \<open>Captures\<close>

definition passed :: "bytes \<Rightarrow> bytes \<Rightarrow> bytes" where
  "passed d e = take (length d - length e) d"

text \<open>What the wildcards of a pattern stand for in a match, one text for each, in order.\<close>

inductive captures :: "case_table \<Rightarrow> bytes \<Rightarrow> bytes \<Rightarrow> bytes list \<Rightarrow> bool" for lc where
  cap_end: "\<not> is_wildcard (peek t) \<Longrightarrow> peek (skip_backslash t) = 0 \<Longrightarrow> captures lc t [] []"
| cap_question: "peek t = 0x3F \<Longrightarrow> d \<noteq> [] \<Longrightarrow> captures lc (tl t) (wild_next d) cs \<Longrightarrow>
    captures lc t d (take (wild_char_len d) d # cs)"
| cap_star: "peek t = 0x2A \<Longrightarrow> reach d e \<Longrightarrow> captures lc (tl t) e cs \<Longrightarrow> captures lc t d (passed d e # cs)"
| cap_literal: "\<not> is_wildcard (peek t) \<Longrightarrow> d \<noteq> [] \<Longrightarrow> wild_lit_eq lc (skip_backslash t) d = Some (n, k) \<Longrightarrow>
    captures lc (drop k (skip_backslash t)) (wild_next d) cs \<Longrightarrow> captures lc t d cs"

lemma captures_glob: "captures lc t d cs \<Longrightarrow> wf_text d \<Longrightarrow> glob lc t d"
proof (induction rule: captures.induct)
  case (cap_end t)
  then show ?case by (simp add: glob_end)
next
  case (cap_question t d cs)
  then show ?case by (simp add: glob_question wf_text_step(4))
next
  case (cap_star t d e cs)
  then show ?case using reach_wf [of d e] by (auto simp: glob_star star_glob_def)
next
  case (cap_literal t d n k cs)
  then show ?case by (auto simp: glob_literal wf_text_step(4))
qed

lemma reach_length: "reach d e \<Longrightarrow> wf_text d \<Longrightarrow> length e \<le> length d"
proof (induction rule: reach.induct)
  case (reach_step d e)
  then show ?case using wf_text_step(4,5) [OF reach_step.prems reach_step.hyps(1)] by simp
qed simp

lemma glob_captures: "glob lc t d \<Longrightarrow> wf_text d \<Longrightarrow> \<exists>cs. captures lc t d cs"
proof (induction "length t + length d" arbitrary: t d rule: less_induct)
  case less
  consider "peek t = 0x2A" | "peek t = 0x3F" | "\<not> is_wildcard (peek t)" "d = []" | "\<not> is_wildcard (peek t)" "d \<noteq> []"
    by (auto simp: is_wildcard_def)
  then show ?case
  proof cases
    case 1
    then obtain e where e: "reach d e" "glob lc (tl t) e" using less.prems glob_star [of d t lc] by (auto simp: star_glob_def)
    have "length e \<le> length d" using reach_length [OF e(1) less.prems(2)] .
    then have "length (tl t) + length e < length t + length d" using 1 by (cases t) auto
    from less.hyps [OF this e(2) reach_wf [OF e(1) less.prems(2)]] show ?thesis using cap_star [OF 1 e(1)] by blast
  next
    case 2
    then have d: "d \<noteq> []" "glob lc (tl t) (wild_next d)" using less.prems glob_question by blast+
    note w = wf_text_step [OF less.prems(2) d(1)]
    have "length (tl t) + length (wild_next d) < length t + length d" using w(5) by simp
    from less.hyps [OF this d(2) w(4)] show ?thesis using cap_question [OF 2 d(1)] by blast
  next
    case 3
    then show ?thesis using less.prems(1) glob_end cap_end by blast
  next
    case 4
    then obtain n k where l: "wild_lit_eq lc (skip_backslash t) d = Some (n, k)" "glob lc (drop k (skip_backslash t)) (wild_next d)"
      using less.prems glob_literal by blast
    note w = wf_text_step [OF less.prems(2) 4(2)]
    have "length (drop k (skip_backslash t)) + length (wild_next d) < length t + length d"
      using w(5) skip_backslash_less [of t] by simp
    from less.hyps [OF this l(2) w(4)] show ?thesis using cap_literal [OF 4 l(1)] by blast
  qed
qed

lemma filter_drop_le: "length (filter P (drop k xs)) \<le> length (filter P xs)"
  by (metis append_take_drop_id filter_append le_add2 length_append)

lemma captures_count: "captures lc t d cs \<Longrightarrow> length cs \<le> length (filter is_wildcard t)"
proof (induction rule: captures.induct)
  case (cap_question t d cs)
  then show ?case by (cases t) (auto simp: is_wildcard_def)
next
  case (cap_star t d e cs)
  then show ?case by (cases t) (auto simp: is_wildcard_def)
next
  case (cap_literal t d n k cs)
  have "length (filter is_wildcard (skip_backslash t)) \<le> length (filter is_wildcard t)"
    using filter_drop_le [of is_wildcard 1 t] by (simp add: skip_backslash_def drop_Suc)
  then show ?case using cap_literal.IH filter_drop_le [of is_wildcard k "skip_backslash t"] by linarith
qed simp

text \<open>A number of characters further on, and the characters on the way.\<close>

fun walk :: "bytes \<Rightarrow> nat \<Rightarrow> bytes \<Rightarrow> bool" where
  "walk q 0 e \<longleftrightarrow> e = q"
| "walk q (Suc n) e \<longleftrightarrow> q \<noteq> [] \<and> walk (wild_next q) n e"

fun chars :: "nat \<Rightarrow> bytes \<Rightarrow> bytes list" where
  "chars 0 q = []"
| "chars (Suc n) q = take (wild_char_len q) q # chars n (wild_next q)"

lemma length_chars [simp]: "length (chars n q) = n"
  by (induction n arbitrary: q) simp_all

lemma walk_wf: "walk q n e \<Longrightarrow> wf_text q \<Longrightarrow> wf_text e"
  by (induction n arbitrary: q) (auto dest: wf_text_step(4))

lemma walk_reach: "walk q n e \<Longrightarrow> reach q e"
  by (induction n arbitrary: q) (auto intro: reach.intros)

lemma reach_walk_back: "walk dp k d \<Longrightarrow> reach d e \<Longrightarrow> \<exists>q. reach dp q \<and> walk q k e"
proof (induction k arbitrary: dp)
  case (Suc k)
  then obtain q where "reach (wild_next dp) q" "walk q k e" by auto
  then obtain f where "reach dp f" "f \<noteq> []" "wild_next f = q" using reach_before Suc.prems(1) by auto
  then show ?case using \<open>walk q k e\<close> by (intro exI [of _ f]) simp
qed auto

lemma skip_questions_spec:
  "wf_text d \<Longrightarrow>
     (case skip_questions t d k of
        None \<Rightarrow> \<not> star_glob lc t d
      | Some (t', d', k') \<Rightarrow> peek t' \<noteq> 0x3F \<and>
          (\<exists>n. k' = k + n \<and> walk d n d' \<and> t = replicate n 0x3F @ t' \<and> (star_glob lc t d \<longleftrightarrow> star_glob lc t' d')))"
proof (induction t d k rule: skip_questions.induct)
  case (1 c t d k)
  show ?case
  proof (cases "c = 0x3F")
    case q: True
    note g = star_glob_question [OF "1.prems", of "c # t" lc]
    show ?thesis
    proof (cases "d = []")
      case True
      then show ?thesis using q g by simp
    next
      case False
      note w = wf_text_step [OF "1.prems" False]
      have IH: "case skip_questions t (wild_next d) (k + 1) of
        None \<Rightarrow> \<not> star_glob lc t (wild_next d)
      | Some (t', d', k') \<Rightarrow> peek t' \<noteq> 0x3F \<and>
          (\<exists>n. k' = k + 1 + n \<and> walk (wild_next d) n d' \<and> t = replicate n 0x3F @ t' \<and> (star_glob lc t (wild_next d) \<longleftrightarrow> star_glob lc t' d'))"
        by (rule "1.IH" [OF q refl w(2), folded w(3), OF w(4)])
      show ?thesis
      proof (cases "skip_questions t (wild_next d) (k + 1)")
        case None
        then show ?thesis using q w(2,3) g IH by simp
      next
        case (Some p)
        obtain t' d' k' where p: "p = (t', d', k')" by (cases p)
        then obtain n where n: "peek t' \<noteq> 0x3F" "k' = k + 1 + n" "walk (wild_next d) n d'" "t = replicate n 0x3F @ t'"
            "star_glob lc t (wild_next d) \<longleftrightarrow> star_glob lc t' d'"
          using IH Some by auto
        have "skip_questions (c # t) d k = Some (t', d', k')" using Some p q w(2,3) by simp
        moreover have "k' = k + Suc n" "walk d (Suc n) d'" "c # t = replicate (Suc n) 0x3F @ t'" using n q False by simp_all
        moreover have "star_glob lc (c # t) d \<longleftrightarrow> star_glob lc t' d'" using g n(5) q False by simp
        ultimately show ?thesis using n(1) by (auto intro!: exI [of _ "Suc n"])
      qed
    qed
  qed (auto intro: exI [of _ 0])
qed auto

lemma captures_questions:
  "walk q n e \<Longrightarrow> captures lc t e cs \<Longrightarrow> captures lc (replicate n 0x3F @ t) q (chars n q @ cs)"
proof (induction n arbitrary: q)
  case (Suc n)
  then show ?case using cap_question [of "0x3F # replicate n 0x3F @ t" q lc] by simp
qed simp

section \<open>Filling the arguments\<close>

text \<open>The arguments from \<open>a\<close> on hold the given texts, as far as there are arguments.\<close>

definition stored :: "bytes list \<Rightarrow> bytes list \<Rightarrow> nat \<Rightarrow> bool" where
  "stored cs args a \<longleftrightarrow> (\<forall>i < length cs. a + i < length args \<longrightarrow> args ! (a + i) = cs ! i)"

lemma stored_Nil [simp]: "stored [] args a"
  by (simp add: stored_def)

lemma all_less_add: "(\<forall>i < m + n. P i) \<longleftrightarrow> (\<forall>i < m. P i) \<and> (\<forall>i < n. P (m + i))" for m n :: nat
proof (intro iffI conjI)
  assume a: "(\<forall>i < m. P i) \<and> (\<forall>i < n. P (m + i))"
  show "\<forall>i < m + n. P i"
  proof (intro allI impI)
    fix i assume "i < m + n"
    then show "P i" using a by (cases "i < m") (auto dest!: spec [of _ "i - m"])
  qed
qed auto

lemma stored_append: "stored (xs @ ys) args a \<longleftrightarrow> stored xs args a \<and> stored ys args (a + length xs)"
  unfolding stored_def length_append all_less_add by (simp add: nth_append add.assoc)

lemma stored_Cons: "stored (x # ys) args a \<longleftrightarrow> (a < length args \<longrightarrow> args ! a = x) \<and> stored ys args (Suc a)"
  using stored_append [of "[x]" ys args a] by (simp add: stored_def)

lemma stored_beyond: "length args \<le> a \<Longrightarrow> stored cs args a"
  by (simp add: stored_def)

text \<open>Only the arguments from \<open>a\<close> up to \<open>b\<close> differ.\<close>

definition unchanged :: "nat \<Rightarrow> nat \<Rightarrow> bytes list \<Rightarrow> bytes list \<Rightarrow> bool" where
  "unchanged a b args args' \<longleftrightarrow> length args' = length args \<and> (\<forall>i < length args. i < a \<or> b \<le> i \<longrightarrow> args' ! i = args ! i)"

lemma unchanged_refl [simp]: "unchanged a b args args"
  by (simp add: unchanged_def)

lemma unchanged_update: "a \<le> i \<Longrightarrow> i < b \<Longrightarrow> unchanged a b args (args[i := x])"
  by (auto simp: unchanged_def nth_list_update)

lemma unchanged_trans: "unchanged a b xs ys \<Longrightarrow> unchanged a' b' ys zs \<Longrightarrow> a \<le> a' \<Longrightarrow> b' \<le> b \<Longrightarrow> unchanged a b xs zs"
  by (auto simp: unchanged_def)

lemma unchanged_length: "unchanged a b xs ys \<Longrightarrow> length ys = length xs"
  by (simp add: unchanged_def)

lemma stored_unchanged:
  "stored cs args a \<Longrightarrow> unchanged x y args args' \<Longrightarrow> a + length cs \<le> x \<or> y \<le> a \<Longrightarrow> stored cs args' a"
  by (auto simp: stored_def unchanged_def)

lemma char_len_FirstByte:
  assumes "wf_text d" "d \<noteq> []"
  shows "utf8_FirstByte (peek d) = wild_char_len d" "\<not> UTF8_CONTINUE \<le> wild_char_len d"
    "\<forall>j. 1 \<le> j \<and> j < wild_char_len d \<longrightarrow> utf8_FirstByte (d ! j) = UTF8_CONTINUE \<and> d ! j \<noteq> 0"
proof -
  have "wild_char_len d \<noteq> 0" using wf_text_step(2) [OF assms] .
  then show f: "utf8_FirstByte (peek d) = wild_char_len d" "\<not> UTF8_CONTINUE \<le> wild_char_len d"
    by (auto simp: wild_char_len_def Let_def split: if_splits)
  have l: "list_all (\<lambda>j. is_continuation (peek (drop j d))) [1 ..< wild_char_len d]"
    using \<open>wild_char_len d \<noteq> 0\<close> by (auto simp: wild_char_len_def Let_def split: if_splits)
  show "\<forall>j. 1 \<le> j \<and> j < wild_char_len d \<longrightarrow> utf8_FirstByte (d ! j) = UTF8_CONTINUE \<and> d ! j \<noteq> 0"
  proof (intro allI impI)
    fix j assume j: "1 \<le> j \<and> j < wild_char_len d"
    then have "is_continuation (peek (drop j d))" "j < length d" using l wild_char_len_le [of d] by (auto simp: list_all_iff)
    moreover have "peek (drop j d) = d ! j" using \<open>j < length d\<close> by (simp add: Cons_nth_drop_Suc [symmetric])
    ultimately show "utf8_FirstByte (d ! j) = UTF8_CONTINUE \<and> d ! j \<noteq> 0" by (simp add: is_continuation_def)
  qed
qed

lemma wild_capture_char_wf:
  assumes "wf_text d" "d \<noteq> []"
  shows "wild_capture_char d = (take (wild_char_len d) d, wild_next d)"
  using char_len_FirstByte [OF assms] wf_text_step(3) [OF assms] by (simp add: wild_capture_char_def Let_def)

lemma fill_questions_spec:
  "wf_text q \<Longrightarrow> walk q n e \<Longrightarrow> a < nargs \<Longrightarrow> length args = nargs \<Longrightarrow> fill_questions nargs n args a q = (args', a', q', full) \<Longrightarrow>
     stored (chars n q) args' a \<and> unchanged a (a + n) args args' \<and> (full \<longleftrightarrow> nargs \<le> a + n) \<and>
     (\<not> full \<longrightarrow> a' = a + n \<and> q' = e)"
proof (induction n arbitrary: q a args)
  case (Suc n)
  have q: "q \<noteq> []" "walk (wild_next q) n e" using Suc.prems(2) by auto
  note w = wf_text_step [OF Suc.prems(1) q(1)] and c = wild_capture_char_wf [OF Suc.prems(1) q(1)]
  define args1 where "args1 = args[a := take (wild_char_len q) q]"
  have u1: "unchanged a (a + Suc n) args args1" "length args1 = nargs" "args1 ! a = take (wild_char_len q) q"
    using Suc.prems(3,4) by (simp_all add: args1_def unchanged_update)
  show ?case
  proof (cases "a + 1 \<ge> nargs")
    case True
    then show ?thesis using Suc.prems(5) c u1 by (auto simp: args1_def [symmetric] stored_Cons stored_beyond)
  next
    case False
    then have "fill_questions nargs n args1 (Suc a) (wild_next q) = (args', a', q', full)"
      using Suc.prems(5) c by (simp add: args1_def)
    from Suc.IH [OF w(4) q(2) _ u1(2) this] False
    have I: "stored (chars n (wild_next q)) args' (Suc a)" "unchanged (Suc a) (Suc a + n) args1 args'"
      "full \<longleftrightarrow> nargs \<le> Suc a + n" "\<not> full \<longrightarrow> a' = Suc a + n \<and> q' = e" by auto
    have "args' ! a = take (wild_char_len q) q" using I(2) u1(2,3) Suc.prems(3) by (simp add: unchanged_def)
    moreover have "unchanged a (a + Suc n) args args'" using unchanged_trans [OF u1(1) I(2)] by simp
    ultimately show ?thesis using I by (simp add: stored_Cons)
  qed
qed auto

lemma wf_text_no_nul: "wf_text d \<Longrightarrow> 0 \<notin> set d"
proof (induction "length d" arbitrary: d rule: less_induct)
  case less
  show ?case
  proof (cases "d = []")
    case False
    note w = wf_text_step [OF less.prems False] and c = char_len_FirstByte(3) [OF less.prems False]
    have "0 \<notin> set (take (wild_char_len d) d)"
    proof
      assume "0 \<in> set (take (wild_char_len d) d)"
      then obtain j where j: "j < wild_char_len d" "j < length d" "d ! j = 0" by (auto simp: in_set_conv_nth)
      then show False using c w(1) False by (cases j) (auto simp: peek_def split: list.splits)
    qed
    moreover have "0 \<notin> set (drop (wild_char_len d) d)" using less.hyps [OF w(5,4)] w(3) by simp
    ultimately show ?thesis by (metis Un_iff append_take_drop_id set_append)
  qed simp
qed

text \<open>Stepping back over a character.\<close>

lemma step_back_continuations:
  "\<forall>c \<in> set cs. utf8_FirstByte c = UTF8_CONTINUE \<Longrightarrow> utf8_FirstByte l \<noteq> UTF8_CONTINUE \<Longrightarrow> step_back_char (cs @ l # r) = r"
  by (induction cs) auto

lemma step_back_whole_char:
  assumes "wf_text d" "d \<noteq> []"
  shows "step_back_char (rev (p @ take (wild_char_len d) d)) = rev p"
proof -
  note c = char_len_FirstByte [OF assms]
  obtain l r where d: "d = l # r" using assms(2) by (cases d) auto
  obtain m where m: "wild_char_len d = Suc m" using wf_text_step(2) [OF assms] by (cases "wild_char_len d") auto
  have "\<forall>c \<in> set (take m r). utf8_FirstByte c = UTF8_CONTINUE"
  proof
    fix x assume "x \<in> set (take m r)"
    then obtain j where "j < m" "x = r ! j" by (auto simp: in_set_conv_nth)
    then show "utf8_FirstByte x = UTF8_CONTINUE" using c(3) [rule_format, of "Suc j"] m by (simp add: d)
  qed
  moreover have "utf8_FirstByte l \<noteq> UTF8_CONTINUE" using c(1,2) by (auto simp: d)
  ultimately show ?thesis using step_back_continuations [of "rev (take m r)" l "rev p"] m by (simp add: d)
qed

lemma passed_self [simp]: "passed d d = []"
  by (simp add: passed_def)

lemma reach_suffix: "reach d e \<Longrightarrow> wf_text d \<Longrightarrow> d = passed d e @ e"
proof (induction rule: reach.induct)
  case (reach_step d e)
  note w = wf_text_step [OF reach_step.prems reach_step.hyps(1)]
  have "d = take (wild_char_len d) d @ passed (wild_next d) e @ e" using reach_step.IH [OF w(4)] w(3) by simp
  then have "d = (take (wild_char_len d) d @ passed (wild_next d) e) @ e" by simp
  then show ?case by (metis append_eq_conv_conj diff_add_inverse2 length_append passed_def)
qed simp

lemma passed_step:
  assumes "reach (wild_next d) e" "wf_text d" "d \<noteq> []"
  shows "passed d e = take (wild_char_len d) d @ passed (wild_next d) e"
proof -
  note w = wf_text_step [OF assms(2,3)]
  have "d = take (wild_char_len d) d @ passed (wild_next d) e @ e" using reach_suffix [OF assms(1) w(4)] w(3) by simp
  moreover have "d = passed d e @ e" using reach_suffix [OF reach_step [OF assms(3,1)] assms(2)] .
  ultimately show ?thesis by (metis append_assoc append_same_eq)
qed

lemma passed_trans:
  "reach d q \<Longrightarrow> reach q e \<Longrightarrow> wf_text d \<Longrightarrow> passed d e = passed d q @ passed q e"
proof -
  assume a: "reach d q" "reach q e" "wf_text d"
  then have "d = passed d q @ passed q e @ e" using reach_suffix [of d q] reach_suffix [of q e] reach_wf [of d q] by simp
  moreover have "d = passed d e @ e" using a reach_suffix reach_trans by blast
  ultimately show ?thesis by (metis append_assoc append_same_eq)
qed

lemma walk_passed: "walk q n e \<Longrightarrow> wf_text q \<Longrightarrow> passed q e = concat (chars n q)"
proof (induction n arbitrary: q)
  case (Suc n)
  then show ?case using passed_step [of q e] walk_reach [of "wild_next q" n e] wf_text_step(4) [of q] by simp
qed auto

lemma wild_step_back_Suc: "wild_step_back xs n \<noteq> [] \<Longrightarrow> wild_step_back xs (Suc n) = step_back_char (wild_step_back xs n)"
proof (induction n arbitrary: xs)
  case (Suc n)
  then have "xs \<noteq> []" "wild_step_back (step_back_char xs) n \<noteq> []" by (auto split: if_splits)
  then show ?case using Suc.IH [of "step_back_char xs"] by (simp del: wild_step_back.simps(2) add: wild_step_back.simps(2) [of xs])
qed auto

lemma step_back_walk:
  "walk q n e \<Longrightarrow> wf_text q \<Longrightarrow> wild_step_back (rev (p @ concat (chars n q))) n = rev p"
proof (induction n arbitrary: q p)
  case (Suc n)
  have q: "q \<noteq> []" "walk (wild_next q) n e" using Suc.prems(1) by auto
  note w = wf_text_step [OF Suc.prems(2) q(1)]
  have t: "take (wild_char_len q) q \<noteq> []" using w(2) q(1) by simp
  have "wild_step_back (rev ((p @ take (wild_char_len q) q) @ concat (chars n (wild_next q)))) n = rev (p @ take (wild_char_len q) q)"
    by (rule Suc.IH [OF q(2) w(4)])
  then show ?case using wild_step_back_Suc [of "rev (p @ take (wild_char_len q) q @ concat (chars n (wild_next q)))" n] t
      step_back_whole_char [OF Suc.prems(2) q(1), of p] by simp
qed simp

lemma fill_result_spec:
  assumes "wf_text dp" "walk dp k d" "reach d e" "a < length args"
  shows "\<exists>q. reach dp q \<and> walk q k e \<and> stored (passed dp q # chars k q) (fill_result (length args) args a dp k e) a \<and>
    unchanged a (a + 1 + k) args (fill_result (length args) args a dp k e)"
proof -
  obtain q where q: "reach dp q" "walk q k e" using reach_walk_back [OF assms(2,3)] by blast
  have wq: "wf_text q" using reach_wf [OF q(1) assms(1)] .
  have "passed dp e = passed dp q @ concat (chars k q)"
    using passed_trans [OF q(1) walk_reach [OF q(2)] assms(1)] walk_passed [OF q(2) wq] by simp
  then have sb: "wild_step_back (rev (passed dp e)) k = rev (passed dp q)" using step_back_walk [OF q(2) wq] by simp
  have s: "dp = passed dp q @ q" using reach_suffix [OF q(1) assms(1)] .
  then have tk: "take (length (passed dp q)) dp = passed dp q" "drop (length (passed dp q)) dp = q"
    by (metis append_eq_conv_conj)+
  have nn: "takeWhile (\<lambda>c. c \<noteq> 0) (passed dp q) = passed dp q"
    using wf_text_no_nul [OF assms(1)] unfolding passed_def by (auto dest: in_set_takeD)
  define args1 where "args1 = args[a := passed dp q]"
  have u: "unchanged a (a + 1 + k) args args1" "length args1 = length args" "args1 ! a = passed dp q"
    using assms(4) by (simp_all add: args1_def unchanged_update)
  have F: "fill_result (length args) args a dp k e =
      (if a + 1 \<ge> length args then args1 else fst (fill_questions (length args) k args1 (a + 1) q))"
    unfolding fill_result_def Let_def passed_def [symmetric] sb length_rev tk nn args1_def ..
  show ?thesis
  proof (cases "a + 1 \<ge> length args")
    case True
    then show ?thesis using q u F by (intro exI [of _ q]) (simp add: stored_Cons stored_beyond)
  next
    case False
    obtain args2 a2 q2 full where f: "fill_questions (length args) k args1 (a + 1) q = (args2, a2, q2, full)"
      by (cases "fill_questions (length args) k args1 (a + 1) q")
    from fill_questions_spec [OF wq q(2) _ u(2) f] False
    have g: "stored (chars k q) args2 (a + 1)" "unchanged (a + 1) (a + 1 + k) args1 args2" by simp_all
    then have "args2 ! a = passed dp q" using u(2,3) assms(4) by (simp add: unchanged_def)
    moreover have "unchanged a (a + 1 + k) args args2" using unchanged_trans [OF u(1) g(2)] by simp
    ultimately show ?thesis using q g False F f by (intro exI [of _ q]) (simp add: stored_Cons)
  qed
qed

section \<open>Several wildcards in a row\<close>

lemma fill_star_spec:
  assumes "wf_text d" "walk d k e" "arg < nargs" "length args = nargs" "fill_star nargs args (arg + 1 + k) arg d = (args', a', d', full)"
  shows "stored ([] # chars k d) args' arg \<and> unchanged arg (arg + 1 + k) args args' \<and> (full \<longleftrightarrow> nargs \<le> arg + 1 + k) \<and>
    (\<not> full \<longrightarrow> a' = arg + 1 + k \<and> d' = e)"
proof -
  define args1 where "args1 = args[arg := []]"
  have u: "unchanged arg (arg + 1 + k) args args1" "length args1 = nargs" "args1 ! arg = []"
    using assms(3,4) by (simp_all add: args1_def unchanged_update)
  show ?thesis
  proof (cases "arg + 1 \<ge> nargs")
    case True
    then show ?thesis using assms(4,5) u by (auto simp: fill_star_def Let_def args1_def [symmetric] stored_Cons stored_beyond)
  next
    case False
    then have f: "fill_questions nargs k args1 (arg + 1) d = (args', a', d', full)"
      using assms(5) by (simp add: fill_star_def Let_def args1_def)
    from fill_questions_spec [OF assms(1,2) _ u(2) f] False
    have g: "stored (chars k d) args' (arg + 1)" "unchanged (arg + 1) (arg + 1 + k) args1 args'"
      "full \<longleftrightarrow> nargs \<le> arg + 1 + k" "\<not> full \<longrightarrow> a' = arg + 1 + k \<and> d' = e" by simp_all
    then have "args' ! arg = []" using u(2,3) assms(3) by (simp add: unchanged_def)
    moreover have "unchanged arg (arg + 1 + k) args args'" using unchanged_trans [OF u(1) g(2)] by simp
    ultimately show ?thesis using g by (simp add: stored_Cons)
  qed
qed

lemma fill_star_none [simp]: "fill_star nargs args arg arg d = (args, arg, d, False)"
  by (simp add: fill_star_def)

lemma wildcards_fresh:
  "wild1_wildcards nargs args t d arg arg d =
     (case skip_questions (tl t) d 0 of
        None \<Rightarrow> (args, WFail)
      | Some (t', d', k) \<Rightarrow>
          (if peek t' = 0x2A then wild1_wildcards nargs args t' d' (arg + 1 + k) arg d
           else (args, WAnchor t' d' (arg + 1 + k) arg d k)))"
  by (subst wild1_wildcards.simps) (simp split: option.split)

lemma wildcards_again:
  assumes "fill_star nargs args arg argpos dp = (args', argpos', dp', full)" "\<not> full \<longrightarrow> argpos' = arg \<and> dp' = d"
  shows "wild1_wildcards nargs args t d arg argpos dp =
    (if full then (args', WQuick t d) else wild1_wildcards nargs args' t d arg arg d)"
  using assms by (subst (1 2) wild1_wildcards.simps) auto

text \<open>What the scan over the wildcards from a star on amounts to: the texts \<open>pre\<close> of the
  wildcards passed for good are stored, and a match of the rest of the pattern, behind the
  last star and the question marks that follow it, gives one of the whole.\<close>

definition wildcards_ok :: "case_table \<Rightarrow> bytes list \<Rightarrow> bytes \<Rightarrow> bytes \<Rightarrow> nat \<Rightarrow> bytes list \<times> wildcards \<Rightarrow> bool" where
  "wildcards_ok lc args t d arg r \<longleftrightarrow> unchanged arg (length args) args (fst r) \<and>
     (case snd r of
        WFail \<Rightarrow> \<not> glob lc t d
      | WQuick t' d' \<Rightarrow> wf_text d' \<and> length d' \<le> length d \<and> (glob lc t d \<longleftrightarrow> glob lc t' d') \<and>
          (\<forall>cs. captures lc t' d' cs \<longrightarrow> (\<exists>cs'. captures lc t d cs' \<and> stored cs' (fst r) arg))
      | WAnchor t' d' arg' argpos dp k \<Rightarrow> wf_text dp \<and> length dp \<le> length d \<and> walk dp k d' \<and> \<not> is_wildcard (peek t') \<and> arg' = argpos + 1 + k \<and>
          argpos < length args \<and> (glob lc t d \<longleftrightarrow> star_glob lc t' d') \<and>
          (\<exists>pre. arg + length pre = argpos \<and> stored pre (fst r) arg \<and>
             (\<forall>q e cs. reach dp q \<and> walk q k e \<and> captures lc t' e cs \<longrightarrow> captures lc t d (pre @ passed dp q # chars k q @ cs))))"

lemma captures_star_questions:
  assumes "peek t = 0x2A" "tl t = replicate k 0x3F @ t'" "reach d q" "walk q k e" "captures lc t' e cs"
  shows "captures lc t d (passed d q # chars k q @ cs)"
  using cap_star [OF assms(1,3)] captures_questions [OF assms(4,5)] assms(2) by simp

lemma wildcards_ok_prefix:
  assumes ok: "wildcards_ok lc args1 t' d' arg' r" and u: "unchanged arg arg' args args1" and st: "stored ps args1 arg"
    and len: "arg + length ps = arg'" "length d' \<le> length d" and g: "glob lc t d \<longleftrightarrow> glob lc t' d'"
    and cap: "\<And>cs. captures lc t' d' cs \<Longrightarrow> captures lc t d (ps @ cs)"
  shows "wildcards_ok lc args t d arg r"
proof -
  obtain args2 w where r: "r = (args2, w)" by (cases r)
  have u2: "unchanged arg' (length args1) args1 args2" using ok by (simp add: wildcards_ok_def r)
  have "stored ps args2 arg" using stored_unchanged [OF st u2] len(1) by simp
  then have st2: "stored (ps @ cs) args2 arg" if "stored cs args2 arg'" for cs
    using that len(1) by (simp add: stored_append)
  have l1: "length args1 = length args" using u by (rule unchanged_length)
  have u3: "unchanged arg (length args) args args2" using u u2 len(1) by (auto simp: unchanged_def)
  show ?thesis
  proof (cases w)
    case WFail
    then show ?thesis using ok u3 g by (simp add: wildcards_ok_def r)
  next
    case (WQuick t2 d2)
    then show ?thesis using ok u3 g cap st2 len(2) by (fastforce simp: wildcards_ok_def r)
  next
    case (WAnchor t2 d2 arg2 argpos dp k)
    then obtain pre where p: "arg' + length pre = argpos" "stored pre args2 arg'"
      "\<forall>q e cs. reach dp q \<and> walk q k e \<and> captures lc t2 e cs \<longrightarrow> captures lc t' d' (pre @ passed dp q # chars k q @ cs)"
      using ok by (auto simp: wildcards_ok_def r)
    have "arg + length (ps @ pre) = argpos" "stored (ps @ pre) args2 arg" using p(1,2) len(1) st2 by simp_all
    moreover have "\<forall>q e cs. reach dp q \<and> walk q k e \<and> captures lc t2 e cs \<longrightarrow> captures lc t d ((ps @ pre) @ passed dp q # chars k q @ cs)"
      using p(3) cap unfolding append_assoc by blast
    ultimately have "\<exists>pre. arg + length pre = argpos \<and> stored pre args2 arg \<and>
        (\<forall>q e cs. reach dp q \<and> walk q k e \<and> captures lc t2 e cs \<longrightarrow> captures lc t d (pre @ passed dp q # chars k q @ cs))" by blast
    then show ?thesis using ok u3 g l1 len(2) WAnchor unfolding wildcards_ok_def r by simp
  qed
qed

lemma wildcards_spec:
  "peek t = 0x2A \<Longrightarrow> wf_text d \<Longrightarrow> arg < length args \<Longrightarrow>
     wildcards_ok lc args t d arg (wild1_wildcards (length args) args t d arg arg d)"
proof (induction "length t" arbitrary: t d arg args rule: less_induct)
  case less
  note g = glob_star [OF less.prems(2,1), of lc] and s = skip_questions_spec [OF less.prems(2), where t = "tl t" and k = 0 and lc = lc]
  show ?case
  proof (cases "skip_questions (tl t) d 0")
    case None
    then show ?thesis using s g by (simp add: wildcards_fresh wildcards_ok_def)
  next
    case (Some p)
    obtain t' d' k where p: "p = (t', d', k)" by (cases p)
    have n: "peek t' \<noteq> 0x3F" "walk d k d'" "tl t = replicate k 0x3F @ t'" "star_glob lc (tl t) d \<longleftrightarrow> star_glob lc t' d'"
      using s by (auto simp: Some p)
    note cap = captures_star_questions [OF less.prems(1) n(3)] and wd = walk_wf [OF n(2) less.prems(2)]
    show ?thesis
    proof (cases "peek t' = 0x2A")
      case False
      then show ?thesis using Some p n g cap less.prems
        by (auto simp: wildcards_fresh wildcards_ok_def is_wildcard_def intro!: exI [of _ "[]"])
    next
      case True
      have g': "glob lc t d \<longleftrightarrow> glob lc t' d'" using g n(4) star_glob_star [OF wd True] glob_star [OF wd True] by simp
      obtain args1 a1 dp1 full where f: "fill_star (length args) args (arg + 1 + k) arg d = (args1, a1, dp1, full)"
        by (cases "fill_star (length args) args (arg + 1 + k) arg d")
      note F = fill_star_spec [OF less.prems(2) n(2) less.prems(3) refl f]
      have W: "wild1_wildcards (length args) args t d arg arg d =
          (if full then (args1, WQuick t' d') else wild1_wildcards (length args) args1 t' d' (arg + 1 + k) (arg + 1 + k) d')"
        using Some p True wildcards_again [OF f] F by (simp add: wildcards_fresh [of "length args" args t])
      have c0: "captures lc t d (([] # chars k d) @ cs)" if "captures lc t' d' cs" for cs
        using cap [OF reach_refl n(2) that] by simp
      have ld: "length d' \<le> length d" using reach_length [OF walk_reach [OF n(2)] less.prems(2)] .
      show ?thesis
      proof (cases full)
        case True
        have "stored (([] # chars k d) @ cs) args1 arg" for cs
          using F True unchanged_length [of arg "arg + 1 + k" args args1] by (subst stored_append) (simp add: stored_beyond)
        moreover have "unchanged arg (length args) args args1" using F True by (auto simp: unchanged_def)
        ultimately show ?thesis using W True wd ld g' c0 by (auto simp: wildcards_ok_def)
      next
        case False
        have "length t' < length t" using n(3) less.prems(1) by (cases t) auto
        moreover have "arg + 1 + k < length args1" "length args1 = length args" using F False unchanged_length [of arg "arg + 1 + k" args args1] by auto
        ultimately have "wildcards_ok lc args1 t' d' (arg + 1 + k) (wild1_wildcards (length args) args1 t' d' (arg + 1 + k) (arg + 1 + k) d')"
          using less.hyps [of t' d' "arg + 1 + k" args1] True wd by simp
        then show ?thesis using wildcards_ok_prefix [of lc args1 t' d' "arg + 1 + k" _ arg args "[] # chars k d" d t] F False W ld g' c0
          by simp
      qed
    qed
  qed
qed

section \<open>The capturing matcher\<close>

text \<open>A verdict with the counter and the arguments after it is right about a match from
  argument \<open>arg\<close> on: a yes comes with the captures stored.\<close>

definition captures_right :: "case_table \<Rightarrow> nat \<Rightarrow> nat \<Rightarrow> bytes list \<Rightarrow> nat \<Rightarrow> bytes \<Rightarrow> bytes \<Rightarrow> bool \<times> nat \<times> bytes list \<Rightarrow> bool" where
  "captures_right lc lim ctr args arg t d r \<longleftrightarrow>
     (case r of (v, c, args') \<Rightarrow> ctr \<le> c \<and> unchanged arg (length args) args args' \<and>
        (v \<longrightarrow> (\<exists>cs. captures lc t d cs \<and> stored cs args' arg)) \<and> (c < lim \<longrightarrow> \<not> v \<longrightarrow> \<not> glob lc t d))"

text \<open>The same for the search of a literal with the last star before it.\<close>

definition scan_right :: "case_table \<Rightarrow> nat \<Rightarrow> nat \<Rightarrow> bytes list \<Rightarrow> bytes \<Rightarrow> bytes \<Rightarrow> nat \<Rightarrow> bytes \<Rightarrow> nat \<Rightarrow> bool \<times> nat \<times> bytes list \<Rightarrow> bool" where
  "scan_right lc lim ctr args t d argpos dp k r \<longleftrightarrow>
     (case r of (v, c, args') \<Rightarrow> ctr \<le> c \<and> unchanged argpos (length args) args args' \<and>
        (v \<longrightarrow> (\<exists>q e cs. reach dp q \<and> walk q k e \<and> captures lc t e cs \<and> stored (passed dp q # chars k q @ cs) args' argpos)) \<and>
        (c < lim \<longrightarrow> \<not> v \<longrightarrow> \<not> star_glob lc t d))"

lemma quick_captures_right:
  assumes "wf_text d" "unchanged arg (length args) args args'"
    and "\<And>cs. captures lc t d cs \<Longrightarrow> \<exists>cs'. captures lc t' d' cs' \<and> stored cs' args' arg" "glob lc t' d' \<Longrightarrow> glob lc t d"
  shows "captures_right lc lim ctr args arg t' d'
    (let (value, ctr') = quick_wild_impl lc lim ctr t d in (value, ctr', args'))"
  using quick_wild_glob(1) [OF assms(1), of lim ctr lc t] glob_captures [OF _ assms(1), of lc t] assms(2-4)
  by (auto simp: captures_right_def decides_def split: prod.split)

lemma captures_right_cong:
  assumes "captures_right lc lim ctr args arg t' d' r"
    and "\<And>cs. captures lc t' d' cs \<Longrightarrow> captures lc t d cs" "glob lc t d \<Longrightarrow> glob lc t' d'"
  shows "captures_right lc lim ctr args arg t d r"
proof -
  obtain v c args' where r: "r = (v, c, args')" by (cases r)
  show ?thesis using assms unfolding captures_right_def r prod.case by blast
qed

lemma captures_right_mono:
  "captures_right lc lim (Suc ctr) args arg t d r \<Longrightarrow> captures_right lc lim ctr args arg t d r"
  by (auto simp: captures_right_def)

lemma captures_right_loop_star:
  assumes "wf_text d" "peek t = 0x2A" "arg < length args" "length d < LBUF_SIZE"
    and scan: "\<And>args' t' d' arg' argpos dp k. peek (tl t) \<noteq> 0 \<Longrightarrow>
      wild1_wildcards (length args) args t d arg arg d = (args', WAnchor t' d' arg' argpos dp k) \<Longrightarrow>
      wf_text dp \<Longrightarrow> length dp \<le> length d \<Longrightarrow> walk dp k d' \<Longrightarrow> \<not> is_wildcard (peek t') \<Longrightarrow> arg' = argpos + 1 + k \<Longrightarrow> argpos < length args' \<Longrightarrow> length args' = length args \<Longrightarrow>
      scan_right lc lim ctr args' t' d' argpos dp k (wild1_scan lc lim (length args) ctr args' (skip_backslash t') d' arg' argpos dp k)"
  shows "captures_right lc lim ctr args arg t d (wild1_loop lc lim (length args) ctr args t d arg)"
proof (cases "peek (tl t) = 0")
  case True
  have "captures lc (tl t) [] []" using True by (intro cap_end) (auto simp: is_wildcard_def skip_backslash_def)
  from cap_star [OF assms(2) reach_end [OF assms(1)] this] have c: "captures lc t d [d]" by (simp add: passed_def)
  have n: "takeWhile (\<lambda>c. c \<noteq> 0) (take (LBUF_SIZE - 1) d) = d"
    using assms(4) wf_text_no_nul [OF assms(1)] by auto
  show ?thesis using assms(2,3) True c captures_glob [OF c assms(1)] n
    by (auto simp: wild1_loop.simps [of lc lim "length args" ctr args t] captures_right_def stored_Cons unchanged_update intro!: exI [of _ "[d]"])
next
  case False
  obtain args' w where W: "wild1_wildcards (length args) args t d arg arg d = (args', w)" by fastforce
  have ok: "wildcards_ok lc args t d arg (args', w)" using wildcards_spec [OF assms(2,1,3), of lc] unfolding W .
  then have u: "unchanged arg (length args) args args'" by (simp add: wildcards_ok_def)
  note l = unchanged_length [OF u]
  show ?thesis
  proof (cases w)
    case WFail
    then show ?thesis using W ok u False assms(2)
      by (simp add: wild1_loop.simps [of lc lim "length args" ctr args t] captures_right_def wildcards_ok_def)
  next
    case (WQuick t' d')
    have q: "wf_text d'" "glob lc t d \<longleftrightarrow> glob lc t' d'"
      "\<And>cs. captures lc t' d' cs \<Longrightarrow> \<exists>cs'. captures lc t d cs' \<and> stored cs' args' arg"
      using ok WQuick by (auto simp: wildcards_ok_def)
    show ?thesis
      using quick_captures_right [OF q(1) u q(3), where lim = lim and ctr = ctr] q(2) W WQuick False assms(2)
      by (simp add: wild1_loop.simps [of lc lim "length args" ctr args t])
  next
    case (WAnchor t' d' arg' argpos dp k)
    then obtain pre where a: "wf_text dp" "length dp \<le> length d" "walk dp k d'" "\<not> is_wildcard (peek t')" "arg' = argpos + 1 + k" "argpos < length args'"
      "glob lc t d \<longleftrightarrow> star_glob lc t' d'" "arg + length pre = argpos" "stored pre args' arg"
      "\<forall>q e cs. reach dp q \<and> walk q k e \<and> captures lc t' e cs \<longrightarrow> captures lc t d (pre @ passed dp q # chars k q @ cs)"
      using ok l by (auto simp: wildcards_ok_def)
    define r where "r = wild1_scan lc lim (length args) ctr args' (skip_backslash t') d' arg' argpos dp k"
    obtain v c args2 where r: "r = (v, c, args2)" by (cases r)
    have L: "wild1_loop lc lim (length args) ctr args t d arg = (v, c, args2)"
      using W WAnchor False assms(2) r by (simp add: wild1_loop.simps [of lc lim "length args" ctr args t] r_def)
    have S: "ctr \<le> c" "unchanged argpos (length args') args' args2"
      "v \<Longrightarrow> \<exists>q e cs. reach dp q \<and> walk q k e \<and> captures lc t' e cs \<and> stored (passed dp q # chars k q @ cs) args2 argpos"
      "c < lim \<longrightarrow> \<not> v \<longrightarrow> \<not> star_glob lc t' d'"
      using scan [OF False W [unfolded WAnchor] a(1-6) l] unfolding r_def [symmetric] r by (auto simp: scan_right_def)
    have "stored pre args2 arg" using stored_unchanged [OF a(9) S(2)] a(8) by simp
    then have V: "\<exists>cs. captures lc t d cs \<and> stored cs args2 arg" if yes: v
    proof -
      obtain q e cs where x: "reach dp q" "walk q k e" "captures lc t' e cs" "stored (passed dp q # chars k q @ cs) args2 argpos"
        using S(3) [OF yes] by blast
      then show ?thesis using \<open>stored pre args2 arg\<close> a(8,10)
        by (intro exI [of _ "pre @ passed dp q # chars k q @ cs"]) (simp add: stored_append)
    qed
    have "unchanged arg (length args) args args2" using u S(2) a(8) l by (auto simp: unchanged_def)
    then show ?thesis using V S(1,4) a(7) by (simp add: L captures_right_def)
  qed
qed

lemma captures_right_loop_question:
  assumes "wf_text d" "peek t = 0x3F" "arg < length args"
    and rest: "d \<noteq> [] \<Longrightarrow> arg + 1 < length args \<Longrightarrow>
      captures_right lc lim ctr (args[arg := take (wild_char_len d) d]) (arg + 1) (tl t) (wild_next d)
        (wild1_loop lc lim (length args) ctr (args[arg := take (wild_char_len d) d]) (tl t) (wild_next d) (arg + 1))"
  shows "captures_right lc lim ctr args arg t d (wild1_loop lc lim (length args) ctr args t d arg)"
proof (cases "d = []")
  case True
  then show ?thesis using assms(2) glob_question [OF assms(1,2), of lc]
    by (simp add: wild1_loop.simps [of lc lim "length args" ctr args t "[]"] captures_right_def)
next
  case False
  note w = wf_text_step [OF assms(1) False] and g = glob_question [OF assms(1,2), of lc]
  define args1 where "args1 = args[arg := take (wild_char_len d) d]"
  have u: "unchanged arg (length args) args args1" "length args1 = length args" "args1 ! arg = take (wild_char_len d) d"
    using assms(3) by (simp_all add: args1_def unchanged_update)
  have L: "wild1_loop lc lim (length args) ctr args t d arg =
      (if arg + 1 \<ge> length args then (let (value, ctr') = quick_wild_impl lc lim ctr (tl t) (wild_next d) in (value, ctr', args1))
       else wild1_loop lc lim (length args) ctr args1 (tl t) (wild_next d) (arg + 1))"
    using assms(2) w(2,3) by (simp add: wild1_loop.simps [of lc lim "length args" ctr args t d] Let_def args1_def)
  have c: "captures lc (tl t) (wild_next d) cs \<Longrightarrow> captures lc t d (take (wild_char_len d) d # cs)" for cs
    by (rule cap_question [OF assms(2) False])
  show ?thesis
  proof (cases "arg + 1 \<ge> length args")
    case True
    have "captures lc (tl t) (wild_next d) cs \<Longrightarrow> \<exists>cs'. captures lc t d cs' \<and> stored cs' args1 arg" for cs
      using c [of cs] u True by (intro exI [of _ "take (wild_char_len d) d # cs"]) (simp add: stored_Cons stored_beyond)
    from quick_captures_right [OF w(4) u(1) this, where lim = lim and ctr = ctr] show ?thesis using L True g by simp
  next
    case N: False
    obtain v c' args2 where r: "wild1_loop lc lim (length args) ctr args1 (tl t) (wild_next d) (arg + 1) = (v, c', args2)"
      using prod_cases3 by blast
    have R: "ctr \<le> c'" "unchanged (arg + 1) (length args) args1 args2"
      "v \<Longrightarrow> \<exists>cs. captures lc (tl t) (wild_next d) cs \<and> stored cs args2 (arg + 1)" "c' < lim \<longrightarrow> \<not> v \<longrightarrow> \<not> glob lc (tl t) (wild_next d)"
      using rest [OF False] N u(2) unfolding args1_def [symmetric] r captures_right_def by auto
    have "args2 ! arg = take (wild_char_len d) d" using R(2) u assms(3) by (simp add: unchanged_def)
    then have "v \<Longrightarrow> \<exists>cs. captures lc t d cs \<and> stored cs args2 arg"
      using R(3) c by (fastforce simp: stored_Cons)
    moreover have "unchanged arg (length args) args args2" using unchanged_trans [OF u(1) R(2)] by simp
    ultimately show ?thesis using R(1,4) L N r g by (simp add: captures_right_def)
  qed
qed

lemma captures_right_loop_literal:
  assumes "wf_text d" "\<not> is_wildcard (peek t)"
    and rest: "\<And>n k. d \<noteq> [] \<Longrightarrow> wild_lit_eq lc (skip_backslash t) d = Some (n, k) \<Longrightarrow>
      captures_right lc lim ctr args arg (drop k (skip_backslash t)) (wild_next d)
        (wild1_loop lc lim (length args) ctr args (drop k (skip_backslash t)) (wild_next d) arg)"
  shows "captures_right lc lim ctr args arg t d (wild1_loop lc lim (length args) ctr args t d arg)"
proof (cases "d = []")
  case True
  then show ?thesis using assms(2) glob_end [OF assms(2), of lc] cap_end [OF assms(2), of lc]
    by (auto simp: wild1_loop.simps [of lc lim "length args" ctr args t "[]"] is_wildcard_def lit_eq_Nil captures_right_def intro!: exI [of _ "[]"])
next
  case False
  note g = glob_literal [OF assms(1) False assms(2), of lc] and w = wf_text_step(1) [OF assms(1) False]
  show ?thesis
  proof (cases "wild_lit_eq lc (skip_backslash t) d")
    case None
    then show ?thesis using assms(2) g
      by (simp add: wild1_loop.simps [of lc lim "length args" ctr args t d] is_wildcard_def captures_right_def)
  next
    case (Some p)
    obtain n k where p: "p = (n, k)" by (cases p)
    note Some = Some [unfolded p]
    have L: "wild1_loop lc lim (length args) ctr args t d arg = wild1_loop lc lim (length args) ctr args (drop k (skip_backslash t)) (wild_next d) arg"
      using assms(2) Some w lit_eq_length(2) [OF Some False assms(1)]
      by (simp add: wild1_loop.simps [of lc lim "length args" ctr args t d] is_wildcard_def)
    show ?thesis unfolding L
    proof (rule captures_right_cong [OF rest [OF False Some] cap_literal [OF assms(2) False Some]])
      assume "glob lc t d"
      then show "glob lc (drop k (skip_backslash t)) (wild_next d)" using g Some by auto
    qed
  qed
qed

lemma scan_found:
  assumes "wf_text dp" "walk dp k d0" "reach d0 e" "captures lc t e cs" "argpos < length args" "stored cs args (argpos + 1 + k)"
    and "unchanged argpos (length args0) args0 args" "ctr \<le> c"
  shows "scan_right lc lim ctr args0 t d argpos dp k (True, c, fill_result (length args) args argpos dp k e)"
proof -
  obtain q where q: "reach dp q" "walk q k e" "stored (passed dp q # chars k q) (fill_result (length args) args argpos dp k e) argpos"
    "unchanged argpos (argpos + 1 + k) args (fill_result (length args) args argpos dp k e)"
    using fill_result_spec [OF assms(1-3,5)] by blast
  then have "stored cs (fill_result (length args) args argpos dp k e) (argpos + 1 + k)"
    using stored_unchanged [OF assms(6) q(4)] by simp
  then have "stored ((passed dp q # chars k q) @ cs) (fill_result (length args) args argpos dp k e) argpos"
    using q(3) by (subst stored_append) (simp add: add.commute)
  moreover have "unchanged argpos (length args0) args0 (fill_result (length args) args argpos dp k e)"
    using q(4) assms(7) by (auto simp: unchanged_def)
  ultimately show ?thesis using q(1,2) assms(4,8) by (auto simp: scan_right_def)
qed

lemma scan_right_next:
  assumes "scan_right lc lim c args1 t (wild_next d) argpos dp k r" "ctr \<le> c" "unchanged argpos (length args) args args1"
    and "c < lim \<Longrightarrow> star_glob lc t d \<Longrightarrow> star_glob lc t (wild_next d)"
  shows "scan_right lc lim ctr args t d argpos dp k r"
  using assms by (auto simp: scan_right_def unchanged_def)

lemma star_glob_step: "d \<noteq> [] \<Longrightarrow> star_glob lc t d \<longleftrightarrow> glob lc t d \<or> star_glob lc t (wild_next d)"
  unfolding star_glob_def by (subst reach_iff) blast

text \<open>The matcher that the scan calls behind a literal.\<close>

definition wild1_rest :: "case_table \<Rightarrow> nat \<Rightarrow> nat \<Rightarrow> bytes list \<Rightarrow> bytes \<Rightarrow> bytes \<Rightarrow> nat \<Rightarrow> bool \<times> nat \<times> bytes list" where
  "wild1_rest lc lim ctr args t d arg =
     (if arg < length args then wild1 lc lim (length args) ctr args t d arg
      else (let (value, ctr') = quick_wild_impl lc lim ctr t d in (value, ctr', args)))"

lemma wild1_rest_right:
  assumes "wf_text d" "arg < length args \<Longrightarrow> captures_right lc lim ctr args arg t d (wild1 lc lim (length args) ctr args t d arg)"
  shows "captures_right lc lim ctr args arg t d (wild1_rest lc lim ctr args t d arg)"
proof (cases "arg < length args")
  case False
  then have "captures lc t d cs \<Longrightarrow> \<exists>cs'. captures lc t d cs' \<and> stored cs' args arg" for cs
    by (intro exI [of _ cs]) (simp add: stored_beyond)
  from quick_captures_right [OF assms(1) unchanged_refl this, where lim = lim and ctr = ctr] False show ?thesis
    by (simp add: wild1_rest_def)
qed (simp add: wild1_rest_def assms(2))

lemma scan_right_step:
  assumes w: "wf_text dp" "walk dp k d0" "reach d0 d" and t: "\<not> is_wildcard (peek t)" and a: "argpos < length args"
    and rest: "\<And>n j. peek (skip_backslash t) \<noteq> 0 \<Longrightarrow> d \<noteq> [] \<Longrightarrow> wild_lit_eq lc (skip_backslash t) d = Some (n, j) \<Longrightarrow>
      captures_right lc lim ctr args (argpos + 1 + k) (drop j (skip_backslash t)) (wild_next d)
        (wild1_rest lc lim ctr args (drop j (skip_backslash t)) (wild_next d) (argpos + 1 + k))"
    and further: "\<And>c args1. peek (skip_backslash t) \<noteq> 0 \<Longrightarrow> d \<noteq> [] \<Longrightarrow> length args1 = length args \<Longrightarrow>
      (wild_lit_eq lc (skip_backslash t) d = None \<and> c = ctr \<and> args1 = args \<or>
       (\<exists>n j. wild_lit_eq lc (skip_backslash t) d = Some (n, j) \<and>
         wild1_rest lc lim ctr args (drop j (skip_backslash t)) (wild_next d) (argpos + 1 + k) = (False, c, args1))) \<Longrightarrow>
      scan_right lc lim c args1 t (wild_next d) argpos dp k
        (wild1_scan lc lim (length args) c args1 (skip_backslash t) (wild_next d) (argpos + 1 + k) argpos dp k)"
  shows "scan_right lc lim ctr args t d argpos dp k
    (wild1_scan lc lim (length args) ctr args (skip_backslash t) d (argpos + 1 + k) argpos dp k)"
proof -
  let ?u = "skip_backslash t"
  note S = wild1_scan.simps [of lc lim "length args" ctr args ?u d]
  have wd: "wf_text d" using reach_wf [OF w(3) walk_wf [OF w(2,1)]] .
  consider "peek ?u = 0" | "peek ?u \<noteq> 0" "d = []" | "peek ?u \<noteq> 0" "d \<noteq> []" "wild_lit_eq lc ?u d = None"
    | n j where "peek ?u \<noteq> 0" "d \<noteq> []" "wild_lit_eq lc ?u d = Some (n, j)" by (cases "wild_lit_eq lc ?u d") auto
  then show ?thesis
  proof cases
    case 1
    have "dropWhile (\<lambda>c. c \<noteq> 0) d = []" using wf_text_no_nul [OF wd] by auto
    then have "wild1_scan lc lim (length args) ctr args ?u d (argpos + 1 + k) argpos dp k = (True, ctr, fill_result (length args) args argpos dp k [])"
      unfolding S using 1 by (simp only: if_True refl)
    then show ?thesis using scan_found [OF w(1,2) reach_trans [OF w(3) reach_end [OF wd]] cap_end [OF t 1] a _ unchanged_refl order_refl] by simp
  next
    case 2
    then show ?thesis using S glob_end [OF t, of lc]
      by (auto simp: lit_eq_Nil scan_right_def star_glob_def elim: reach_NilE)
  next
    case 3
    note p = wf_text_step(1) [OF wd 3(2)]
    have "\<not> glob lc t d" using glob_literal [OF wd 3(2) t, of lc] 3(3) by simp
    then show ?thesis using S 3 p scan_right_next [OF further [OF 3(1,2) refl] order_refl unchanged_refl] star_glob_step [OF 3(2), of lc t] by simp
  next
    case 4
    note p = wf_text_step(1) [OF wd 4(2)] and e = lit_eq_length(2) [OF 4(3,2) wd]
    obtain v c args1 where r: "wild1_rest lc lim ctr args (drop j ?u) (wild_next d) (argpos + 1 + k) = (v, c, args1)" using prod_cases3 by blast
    have R: "ctr \<le> c" "unchanged (argpos + 1 + k) (length args) args args1"
      "v \<Longrightarrow> \<exists>cs. captures lc (drop j ?u) (wild_next d) cs \<and> stored cs args1 (argpos + 1 + k)"
      "c < lim \<longrightarrow> \<not> v \<longrightarrow> \<not> glob lc (drop j ?u) (wild_next d)"
      using rest [OF 4] unfolding r by (auto simp: captures_right_def)
    have u: "unchanged argpos (length args) args args1" "length args1 = length args" using R(2) by (auto simp: unchanged_def)
    have E: "wild1_scan lc lim (length args) ctr args ?u d (argpos + 1 + k) argpos dp k =
        (if v then (True, c, fill_result (length args) args1 argpos dp k d)
         else wild1_scan lc lim (length args) c args1 ?u (wild_next d) (argpos + 1 + k) argpos dp k)"
    proof -
      have X: "(if argpos + 1 + k < length args then wild1 lc lim (length args) ctr args (drop j ?u) (drop n d) (argpos + 1 + k)
          else let (value, ctr') = quick_wild_impl lc lim ctr (drop j ?u) (drop n d) in (value, ctr', args)) = (v, c, args1)"
        using r unfolding wild1_rest_def e .
      show ?thesis unfolding S by (cases v) (simp_all only: 4 p X if_False if_True option.case prod.case bool.case)
    qed
    show ?thesis
    proof (cases v)
      case True
      then obtain cs where cs: "captures lc t d cs" "stored cs args1 (argpos + 1 + k)" using R(3) cap_literal [OF t 4(2,3)] by blast
      show ?thesis using scan_found [OF w(1-3) cs(1) _ cs(2) u(1) R(1)] E True a u(2) by simp
    next
      case False
      then have "c < lim \<Longrightarrow> \<not> glob lc t d" using R(4) glob_literal [OF wd 4(2) t, of lc] 4(3) by auto
      then show ?thesis
        using scan_right_next [OF further [OF 4(1,2) u(2)] R(1) u(1)] star_glob_step [OF 4(2), of lc t] E False r 4(3) by auto
    qed
  qed
qed

lemma wild1_right:
  "wf_text d \<Longrightarrow> length d < LBUF_SIZE \<Longrightarrow> nargs = length args \<Longrightarrow> arg < nargs \<Longrightarrow>
     captures_right lc lim ctr args arg t d (wild1 lc lim nargs ctr args t d arg)"
  "wf_text d \<Longrightarrow> length d < LBUF_SIZE \<Longrightarrow> nargs = length args \<Longrightarrow> arg < nargs \<Longrightarrow>
     captures_right lc lim ctr args arg t d (wild1_loop lc lim nargs ctr args t d arg)"
  "wf_text dp \<Longrightarrow> walk dp k d0 \<Longrightarrow> reach d0 d \<Longrightarrow> length dp < LBUF_SIZE \<Longrightarrow> nargs = length args \<Longrightarrow> argpos < nargs \<Longrightarrow>
     arg = argpos + 1 + k \<Longrightarrow> \<not> is_wildcard (peek t0) \<Longrightarrow> t = skip_backslash t0 \<Longrightarrow>
     scan_right lc lim ctr args t0 d argpos dp k (wild1_scan lc lim nargs ctr args t d arg argpos dp k)"
proof (induction lc lim nargs ctr args t d arg and lc lim nargs ctr args t d arg and lc lim nargs ctr args t d arg argpos dp k
    arbitrary: and and d0 t0 rule: wild1_wild1_loop_wild1_scan.induct)
  case (1 lc lim nargs ctr args t d arg)
  then show ?case
    by (cases "ctr \<ge> lim") (auto simp: wild1.simps [of lc lim "length args"] captures_right_def [of lc lim ctr args arg t d "(False, ctr, args)"] intro: captures_right_mono)
next
  case (2 lc lim nargs ctr args t d arg)
  note prems = "2.prems" [unfolded "2.prems"(3)] and IH = "2.IH" [unfolded "2.prems"(3)]
  consider "peek t = 0x2A" | "peek t = 0x3F" | "\<not> is_wildcard (peek t)" by (auto simp: is_wildcard_def)
  then show ?case unfolding "2.prems"(3)
  proof cases
    case 1
    show "captures_right lc lim ctr args arg t d (wild1_loop lc lim (length args) ctr args t d arg)"
    proof (rule captures_right_loop_star [OF prems(1) 1 prems(4,2)])
      fix args' t' d' arg' argpos dp k
      assume a: "peek (tl t) \<noteq> 0" "wild1_wildcards (length args) args t d arg arg d = (args', WAnchor t' d' arg' argpos dp k)"
        "wf_text dp" "length dp \<le> length d" "walk dp k d'" "\<not> is_wildcard (peek t')" "arg' = argpos + 1 + k" "argpos < length args'" "length args' = length args"
      show "scan_right lc lim ctr args' t' d' argpos dp k (wild1_scan lc lim (length args) ctr args' (skip_backslash t') d' arg' argpos dp k)"
        using IH(1) [OF 1 a(1) a(2) [symmetric] refl a(3,5) reach_refl _ _ _ a(7,6) refl] a(4,8,9) prems(2) by simp
    qed
  next
    case 2
    show "captures_right lc lim ctr args arg t d (wild1_loop lc lim (length args) ctr args t d arg)"
    proof (rule captures_right_loop_question [OF prems(1) 2 prems(4)])
      assume d: "d \<noteq> []" "arg + 1 < length args"
      note w = wf_text_step [OF prems(1) d(1)]
      show "captures_right lc lim ctr (args[arg := take (wild_char_len d) d]) (arg + 1) (tl t) (wild_next d)
          (wild1_loop lc lim (length args) ctr (args[arg := take (wild_char_len d) d]) (tl t) (wild_next d) (arg + 1))"
      proof (rule IH(2) [OF _ 2 refl w(2) refl, folded w(3)])
        show "peek t \<noteq> 0x2A" using 2 by simp
        show "length (wild_next d) < LBUF_SIZE" using w(5) prems(2) by linarith
      qed (use d(2) w(4) in simp_all)
    qed
  next
    case 3
    show "captures_right lc lim ctr args arg t d (wild1_loop lc lim (length args) ctr args t d arg)"
    proof (rule captures_right_loop_literal [OF prems(1) 3])
      fix n k assume d: "d \<noteq> []" and l: "wild_lit_eq lc (skip_backslash t) d = Some (n, k)"
      note w = wf_text_step [OF prems(1) d] and e = lit_eq_length(2) [OF l d prems(1)]
      show "captures_right lc lim ctr args arg (drop k (skip_backslash t)) (wild_next d)
          (wild1_loop lc lim (length args) ctr args (drop k (skip_backslash t)) (wild_next d) arg)"
        using IH(3) [OF _ _ l refl w(1)] 3 w e prems(2,4) by (simp add: is_wildcard_def)
    qed
  qed
next
  case (3 lc lim nargs ctr args t d arg argpos dp k)
  note t = "3.prems"(9) and arg = "3.prems"(7) and na = "3.prems"(5)
  have wd: "wf_text d" using reach_wf [OF "3.prems"(3) walk_wf [OF "3.prems"(2,1)]] .
  have ld: "length d < LBUF_SIZE"
    using reach_length [OF reach_trans [OF walk_reach [OF "3.prems"(2)] "3.prems"(3)] "3.prems"(1)] "3.prems"(4) by simp
  show ?case unfolding na arg t
  proof (rule scan_right_step [OF "3.prems"(1-3,8)])
    show "argpos < length args" using "3.prems"(6) na by simp
  next
    fix n j assume a: "peek (skip_backslash t0) \<noteq> 0" "d \<noteq> []" "wild_lit_eq lc (skip_backslash t0) d = Some (n, j)"
    note w = wf_text_step [OF wd a(2)] and e = lit_eq_length(2) [OF a(3,2) wd]
    show "captures_right lc lim ctr args (argpos + 1 + k) (drop j (skip_backslash t0)) (wild_next d)
        (wild1_rest lc lim ctr args (drop j (skip_backslash t0)) (wild_next d) (argpos + 1 + k))"
      using "3.IH"(2) [unfolded na arg t, OF a(1,3) refl w(1)] w(4,5) ld by (intro wild1_rest_right) (simp_all add: e)
  next
    fix c args1
    assume a: "peek (skip_backslash t0) \<noteq> 0" "d \<noteq> []" "length args1 = length args"
      and b: "wild_lit_eq lc (skip_backslash t0) d = None \<and> c = ctr \<and> args1 = args \<or>
       (\<exists>n j. wild_lit_eq lc (skip_backslash t0) d = Some (n, j) \<and>
         wild1_rest lc lim ctr args (drop j (skip_backslash t0)) (wild_next d) (argpos + 1 + k) = (False, c, args1))"
    note w = wf_text_step [OF wd a(2)]
    have r: "reach d0 (wild_next d)" using "3.prems"(3) a(2) by (meson reach_refl reach_step reach_trans)
    from b show "scan_right lc lim c args1 t0 (wild_next d) argpos dp k
        (wild1_scan lc lim (length args) c args1 (skip_backslash t0) (wild_next d) (argpos + 1 + k) argpos dp k)"
    proof
      assume "wild_lit_eq lc (skip_backslash t0) d = None \<and> c = ctr \<and> args1 = args"
      then show ?thesis
        using "3.IH"(1) [unfolded na arg t, OF a(1) _ w(1) "3.prems"(1,2) r "3.prems"(4) refl _ refl "3.prems"(8) refl] "3.prems"(6) na by simp
    next
      assume "\<exists>n j. wild_lit_eq lc (skip_backslash t0) d = Some (n, j) \<and>
         wild1_rest lc lim ctr args (drop j (skip_backslash t0)) (wild_next d) (argpos + 1 + k) = (False, c, args1)"
      then obtain n j where l: "wild_lit_eq lc (skip_backslash t0) d = Some (n, j)"
        and x: "wild1_rest lc lim ctr args (drop j (skip_backslash t0)) (wild_next d) (argpos + 1 + k) = (False, c, args1)" by blast
      note e = lit_eq_length(2) [OF l a(2) wd]
      have y: "(False, c, args1) = (if argpos + 1 + k < length args then wild1 lc lim (length args) ctr args (drop j (skip_backslash t0)) (drop n d) (argpos + 1 + k)
          else let (value, ctr') = quick_wild_impl lc lim ctr (drop j (skip_backslash t0)) (drop n d) in (value, ctr', args))"
        using x unfolding wild1_rest_def e by (rule sym)
      show ?thesis
        using "3.IH"(3) [unfolded na arg t, OF a(1) l refl w(1) y refl refl "3.prems"(1,2) r "3.prems"(4) a(3) [symmetric] _ refl "3.prems"(8) refl]
          "3.prems"(6) na by simp
    qed
  qed
qed

section \<open>The entry point\<close>

lemma wild_fast_spec:
  "wf_text d \<Longrightarrow>
     (case wild_fast lc t d of
        Inl v \<Rightarrow> (glob lc t d \<longleftrightarrow> v) \<and> (v \<longrightarrow> captures lc t d [])
      | Inr (t', d') \<Rightarrow> wf_text d' \<and> length d' \<le> length d \<and> set t' \<subseteq> set t \<and> (glob lc t d \<longleftrightarrow> glob lc t' d') \<and>
          (\<forall>cs. captures lc t' d' cs \<longrightarrow> captures lc t d cs))"
proof (induction lc t d rule: wild_fast.induct)
  case (1 lc t d)
  show ?case
  proof (cases "is_wildcard (peek t)")
    case True
    then show ?thesis using 1 by (subst wild_fast.simps) (auto simp: is_wildcard_def)
  next
    case W: False
    then have F: "wild_fast lc t d = (case wild_lit_eq lc (skip_backslash t) d of None \<Rightarrow> Inl False
        | Some (dlen, tlen) \<Rightarrow> if peek d = 0 then Inl True else wild_fast lc (drop tlen (skip_backslash t)) (drop dlen d))"
      by (subst wild_fast.simps) (auto simp: is_wildcard_def)
    show ?thesis
    proof (cases "d = []")
      case True
      then show ?thesis using F glob_end [OF W, of lc] cap_end [OF W, of lc] by (simp add: lit_eq_Nil)
    next
      case False
      note g = glob_literal [OF "1.prems" False W, of lc] and w = wf_text_step [OF "1.prems" False]
      show ?thesis
      proof (cases "wild_lit_eq lc (skip_backslash t) d")
        case None
        then show ?thesis using F g by simp
      next
        case (Some p)
        obtain n k where p: "p = (n, k)" by (cases p)
        note Some = Some [unfolded p] and e = lit_eq_length(2) [OF Some [unfolded p] False "1.prems"]
        have E: "wild_fast lc t d = wild_fast lc (drop k (skip_backslash t)) (wild_next d)" using F Some w(1) e by simp
        have nw: "\<not> (peek t = 0x2A \<or> peek t = 0x3F)" using W by (auto simp: is_wildcard_def)
        have IH: "case wild_fast lc (drop k (skip_backslash t)) (wild_next d) of
            Inl v \<Rightarrow> (glob lc (drop k (skip_backslash t)) (wild_next d) \<longleftrightarrow> v) \<and> (v \<longrightarrow> captures lc (drop k (skip_backslash t)) (wild_next d) [])
          | Inr (t', d') \<Rightarrow> wf_text d' \<and> length d' \<le> length (wild_next d) \<and> set t' \<subseteq> set (drop k (skip_backslash t)) \<and>
              (glob lc (drop k (skip_backslash t)) (wild_next d) \<longleftrightarrow> glob lc t' d') \<and>
              (\<forall>cs. captures lc t' d' cs \<longrightarrow> captures lc (drop k (skip_backslash t)) (wild_next d) cs)"
          using "1.IH" [OF nw Some refl w(1), unfolded e, OF w(4)] .
        have s: "set (drop k (skip_backslash t)) \<subseteq> set t"
          using set_drop_subset [of k "skip_backslash t"] by (cases t) (auto simp: skip_backslash_def)
        have c: "captures lc (drop k (skip_backslash t)) (wild_next d) cs \<Longrightarrow> captures lc t d cs" for cs
          by (rule cap_literal [OF W False Some])
        have "glob lc t d \<longleftrightarrow> glob lc (drop k (skip_backslash t)) (wild_next d)" using g Some by auto
        then show ?thesis unfolding E using IH s c w(5)
          by (cases "wild_fast lc (drop k (skip_backslash t)) (wild_next d)") (auto split: prod.splits)
      qed
    qed
  qed
qed

lemma quick_wild_counter:
  "snd (quick_wild_impl lc lim ctr t d) \<le> max lim ctr" "snd (quick_wild_loop lc lim ctr t d) \<le> max lim ctr"
  "snd (quick_wild_scan lc lim ctr t d) \<le> max lim ctr"
proof (induction lc lim ctr t d and lc lim ctr t d and lc lim ctr t d
    rule: quick_wild_impl_quick_wild_loop_quick_wild_scan.induct)
  case (1 lc lim ctr t d)
  then show ?case by (auto simp: quick_wild_impl.simps)
next
  case (2 lc lim ctr t d)
  then show ?case by (subst quick_wild_loop.simps) (auto split: option.split)
next
  case (3 lc lim ctr t d)
  show ?case
  proof (cases "peek d = 0")
    case False
    show ?thesis
    proof (cases "wild_lit_eq lc t d")
      case (Some p)
      obtain n k where p: "p = (n, k)" by (cases p)
      obtain v c where i: "quick_wild_impl lc lim ctr (drop k t) (drop n d) = (v, c)" by fastforce
      have "c \<le> max lim ctr" using "3.IH"(2) [OF False Some p [symmetric]] i by simp
      then show ?thesis using "3.IH"(3) [OF False Some p [symmetric] i [symmetric]] False Some p i
        by (subst quick_wild_scan.simps) (cases v; auto)
    qed (use 3 False in \<open>simp add: quick_wild_scan.simps [of lc lim ctr t d]\<close>)
  qed (simp add: quick_wild_scan.simps)
qed

lemma takeWhile_no_nul: "0 \<notin> set t \<Longrightarrow> takeWhile (\<lambda>c. c \<noteq> 0) t = (t :: bytes)"
  by (auto simp: takeWhile_eq_all_conv)

lemma wild_spec:
  assumes "wf_text d" "length d < LBUF_SIZE" "0 \<notin> set (LoweredPattern lc p)" "wild lc lim p d nargs = (v, c, args)"
  shows "(c < lim \<longrightarrow> (v \<longleftrightarrow> glob lc (LoweredPattern lc p) d)) \<and>
    (v \<longrightarrow> (\<exists>cs. captures lc (LoweredPattern lc p) d cs \<and>
       (\<forall>i < min nargs (length cs). args ! i = (if cs ! i = [] then None else Some (cs ! i))))) \<and>
    (\<not> v \<longrightarrow> args = replicate nargs None)"
proof (cases "wild_fast lc (LoweredPattern lc p) d")
  case (Inl w)
  then show ?thesis using wild_fast_spec [OF assms(1), of lc "LoweredPattern lc p"] assms(4)
    by (auto simp: wild_def intro!: exI [of _ "[]"])
next
  case (Inr q)
  obtain t' d' where q: "q = (t', d')" by (cases q)
  have s: "wf_text d'" "length d' \<le> length d" "set t' \<subseteq> set (LoweredPattern lc p)" "glob lc (LoweredPattern lc p) d \<longleftrightarrow> glob lc t' d'"
    "\<And>cs. captures lc t' d' cs \<Longrightarrow> captures lc (LoweredPattern lc p) d cs"
    using wild_fast_spec [OF assms(1), where lc = lc and t = "LoweredPattern lc p"] by (auto simp: Inr q)
  define r where "r = (if nargs \<noteq> 0 then wild1 lc lim nargs 0 (replicate nargs []) t' d' 0
    else (let (value, ctr) = quick_wild_impl lc lim 0 t' d' in (value, ctr, [])))"
  obtain v1 c1 al where r: "r = (v1, c1, al)" by (cases r)
  have R: "length al = nargs" "v1 \<longrightarrow> (\<exists>cs. captures lc t' d' cs \<and> stored cs al 0)" "c1 < lim \<longrightarrow> \<not> v1 \<longrightarrow> \<not> glob lc t' d'"
  proof -
    have "captures_right lc lim 0 (replicate nargs []) 0 t' d' (v1, c1, al)"
    proof (cases "nargs = 0")
      case True
      then show ?thesis using wild1_rest_right [OF s(1), of 0 "[]" lc lim 0 t'] r by (simp add: r_def wild1_rest_def)
    next
      case False
      then show ?thesis using wild1_right(1) [OF s(1), of nargs "replicate nargs []" 0 lc lim 0 t'] s(2) assms(2) r by (simp add: r_def)
    qed
    then show "length al = nargs" "v1 \<longrightarrow> (\<exists>cs. captures lc t' d' cs \<and> stored cs al 0)" "c1 < lim \<longrightarrow> \<not> v1 \<longrightarrow> \<not> glob lc t' d'"
      by (auto simp: captures_right_def unchanged_def)
  qed
  have nz: "takeWhile (\<lambda>c. c \<noteq> 0) t' = t'" using assms(3) s(3) by (intro takeWhile_no_nul) auto
  have W: "v = v1" "c = c1" "args = map (\<lambda>i. if i < min nargs (length (filter is_wildcard t')) \<and> al ! i \<noteq> [] \<and> v1 then Some (al ! i) else None) [0 ..< nargs]"
    using assms(4) unfolding wild_def Inr sum.case q prod.case Let_def nz r_def [symmetric, unfolded Let_def] r by auto
  have "\<exists>cs. captures lc (LoweredPattern lc p) d cs \<and> (\<forall>i < min nargs (length cs). args ! i = (if cs ! i = [] then None else Some (cs ! i)))" if yes: v1
  proof -
    obtain cs where cs: "captures lc t' d' cs" "stored cs al 0" using R(2) yes by blast
    then have "al ! i = cs ! i" if "i < min nargs (length cs)" for i using that R(1) by (simp add: stored_def)
    moreover have "length cs \<le> length (filter is_wildcard t')" using captures_count [OF cs(1)] .
    ultimately show ?thesis using yes by (intro exI [of _ cs] conjI s(5) [OF cs(1)]) (auto simp: W(3))
  qed
  moreover have "args = replicate nargs None" if "\<not> v1" using that by (intro nth_equalityI) (auto simp: W(3))
  moreover have "v1 \<longrightarrow> glob lc t' d'" using R(2) captures_glob [OF _ s(1)] by blast
  ultimately show ?thesis using R(3) s(4) W(1,2) by blast
qed

lemma captures_pieces:
  "captures lc t d cs \<Longrightarrow> wf_text d \<Longrightarrow> \<exists>xs rest. length xs = length cs \<and> d = concat (map2 (@) xs cs) @ rest"
proof (induction rule: captures.induct)
  case (cap_question t d cs)
  then obtain xs rest where "length xs = length cs" "wild_next d = concat (map2 (@) xs cs) @ rest" using wf_text_step(4) by blast
  moreover have "d = take (wild_char_len d) d @ wild_next d" using cap_question wf_text_step(3) [of d] by simp
  ultimately show ?case by (intro exI [of _ "[] # xs"] exI [of _ rest]) simp
next
  case (cap_star t d e cs)
  then obtain xs rest where "length xs = length cs" "e = concat (map2 (@) xs cs) @ rest" using reach_wf by blast
  then show ?case using reach_suffix [OF cap_star.hyps(2) cap_star.prems] by (intro exI [of _ "[] # xs"] exI [of _ rest]) simp
next
  case (cap_literal t d n k cs)
  then obtain xs rest where x: "length xs = length cs" "wild_next d = concat (map2 (@) xs cs) @ rest" using wf_text_step(4) by blast
  have d: "d = take (wild_char_len d) d @ wild_next d" using cap_literal wf_text_step(3) [of d] by simp
  show ?case
  proof (cases cs)
    case Nil
    then show ?thesis using d x by (intro exI [of _ "[]"] exI [of _ d]) simp
  next
    case (Cons c cs')
    then obtain y ys where "xs = y # ys" using x(1) by (cases xs) auto
    then show ?thesis using d x Cons by (intro exI [of _ "(take (wild_char_len d) d @ y) # ys"] exI [of _ rest]) simp
  qed
qed simp

text \<open>Under a table that folds nothing, a short ASCII pattern is its own lower case.\<close>

lemma ascii_lowered:
  assumes "list_all (\<lambda>c. c \<noteq> 0 \<and> utf8_FirstByte c = 1) a" "length a < LBUF_SIZE"
  shows "LoweredPattern (\<lambda>_. None) a = a"
proof -
  have "mux_strlwr_loop (\<lambda>_. None) a B = B @ a" if "length B + length a < LBUF_SIZE" for B
    using assms(1) that
  proof (induction a arbitrary: B)
    case Nil
    show ?case by (subst mux_strlwr_loop.simps) simp
  next
    case (Cons c a)
    have "strlwr_src (c # a) = 1" using Cons.prems by (simp add: strlwr_src_def UTF8_CONTINUE_def)
    then show ?case using Cons by (subst mux_strlwr_loop.simps) (simp add: folded_def)
  qed
  from this [of "[]"] show ?thesis using assms(2) by (simp add: LoweredPattern_def mux_strlwr_def)
qed

section \<open>Properties\<close>

text \<open>C19: \<open>quick_wild\<close> decides the match of the lower-cased pattern: on well-formed data a yes is
  right whatever the call counter, and a no is right as long as the counter has not reached
  its limit.  The counter never exceeds the limit, so the work of a call is bounded.\<close>

theorem quick_wild_decides_match:
  assumes "wf_text d" "quick_wild lc lim ctr p d = (v, c)"
  shows "(v \<longrightarrow> glob lc (LoweredPattern lc p) d) \<and> (c < lim \<longrightarrow> (v \<longleftrightarrow> glob lc (LoweredPattern lc p) d)) \<and>
    ctr \<le> c \<and> c \<le> max lim ctr"
  using quick_wild_glob(1) [OF assms(1), of lim ctr lc "LoweredPattern lc p"]
    quick_wild_counter(1) [of lc lim ctr "LoweredPattern lc p" d] assms(2)
  by (auto simp: quick_wild_def decides_def)

theorem quick_wild_decides_match_witness:
  "glob (\<lambda>_. None) (LoweredPattern (\<lambda>_. None) (ascii ''f*r'')) (ascii ''foobar'')"
proof -
  have L: "LoweredPattern (\<lambda>_. None) (ascii ''f*r'') = ascii ''f*r''"
    by (rule ascii_lowered, code_simp, simp add: LBUF_SIZE_def ascii_def)
  have "wf_text (ascii ''foobar'')" by code_simp
  moreover have "quick_wild (\<lambda>_. None) 100 0 (ascii ''f*r'') (ascii ''foobar'') = (True, 2)"
    unfolding quick_wild_def L by code_simp
  ultimately show ?thesis using quick_wild_decides_match by blast
qed

text \<open>C5: \<open>wild\<close>, the matcher of \<open>$\<close>-commands, decides the match of the lower-cased pattern as long
  as the call counter stays below its limit.  On a match the arguments hold what the
  wildcards stand for, one for each in order (an empty text as a null pointer), as many as
  there is room for; without a match all arguments are null.\<close>

theorem wild_captures:
  assumes "wf_text d" "length d < LBUF_SIZE" "0 \<notin> set (LoweredPattern lc p)" "wild lc lim p d nargs = (v, c, args)"
  shows "(c < lim \<longrightarrow> (v \<longleftrightarrow> glob lc (LoweredPattern lc p) d)) \<and>
    (v \<longrightarrow> (\<exists>cs. captures lc (LoweredPattern lc p) d cs \<and>
       (\<forall>i < min nargs (length cs). args ! i = (if cs ! i = [] then None else Some (cs ! i))))) \<and>
    (\<not> v \<longrightarrow> args = replicate nargs None)"
  using assms by (rule wild_spec)

theorem wild_captures_witness:
  "glob (\<lambda>_. None) (LoweredPattern (\<lambda>_. None) (ascii ''* and ?'')) (ascii ''foo and B'')"
proof -
  let ?lc = "\<lambda>_. None"
  have L: "LoweredPattern ?lc (ascii ''* and ?'') = ascii ''* and ?''"
    by (rule ascii_lowered, code_simp, simp add: LBUF_SIZE_def ascii_def)
  have "wf_text (ascii ''foo and B'')" "0 \<notin> set (LoweredPattern ?lc (ascii ''* and ?''))" unfolding L by code_simp+
  moreover have "length (ascii ''foo and B'') < LBUF_SIZE" by (simp add: LBUF_SIZE_def ascii_def)
  moreover have "wild ?lc 100 (ascii ''* and ?'') (ascii ''foo and B'') 2 =
      (True, 3, [Some (ascii ''foo''), Some (ascii ''B'')])"
    unfolding wild_def L by code_simp
  ultimately show ?thesis using wild_captures by fastforce
qed

text \<open>A match exists exactly when there are captures for it; there are no more of them than
  wildcards in the pattern, and they are pieces of the data in order, one behind the
  other.\<close>

theorem captures_exact:
  assumes "wf_text d"
  shows "(glob lc t d \<longleftrightarrow> (\<exists>cs. captures lc t d cs)) \<and>
    (\<forall>cs. captures lc t d cs \<longrightarrow> length cs \<le> length (filter is_wildcard t) \<and>
       (\<exists>xs rest. length xs = length cs \<and> d = concat (map2 (@) xs cs) @ rest))"
  using captures_glob glob_captures captures_count captures_pieces assms by metis

theorem captures_exact_witness:
  "\<exists>cs. captures (\<lambda>_. None) (ascii ''a*'') (ascii ''abc'') cs"
proof -
  have "wf_text (ascii ''abc'')" "glob (\<lambda>_. None) (ascii ''a*'') (ascii ''abc'')" by code_simp+
  then show ?thesis using captures_exact by blast
qed

end
