(* ===== verification/Std_Heap.thy ===== *)
theory Std_Heap
  imports Mux_Prelude "HOL-Library.Multiset"
begin

text \<open>
  The binary-heap algorithms of the C++ standard library that the task scheduler uses on
  its vectors: \<open>std::push_heap\<close>, \<open>std::pop_heap\<close>, \<open>std::make_heap\<close> and \<open>std::sort_heap\<close>, for a
  comparison \<open>lt\<close>.  The locale \<open>heap_order\<close> states what the standard asks of the comparison
  (a strict weak order); under it the algorithms permute the vector, establish the heap
  order, and bring a greatest element to the front.
\<close>

section \<open>The algorithms\<close>

definition exchange :: "'a list \<Rightarrow> nat \<Rightarrow> nat \<Rightarrow> 'a list" where
  "exchange xs i j = xs[i := xs ! j, j := xs ! i]"

definition parent :: "nat \<Rightarrow> nat" where
  "parent i = (i - 1) div 2"

lemma parent_less: "0 < i \<Longrightarrow> parent i < i"
  by (simp add: parent_def)

function sift_up :: "('a \<Rightarrow> 'a \<Rightarrow> bool) \<Rightarrow> 'a list \<Rightarrow> nat \<Rightarrow> 'a list" where
  "sift_up lt xs i =
     (if 0 < i \<and> lt (xs ! parent i) (xs ! i) then sift_up lt (exchange xs i (parent i)) (parent i) else xs)"
  by pat_completeness auto
termination by (relation "measure (\<lambda>(_, _, i). i)") (auto simp: parent_def)

definition larger_child :: "('a \<Rightarrow> 'a \<Rightarrow> bool) \<Rightarrow> nat \<Rightarrow> 'a list \<Rightarrow> nat \<Rightarrow> nat" where
  "larger_child lt n xs i =
     (let c = 2 * i + 1 in if c + 1 < n \<and> lt (xs ! c) (xs ! (c + 1)) then c + 1 else c)"

lemma larger_child_cases: "larger_child lt n xs i = 2 * i + 1 \<or> larger_child lt n xs i = 2 * i + 2"
  by (simp add: larger_child_def Let_def)

function sift_down :: "('a \<Rightarrow> 'a \<Rightarrow> bool) \<Rightarrow> nat \<Rightarrow> 'a list \<Rightarrow> nat \<Rightarrow> 'a list" where
  "sift_down lt n xs i =
     (if n \<le> 2 * i + 1 then xs
      else
        (let c = larger_child lt n xs i
         in if lt (xs ! i) (xs ! c) then sift_down lt n (exchange xs i c) c else xs))"
  by pat_completeness auto
termination
proof (relation "measure (\<lambda>(_, n, _, i). n - i)", goal_cases)
  case (2 lt n xs i c)
  then show ?case using larger_child_cases [of lt n xs i] by auto
qed simp

declare sift_up.simps [simp del] sift_down.simps [simp del]

definition push_heap :: "('a \<Rightarrow> 'a \<Rightarrow> bool) \<Rightarrow> 'a list \<Rightarrow> 'a list" where
  "push_heap lt xs = sift_up lt xs (length xs - 1)"

text \<open>\<open>pop_heap lt n xs\<close> works on the first \<open>n\<close> elements.\<close>

definition pop_heap :: "('a \<Rightarrow> 'a \<Rightarrow> bool) \<Rightarrow> nat \<Rightarrow> 'a list \<Rightarrow> 'a list" where
  "pop_heap lt n xs = sift_down lt (n - 1) (exchange xs 0 (n - 1)) 0"

definition make_heap :: "('a \<Rightarrow> 'a \<Rightarrow> bool) \<Rightarrow> 'a list \<Rightarrow> 'a list" where
  "make_heap lt xs = foldl (sift_down lt (length xs)) xs (rev [0 ..< length xs div 2])"

definition sort_heap :: "('a \<Rightarrow> 'a \<Rightarrow> bool) \<Rightarrow> 'a list \<Rightarrow> 'a list" where
  "sort_heap lt xs = foldl (\<lambda>ys n. pop_heap lt n ys) xs (rev [2 ..< length xs + 1])"

section \<open>Permutation\<close>

lemma length_exchange [simp]: "length (exchange xs i j) = length xs"
  by (simp add: exchange_def)

lemma mset_exchange [simp]: "i < length xs \<Longrightarrow> j < length xs \<Longrightarrow> mset (exchange xs i j) = mset xs"
  by (simp add: exchange_def mset_swap)

lemma exchange_nth:
  "i < length xs \<Longrightarrow> j < length xs \<Longrightarrow> exchange xs i j ! k = (if k = j then xs ! i else if k = i then xs ! j else xs ! k)"
  by (cases "k < length xs") (auto simp: exchange_def nth_list_update)

lemma length_sift_up [simp]: "length (sift_up lt xs i) = length xs"
proof (induction lt xs i rule: sift_up.induct)
  case (1 lt xs i)
  then show ?case by (subst sift_up.simps) simp
qed

lemma mset_sift_up: "i < length xs \<Longrightarrow> mset (sift_up lt xs i) = mset xs"
proof (induction lt xs i rule: sift_up.induct)
  case (1 lt xs i)
  moreover have "parent i < length xs" using "1.prems" by (simp add: parent_def)
  ultimately show ?case by (subst sift_up.simps) simp
qed

lemma length_sift_down [simp]: "length (sift_down lt n xs i) = length xs"
proof (induction lt n xs i rule: sift_down.induct)
  case (1 lt n xs i)
  then show ?case by (subst sift_down.simps) (simp add: Let_def)
qed

lemma larger_child_less: "\<not> n \<le> 2 * i + 1 \<Longrightarrow> larger_child lt n xs i < n"
  by (simp add: larger_child_def Let_def)

lemma sift_down_perm:
  "n \<le> length xs \<Longrightarrow> mset (sift_down lt n xs i) = mset xs \<and> (\<forall>k \<ge> n. sift_down lt n xs i ! k = xs ! k)"
proof (induction lt n xs i rule: sift_down.induct)
  case (1 lt n xs i)
  show ?case
  proof (cases "n \<le> 2 * i + 1 \<or> \<not> lt (xs ! i) (xs ! larger_child lt n xs i)")
    case True
    then show ?thesis by (subst (1 2) sift_down.simps) (auto simp: Let_def)
  next
    case False
    then have c: "larger_child lt n xs i < n" and i: "i < n" using larger_child_less by auto
    have E: "sift_down lt n xs i = sift_down lt n (exchange xs i (larger_child lt n xs i)) (larger_child lt n xs i)"
      using False by (subst sift_down.simps) (simp add: Let_def)
    show ?thesis unfolding E
      using "1.IH" [OF _ refl] False "1.prems" c i by (auto simp: exchange_nth)
  qed
qed

lemma mset_make_heap [simp]: "mset (make_heap lt xs) = mset xs"
proof -
  have "mset (foldl (sift_down lt (length xs)) ys is) = mset ys" if "length ys = length xs" for ys "is"
    using that by (induction "is" arbitrary: ys) (auto simp: sift_down_perm)
  then show ?thesis by (simp add: make_heap_def)
qed

lemma mset_push_heap [simp]: "mset (push_heap lt xs) = mset xs"
  by (cases "xs = []") (simp_all add: push_heap_def mset_sift_up sift_up.simps [of lt "[]"])

lemma pop_heap_perm:
  assumes "0 < n" "n \<le> length xs"
  shows "mset (pop_heap lt n xs) = mset xs" "pop_heap lt n xs ! (n - 1) = xs ! 0" "length (pop_heap lt n xs) = length xs"
    "\<And>k. n \<le> k \<Longrightarrow> pop_heap lt n xs ! k = xs ! k"
proof -
  have b: "0 < length xs" "n - 1 < length xs" "n - 1 \<le> length (exchange xs 0 (n - 1))" using assms by auto
  note p = sift_down_perm [OF b(3), of lt 0] exchange_nth [OF b(1,2)] mset_exchange [OF b(1,2)]
  show "mset (pop_heap lt n xs) = mset xs" "pop_heap lt n xs ! (n - 1) = xs ! 0" "length (pop_heap lt n xs) = length xs"
    using p by (simp_all add: pop_heap_def)
  show "pop_heap lt n xs ! k = xs ! k" if "n \<le> k" for k using p assms(1) that by (auto simp: pop_heap_def)
qed

lemma pop_heap_prefix:
  assumes "0 < n" "n \<le> length xs" "i < n"
  shows "\<exists>k < n. pop_heap lt n xs ! i = xs ! k"
proof -
  let ?ys = "pop_heap lt n xs"
  note pop = pop_heap_perm [where lt = lt, OF assms(1,2)]
  have "drop n ?ys = drop n xs" using pop(3,4) by (intro nth_equalityI) auto
  moreover have "mset (take n ?ys) + mset (drop n ?ys) = mset (take n xs) + mset (drop n xs)"
    using pop(1) by (simp flip: mset_append)
  ultimately have "set (take n ?ys) = set (take n xs)" by (metis add_right_cancel set_mset_mset)
  moreover have "?ys ! i \<in> set (take n ?ys)" using assms pop(3) by (auto simp: in_set_conv_nth)
  ultimately show ?thesis using assms(2) by (auto simp: in_set_conv_nth)
qed

lemma set_push_heap [simp]: "set (push_heap lt xs) = set xs" and set_make_heap [simp]: "set (make_heap lt xs) = set xs"
  by (simp_all flip: set_mset_mset)

lemma length_push_heap [simp]: "length (push_heap lt xs) = length xs" and length_make_heap [simp]: "length (make_heap lt xs) = length xs"
  by (simp_all flip: size_mset)

section \<open>Heap order\<close>

text \<open>The elements behind position \<open>k\<close> are below their parents, as far as these are not in
  front of \<open>k\<close>.\<close>

definition heap_from :: "('a \<Rightarrow> 'a \<Rightarrow> bool) \<Rightarrow> nat \<Rightarrow> nat \<Rightarrow> 'a list \<Rightarrow> bool" where
  "heap_from lt k n xs \<longleftrightarrow> (\<forall>j. 0 < j \<and> j < n \<and> k \<le> parent j \<longrightarrow> \<not> lt (xs ! parent j) (xs ! j))"

definition is_heap :: "('a \<Rightarrow> 'a \<Rightarrow> bool) \<Rightarrow> 'a list \<Rightarrow> bool" where
  "is_heap lt xs \<longleftrightarrow> heap_from lt 0 (length xs) xs"

locale heap_order =
  fixes lt :: "'a \<Rightarrow> 'a \<Rightarrow> bool"
  assumes asym: "lt x y \<Longrightarrow> \<not> lt y x"
    and neg_trans: "\<not> lt x y \<Longrightarrow> \<not> lt y z \<Longrightarrow> \<not> lt x z"
begin

lemma irrefl: "\<not> lt x x"
  using asym by blast

lemma sift_down_heap:
  assumes "n \<le> length xs" "i < n"
    and "\<And>j. 0 < j \<Longrightarrow> j < n \<Longrightarrow> k \<le> parent j \<Longrightarrow> parent j \<noteq> i \<Longrightarrow> \<not> lt (xs ! parent j) (xs ! j)"
    and "\<And>j. 0 < i \<Longrightarrow> k \<le> parent i \<Longrightarrow> 0 < j \<Longrightarrow> j < n \<Longrightarrow> parent j = i \<Longrightarrow> \<not> lt (xs ! parent i) (xs ! j)"
  shows "heap_from lt k n (sift_down lt n xs i)"
  using assms
proof (induction "n - i" arbitrary: xs i rule: less_induct)
  case less
  let ?c = "larger_child lt n xs i"
  note P = less.prems
  show ?case
  proof (cases "n \<le> 2 * i + 1")
    case True
    then have "parent j \<noteq> i" if "j < n" "0 < j" for j using that by (auto simp: parent_def)
    then show ?thesis using True P(3) by (subst sift_down.simps) (auto simp: heap_from_def)
  next
    case small: False
    have c: "?c < n" "parent ?c = i" "0 < ?c" "i < ?c" using larger_child_less [OF small] larger_child_cases [of lt n xs i]
      by (auto simp: parent_def)
    have big: "\<not> lt (xs ! ?c) (xs ! j)" if "parent j = i" "0 < j" "j < n" for j
    proof -
      have "j = 2 * i + 1 \<or> j = 2 * i + 2" using that(1,2) by (auto simp: parent_def)
      then show ?thesis using that(3) by (auto simp: larger_child_def Let_def irrefl dest: asym)
    qed
    show ?thesis
    proof (cases "lt (xs ! i) (xs ! ?c)")
      case False
      then have "sift_down lt n xs i = xs" using small by (subst sift_down.simps) (simp add: Let_def)
      moreover have "\<not> lt (xs ! parent j) (xs ! j)" if "0 < j" "j < n" "k \<le> parent j" for j
        using P(3) [OF that] big [of j] that neg_trans [OF False] by (cases "parent j = i") auto
      ultimately show ?thesis by (simp add: heap_from_def)
    next
      case True
      let ?ys = "exchange xs i ?c"
      have nth: "?ys ! j = (if j = ?c then xs ! i else if j = i then xs ! ?c else xs ! j)" for j
        using P(1,2) c(1) by (intro exchange_nth) auto
      have E: "sift_down lt n xs i = sift_down lt n ?ys ?c" using True small by (subst sift_down.simps) (simp add: Let_def)
      have other: "\<not> lt (?ys ! parent j) (?ys ! j)" if j: "0 < j" "j < n" "k \<le> parent j" "parent j \<noteq> ?c" for j
      proof (cases "parent j = i")
        case pj: True
        then have "?ys ! parent j = xs ! ?c" using c(4) nth by simp
        then show ?thesis using big [of j] pj True j(1,2) asym nth [of j] parent_less [OF j(1)] by auto
      next
        case pj: False
        then have "j \<noteq> ?c" using c(2) by blast
        moreover have "?ys ! parent j = xs ! parent j" using pj j(4) nth by simp
        ultimately show ?thesis using P(3) [OF j(1-3) pj] P(4) [of ?c] c j nth [of j] by (cases "j = i") auto
      qed
      have below: "\<not> lt (?ys ! parent ?c) (?ys ! j)" if j: "k \<le> parent ?c" "0 < j" "j < n" "parent j = ?c" for j
      proof -
        have "j \<noteq> ?c" "j \<noteq> i" "?c \<noteq> i" using parent_less [OF j(2)] j(4) c(4) by auto
        then show ?thesis using P(3) [of j] j c nth by auto
      qed
      have "heap_from lt k n (sift_down lt n ?ys ?c)"
        by (rule less.hyps) (use P(1,2) c other below in auto)
      then show ?thesis using E by simp
    qed
  qed
qed

lemma sift_down_from:
  assumes "n \<le> length xs" "i < n" "heap_from lt (Suc i) n xs"
  shows "heap_from lt i n (sift_down lt n xs i)"
proof (rule sift_down_heap [OF assms(1,2)])
  fix j assume "0 < j" "j < n" "i \<le> parent j" "parent j \<noteq> i"
  then show "\<not> lt (xs ! parent j) (xs ! j)" using assms(3) by (simp add: heap_from_def)
qed (auto simp: parent_def)

lemma make_heap_heap: "is_heap lt (make_heap lt xs)"
proof -
  let ?n = "length xs"
  have "length (foldl (sift_down lt ?n) ys (rev [0 ..< m])) = ?n \<and> heap_from lt 0 ?n (foldl (sift_down lt ?n) ys (rev [0 ..< m]))"
    if "length ys = ?n" "heap_from lt m ?n ys" "m \<le> ?n" for ys m
    using that by (induction m arbitrary: ys) (auto simp: sift_down_from)
  moreover have "heap_from lt (?n div 2) ?n xs" by (auto simp: heap_from_def parent_def)
  ultimately show ?thesis by (simp add: is_heap_def make_heap_def)
qed

lemma pop_heap_heap:
  assumes "heap_from lt 0 n xs" "n \<le> length xs" "0 < n"
  shows "heap_from lt 0 (n - 1) (pop_heap lt n xs)"
proof (cases "n = 1")
  case True
  then show ?thesis by (simp add: heap_from_def)
next
  case False
  have "heap_from lt 0 (n - 1) (sift_down lt (n - 1) (exchange xs 0 (n - 1)) 0)"
  proof (rule sift_down_heap)
    fix j assume j: "0 < j" "j < n - 1" "parent j \<noteq> 0"
    then have l: "parent j < n - 1" using parent_less [of j] by auto
    have b: "0 < length xs" "n - 1 < length xs" using assms(2,3) by auto
    show "\<not> lt (exchange xs 0 (n - 1) ! parent j) (exchange xs 0 (n - 1) ! j)"
      using j l assms(1) unfolding exchange_nth [OF b] by (auto simp: heap_from_def)
  qed (use assms False in auto)
  then show ?thesis by (simp add: pop_heap_def)
qed

text \<open>The element in front is a greatest one.\<close>

lemma heap_top:
  assumes "heap_from lt 0 n xs" "j < n"
  shows "\<not> lt (xs ! 0) (xs ! j)"
  using assms(2)
proof (induction j rule: less_induct)
  case (less j)
  show ?case
  proof (cases "j = 0")
    case True
    then show ?thesis by (simp add: irrefl)
  next
    case False
    then have "parent j < j" by (auto simp: parent_def)
    moreover have "\<not> lt (xs ! parent j) (xs ! j)" using assms(1) less.prems False by (simp add: heap_from_def)
    ultimately show ?thesis using less neg_trans by (metis less_trans)
  qed
qed

lemma sift_up_heap:
  assumes "n \<le> length xs" "i < n"
    and "\<And>j. 0 < j \<Longrightarrow> j < n \<Longrightarrow> j \<noteq> i \<Longrightarrow> \<not> lt (xs ! parent j) (xs ! j)"
    and "\<And>j. 0 < i \<Longrightarrow> 0 < j \<Longrightarrow> j < n \<Longrightarrow> parent j = i \<Longrightarrow> \<not> lt (xs ! parent i) (xs ! j)"
  shows "heap_from lt 0 n (sift_up lt xs i)"
  using assms
proof (induction i arbitrary: xs rule: less_induct)
  case (less i)
  note P = less.prems
  show ?case
  proof (cases "0 < i \<and> lt (xs ! parent i) (xs ! i)")
    case False
    then have "sift_up lt xs i = xs" by (subst sift_up.simps) auto
    then show ?thesis using False P(3) by (auto simp: heap_from_def)
  next
    case True
    let ?p = "parent i" and ?ys = "exchange xs i (parent i)"
    have p: "?p < i" "?p < n" using True P(2) by (auto simp: parent_def)
    have nth: "?ys ! j = (if j = ?p then xs ! i else if j = i then xs ! ?p else xs ! j)" for j
      using P(1,2) p by (intro exchange_nth) auto
    have up: "\<not> lt (xs ! j) (xs ! ?p)" if "\<not> lt (xs ! j) (xs ! i)" for j
      using neg_trans [OF that] asym True by blast
    have "heap_from lt 0 n (sift_up lt ?ys ?p)"
    proof (rule less.IH [OF p(1)])
      fix j assume j: "0 < j" "j < n" "j \<noteq> ?p"
      consider "j = i" | "parent j = i" "j \<noteq> i" | "parent j = ?p" "j \<noteq> i" | "parent j \<noteq> i" "parent j \<noteq> ?p" "j \<noteq> i" by blast
      then show "\<not> lt (?ys ! parent j) (?ys ! j)"
      proof cases
        case 1
        then show ?thesis using True asym p nth by simp
      next
        case 2
        then show ?thesis using P(4) [of j] j True p nth by simp
      next
        case 3
        then have "\<not> lt (xs ! ?p) (xs ! j)" using P(3) [of j] j by simp
        then have "\<not> lt (xs ! i) (xs ! j)" using neg_trans asym True by blast
        then show ?thesis using 3 j p nth by simp
      next
        case 4
        then show ?thesis using P(3) [of j] j nth by simp
      qed
    next
      fix j assume j: "0 < ?p" "0 < j" "j < n" "parent j = ?p"
      have pp: "\<not> lt (xs ! parent ?p) (xs ! ?p)" using P(3) [of ?p] j(1) p by simp
      have "parent ?p \<noteq> ?p" "parent ?p \<noteq> i" "j \<noteq> ?p" using j p parent_less [of ?p] parent_less [of j] by auto
      then show "\<not> lt (?ys ! parent ?p) (?ys ! j)"
        using pp neg_trans [OF pp] P(3) [of j] j nth by (cases "j = i") auto
    qed (use P(1) p in auto)
    moreover have "sift_up lt xs i = sift_up lt ?ys ?p" using True by (subst sift_up.simps) simp
    ultimately show ?thesis by simp
  qed
qed

lemma push_heap_heap:
  assumes "is_heap lt xs"
  shows "is_heap lt (push_heap lt (xs @ [x]))"
proof -
  have "heap_from lt 0 (Suc (length xs)) (sift_up lt (xs @ [x]) (length xs))"
  proof (rule sift_up_heap)
    fix j assume "0 < j" "j < Suc (length xs)" "j \<noteq> length xs"
    moreover then have "parent j < length xs" by (auto simp: parent_def)
    ultimately show "\<not> lt ((xs @ [x]) ! parent j) ((xs @ [x]) ! j)" using assms
      by (simp add: is_heap_def heap_from_def nth_append)
  qed (auto simp: parent_def)
  then show ?thesis by (simp add: is_heap_def push_heap_def)
qed

lemma sort_heap_loop:
  assumes "n \<le> length ys" "heap_from lt 0 n ys" "\<And>i j. n \<le> j \<Longrightarrow> j < length ys \<Longrightarrow> i < j \<Longrightarrow> \<not> lt (ys ! j) (ys ! i)"
  shows "mset (foldl (\<lambda>ys n. pop_heap lt n ys) ys (rev [2 ..< n + 1])) = mset ys \<and>
    sorted_wrt (\<lambda>x y. \<not> lt y x) (foldl (\<lambda>ys n. pop_heap lt n ys) ys (rev [2 ..< n + 1]))"
  using assms
proof (induction n arbitrary: ys)
  case 0
  then show ?case by (simp add: sorted_wrt_iff_nth_less)
next
  case (Suc n)
  let ?ys = "pop_heap lt (Suc n) ys"
  note pop = pop_heap_perm [where lt = lt, OF zero_less_Suc Suc.prems(1)]
  show ?case
  proof (cases "n = 0")
    case True
    then show ?thesis using Suc.prems(3) by (auto simp: sorted_wrt_iff_nth_less)
  next
    case False
    have old: "\<exists>k \<le> n. ?ys ! i = ys ! k" if "i \<le> n" for i
      using pop_heap_prefix [OF zero_less_Suc Suc.prems(1), of i lt] that by (auto simp: less_Suc_eq_le)
    have "\<not> lt (?ys ! j) (?ys ! i)" if j: "n \<le> j" "j < length ?ys" "i < j" for i j
    proof (cases "j = n")
      case True
      then show ?thesis using old [of i] j(3) heap_top [OF Suc.prems(2)] pop(2) by auto
    next
      case False
      then have "?ys ! j = ys ! j" using j(1) pop(4) by simp
      then show ?thesis using Suc.prems(3) [of j] old [of i] pop(3,4) j False
        by (cases "i \<le> n") (auto simp: not_le Suc_le_eq)
    qed
    moreover have "heap_from lt 0 n ?ys" using pop_heap_heap [OF Suc.prems(2,1)] by simp
    moreover have "n \<le> length ?ys" using pop(3) Suc.prems(1) by simp
    ultimately have "mset (foldl (\<lambda>ys n. pop_heap lt n ys) ?ys (rev [2 ..< n + 1])) = mset ?ys \<and>
        sorted_wrt (\<lambda>x y. \<not> lt y x) (foldl (\<lambda>ys n. pop_heap lt n ys) ?ys (rev [2 ..< n + 1]))"
      by (intro Suc.IH)
    moreover have "rev [2 ..< Suc n + 1] = Suc n # rev [2 ..< n + 1]" using False by simp
    ultimately show ?thesis using pop(1) by simp
  qed
qed

lemma sort_heap_sorts:
  assumes "is_heap lt xs"
  shows "mset (sort_heap lt xs) = mset xs" "sorted_wrt (\<lambda>x y. \<not> lt y x) (sort_heap lt xs)"
  using sort_heap_loop [of "length xs" xs] assms by (simp_all add: sort_heap_def is_heap_def)

end

end
