(* ===== verification/Scheduler.thy ===== *)
theory Scheduler
  imports Std_Heap Time_Text
begin

text \<open>
  The task scheduler: \<open>TASK_RECORD\<close>, \<open>CTaskHeap\<close> and \<open>CScheduler\<close> of \<open>mux/include/externs.h\<close> and
  \<open>mux/modules/engine/timer.cpp\<close>.  A task waits in the heap ordered by time until its time has
  come, moves to the heap ordered by priority, and is called from there.

  A task record is a value that lives in one heap; a pointer to a task function or to its
  argument is a number, the null pointer of a cancelled task is \<open>None\<close>.  Tasks are called
  with the scheduler at hand, as they may schedule and cancel others: \<open>call\<close>, a parameter of
  the definitions, maps the state of the rest of the server and the scheduler to new ones
  (an exception that escapes a task is caught there, so it is one of the ways to return).  A
  callback of the traversals gets a record and returns a command and the record, changed
  or not.  Allocation of a record may fail; this is the parameter \<open>allocated\<close>.
\<close>

section \<open>Task records\<close>

record TASK_RECORD =
  ltaWhen :: int
  iPriority :: int
  m_Ticket :: "64 word"
  fpTask :: "nat option"
  arg_voidptr :: nat
  arg_Integer :: int
  task_VisitedMark :: "32 word"

definition PRIORITY_SYSTEM :: int where "PRIORITY_SYSTEM = 100"
definition PRIORITY_PLAYER :: int where "PRIORITY_PLAYER = 200"
definition PRIORITY_OBJECT :: int where "PRIORITY_OBJECT = 300"
definition PRIORITY_SUSPEND :: int where "PRIORITY_SUSPEND = 400"
definition PRIORITY_CF_DEQUEUE_ENABLED :: int where "PRIORITY_CF_DEQUEUE_ENABLED = PRIORITY_OBJECT"
definition PRIORITY_CF_DEQUEUE_DISABLED :: int where "PRIORITY_CF_DEQUEUE_DISABLED = PRIORITY_PLAYER - 1"

datatype iu_command = IU_DONE | IU_NEXT_TASK | IU_REMOVE_TASK | IU_UPDATE_TASK

type_synonym 's look = "TASK_RECORD \<Rightarrow> 's \<Rightarrow> iu_command \<times> TASK_RECORD \<times> 's"

definition CompareWhenGreater :: "TASK_RECORD \<Rightarrow> TASK_RECORD \<Rightarrow> bool" where
  "CompareWhenGreater a b =
     (if ltaWhen a > ltaWhen b then True
      else if ltaWhen a < ltaWhen b then False
      else m_Ticket a > m_Ticket b)"

definition ComparePriorityGreater :: "TASK_RECORD \<Rightarrow> TASK_RECORD \<Rightarrow> bool" where
  "ComparePriorityGreater a b =
     (if iPriority a \<noteq> iPriority b then iPriority a > iPriority b
      else m_Ticket a > m_Ticket b)"

section \<open>Task heaps\<close>

record CTaskHeap =
  m_Heap :: "TASK_RECORD list"
  m_iVisitedMark :: "32 word"

definition heap_Insert :: "(TASK_RECORD \<Rightarrow> TASK_RECORD \<Rightarrow> bool) \<Rightarrow> CTaskHeap \<Rightarrow> TASK_RECORD \<Rightarrow> CTaskHeap" where
  "heap_Insert m_Compare h pTask =
     (let pTask = pTask\<lparr>task_VisitedMark := m_iVisitedMark h - 1\<rparr>
      in h\<lparr>m_Heap := push_heap m_Compare (m_Heap h @ [pTask])\<rparr>)"

definition CountInPriorityRange :: "CTaskHeap \<Rightarrow> int \<Rightarrow> int \<Rightarrow> nat" where
  "CountInPriorityRange h iLo iHi =
     length (filter (\<lambda>p. fpTask p \<noteq> None \<and> iLo < iPriority p \<and> iPriority p < iHi) (m_Heap h))"

definition PeekAtTopmost :: "CTaskHeap \<Rightarrow> TASK_RECORD option" where
  "PeekAtTopmost h = (case m_Heap h of [] \<Rightarrow> None | p # _ \<Rightarrow> Some p)"

definition RemoveTopmost :: "(TASK_RECORD \<Rightarrow> TASK_RECORD \<Rightarrow> bool) \<Rightarrow> CTaskHeap \<Rightarrow> TASK_RECORD option \<times> CTaskHeap" where
  "RemoveTopmost m_Compare h =
     (if m_Heap h = [] then (None, h)
      else
        (let ps = pop_heap m_Compare (length (m_Heap h)) (m_Heap h)
         in (Some (last ps), h\<lparr>m_Heap := butlast ps\<rparr>)))"

definition heap_CancelTask :: "CTaskHeap \<Rightarrow> nat option \<Rightarrow> nat \<Rightarrow> int \<Rightarrow> CTaskHeap" where
  "heap_CancelTask h f voidptr n =
     h\<lparr>m_Heap := map (\<lambda>p. if fpTask p = f \<and> arg_voidptr p = voidptr \<and> arg_Integer p = n
                            then p\<lparr>fpTask := None\<rparr> else p) (m_Heap h)\<rparr>"

text \<open>One pass of the \<open>for\<close> loop: whether \<open>IU_DONE\<close> ended it, the vector, the state of the
  callback, and \<open>bUnvisitedRecords\<close>.\<close>

function traverse_for :: "'s look \<Rightarrow> (TASK_RECORD \<Rightarrow> TASK_RECORD \<Rightarrow> bool) \<Rightarrow> 32 word \<Rightarrow> TASK_RECORD list \<Rightarrow> nat \<Rightarrow>
    bool \<Rightarrow> 's \<Rightarrow> bool \<times> TASK_RECORD list \<times> 's \<times> bool" where
  "traverse_for pfLook m_Compare mark ps i bUnvisitedRecords s =
     (if i < length ps then
        (if task_VisitedMark (ps ! i) = mark then
           traverse_for pfLook m_Compare mark ps (i + 1) bUnvisitedRecords s
         else
           (case pfLook ((ps ! i)\<lparr>task_VisitedMark := mark\<rparr>) s of (cmd, p, s) \<Rightarrow>
              (case cmd of
                 IU_REMOVE_TASK \<Rightarrow>
                   traverse_for pfLook m_Compare mark (make_heap m_Compare (butlast ((ps[i := p])[i := last (ps[i := p])]))) (i + 1) True s
               | IU_DONE \<Rightarrow> (True, ps[i := p], s, True)
               | IU_UPDATE_TASK \<Rightarrow> traverse_for pfLook m_Compare mark (make_heap m_Compare (ps[i := p])) (i + 1) True s
               | IU_NEXT_TASK \<Rightarrow> traverse_for pfLook m_Compare mark (ps[i := p]) (i + 1) True s)))
      else (False, ps, s, bUnvisitedRecords))"
  by pat_completeness auto
termination by (relation "measure (\<lambda>(_, _, _, ps, i, _). length ps - i)") auto

declare traverse_for.simps [simp del]

partial_function (option) traverse_loop :: "'s look \<Rightarrow> (TASK_RECORD \<Rightarrow> TASK_RECORD \<Rightarrow> bool) \<Rightarrow> 32 word \<Rightarrow> TASK_RECORD list \<Rightarrow>
    's \<Rightarrow> (bool \<times> TASK_RECORD list \<times> 's) option" where
  "traverse_loop pfLook m_Compare mark ps s =
     (case traverse_for pfLook m_Compare mark ps 0 False s of (ended, ps, s, bUnvisitedRecords) \<Rightarrow>
        if ended then Some (False, ps, s)
        else if bUnvisitedRecords then traverse_loop pfLook m_Compare mark ps s
        else Some (True, ps, s))"

definition heap_TraverseUnordered :: "'s look \<Rightarrow> (TASK_RECORD \<Rightarrow> TASK_RECORD \<Rightarrow> bool) \<Rightarrow> CTaskHeap \<Rightarrow> 's \<Rightarrow>
    (bool \<times> CTaskHeap \<times> 's) option" where
  "heap_TraverseUnordered pfLook m_Compare h s =
     (let mark = m_iVisitedMark h + 1;
          (mark, ps) = (if mark = 0 then (mark + 1, map (\<lambda>p. p\<lparr>task_VisitedMark := mark\<rparr>) (m_Heap h))
                        else (mark, m_Heap h))
      in map_option (\<lambda>(r, ps, s). (r, h\<lparr>m_Heap := ps, m_iVisitedMark := mark\<rparr>, s))
           (traverse_loop pfLook m_Compare mark ps s))"

text \<open>The loop of \<open>TraverseOrdered\<close> over the sorted vector, from its end to its front.\<close>

fun ordered_loop :: "'s look \<Rightarrow> TASK_RECORD list \<Rightarrow> 's \<Rightarrow> TASK_RECORD list \<times> 's" where
  "ordered_loop pfLook [] s = ([], s)"
| "ordered_loop pfLook (p # ps) s =
     (case pfLook p s of (cmd, p, s) \<Rightarrow>
        if cmd = IU_DONE then (p # ps, s)
        else (case ordered_loop pfLook ps s of (ps, s) \<Rightarrow> (p # ps, s)))"

definition heap_TraverseOrdered :: "'s look \<Rightarrow> (TASK_RECORD \<Rightarrow> TASK_RECORD \<Rightarrow> bool) \<Rightarrow> CTaskHeap \<Rightarrow> 's \<Rightarrow> CTaskHeap \<times> 's" where
  "heap_TraverseOrdered pfLook m_Compare h s =
     (case ordered_loop pfLook (rev (sort_heap m_Compare (m_Heap h))) s of (ps, s) \<Rightarrow>
        (h\<lparr>m_Heap := make_heap m_Compare (rev ps)\<rparr>, s))"

section \<open>The scheduler\<close>

record CScheduler =
  m_WhenHeap :: CTaskHeap
  m_PriorityHeap :: CTaskHeap
  sch_Ticket :: "64 word"
  m_minPriority :: int

definition CTaskHeap_init :: CTaskHeap where
  "CTaskHeap_init = \<lparr>m_Heap = [], m_iVisitedMark = 0\<rparr>"

definition CScheduler_init :: CScheduler where
  "CScheduler_init = \<lparr>m_WhenHeap = CTaskHeap_init, m_PriorityHeap = CTaskHeap_init,
     sch_Ticket = 0, m_minPriority = PRIORITY_CF_DEQUEUE_ENABLED\<rparr>"

definition DeferTask :: "bool \<Rightarrow> CScheduler \<Rightarrow> int \<Rightarrow> int \<Rightarrow> nat \<Rightarrow> nat \<Rightarrow> int \<Rightarrow> bool \<times> CScheduler" where
  "DeferTask allocated sc lta prio f voidptr n =
     (if \<not> allocated then (False, sc)
      else
        (True,
         sc\<lparr>sch_Ticket := sch_Ticket sc + 1,
            m_WhenHeap := heap_Insert CompareWhenGreater (m_WhenHeap sc)
              \<lparr>ltaWhen = lta, iPriority = prio, m_Ticket = sch_Ticket sc, fpTask = Some f,
               arg_voidptr = voidptr, arg_Integer = n, task_VisitedMark = 0\<rparr>\<rparr>))"

text \<open>The time of an immediate task is the one the constructor of \<open>CLinearTimeAbsolute\<close> gives,
  zero, the beginning of 1601.\<close>

definition DeferImmediateTask :: "bool \<Rightarrow> CScheduler \<Rightarrow> int \<Rightarrow> nat \<Rightarrow> nat \<Rightarrow> int \<Rightarrow> bool \<times> CScheduler" where
  "DeferImmediateTask allocated sc prio f voidptr n =
     (if \<not> allocated then (False, sc)
      else
        (True,
         sc\<lparr>sch_Ticket := sch_Ticket sc + 1,
            m_WhenHeap := heap_Insert CompareWhenGreater (m_WhenHeap sc)
              \<lparr>ltaWhen = 0, iPriority = prio, m_Ticket = sch_Ticket sc, fpTask = Some f,
               arg_voidptr = voidptr, arg_Integer = n, task_VisitedMark = 0\<rparr>\<rparr>))"

definition CancelTask :: "CScheduler \<Rightarrow> nat option \<Rightarrow> nat \<Rightarrow> int \<Rightarrow> CScheduler" where
  "CancelTask sc f voidptr n =
     sc\<lparr>m_WhenHeap := heap_CancelTask (m_WhenHeap sc) f voidptr n,
        m_PriorityHeap := heap_CancelTask (m_PriorityHeap sc) f voidptr n\<rparr>"

definition SetMinPriority :: "CScheduler \<Rightarrow> int \<Rightarrow> CScheduler" where
  "SetMinPriority sc arg_minPriority = sc\<lparr>m_minPriority := arg_minPriority\<rparr>"

lemma RemoveTopmost_length:
  "RemoveTopmost lt h = (r, h') \<Longrightarrow> m_Heap h \<noteq> [] \<Longrightarrow> length (m_Heap h') < length (m_Heap h)"
  using pop_heap_perm(3) [of "length (m_Heap h)" "m_Heap h" lt]
  by (auto simp: RemoveTopmost_def Let_def)

function ReadyTasks :: "CScheduler \<Rightarrow> int \<Rightarrow> CScheduler" where
  "ReadyTasks sc ltaNow =
     (case PeekAtTopmost (m_WhenHeap sc) of
        None \<Rightarrow> sc
      | Some pTask \<Rightarrow>
          if ltaWhen pTask < ltaNow then
            (case RemoveTopmost CompareWhenGreater (m_WhenHeap sc) of
               (None, when) \<Rightarrow> ReadyTasks (sc\<lparr>m_WhenHeap := when\<rparr>) ltaNow
             | (Some pTask, when) \<Rightarrow>
                 ReadyTasks
                   (if fpTask pTask = None then sc\<lparr>m_WhenHeap := when\<rparr>
                    else sc\<lparr>m_WhenHeap := when,
                            m_PriorityHeap := heap_Insert ComparePriorityGreater (m_PriorityHeap sc) pTask\<rparr>) ltaNow)
          else sc)"
  by pat_completeness auto
termination
  by (relation "measure (\<lambda>(sc, _). length (m_Heap (m_WhenHeap sc)))")
    (auto simp: PeekAtTopmost_def split: list.splits dest!: sym [where t = "RemoveTopmost _ _"] RemoveTopmost_length)

declare ReadyTasks.simps [simp del]

type_synonym 'w task_call = "nat \<Rightarrow> nat \<Rightarrow> int \<Rightarrow> 'w \<times> CScheduler \<Rightarrow> 'w \<times> CScheduler"

text \<open>\<open>RunTasks (int iCount)\<close>; the loop runs down from \<open>iCount\<close> to zero.\<close>

partial_function (option) RunTasks_loop :: "'w task_call \<Rightarrow> int \<Rightarrow> nat \<Rightarrow> 'w \<Rightarrow> CScheduler \<Rightarrow> (nat \<times> 'w \<times> CScheduler) option" where
  "RunTasks_loop call iCount nTasks w sc =
     (if iCount = 0 then Some (nTasks, w, sc)
      else
        (case PeekAtTopmost (m_PriorityHeap sc) of
           None \<Rightarrow> Some (nTasks, w, sc)
         | Some pTask \<Rightarrow>
             if iPriority pTask > m_minPriority sc then Some (nTasks, w, sc)
             else
               (case RemoveTopmost ComparePriorityGreater (m_PriorityHeap sc) of
                  (None, h) \<Rightarrow> RunTasks_loop call (iCount - 1) nTasks w (sc\<lparr>m_PriorityHeap := h\<rparr>)
                | (Some pTask, h) \<Rightarrow>
                    (case fpTask pTask of
                       None \<Rightarrow> RunTasks_loop call (iCount - 1) nTasks w (sc\<lparr>m_PriorityHeap := h\<rparr>)
                     | Some f \<Rightarrow>
                         (case call f (arg_voidptr pTask) (arg_Integer pTask) (w, sc\<lparr>m_PriorityHeap := h\<rparr>) of
                            (w, sc) \<Rightarrow> RunTasks_loop call (iCount - 1) (nTasks + 1) w sc)))))"

definition RunTasks :: "'w task_call \<Rightarrow> int \<Rightarrow> 'w \<Rightarrow> CScheduler \<Rightarrow> (nat \<times> 'w \<times> CScheduler) option" where
  "RunTasks call iCount w sc = RunTasks_loop call iCount 0 w sc"

partial_function (option) RunAllTasks_loop :: "'w task_call \<Rightarrow> nat \<Rightarrow> 'w \<Rightarrow> CScheduler \<Rightarrow> (nat \<times> 'w \<times> CScheduler) option" where
  "RunAllTasks_loop call nTotalTasks w sc =
     (case RunTasks call 100 w sc of
        None \<Rightarrow> None
      | Some (nTasks, w, sc) \<Rightarrow>
          if nTasks \<noteq> 0 then RunAllTasks_loop call (nTotalTasks + nTasks) w sc
          else Some (nTotalTasks + nTasks, w, sc))"

definition RunAllTasks :: "'w task_call \<Rightarrow> 'w \<Rightarrow> CScheduler \<Rightarrow> (nat \<times> 'w \<times> CScheduler) option" where
  "RunAllTasks call w sc = RunAllTasks_loop call 0 w sc"


definition WhenNext :: "CScheduler \<Rightarrow> int option" where
  "WhenNext sc =
     (case PeekAtTopmost (m_PriorityHeap sc) of
        Some pTask \<Rightarrow>
          if iPriority pTask \<le> m_minPriority sc then Some (SetSeconds 0)
          else map_option ltaWhen (PeekAtTopmost (m_WhenHeap sc))
      | None \<Rightarrow> map_option ltaWhen (PeekAtTopmost (m_WhenHeap sc)))"

definition HasPendingUserTasks :: "CScheduler \<Rightarrow> bool" where
  "HasPendingUserTasks sc \<longleftrightarrow>
     0 < CountInPriorityRange (m_WhenHeap sc) PRIORITY_SYSTEM PRIORITY_SUSPEND \<or>
     0 < CountInPriorityRange (m_PriorityHeap sc) PRIORITY_SYSTEM PRIORITY_SUSPEND"

definition TraverseUnordered :: "'s look \<Rightarrow> CScheduler \<Rightarrow> 's \<Rightarrow> (CScheduler \<times> 's) option" where
  "TraverseUnordered pfLook sc s =
     (case heap_TraverseUnordered pfLook CompareWhenGreater (m_WhenHeap sc) s of
        None \<Rightarrow> None
      | Some (False, h, s) \<Rightarrow> Some (sc\<lparr>m_WhenHeap := h\<rparr>, s)
      | Some (True, h, s) \<Rightarrow>
          map_option (\<lambda>(_, h', s). (sc\<lparr>m_WhenHeap := h, m_PriorityHeap := h'\<rparr>, s))
            (heap_TraverseUnordered pfLook ComparePriorityGreater (m_PriorityHeap sc) s))"

definition TraverseOrdered :: "'s look \<Rightarrow> CScheduler \<Rightarrow> 's \<Rightarrow> CScheduler \<times> 's" where
  "TraverseOrdered pfLook sc s =
     (case heap_TraverseOrdered pfLook ComparePriorityGreater (m_PriorityHeap sc) s of (p, s) \<Rightarrow>
      case heap_TraverseOrdered pfLook CompareWhenGreater (m_WhenHeap sc) s of (h, s) \<Rightarrow>
        (sc\<lparr>m_WhenHeap := h, m_PriorityHeap := p\<rparr>, s))"

section \<open>Order of the tasks\<close>

text \<open>What both heaps ask of their comparison: a strict weak order in which two tasks with
  different tickets are never equivalent, and which looks only at the time, the priority
  and the ticket.\<close>

lemma is_heap_map:
  assumes "\<And>a b. lt (f a) (f b) = lt a b"
  shows "is_heap lt (map f xs) = is_heap lt xs"
proof -
  have "parent j < n" if "j < n" for j n using that by (simp add: parent_def)
  then show ?thesis by (auto simp: is_heap_def heap_from_def assms)
qed

definition task_key :: "TASK_RECORD \<Rightarrow> int \<times> int \<times> 64 word" where
  "task_key p = (ltaWhen p, iPriority p, m_Ticket p)"

locale task_order = heap_order lt for lt :: "TASK_RECORD \<Rightarrow> TASK_RECORD \<Rightarrow> bool" +
  assumes total: "m_Ticket a \<noteq> m_Ticket b \<Longrightarrow> lt a b \<or> lt b a"
    and same_key: "task_key a = task_key a' \<Longrightarrow> task_key b = task_key b' \<Longrightarrow> lt a b = lt a' b'"
begin

lemma mark_left [simp]: "lt (a\<lparr>task_VisitedMark := m\<rparr>) b = lt a b"
  and mark_right [simp]: "lt a (b\<lparr>task_VisitedMark := m\<rparr>) = lt a b"
  and function_left [simp]: "lt (a\<lparr>fpTask := f\<rparr>) b = lt a b"
  and function_right [simp]: "lt a (b\<lparr>fpTask := f\<rparr>) = lt a b"
  by (rule same_key; simp add: task_key_def)+

lemma same_keys_heap:
  assumes "map task_key ps = map task_key qs" "is_heap lt ps"
  shows "is_heap lt qs"
proof -
  have l: "length ps = length qs" using assms(1) by (rule map_eq_imp_length_eq)
  have "task_key (ps ! i) = task_key (qs ! i)" if "i < length qs" for i
    using arg_cong [OF assms(1), of "\<lambda>xs. xs ! i"] l that by simp
  then have "lt (ps ! i) (ps ! j) = lt (qs ! i) (qs ! j)" if "i < length qs" "j < length qs" for i j
    using same_key that by blast
  moreover have "parent j < length qs" if "j < length qs" for j using that by (simp add: parent_def)
  ultimately show ?thesis using assms(2) l by (simp add: is_heap_def heap_from_def)
qed

lemma Insert_heap: "is_heap lt (m_Heap h) \<Longrightarrow> is_heap lt (m_Heap (heap_Insert lt h p))"
  by (simp add: heap_Insert_def push_heap_heap)

lemma Remove_heap:
  assumes "is_heap lt (m_Heap h)" "m_Heap h = p # ps"
  obtains h' where "RemoveTopmost lt h = (Some p, h')" "is_heap lt (m_Heap h')" "m_iVisitedMark h' = m_iVisitedMark h"
    "mset (m_Heap h) = add_mset p (mset (m_Heap h'))" "\<And>q. q \<in> set (m_Heap h) \<Longrightarrow> \<not> lt p q"
proof -
  let ?n = "length (m_Heap h)" and ?ps = "pop_heap lt (length (m_Heap h)) (m_Heap h)"
  have n: "0 < ?n" using assms(2) by simp
  note pop = pop_heap_perm [where lt = lt, OF n order.refl]
  have "?ps \<noteq> []" using pop(3) n by auto
  then have l: "last ?ps = p" using pop(2,3) assms(2) by (simp add: last_conv_nth)
  have "RemoveTopmost lt h = (Some p, h\<lparr>m_Heap := butlast ?ps\<rparr>)" using l assms(2) by (simp add: RemoveTopmost_def Let_def)
  moreover have "heap_from lt 0 (?n - 1) ?ps" using pop_heap_heap [of ?n "m_Heap h"] assms(1) n by (simp add: is_heap_def)
  then have "is_heap lt (butlast ?ps)" using pop(3) by (auto simp: is_heap_def heap_from_def nth_butlast parent_def)
  moreover have "?ps = butlast ?ps @ [p]" using l pop(3) n by (metis append_butlast_last_id length_0_conv less_irrefl)
  then have "mset (m_Heap h) = add_mset p (mset (butlast ?ps))" using pop(1) by (metis mset_append mset_single_iff_right add_mset_add_single mset.simps)
  moreover have "\<not> lt p q" if "q \<in> set (m_Heap h)" for q
  proof -
    obtain j where "j < ?n" "q = m_Heap h ! j" using \<open>q \<in> _\<close> by (auto simp: in_set_conv_nth)
    then show ?thesis using heap_top [of ?n "m_Heap h" j] assms by (simp add: is_heap_def)
  qed
  ultimately show ?thesis using that by simp
qed

lemma Cancel_heap: "is_heap lt (m_Heap h) \<Longrightarrow> is_heap lt (m_Heap (heap_CancelTask h f v n))"
proof -
  assume "is_heap lt (m_Heap h)"
  then show ?thesis unfolding heap_CancelTask_def by (simp add: is_heap_map)
qed

end

interpretation wait: task_order CompareWhenGreater
  by unfold_locales (auto simp: CompareWhenGreater_def task_key_def word_nat_simps split: if_splits)

interpretation prio: task_order ComparePriorityGreater
  by unfold_locales (auto simp: ComparePriorityGreater_def task_key_def word_nat_simps split: if_splits)

section \<open>The invariant\<close>

text \<open>The tasks of a heap, without the marks of the traversals.\<close>

definition task_core :: "TASK_RECORD \<Rightarrow> TASK_RECORD" where
  "task_core p = p\<lparr>task_VisitedMark := 0\<rparr>"

lemma task_core_simps [simp]:
  "ltaWhen (task_core p) = ltaWhen p" "iPriority (task_core p) = iPriority p" "m_Ticket (task_core p) = m_Ticket p"
  "fpTask (task_core p) = fpTask p" "arg_voidptr (task_core p) = arg_voidptr p" "arg_Integer (task_core p) = arg_Integer p"
  "task_core (p\<lparr>task_VisitedMark := m\<rparr>) = task_core p" "task_core (task_core p) = task_core p"
  "ComparePriorityGreater (task_core p) q = ComparePriorityGreater p q" "ComparePriorityGreater q (task_core p) = ComparePriorityGreater q p"
  by (simp_all add: task_core_def)

definition tasks :: "CTaskHeap \<Rightarrow> TASK_RECORD multiset" where
  "tasks h = image_mset task_core (mset (m_Heap h))"

lemma tasks_Insert [simp]: "tasks (heap_Insert lt h p) = add_mset (task_core p) (tasks h)"
  by (simp add: tasks_def heap_Insert_def)

definition tickets :: "CScheduler \<Rightarrow> 64 word multiset" where
  "tickets sc = image_mset m_Ticket (tasks (m_WhenHeap sc) + tasks (m_PriorityHeap sc))"

text \<open>Both vectors are heaps, and the tickets are distinct and below the next one.\<close>

definition sched_ok :: "CScheduler \<Rightarrow> bool" where
  "sched_ok sc \<longleftrightarrow> is_heap CompareWhenGreater (m_Heap (m_WhenHeap sc)) \<and>
     is_heap ComparePriorityGreater (m_Heap (m_PriorityHeap sc)) \<and>
     (\<forall>t. count (tickets sc) t \<le> 1) \<and> (\<forall>t \<in># tickets sc. t < sch_Ticket sc)"

lemma tasks_empty_iff [simp]: "tasks h = {#} \<longleftrightarrow> m_Heap h = []"
  by (simp add: tasks_def)

section \<open>Moving tasks that are ready\<close>

lemma ReadyTasks_step:
  assumes "is_heap CompareWhenGreater (m_Heap (m_WhenHeap sc))" "m_Heap (m_WhenHeap sc) = p # ps" "ltaWhen p < ltaNow"
  obtains h where "ReadyTasks sc ltaNow =
      ReadyTasks (if fpTask p = None then sc\<lparr>m_WhenHeap := h\<rparr>
        else sc\<lparr>m_WhenHeap := h, m_PriorityHeap := heap_Insert ComparePriorityGreater (m_PriorityHeap sc) p\<rparr>) ltaNow"
    "is_heap CompareWhenGreater (m_Heap h)" "tasks (m_WhenHeap sc) = add_mset (task_core p) (tasks h)"
proof -
  obtain h where h: "RemoveTopmost CompareWhenGreater (m_WhenHeap sc) = (Some p, h)" "is_heap CompareWhenGreater (m_Heap h)"
    "mset (m_Heap (m_WhenHeap sc)) = add_mset p (mset (m_Heap h))"
    using wait.Remove_heap [OF assms(1,2)] by metis
  have "PeekAtTopmost (m_WhenHeap sc) = Some p" using assms(2) by (simp add: PeekAtTopmost_def)
  then show ?thesis by (intro that [of h], subst ReadyTasks.simps) (simp_all add: h assms(3) tasks_def)
qed

lemma ReadyTasks_spec:
  assumes "is_heap CompareWhenGreater (m_Heap (m_WhenHeap sc))" "is_heap ComparePriorityGreater (m_Heap (m_PriorityHeap sc))"
  shows "let sc' = ReadyTasks sc ltaNow in
    is_heap CompareWhenGreater (m_Heap (m_WhenHeap sc')) \<and> is_heap ComparePriorityGreater (m_Heap (m_PriorityHeap sc')) \<and>
    sch_Ticket sc' = sch_Ticket sc \<and> m_minPriority sc' = m_minPriority sc \<and>
    tasks (m_WhenHeap sc') = filter_mset (\<lambda>p. \<not> ltaWhen p < ltaNow) (tasks (m_WhenHeap sc)) \<and>
    tasks (m_PriorityHeap sc') = tasks (m_PriorityHeap sc) +
      filter_mset (\<lambda>p. ltaWhen p < ltaNow \<and> fpTask p \<noteq> None) (tasks (m_WhenHeap sc))"
  using assms
proof (induction "length (m_Heap (m_WhenHeap sc))" arbitrary: sc rule: less_induct)
  case less
  show ?case
  proof (cases "m_Heap (m_WhenHeap sc)")
    case Nil
    then show ?thesis using less.prems by (subst (1) ReadyTasks.simps) (simp add: PeekAtTopmost_def tasks_def)
  next
    case (Cons p ps)
    show ?thesis
    proof (cases "ltaWhen p < ltaNow")
      case True
      obtain h where h: "ReadyTasks sc ltaNow =
          ReadyTasks (if fpTask p = None then sc\<lparr>m_WhenHeap := h\<rparr>
            else sc\<lparr>m_WhenHeap := h, m_PriorityHeap := heap_Insert ComparePriorityGreater (m_PriorityHeap sc) p\<rparr>) ltaNow"
        "is_heap CompareWhenGreater (m_Heap h)" "tasks (m_WhenHeap sc) = add_mset (task_core p) (tasks h)"
        by (rule ReadyTasks_step [OF less.prems(1) Cons True])
      have "length (m_Heap h) < length (m_Heap (m_WhenHeap sc))"
        using arg_cong [OF h(3), of size] by (simp add: tasks_def)
      then show ?thesis unfolding h(1) using less.hyps less.prems h(2,3) True
        by (simp add: Let_def prio.Insert_heap)
    next
      case False
      have "\<not> ltaWhen q < ltaNow" if "q \<in> set (m_Heap (m_WhenHeap sc))" for q
      proof -
        have "\<not> CompareWhenGreater p q" using wait.Remove_heap [OF less.prems(1) Cons] that by metis
        then show ?thesis using False by (auto simp: CompareWhenGreater_def split: if_splits)
      qed
      moreover have "ReadyTasks sc ltaNow = sc" using Cons False by (subst ReadyTasks.simps) (simp add: PeekAtTopmost_def)
      moreover from calculation(1) have "filter_mset (\<lambda>p. \<not> ltaWhen p < ltaNow) (tasks (m_WhenHeap sc)) = tasks (m_WhenHeap sc)"
        "filter_mset (\<lambda>p. ltaWhen p < ltaNow \<and> fpTask p \<noteq> None) (tasks (m_WhenHeap sc)) = {#}"
        by (auto simp: tasks_def filter_mset_eq_conv)
      ultimately show ?thesis using less.prems by simp
    qed
  qed
qed

section \<open>What tasks do with the scheduler\<close>

datatype sched_op =
  Defer_op bool int int nat nat int
| Immediate_op bool int nat nat int
| Cancel_op "nat option" nat int
| MinPriority_op int

fun apply_op :: "CScheduler \<Rightarrow> sched_op \<Rightarrow> CScheduler" where
  "apply_op sc (Defer_op allocated lta prio f v n) = snd (DeferTask allocated sc lta prio f v n)"
| "apply_op sc (Immediate_op allocated prio f v n) = snd (DeferImmediateTask allocated sc prio f v n)"
| "apply_op sc (Cancel_op f v n) = CancelTask sc f v n"
| "apply_op sc (MinPriority_op m) = SetMinPriority sc m"

lemmas op_defs = DeferTask_def DeferImmediateTask_def CancelTask_def SetMinPriority_def

text \<open>Position in the priority queue: priority first, then the order of scheduling.\<close>

definition task_before :: "TASK_RECORD \<Rightarrow> TASK_RECORD \<Rightarrow> bool" where
  "task_before p q \<longleftrightarrow> ComparePriorityGreater q p"

lemma task_before_iff: "task_before p q \<longleftrightarrow> iPriority p < iPriority q \<or> iPriority p = iPriority q \<and> m_Ticket p < m_Ticket q"
  by (auto simp: task_before_def ComparePriorityGreater_def)

lemma task_before_core [simp]: "task_before (task_core p) q = task_before p q" "task_before p (task_core q) = task_before p q"
  by (simp_all add: task_before_def)

lemma task_before_trans: "task_before p q \<Longrightarrow> task_before q r \<Longrightarrow> task_before p r"
  by (auto simp: task_before_iff)

lemma task_before_total: "m_Ticket p \<noteq> m_Ticket q \<Longrightarrow> task_before p q \<or> task_before q p"
  using prio.total unfolding task_before_def by blast

text \<open>The part of the invariant that concerns the priority queue.\<close>

definition queue_ok :: "CTaskHeap \<Rightarrow> bool" where
  "queue_ok h \<longleftrightarrow> is_heap ComparePriorityGreater (m_Heap h) \<and> (\<forall>t. count (image_mset m_Ticket (tasks h)) t \<le> 1)"

lemma sched_ok_queue: "sched_ok sc \<Longrightarrow> queue_ok (m_PriorityHeap sc)"
  unfolding sched_ok_def queue_ok_def tickets_def by (metis add_leD2 count_union image_mset_union)

text \<open>A queue that comes from another by cancelling some of its tasks.\<close>

definition cancelled_from :: "TASK_RECORD list \<Rightarrow> TASK_RECORD list \<Rightarrow> bool" where
  "cancelled_from ps qs \<longleftrightarrow> list_all2 (\<lambda>p q. q = p \<or> q = p\<lparr>fpTask := None\<rparr>) ps qs"

lemma cancelled_from_refl [simp]: "cancelled_from ps ps"
  by (simp add: cancelled_from_def list_all2_refl)

lemma cancelled_from_trans: "cancelled_from ps qs \<Longrightarrow> cancelled_from qs rs \<Longrightarrow> cancelled_from ps rs"
  unfolding cancelled_from_def by (erule (1) list_all2_trans [rotated]) auto

lemma apply_op_queue:
  "cancelled_from (m_Heap (m_PriorityHeap sc)) (m_Heap (m_PriorityHeap (apply_op sc oper)))"
  by (cases oper) (auto simp: op_defs heap_CancelTask_def cancelled_from_def list_all2_conv_all_nth)

lemma apply_ops_queue:
  "cancelled_from (m_Heap (m_PriorityHeap sc)) (m_Heap (m_PriorityHeap (foldl apply_op sc opers)))"
proof (induction opers arbitrary: sc)
  case (Cons oper opers)
  show ?case using cancelled_from_trans [OF apply_op_queue Cons.IH] by simp
qed simp

lemma cancelled_from_heap:
  assumes "cancelled_from ps qs" "is_heap ComparePriorityGreater ps"
  shows "is_heap ComparePriorityGreater qs"
proof -
  have l: "length qs = length ps" using assms(1) by (simp add: cancelled_from_def list_all2_lengthD)
  have c: "ComparePriorityGreater (qs ! i) (qs ! j) = ComparePriorityGreater (ps ! i) (ps ! j)" if "i < length ps" "j < length ps" for i j
    using assms(1) that unfolding cancelled_from_def list_all2_conv_all_nth
    by (metis prio.function_left prio.function_right)
  have "parent j < length ps" if "j < length ps" for j using that by (simp add: parent_def)
  then show ?thesis using assms(2) l c by (simp add: is_heap_def heap_from_def)
qed

lemma cancelled_from_tickets: "cancelled_from ps qs \<Longrightarrow> map m_Ticket qs = map m_Ticket ps"
  unfolding cancelled_from_def by (induction rule: list_all2_induct) auto

lemma cancelled_from_queue:
  assumes "cancelled_from (m_Heap h) (m_Heap h')" "queue_ok h"
  shows "queue_ok h'"
proof -
  have "mset (map m_Ticket (m_Heap h')) = mset (map m_Ticket (m_Heap h))" by (simp only: cancelled_from_tickets [OF assms(1)])
  then have "image_mset m_Ticket (tasks h') = image_mset m_Ticket (tasks h)"
    by (simp add: tasks_def image_mset.compositionality o_def)
  then show ?thesis using assms(2) cancelled_from_heap [OF assms(1)] by (simp add: queue_ok_def)
qed

section \<open>The invariant is kept\<close>

lemma tickets_Insert:
  "tickets (sc\<lparr>sch_Ticket := t, m_WhenHeap := heap_Insert lt (m_WhenHeap sc) p\<rparr>) = add_mset (m_Ticket p) (tickets sc)"
  by (simp add: tickets_def)

lemma sched_ok_insert:
  assumes "sched_ok sc" "sch_Ticket sc \<noteq> - 1" "m_Ticket p = sch_Ticket sc"
  shows "sched_ok (sc\<lparr>sch_Ticket := sch_Ticket sc + 1, m_WhenHeap := heap_Insert CompareWhenGreater (m_WhenHeap sc) p\<rparr>)"
proof -
  have less: "sch_Ticket sc < sch_Ticket sc + 1" using assms(2) unatSuc [of "sch_Ticket sc"]
    by (simp add: word_less_nat_alt add.commute eq_neg_iff_add_eq_0)
  have "sch_Ticket sc \<notin># tickets sc" using assms(1) by (auto simp: sched_ok_def)
  then have "count (add_mset (sch_Ticket sc) (tickets sc)) t \<le> 1" for t
    using assms(1) by (auto simp: sched_ok_def not_in_iff)
  moreover have "\<forall>t \<in># add_mset (sch_Ticket sc) (tickets sc). t < sch_Ticket sc + 1"
    using assms(1) less by (auto simp: sched_ok_def dest: order.strict_trans)
  ultimately show ?thesis using assms wait.Insert_heap by (simp add: sched_ok_def tickets_Insert)
qed

lemma tasks_cancel_tickets: "image_mset m_Ticket (tasks (heap_CancelTask h f v n)) = image_mset m_Ticket (tasks h)"
  by (auto simp: tasks_def heap_CancelTask_def image_mset.compositionality o_def intro!: image_mset_cong)

lemma apply_op_ok:
  assumes "sched_ok sc" "sch_Ticket sc \<noteq> - 1"
  shows "sched_ok (apply_op sc oper)"
proof (cases oper)
  case (Cancel_op f v n)
  have "tickets (CancelTask sc f v n) = tickets sc" by (simp add: tickets_def CancelTask_def tasks_cancel_tickets)
  then show ?thesis using assms(1) Cancel_op
    by (simp add: sched_ok_def CancelTask_def wait.Cancel_heap prio.Cancel_heap)
next
  case (MinPriority_op m)
  then show ?thesis using assms(1) by (simp add: sched_ok_def SetMinPriority_def tickets_def)
qed (use assms sched_ok_insert in \<open>auto simp: op_defs\<close>)

lemma ReadyTasks_ok: assumes "sched_ok sc" shows "sched_ok (ReadyTasks sc ltaNow)"
proof -
  let ?sc = "ReadyTasks sc ltaNow"
  note spec = ReadyTasks_spec [of sc ltaNow, unfolded Let_def]
  have h: "is_heap CompareWhenGreater (m_Heap (m_WhenHeap sc))" "is_heap ComparePriorityGreater (m_Heap (m_PriorityHeap sc))"
    using assms by (auto simp: sched_ok_def)
  let ?w = "tasks (m_WhenHeap sc)"
  have "filter_mset (\<lambda>p. \<not> ltaWhen p < ltaNow) ?w + filter_mset (\<lambda>p. ltaWhen p < ltaNow \<and> fpTask p \<noteq> None) ?w \<subseteq># ?w"
    by (rule mset_subset_eqI) auto
  then have "tickets ?sc \<subseteq># tickets sc" using spec [OF h] unfolding tickets_def
    by (intro image_mset_subseteq_mono) (simp add: ac_simps)
  then have "count (tickets ?sc) t \<le> count (tickets sc) t" "t \<in># tickets ?sc \<Longrightarrow> t \<in># tickets sc" for t
    by (auto simp: mset_subset_eq_count dest: mset_subset_eqD)
  then show ?thesis using assms spec [OF h] unfolding sched_ok_def by (metis order.trans)
qed

section \<open>Running tasks\<close>

text \<open>Tasks that act on the scheduler by \<open>act\<close>, with the calls written to a log.\<close>

type_synonym call_log = "(nat \<times> nat \<times> int) list"

definition logged :: "(nat \<Rightarrow> nat \<Rightarrow> int \<Rightarrow> CScheduler \<Rightarrow> CScheduler) \<Rightarrow> call_log task_call" where
  "logged act f v n = (\<lambda>(log, sc). (log @ [(f, v, n)], act f v n sc))"

definition call_of :: "TASK_RECORD \<Rightarrow> nat \<times> nat \<times> int" where
  "call_of p = (the (fpTask p), arg_voidptr p, arg_Integer p)"

text \<open>Tasks that use the scheduler through its operations, and tasks that only schedule others.\<close>

definition uses_ops :: "(nat \<Rightarrow> nat \<Rightarrow> int \<Rightarrow> CScheduler \<Rightarrow> CScheduler) \<Rightarrow> bool" where
  "uses_ops act \<longleftrightarrow> (\<forall>f v n sc. \<exists>opers. act f v n sc = foldl apply_op sc opers)"

fun is_defer :: "sched_op \<Rightarrow> bool" where
  "is_defer (Defer_op _ _ _ _ _ _) = True"
| "is_defer (Immediate_op _ _ _ _ _) = True"
| "is_defer _ = False"

definition only_defers :: "(nat \<Rightarrow> nat \<Rightarrow> int \<Rightarrow> CScheduler \<Rightarrow> CScheduler) \<Rightarrow> bool" where
  "only_defers act \<longleftrightarrow> (\<forall>f v n sc. \<exists>opers. list_all is_defer opers \<and> act f v n sc = foldl apply_op sc opers)"

lemma only_defers_keeps:
  assumes "only_defers act"
  shows "m_PriorityHeap (act f v n sc) = m_PriorityHeap sc" "m_minPriority (act f v n sc) = m_minPriority sc"
proof -
  have one: "m_PriorityHeap (apply_op sc oper) = m_PriorityHeap sc \<and> m_minPriority (apply_op sc oper) = m_minPriority sc"
    if "is_defer oper" for oper sc
    using that by (cases oper) (auto simp: op_defs)
  have "m_PriorityHeap (foldl apply_op sc opers) = m_PriorityHeap sc \<and> m_minPriority (foldl apply_op sc opers) = m_minPriority sc"
    if "list_all is_defer opers" for opers sc
    using that by (induction opers arbitrary: sc) (auto simp: one)
  moreover obtain opers where "list_all is_defer opers" "act f v n sc = foldl apply_op sc opers"
    using assms unfolding only_defers_def by blast
  ultimately show "m_PriorityHeap (act f v n sc) = m_PriorityHeap sc" "m_minPriority (act f v n sc) = m_minPriority sc"
    by simp_all
qed

lemma RunTasks_stops:
  "m_Heap (m_PriorityHeap sc) = [] \<or> m_minPriority sc < iPriority (hd (m_Heap (m_PriorityHeap sc))) \<or> n = 0 \<Longrightarrow>
   RunTasks_loop call n k w sc = Some (k, w, sc)"
  by (subst RunTasks_loop.simps) (auto simp: PeekAtTopmost_def split: list.split)

lemma RunTasks_top:
  assumes "queue_ok (m_PriorityHeap sc)" "m_Heap (m_PriorityHeap sc) = p # ps" "iPriority p \<le> m_minPriority sc" "n \<noteq> 0"
  obtains h where "RunTasks_loop call n k w sc =
      (case fpTask p of
         None \<Rightarrow> RunTasks_loop call (n - 1) k w (sc\<lparr>m_PriorityHeap := h\<rparr>)
       | Some f \<Rightarrow>
           (case call f (arg_voidptr p) (arg_Integer p) (w, sc\<lparr>m_PriorityHeap := h\<rparr>) of
              (w, sc) \<Rightarrow> RunTasks_loop call (n - 1) (k + 1) w sc))"
    "queue_ok h" "tasks (m_PriorityHeap sc) = add_mset (task_core p) (tasks h)"
    "\<And>q. q \<in># tasks h \<Longrightarrow> task_before p q"
proof -
  let ?h = "m_PriorityHeap sc"
  have heap: "is_heap ComparePriorityGreater (m_Heap ?h)" using assms(1) by (simp add: queue_ok_def)
  obtain h where h: "RemoveTopmost ComparePriorityGreater ?h = (Some p, h)" "is_heap ComparePriorityGreater (m_Heap h)"
    "mset (m_Heap ?h) = add_mset p (mset (m_Heap h))" "\<And>q. q \<in> set (m_Heap ?h) \<Longrightarrow> \<not> ComparePriorityGreater p q"
    using prio.Remove_heap [OF heap assms(2)] by metis
  have t: "tasks ?h = add_mset (task_core p) (tasks h)" using h(3) by (simp add: tasks_def)
  have u: "count (add_mset (m_Ticket p) (image_mset m_Ticket (tasks h))) t \<le> 1" for t
    using assms(1) unfolding queue_ok_def t by simp
  have ok: "queue_ok h" unfolding queue_ok_def
  proof (intro conjI allI h(2))
    show "count (image_mset m_Ticket (tasks h)) t \<le> 1" for t using u [of t] by (auto split: if_splits)
  qed
  have before: "task_before p q" if q: "q \<in># tasks h" for q
  proof -
    obtain r where r: "r \<in> set (m_Heap h)" "q = task_core r" using q by (auto simp: tasks_def)
    have "m_Ticket q \<in># image_mset m_Ticket (tasks h)" using q by simp
    moreover have "m_Ticket p \<notin># image_mset m_Ticket (tasks h)" unfolding not_in_iff using u [of "m_Ticket p"] by simp
    ultimately have "m_Ticket q \<noteq> m_Ticket p" by metis
    moreover have "r \<in> set (m_Heap ?h)" using r(1) h(3) by (metis insertCI set_mset_add_mset_insert set_mset_mset)
    then have "\<not> task_before q p" using h(4) r(2) by (auto simp: task_before_def)
    ultimately show ?thesis using task_before_total by metis
  qed
  have "RunTasks_loop call n k w sc =
      (case fpTask p of
         None \<Rightarrow> RunTasks_loop call (n - 1) k w (sc\<lparr>m_PriorityHeap := h\<rparr>)
       | Some f \<Rightarrow>
           (case call f (arg_voidptr p) (arg_Integer p) (w, sc\<lparr>m_PriorityHeap := h\<rparr>) of
              (w, sc) \<Rightarrow> RunTasks_loop call (n - 1) (k + 1) w sc))"
    using assms(2,3,4) h(1) by (subst RunTasks_loop.simps) (simp add: PeekAtTopmost_def)
  then show ?thesis using that ok t before by blast
qed

lemma cancelled_from_elem:
  assumes "cancelled_from (m_Heap h) (m_Heap h')" "q \<in># tasks h'"
  shows "\<exists>p \<in># tasks h. iPriority q = iPriority p \<and> m_Ticket q = m_Ticket p \<and> (fpTask q \<noteq> None \<longrightarrow> q = p)"
proof -
  obtain i where i: "i < length (m_Heap h')" "q = task_core (m_Heap h' ! i)"
    using assms(2) by (auto simp: tasks_def in_set_conv_nth)
  have l: "length (m_Heap h) = length (m_Heap h')" and c: "m_Heap h' ! i = m_Heap h ! i \<or> m_Heap h' ! i = (m_Heap h ! i)\<lparr>fpTask := None\<rparr>"
    using assms(1) i(1) by (auto simp: cancelled_from_def list_all2_conv_all_nth)
  then have "task_core (m_Heap h ! i) \<in># tasks h" using i(1) by (simp add: tasks_def)
  then show ?thesis using c i(2) by (intro bexI [of _ "task_core (m_Heap h ! i)"]) auto
qed

lemma cancelled_from_size: "cancelled_from (m_Heap h) (m_Heap h') \<Longrightarrow> size (tasks h') = size (tasks h)"
  by (simp add: cancelled_from_def tasks_def list_all2_lengthD)

lemma task_before_key:
  "iPriority q = iPriority p \<Longrightarrow> m_Ticket q = m_Ticket p \<Longrightarrow> task_before r p \<Longrightarrow> task_before r q"
  by (simp add: task_before_iff)

text \<open>What a run of \<open>n\<close> steps does when tasks use the scheduler through its operations.\<close>

definition ran :: "nat \<Rightarrow> CScheduler \<Rightarrow> TASK_RECORD list \<Rightarrow> CScheduler \<Rightarrow> bool" where
  "ran n sc ts sc' \<longleftrightarrow> length ts \<le> n \<and> queue_ok (m_PriorityHeap sc') \<and> sorted_wrt task_before ts \<and>
     (\<forall>p \<in> set ts. fpTask p \<noteq> None \<and> p \<in># tasks (m_PriorityHeap sc)) \<and>
     (\<forall>q \<in># tasks (m_PriorityHeap sc'). (\<forall>p \<in> set ts. task_before p q) \<and>
        (\<exists>p \<in># tasks (m_PriorityHeap sc). iPriority q = iPriority p \<and> m_Ticket q = m_Ticket p \<and> (fpTask q \<noteq> None \<longrightarrow> q = p))) \<and>
     size (tasks (m_PriorityHeap sc')) + length ts \<le> size (tasks (m_PriorityHeap sc))"

lemma ran_nil: "queue_ok (m_PriorityHeap sc) \<Longrightarrow> ran n sc [] sc"
  by (auto simp: ran_def)

lemma ran_step:
  assumes "ran n sc' ts sc''" "cancelled_from (m_Heap h) (m_Heap (m_PriorityHeap sc'))"
    "tasks (m_PriorityHeap sc) = add_mset (task_core p) (tasks h)" "\<And>q. q \<in># tasks h \<Longrightarrow> task_before p q"
  shows "ran (Suc n) sc ts sc''" "fpTask p \<noteq> None \<Longrightarrow> ran (Suc n) sc (task_core p # ts) sc''"
proof -
  note from_h = cancelled_from_elem [OF assms(2)] and size = cancelled_from_size [OF assms(2)]
  have ts: "p' \<in># tasks h" if "p' \<in> set ts" for p' using assms(1) from_h that by (fastforce simp: ran_def)
  have rest: "\<exists>p' \<in># tasks h. iPriority q = iPriority p' \<and> m_Ticket q = m_Ticket p' \<and> (fpTask q \<noteq> None \<longrightarrow> q = p')"
    if "q \<in># tasks (m_PriorityHeap sc'')" for q
  proof -
    obtain r where r: "r \<in># tasks (m_PriorityHeap sc')" "iPriority q = iPriority r" "m_Ticket q = m_Ticket r" "fpTask q \<noteq> None \<longrightarrow> q = r"
      using assms(1) \<open>q \<in># _\<close> unfolding ran_def by blast
    then show ?thesis using from_h [OF r(1)] by auto
  qed
  show "ran (Suc n) sc ts sc''" using assms(1,3) ts rest size by (fastforce simp: ran_def)
  have "task_before p q" if "q \<in># tasks (m_PriorityHeap sc'')" for q
    using rest [OF that] assms(4) task_before_key by metis
  then show "ran (Suc n) sc (task_core p # ts) sc''" if "fpTask p \<noteq> None"
    using assms(1,3,4) ts rest size that by (fastforce simp: ran_def)
qed

lemma RunTasks_ran:
  assumes "queue_ok (m_PriorityHeap sc)" "uses_ops act"
  shows "\<exists>ts sc'. RunTasks_loop (logged act) (int n) k log sc = Some (k + length ts, log @ map call_of ts, sc') \<and> ran n sc ts sc'"
  using assms(1)
proof (induction n arbitrary: k log sc)
  case 0
  then show ?case using RunTasks_stops [of sc 0 "logged act" k log] ran_nil [of sc] by (intro exI [of _ "[]"]) simp
next
  case (Suc n)
  show ?case
  proof (cases "m_Heap (m_PriorityHeap sc) = [] \<or> m_minPriority sc < iPriority (hd (m_Heap (m_PriorityHeap sc)))")
    case True
    then show ?thesis using RunTasks_stops [of sc "int (Suc n)" "logged act" k log] ran_nil [OF Suc.prems] by (intro exI [of _ "[]"]) auto
  next
    case False
    then obtain p ps where p: "m_Heap (m_PriorityHeap sc) = p # ps" "iPriority p \<le> m_minPriority sc" by (cases "m_Heap (m_PriorityHeap sc)") auto
    have nz: "int (Suc n) \<noteq> 0" by simp
    obtain h where h: "RunTasks_loop (logged act) (int (Suc n)) k log sc =
      (case fpTask p of
         None \<Rightarrow> RunTasks_loop (logged act) (int (Suc n) - 1) k log (sc\<lparr>m_PriorityHeap := h\<rparr>)
       | Some f \<Rightarrow>
           (case logged act f (arg_voidptr p) (arg_Integer p) (log, sc\<lparr>m_PriorityHeap := h\<rparr>) of
              (w, sc) \<Rightarrow> RunTasks_loop (logged act) (int (Suc n) - 1) (k + 1) w sc))"
      "queue_ok h" "tasks (m_PriorityHeap sc) = add_mset (task_core p) (tasks h)" "\<And>q. q \<in># tasks h \<Longrightarrow> task_before p q"
      using RunTasks_top [OF Suc.prems p nz] by metis
    show ?thesis
    proof (cases "fpTask p")
      case None
      obtain ts sc' where "RunTasks_loop (logged act) (int n) k log (sc\<lparr>m_PriorityHeap := h\<rparr>) = Some (k + length ts, log @ map call_of ts, sc')"
        "ran n (sc\<lparr>m_PriorityHeap := h\<rparr>) ts sc'"
        using Suc.IH [of "sc\<lparr>m_PriorityHeap := h\<rparr>" k log] h(2) by auto
      then show ?thesis using ran_step(1) [of n _ ts sc' h sc p] h None by (intro exI [of _ ts]) simp
    next
      case (Some f)
      let ?sc = "act f (arg_voidptr p) (arg_Integer p) (sc\<lparr>m_PriorityHeap := h\<rparr>)"
      obtain opers where "?sc = foldl apply_op (sc\<lparr>m_PriorityHeap := h\<rparr>) opers" using assms(2) unfolding uses_ops_def by blast
      then have c: "cancelled_from (m_Heap h) (m_Heap (m_PriorityHeap ?sc))" using apply_ops_queue [of "sc\<lparr>m_PriorityHeap := h\<rparr>"] by simp
      obtain ts sc' where t: "RunTasks_loop (logged act) (int n) (k + 1) (log @ [call_of p]) ?sc =
          Some (k + 1 + length ts, (log @ [call_of p]) @ map call_of ts, sc')" "ran n ?sc ts sc'"
        using Suc.IH [of ?sc "k + 1" "log @ [call_of p]"] cancelled_from_queue [OF c h(2)] by auto
      have "call_of (task_core p) = call_of p" by (simp add: call_of_def)
      moreover have "logged act f (arg_voidptr p) (arg_Integer p) (log, sc\<lparr>m_PriorityHeap := h\<rparr>) = (log @ [call_of p], ?sc)"
        using Some by (simp add: logged_def call_of_def)
      ultimately show ?thesis using t ran_step(2) [OF t(2) c h(3,4)] h(1) Some
        by (intro exI [of _ "task_core p # ts"] exI [of _ sc']) simp
    qed
  qed
qed

section \<open>Tasks that only schedule others\<close>

definition live :: "TASK_RECORD \<Rightarrow> bool" where
  "live p \<longleftrightarrow> fpTask p \<noteq> None"

text \<open>The tasks \<open>ps\<close> were taken off the front of the priority queue.\<close>

definition popped :: "CScheduler \<Rightarrow> TASK_RECORD list \<Rightarrow> CScheduler \<Rightarrow> bool" where
  "popped sc ps sc' \<longleftrightarrow> sorted_wrt task_before ps \<and> mset ps + tasks (m_PriorityHeap sc') = tasks (m_PriorityHeap sc) \<and>
     queue_ok (m_PriorityHeap sc') \<and> m_minPriority sc' = m_minPriority sc \<and>
     (\<forall>p \<in> set ps. iPriority p \<le> m_minPriority sc \<and> (\<forall>q \<in># tasks (m_PriorityHeap sc'). task_before p q))"

definition exhausted :: "CScheduler \<Rightarrow> bool" where
  "exhausted sc \<longleftrightarrow> (\<forall>q \<in># tasks (m_PriorityHeap sc). m_minPriority sc < iPriority q)"

lemma popped_nil: "queue_ok (m_PriorityHeap sc) \<Longrightarrow> popped sc [] sc"
  by (simp add: popped_def)

lemma popped_append:
  assumes "popped sc ps sc'" "popped sc' qs sc''"
  shows "popped sc (ps @ qs) sc''"
proof -
  have m: "mset qs + tasks (m_PriorityHeap sc'') = tasks (m_PriorityHeap sc')" using assms(2) by (simp add: popped_def)
  have "q \<in># tasks (m_PriorityHeap sc')" if "q \<in> set qs \<or> q \<in># tasks (m_PriorityHeap sc'')" for q
    using that unfolding m [symmetric] by auto
  then show ?thesis using assms unfolding popped_def by (auto simp: sorted_wrt_append add.assoc)
qed

lemma popped_top:
  assumes "queue_ok (m_PriorityHeap sc)" "queue_ok h" "tasks (m_PriorityHeap sc) = add_mset (task_core p) (tasks h)"
    "\<And>q. q \<in># tasks h \<Longrightarrow> task_before p q" "iPriority p \<le> m_minPriority sc"
    "m_PriorityHeap sc' = h" "m_minPriority sc' = m_minPriority sc"
  shows "popped sc [task_core p] sc'"
  using assms by (simp add: popped_def)

lemma exhausted_top:
  assumes "queue_ok (m_PriorityHeap sc)"
    "m_Heap (m_PriorityHeap sc) = [] \<or> m_minPriority sc < iPriority (hd (m_Heap (m_PriorityHeap sc)))"
  shows "exhausted sc"
proof (cases "m_Heap (m_PriorityHeap sc)")
  case Nil
  then show ?thesis by (simp add: exhausted_def tasks_def)
next
  case (Cons p ps)
  have "iPriority p \<le> iPriority q" if "q \<in> set (m_Heap (m_PriorityHeap sc))" for q
  proof -
    have "\<not> ComparePriorityGreater p q"
      using prio.Remove_heap [OF _ Cons] assms(1) \<open>q \<in> _\<close> unfolding queue_ok_def by metis
    then show ?thesis by (auto simp: ComparePriorityGreater_def split: if_splits)
  qed
  then show ?thesis using assms(2) Cons by (force simp: exhausted_def tasks_def)
qed

lemma RunTasks_popped:
  assumes "queue_ok (m_PriorityHeap sc)" "only_defers act"
  shows "\<exists>ps sc'. RunTasks_loop (logged act) (int n) k log sc =
      Some (k + length (filter live ps), log @ map call_of (filter live ps), sc') \<and>
    popped sc ps sc' \<and> length ps \<le> n \<and> (length ps = n \<or> exhausted sc')"
  using assms(1)
proof (induction n arbitrary: k log sc)
  case 0
  then show ?case using RunTasks_stops [of sc 0 "logged act" k log] popped_nil [of sc] by (intro exI [of _ "[]"]) simp
next
  case (Suc n)
  show ?case
  proof (cases "m_Heap (m_PriorityHeap sc) = [] \<or> m_minPriority sc < iPriority (hd (m_Heap (m_PriorityHeap sc)))")
    case True
    then show ?thesis using RunTasks_stops [of sc "int (Suc n)" "logged act" k log] popped_nil [OF Suc.prems] exhausted_top [OF Suc.prems]
      by (intro exI [of _ "[]"]) auto
  next
    case False
    then obtain p ps where p: "m_Heap (m_PriorityHeap sc) = p # ps" "iPriority p \<le> m_minPriority sc" by (cases "m_Heap (m_PriorityHeap sc)") auto
    have nz: "int (Suc n) \<noteq> 0" by simp
    obtain h where h: "RunTasks_loop (logged act) (int (Suc n)) k log sc =
      (case fpTask p of
         None \<Rightarrow> RunTasks_loop (logged act) (int (Suc n) - 1) k log (sc\<lparr>m_PriorityHeap := h\<rparr>)
       | Some f \<Rightarrow>
           (case logged act f (arg_voidptr p) (arg_Integer p) (log, sc\<lparr>m_PriorityHeap := h\<rparr>) of
              (w, sc) \<Rightarrow> RunTasks_loop (logged act) (int (Suc n) - 1) (k + 1) w sc))"
      "queue_ok h" "tasks (m_PriorityHeap sc) = add_mset (task_core p) (tasks h)" "\<And>q. q \<in># tasks h \<Longrightarrow> task_before p q"
      using RunTasks_top [OF Suc.prems p nz] by metis
    let ?sc = "case fpTask p of None \<Rightarrow> sc\<lparr>m_PriorityHeap := h\<rparr> | Some f \<Rightarrow> act f (arg_voidptr p) (arg_Integer p) (sc\<lparr>m_PriorityHeap := h\<rparr>)"
    let ?ps = "filter live [task_core p]"
    have run: "RunTasks_loop (logged act) (int (Suc n)) k log sc =
        RunTasks_loop (logged act) (int n) (k + length ?ps) (log @ map call_of ?ps) ?sc"
      unfolding h(1) by (cases "fpTask p") (simp_all add: logged_def live_def call_of_def)
    have keep: "m_PriorityHeap ?sc = h" "m_minPriority ?sc = m_minPriority sc"
      using only_defers_keeps [OF assms(2)] by (auto split: option.split)
    have "queue_ok (m_PriorityHeap ?sc)" using h(2) keep by simp
    then obtain qs sc' where q: "RunTasks_loop (logged act) (int n) (k + length ?ps) (log @ map call_of ?ps) ?sc =
        Some (k + length ?ps + length (filter live qs), (log @ map call_of ?ps) @ map call_of (filter live qs), sc')"
      "popped ?sc qs sc'" "length qs \<le> n" "length qs = n \<or> exhausted sc'"
      using Suc.IH by blast
    have "popped sc (task_core p # qs) sc'"
      using popped_append [OF popped_top [OF Suc.prems h(2,3,4) p(2) keep] q(2)] by simp
    then show ?thesis using q run by (intro exI [of _ "task_core p # qs"]) auto
  qed
qed


lemma RunAllTasks_popped:
  assumes "queue_ok (m_PriorityHeap sc)" "only_defers act"
  shows "\<exists>ps sc'. RunAllTasks_loop (logged act) k log sc =
      Some (k + length (filter live ps), log @ map call_of (filter live ps), sc') \<and> popped sc ps sc' \<and>
    (exhausted sc' \<or> (\<exists>qs rs. ps = qs @ rs \<and> length rs = 100 \<and> filter live rs = []))"
  using assms(1)
proof (induction "size (tasks (m_PriorityHeap sc))" arbitrary: k log sc rule: less_induct)
  case less
  obtain ps sc' where r: "RunTasks (logged act) 100 log sc = Some (length (filter live ps), log @ map call_of (filter live ps), sc')"
    "popped sc ps sc'" "length ps \<le> 100" "length ps = 100 \<or> exhausted sc'"
    using RunTasks_popped [OF less.prems assms(2), of 100 0 log] by (auto simp: RunTasks_def)
  show ?case
  proof (cases "filter live ps = []")
    case True
    then have "RunAllTasks_loop (logged act) k log sc = Some (k, log, sc')" using r(1) by (subst RunAllTasks_loop.simps) simp
    then show ?thesis using r(2,4) True by (intro exI [of _ ps] exI [of _ sc']) auto
  next
    case False
    then have "ps \<noteq> []" by auto
    moreover have "size (mset ps + tasks (m_PriorityHeap sc')) = size (tasks (m_PriorityHeap sc))" using r(2) by (simp add: popped_def)
    ultimately have "size (tasks (m_PriorityHeap sc')) < size (tasks (m_PriorityHeap sc))" by (cases ps) auto
    moreover have "queue_ok (m_PriorityHeap sc')" using r(2) by (simp add: popped_def)
    ultimately obtain qs sc'' where q: "RunAllTasks_loop (logged act) (k + length (filter live ps)) (log @ map call_of (filter live ps)) sc' =
        Some (k + length (filter live ps) + length (filter live qs), (log @ map call_of (filter live ps)) @ map call_of (filter live qs), sc'')"
      "popped sc' qs sc''" "exhausted sc'' \<or> (\<exists>xs rs. qs = xs @ rs \<and> length rs = 100 \<and> filter live rs = [])"
      using less.hyps [of sc' "k + length (filter live ps)" "log @ map call_of (filter live ps)"] by metis
    have "RunAllTasks_loop (logged act) k log sc =
        RunAllTasks_loop (logged act) (k + length (filter live ps)) (log @ map call_of (filter live ps)) sc'"
      using r(1) False by (subst RunAllTasks_loop.simps) simp
    then have "RunAllTasks_loop (logged act) k log sc = Some (k + length (filter live (ps @ qs)), log @ map call_of (filter live (ps @ qs)), sc'')"
      using q(1) by simp
    moreover have "exhausted sc'' \<or> (\<exists>xs rs. ps @ qs = xs @ rs \<and> length rs = 100 \<and> filter live rs = [])"
      using q(3) by (metis append.assoc)
    ultimately show ?thesis using popped_append [OF r(2) q(2)] by blast
  qed
qed

section \<open>Cancelled tasks\<close>

text \<open>No task makes the call \<open>c\<close>.\<close>

definition makes :: "nat \<times> nat \<times> int \<Rightarrow> TASK_RECORD \<Rightarrow> bool" where
  "makes c p \<longleftrightarrow> live p \<and> call_of p = c"

lemma makes_simps [simp]:
  "\<not> makes c (p\<lparr>fpTask := None\<rparr>)" "makes c (p\<lparr>task_VisitedMark := m\<rparr>) = makes c p"
  "makes c \<lparr>ltaWhen = w, iPriority = i, m_Ticket = t, fpTask = Some f, arg_voidptr = v, arg_Integer = n, task_VisitedMark = m\<rparr> \<longleftrightarrow> (f, v, n) = c"
  "makes (f, v, n) p \<longleftrightarrow> fpTask p = Some f \<and> arg_voidptr p = v \<and> arg_Integer p = n"
  by (auto simp: makes_def live_def call_of_def)

definition absent :: "nat \<times> nat \<times> int \<Rightarrow> CScheduler \<Rightarrow> bool" where
  "absent c sc \<longleftrightarrow> (\<forall>p. p \<in> set (m_Heap (m_WhenHeap sc)) \<or> p \<in> set (m_Heap (m_PriorityHeap sc)) \<longrightarrow> \<not> makes c p)"

fun not_deferring :: "nat \<times> nat \<times> int \<Rightarrow> sched_op \<Rightarrow> bool" where
  "not_deferring c (Defer_op _ _ _ f v n) \<longleftrightarrow> (f, v, n) \<noteq> c"
| "not_deferring c (Immediate_op _ _ f v n) \<longleftrightarrow> (f, v, n) \<noteq> c"
| "not_deferring c _ \<longleftrightarrow> True"

definition never_defers :: "nat \<times> nat \<times> int \<Rightarrow> (nat \<Rightarrow> nat \<Rightarrow> int \<Rightarrow> CScheduler \<Rightarrow> CScheduler) \<Rightarrow> bool" where
  "never_defers c act \<longleftrightarrow> (\<forall>f v n sc. \<exists>opers. list_all (not_deferring c) opers \<and> act f v n sc = foldl apply_op sc opers)"

lemma absent_apply_op: "absent c sc \<Longrightarrow> not_deferring c oper \<Longrightarrow> absent c (apply_op sc oper)"
  by (cases oper) (auto simp: op_defs absent_def heap_Insert_def heap_CancelTask_def simp del: makes_simps(4))

lemma absent_apply_ops: "absent c sc \<Longrightarrow> list_all (not_deferring c) opers \<Longrightarrow> absent c (foldl apply_op sc opers)"
  by (induction opers arbitrary: sc) (auto simp: absent_apply_op)

lemma absent_Cancel: "absent (f, v, n) (CancelTask sc (Some f) v n)"
  unfolding absent_def CancelTask_def heap_CancelTask_def by (auto split: if_splits)

lemma RemoveTopmost_set:
  assumes "RemoveTopmost lt h = (Some p, h')"
  shows "p \<in> set (m_Heap h)" "set (m_Heap h') \<subseteq> set (m_Heap h)"
proof -
  let ?ps = "pop_heap lt (length (m_Heap h)) (m_Heap h)"
  have n: "m_Heap h \<noteq> []" "p = last ?ps" "m_Heap h' = butlast ?ps" using assms by (auto simp: RemoveTopmost_def Let_def split: if_splits)
  have m: "mset ?ps = mset (m_Heap h)" using pop_heap_perm(1) [of "length (m_Heap h)" "m_Heap h" lt] n(1) by simp
  then have "set ?ps = set (m_Heap h)" "?ps \<noteq> []" using n(1) by (metis set_mset_mset, metis mset_zero_iff)
  then show "p \<in> set (m_Heap h)" "set (m_Heap h') \<subseteq> set (m_Heap h)" using n in_set_butlastD [of _ ?ps] last_in_set [of ?ps] by auto
qed

lemma absent_pop: "absent c sc \<Longrightarrow> RemoveTopmost lt (m_PriorityHeap sc) = (Some p, h) \<Longrightarrow> absent c (sc\<lparr>m_PriorityHeap := h\<rparr>)"
  using RemoveTopmost_set(2) [of lt "m_PriorityHeap sc" p h] by (auto simp: absent_def)

lemma absent_ReadyTasks: "absent c sc \<Longrightarrow> absent c (ReadyTasks sc ltaNow)"
proof (induction sc ltaNow rule: ReadyTasks.induct)
  case (1 sc ltaNow)
  show ?case
  proof (cases "PeekAtTopmost (m_WhenHeap sc)")
    case None
    then show ?thesis using "1.prems" by (subst ReadyTasks.simps) simp
  next
    case (Some p)
    obtain r h where r: "RemoveTopmost CompareWhenGreater (m_WhenHeap sc) = (r, h)" by fastforce
    have h: "m_Heap (m_WhenHeap sc) \<noteq> []" using Some by (auto simp: PeekAtTopmost_def)
    then obtain q where q: "r = Some q" using r by (auto simp: RemoveTopmost_def Let_def)
    note s = RemoveTopmost_set [OF r [unfolded q]]
    have "absent c (if fpTask q = None then sc\<lparr>m_WhenHeap := h\<rparr>
        else sc\<lparr>m_WhenHeap := h, m_PriorityHeap := heap_Insert ComparePriorityGreater (m_PriorityHeap sc) q\<rparr>)"
      using "1.prems" s unfolding absent_def heap_Insert_def by (auto simp del: makes_simps(4))
    then show ?thesis using "1.IH"(2) [OF Some _ r [symmetric] q] "1.prems" Some r q
      by (subst ReadyTasks.simps) auto
  qed
qed

text \<open>A property that taking a task off the queue and calling it keeps is kept by a run.\<close>

lemma RunTasks_invariant:
  assumes "RunTasks_loop call n k w sc = Some (k', w', sc')" "I w sc"
    and "\<And>w sc p h. I w sc \<Longrightarrow> RemoveTopmost ComparePriorityGreater (m_PriorityHeap sc) = (Some p, h) \<Longrightarrow>
      case fpTask p of None \<Rightarrow> I w (sc\<lparr>m_PriorityHeap := h\<rparr>)
      | Some f \<Rightarrow> (case call f (arg_voidptr p) (arg_Integer p) (w, sc\<lparr>m_PriorityHeap := h\<rparr>) of (w', sc') \<Rightarrow> I w' sc')"
  shows "I w' sc'"
proof -
  let ?P = "\<lambda>cl (n::int) (k::nat) w sc r. cl = call \<longrightarrow> I w sc \<longrightarrow> (case r of (_, w', sc') \<Rightarrow> I w' sc')"
  have "?P call n k w sc (k', w', sc')"
  proof (rule RunTasks_loop.raw_induct [OF _ assms(1), where P = ?P], intro impI, goal_cases)
    case (1 R cl n k w sc r)
    note IH = 1(1) [rule_format, OF _ 1(3)] and eq = 1(2)
    show ?case
    proof (cases "n = 0 \<or> m_Heap (m_PriorityHeap sc) = [] \<or> m_minPriority sc < iPriority (hd (m_Heap (m_PriorityHeap sc)))")
      case True
      then have "r = (k, w, sc)" using eq by (auto simp: PeekAtTopmost_def split: list.splits if_splits)
      then show ?thesis using 1(4) by simp
    next
      case False
      then obtain p ps where p: "PeekAtTopmost (m_PriorityHeap sc) = Some p" "iPriority p \<le> m_minPriority sc" "n \<noteq> 0"
        "m_Heap (m_PriorityHeap sc) = p # ps"
        by (cases "m_Heap (m_PriorityHeap sc)") (auto simp: PeekAtTopmost_def)
      obtain q h where q: "RemoveTopmost ComparePriorityGreater (m_PriorityHeap sc) = (Some q, h)"
        using p(4) by (simp add: RemoveTopmost_def Let_def)
      show ?thesis
      proof (cases "fpTask q")
        case None
        have "R cl (n - 1) k w (sc\<lparr>m_PriorityHeap := h\<rparr>) = Some r" using eq p q None by simp
        then show ?thesis using IH assms(3) [OF 1(4) q] None by simp
      next
        case (Some f)
        obtain w1 sc1 where c: "call f (arg_voidptr q) (arg_Integer q) (w, sc\<lparr>m_PriorityHeap := h\<rparr>) = (w1, sc1)" by fastforce
        have "R cl (n - 1) (k + 1) w1 sc1 = Some r" using eq p q Some c 1(3) by simp
        then show ?thesis using IH assms(3) [OF 1(4) q] Some c by simp
      qed
    qed
  qed
  then show ?thesis using assms(2) by simp
qed

lemma RunAllTasks_invariant:
  assumes "RunAllTasks_loop call k w sc = Some (k', w', sc')" "I w sc"
    and "\<And>w sc p h. I w sc \<Longrightarrow> RemoveTopmost ComparePriorityGreater (m_PriorityHeap sc) = (Some p, h) \<Longrightarrow>
      case fpTask p of None \<Rightarrow> I w (sc\<lparr>m_PriorityHeap := h\<rparr>)
      | Some f \<Rightarrow> (case call f (arg_voidptr p) (arg_Integer p) (w, sc\<lparr>m_PriorityHeap := h\<rparr>) of (w', sc') \<Rightarrow> I w' sc')"
  shows "I w' sc'"
proof -
  let ?P = "\<lambda>cl (k::nat) w sc r. cl = call \<longrightarrow> I w sc \<longrightarrow> (case r of (_, w', sc') \<Rightarrow> I w' sc')"
  have "?P call k w sc (k', w', sc')"
  proof (rule RunAllTasks_loop.raw_induct [OF _ assms(1), where P = ?P], intro impI, goal_cases)
    case (1 R cl k w sc r)
    obtain n1 w1 sc1 where t: "RunTasks call 100 w sc = Some (n1, w1, sc1)"
      "(if n1 \<noteq> 0 then R cl (k + n1) w1 sc1 else Some (k + n1, w1, sc1)) = Some r"
      using 1(2,3) by (auto split: option.splits)
    have "I w1 sc1" by (rule RunTasks_invariant [OF t(1) [unfolded RunTasks_def] 1(4) assms(3)])
    then show ?case using t(2) 1(1) [of cl "k + n1" w1 sc1 r] 1(3) by (auto split: if_splits)
  qed
  then show ?thesis using assms(2) by simp
qed

section \<open>Sequences of events\<close>

datatype sched_event = Use sched_op | Ready int | Run int | Run_all

fun run_events :: "(nat \<Rightarrow> nat \<Rightarrow> int \<Rightarrow> CScheduler \<Rightarrow> CScheduler) \<Rightarrow> sched_event list \<Rightarrow> call_log \<Rightarrow> CScheduler \<Rightarrow> (call_log \<times> CScheduler) option" where
  "run_events act [] log sc = Some (log, sc)"
| "run_events act (Use oper # evs) log sc = run_events act evs log (apply_op sc oper)"
| "run_events act (Ready ltaNow # evs) log sc = run_events act evs log (ReadyTasks sc ltaNow)"
| "run_events act (Run n # evs) log sc =
     (case RunTasks (logged act) n log sc of None \<Rightarrow> None | Some (_, log, sc) \<Rightarrow> run_events act evs log sc)"
| "run_events act (Run_all # evs) log sc =
     (case RunAllTasks (logged act) log sc of None \<Rightarrow> None | Some (_, log, sc) \<Rightarrow> run_events act evs log sc)"

fun event_spares :: "nat \<times> nat \<times> int \<Rightarrow> sched_event \<Rightarrow> bool" where
  "event_spares c (Use oper) = not_deferring c oper"
| "event_spares c _ = True"

lemma absent_call:
  assumes "never_defers c act" "c \<notin> set log \<and> absent c sc" "RemoveTopmost ComparePriorityGreater (m_PriorityHeap sc) = (Some p, h)"
  shows "case fpTask p of None \<Rightarrow> c \<notin> set log \<and> absent c (sc\<lparr>m_PriorityHeap := h\<rparr>)
    | Some f \<Rightarrow> (case logged act f (arg_voidptr p) (arg_Integer p) (log, sc\<lparr>m_PriorityHeap := h\<rparr>) of
        (log, sc) \<Rightarrow> c \<notin> set log \<and> absent c sc)"
proof (cases "fpTask p")
  case None
  then show ?thesis using assms(2) absent_pop [OF _ assms(3)] by simp
next
  case (Some f)
  obtain opers where "list_all (not_deferring c) opers"
    "act f (arg_voidptr p) (arg_Integer p) (sc\<lparr>m_PriorityHeap := h\<rparr>) = foldl apply_op (sc\<lparr>m_PriorityHeap := h\<rparr>) opers"
    using assms(1) unfolding never_defers_def by blast
  moreover have "c \<noteq> (f, arg_voidptr p, arg_Integer p)"
    using assms(2) RemoveTopmost_set(1) [OF assms(3)] Some by (cases c) (auto simp: absent_def)
  ultimately show ?thesis using Some assms(2) absent_apply_ops [OF absent_pop [OF _ assms(3)]] by (simp add: logged_def)
qed

lemma run_events_absent:
  assumes "never_defers c act" "list_all (event_spares c) evs" "absent c sc" "c \<notin> set log"
    "run_events act evs log sc = Some (log', sc')"
  shows "c \<notin> set log'"
  using assms(2-5)
proof (induction evs arbitrary: log sc)
  case (Cons ev evs)
  let ?I = "\<lambda>log sc. c \<notin> set log \<and> absent c sc"
  show ?case
  proof (cases ev)
    case (Run n)
    obtain k log1 sc1 where r: "RunTasks_loop (logged act) n 0 log sc = Some (k, log1, sc1)" "run_events act evs log1 sc1 = Some (log', sc')"
      using Cons.prems(4) Run by (auto simp: RunTasks_def split: option.splits)
    have "?I log1 sc1"
      by (rule RunTasks_invariant [where I = ?I, OF r(1) _ absent_call [OF assms(1)]]) (use Cons.prems in auto)
    then show ?thesis using Cons.IH [of sc1 log1] Cons.prems(1) r(2) by simp
  next
    case Run_all
    obtain k log1 sc1 where r: "RunAllTasks_loop (logged act) 0 log sc = Some (k, log1, sc1)" "run_events act evs log1 sc1 = Some (log', sc')"
      using Cons.prems(4) Run_all by (auto simp: RunAllTasks_def split: option.splits)
    have "?I log1 sc1"
      by (rule RunAllTasks_invariant [where I = ?I, OF r(1) _ absent_call [OF assms(1)]]) (use Cons.prems in auto)
    then show ?thesis using Cons.IH [of sc1 log1] Cons.prems(1) r(2) by simp
  next
    case (Use oper)
    then show ?thesis using Cons.IH [of "apply_op sc oper" log] Cons.prems absent_apply_op by simp
  next
    case (Ready ltaNow)
    then show ?thesis using Cons.IH [of "ReadyTasks sc ltaNow" log] Cons.prems absent_ReadyTasks by simp
  qed
qed simp

section \<open>Traversals\<close>

text \<open>What the scheduler relies on of a callback: it leaves the mark and the ticket alone, and
  the key of a record only changes under the commands that rebuild the heap.\<close>

definition look_ok :: "'s look \<Rightarrow> bool" where
  "look_ok look \<longleftrightarrow> (\<forall>p s. case look p s of (cmd, p', _) \<Rightarrow>
     task_VisitedMark p' = task_VisitedMark p \<and> m_Ticket p' = m_Ticket p \<and>
     (cmd = IU_NEXT_TASK \<or> cmd = IU_DONE \<longrightarrow> task_key p' = task_key p))"

definition runs_through :: "'s look \<Rightarrow> bool" where
  "runs_through look \<longleftrightarrow> (\<forall>p s. fst (look p s) \<noteq> IU_DONE)"

text \<open>The callback applied to a list of records, one after the other: the records that stay
  and the state.\<close>

fun visit_all :: "'s look \<Rightarrow> 32 word \<Rightarrow> TASK_RECORD list \<Rightarrow> 's \<Rightarrow> TASK_RECORD list \<times> 's" where
  "visit_all look mark [] s = ([], s)"
| "visit_all look mark (p # ps) s =
     (case look (p\<lparr>task_VisitedMark := mark\<rparr>) s of (cmd, p', s) \<Rightarrow>
        (case visit_all look mark ps s of (qs, s) \<Rightarrow> (if cmd = IU_REMOVE_TASK then qs else p' # qs, s)))"

abbreviation unseen :: "32 word \<Rightarrow> TASK_RECORD list \<Rightarrow> TASK_RECORD multiset" where
  "unseen mark ps \<equiv> filter_mset (\<lambda>p. task_VisitedMark p \<noteq> mark) (mset ps)"

abbreviation seen :: "32 word \<Rightarrow> TASK_RECORD list \<Rightarrow> TASK_RECORD multiset" where
  "seen mark ps \<equiv> filter_mset (\<lambda>p. task_VisitedMark p = mark) (mset ps)"

lemma mset_remove_at:
  assumes "i < length ps"
  shows "mset (butlast (ps[i := last (ps[i := p])])) = mset ps - {#ps ! i#}"
proof -
  obtain qs q where qs: "ps = qs @ [q]" using assms by (metis length_greater_0_conv less_zeroE list.size(3) rev_exhaust)
  show ?thesis
  proof (cases "i = length qs")
    case True
    then show ?thesis using qs by simp
  next
    case False
    then have i: "i < length qs" using assms qs by simp
    then have "butlast (ps[i := last (ps[i := p])]) = qs[i := q]" using qs by (simp add: list_update_append)
    moreover have "mset (qs[i := q]) = mset ps - {#ps ! i#}" using i qs by (simp add: mset_update nth_append)
    ultimately show ?thesis by simp
  qed
qed

lemma traverse_for_visits:
  assumes "look_ok look" "runs_through look"
  shows "\<exists>ps' s' vs qs. traverse_for look lt mark ps i b s = (False, ps', s', b \<or> vs \<noteq> []) \<and>
    visit_all look mark vs s = (qs, s') \<and> unseen mark ps = mset vs + unseen mark ps' \<and>
    seen mark ps' = seen mark ps + mset qs \<and>
    (vs = [] \<longrightarrow> ps' = ps \<and> (\<forall>j. i \<le> j \<and> j < length ps \<longrightarrow> task_VisitedMark (ps ! j) = mark))"
proof (induction "length ps - i" arbitrary: ps i b s rule: less_induct)
  case less
  show ?case
  proof (cases "i < length ps \<and> task_VisitedMark (ps ! i) \<noteq> mark")
    case True
    let ?p = "(ps ! i)\<lparr>task_VisitedMark := mark\<rparr>"
    obtain cmd p' s1 where l: "look ?p s = (cmd, p', s1)" by (metis prod_cases3)
    have p': "task_VisitedMark p' = mark" using assms(1) [unfolded look_ok_def, rule_format, of ?p s] l by simp
    have nd: "cmd \<noteq> IU_DONE" using assms(2) l by (metis fst_conv runs_through_def)
    let ?ps = "case cmd of IU_REMOVE_TASK \<Rightarrow> make_heap lt (butlast ((ps[i := p'])[i := last (ps[i := p'])]))
      | IU_UPDATE_TASK \<Rightarrow> make_heap lt (ps[i := p']) | _ \<Rightarrow> ps[i := p']"
    have run: "traverse_for look lt mark ps i b s = traverse_for look lt mark ?ps (i + 1) True s1"
      using True l nd by (subst traverse_for.simps) (simp split: iu_command.split)
    have m: "mset ?ps = (if cmd = IU_REMOVE_TASK then mset ps - {#ps ! i#} else add_mset p' (mset ps - {#ps ! i#}))"
      using True by (simp add: mset_remove_at mset_update split: iu_command.split)
    have len: "length ?ps \<le> length ps" using True by (simp split: iu_command.split)
    have in_ps: "ps ! i \<in># mset ps" using True by simp
    have U: "unseen mark ps = add_mset (ps ! i) (unseen mark ?ps)" and S: "seen mark ?ps = seen mark ps + (if cmd = IU_REMOVE_TASK then {#} else {#p'#})"
      unfolding m using True p' in_ps by (auto dest: multi_member_split simp: multiset_eq_iff)
    obtain ps' s' vs qs where IH: "traverse_for look lt mark ?ps (i + 1) True s1 = (False, ps', s', True)"
      "visit_all look mark vs s1 = (qs, s')" "unseen mark ?ps = mset vs + unseen mark ps'" "seen mark ps' = seen mark ?ps + mset qs"
    proof -
      have "length ?ps - (i + 1) < length ps - i" using len True by linarith
      from less.hyps [OF this, of True s1] show ?thesis using that by auto
    qed
    show ?thesis
      by (intro exI [of _ ps'] exI [of _ s'] exI [of _ "ps ! i # vs"] exI [of _ "if cmd = IU_REMOVE_TASK then qs else p' # qs"]) (use run IH U S l in auto)
  next
    case False
    show ?thesis
    proof (cases "i < length ps")
      case True
      then have run: "traverse_for look lt mark ps i b s = traverse_for look lt mark ps (i + 1) b s"
        using False by (subst traverse_for.simps) simp
      have "length ps - (i + 1) < length ps - i" using True by simp
      from less.hyps [OF this, of b s] obtain ps' s' vs qs where IH:
        "traverse_for look lt mark ps (i + 1) b s = (False, ps', s', b \<or> vs \<noteq> [])" "visit_all look mark vs s = (qs, s')"
        "unseen mark ps = mset vs + unseen mark ps'" "seen mark ps' = seen mark ps + mset qs"
        "vs = [] \<longrightarrow> ps' = ps \<and> (\<forall>j. i + 1 \<le> j \<and> j < length ps \<longrightarrow> task_VisitedMark (ps ! j) = mark)"
        by blast
      have "task_VisitedMark (ps ! j) = mark" if "vs = []" "i \<le> j" "j < length ps" for j
        using IH(5) False True that by (cases "j = i") auto
      then show ?thesis using run IH by auto
    next
      case over: False
      then show ?thesis by (intro exI [of _ ps] exI [of _ s] exI [of _ "[]"]) (subst traverse_for.simps, auto)
    qed
  qed
qed

lemma visit_all_append:
  "visit_all look mark (vs @ ws) s =
     (case visit_all look mark vs s of (qs, s) \<Rightarrow> case visit_all look mark ws s of (rs, s) \<Rightarrow> (qs @ rs, s))"
  by (induction vs arbitrary: s) (auto split: prod.splits)

lemma traverse_loop_visits:
  assumes "look_ok look" "runs_through look"
  shows "\<exists>ps' s' vs qs. traverse_loop look lt mark ps s = Some (True, ps', s') \<and>
    mset vs = unseen mark ps \<and> visit_all look mark vs s = (qs, s') \<and> mset ps' = seen mark ps + mset qs"
proof (induction "size (unseen mark ps)" arbitrary: ps s rule: less_induct)
  case less
  obtain ps' s' vs qs where f: "traverse_for look lt mark ps 0 False s = (False, ps', s', vs \<noteq> [])"
    "visit_all look mark vs s = (qs, s')" "unseen mark ps = mset vs + unseen mark ps'" "seen mark ps' = seen mark ps + mset qs"
    "vs = [] \<longrightarrow> ps' = ps \<and> (\<forall>j < length ps. task_VisitedMark (ps ! j) = mark)"
    using traverse_for_visits [OF assms, of lt mark ps 0 False s] by auto
  show ?case
  proof (cases "vs = []")
    case True
    then have "\<forall>p \<in> set ps. task_VisitedMark p = mark" "ps' = ps" using f(5) by (auto simp: in_set_conv_nth)
    then have "unseen mark ps = {#}" "seen mark ps = mset ps" by (auto simp: filter_mset_eq_conv)
    moreover have "traverse_loop look lt mark ps s = Some (True, ps', s')" using f(1) True by (subst traverse_loop.simps) simp
    moreover have "visit_all look mark [] s = ([], s')" using f(2) True by simp
    ultimately show ?thesis using \<open>ps' = ps\<close> by (intro exI [of _ ps'] exI [of _ s'] exI [of _ "[]"]) simp
  next
    case False
    then have "size (unseen mark ps') < size (unseen mark ps)" using f(3) by simp
    then obtain ps'' s'' ws rs where g: "traverse_loop look lt mark ps' s' = Some (True, ps'', s'')"
      "mset ws = unseen mark ps'" "visit_all look mark ws s' = (rs, s'')" "mset ps'' = seen mark ps' + mset rs"
      using less.hyps by blast
    have "traverse_loop look lt mark ps s = Some (True, ps'', s'')" using f(1) g(1) False by (subst traverse_loop.simps) simp
    moreover have "mset (vs @ ws) = unseen mark ps" using f(3) g(2) by simp
    moreover have "visit_all look mark (vs @ ws) s = (qs @ rs, s'')" using f(2) g(3) by (simp add: visit_all_append)
    moreover have "mset ps'' = seen mark ps + mset (qs @ rs)" using f(4) g(4) by simp
    ultimately show ?thesis by blast
  qed
qed

abbreviation ticket_mset :: "TASK_RECORD list \<Rightarrow> 64 word multiset" where
  "ticket_mset ps \<equiv> image_mset m_Ticket (mset ps)"

lemma look_ticket:
  assumes "look_ok look" "look p s = (cmd, p', s')"
  shows "m_Ticket p' = m_Ticket p" "cmd = IU_NEXT_TASK \<or> cmd = IU_DONE \<Longrightarrow> task_key p' = task_key p"
  using assms(1) [unfolded look_ok_def, rule_format, of p s] assms(2) by auto

context task_order
begin

lemma traverse_for_heap:
  assumes "look_ok look" "is_heap lt ps" "traverse_for look lt mark ps i b s = (ended, ps', s', b')"
  shows "is_heap lt ps' \<and> ticket_mset ps' \<subseteq># ticket_mset ps"
  using assms(2,3)
proof (induction "length ps - i" arbitrary: ps i b s rule: less_induct)
  case less
  show ?case
  proof (cases "i < length ps \<and> task_VisitedMark (ps ! i) \<noteq> mark")
    case True
    let ?p = "(ps ! i)\<lparr>task_VisitedMark := mark\<rparr>"
    obtain cmd p' s1 where l: "look ?p s = (cmd, p', s1)" by (metis prod_cases3)
    let ?rm = "make_heap lt (butlast (ps[i := last (ps[i := p'])]))"
    have t: "m_Ticket p' = m_Ticket (ps ! i)" using look_ticket(1) [OF assms(1) l] by simp
    have in_ps: "ps ! i \<in># mset ps" using True by simp
    have U: "ticket_mset (ps[i := p']) = ticket_mset ps" using True t
      by (simp add: mset_update image_mset_Diff)
    have R: "ticket_mset ?rm \<subseteq># ticket_mset ps" using True by (simp add: mset_remove_at image_mset_subseteq_mono)
    have K: "is_heap lt (ps[i := p'])" if "cmd = IU_NEXT_TASK \<or> cmd = IU_DONE"
    proof (rule same_keys_heap [OF _ less.prems(1)])
      have "task_key p' = task_key (ps ! i)" using look_ticket(2) [OF assms(1) l that] by (simp add: task_key_def)
      then show "map task_key ps = map task_key (ps[i := p'])" using True by (metis list_update_id map_update)
    qed
    have s1: "length ps - (i + 1) < length ps - i" "length (ps[i := p']) - (i + 1) < length ps - i" "length ?rm - (i + 1) < length ps - i"
      "length (make_heap lt (ps[i := p'])) - (i + 1) < length ps - i"
      using True by auto
    have run: "traverse_for look lt mark ps i b s = (case cmd of
        IU_REMOVE_TASK \<Rightarrow> traverse_for look lt mark ?rm (i + 1) True s1
      | IU_DONE \<Rightarrow> (True, ps[i := p'], s1, True)
      | IU_UPDATE_TASK \<Rightarrow> traverse_for look lt mark (make_heap lt (ps[i := p'])) (i + 1) True s1
      | IU_NEXT_TASK \<Rightarrow> traverse_for look lt mark (ps[i := p']) (i + 1) True s1)"
      using True l by (subst traverse_for.simps) (simp split: iu_command.split)
    show ?thesis
    proof (cases cmd)
      case IU_DONE
      then show ?thesis using run less.prems(2) K U by auto
    next
      case IU_NEXT_TASK
      then show ?thesis using less.hyps [OF s1(2), of True s1] run less.prems(2) K U by simp
    next
      case IU_REMOVE_TASK
      then show ?thesis using less.hyps [OF s1(3) make_heap_heap, of True s1] run less.prems(2) R by (auto intro: subset_mset.trans)
    next
      case IU_UPDATE_TASK
      then show ?thesis using less.hyps [OF s1(4) make_heap_heap, of True s1] run less.prems(2) U by simp
    qed
  next
    case False
    show ?thesis
    proof (cases "i < length ps")
      case True
      then have "traverse_for look lt mark ps (i + 1) b s = (ended, ps', s', b')"
        using False less.prems(2) by (subst (asm) traverse_for.simps) simp
      moreover have "length ps - (i + 1) < length ps - i" using True by simp
      ultimately show ?thesis using less.hyps less.prems(1) by blast
    next
      case over: False
      then show ?thesis using less.prems by (subst (asm) traverse_for.simps) simp
    qed
  qed
qed

lemma traverse_loop_heap:
  assumes "look_ok look" "is_heap lt ps" "traverse_loop look lt mark ps s = Some (r, ps', s')"
  shows "is_heap lt ps' \<and> ticket_mset ps' \<subseteq># ticket_mset ps"
proof -
  let ?P = "\<lambda>look' lt' (mark'::32 word) ps s r. look' = look \<longrightarrow> lt' = lt \<longrightarrow> is_heap lt ps \<longrightarrow>
    (case r of (_, ps', _) \<Rightarrow> is_heap lt ps' \<and> ticket_mset ps' \<subseteq># ticket_mset ps)"
  have "?P look lt mark ps s (r, ps', s')"
  proof (rule traverse_loop.raw_induct [OF _ assms(3), where P = ?P], intro impI, goal_cases)
    case (1 R look' lt' mark' ps s r)
    obtain ended ps1 s1 b1 where f: "traverse_for look lt mark' ps 0 False s = (ended, ps1, s1, b1)" by (metis prod_cases4)
    have h: "is_heap lt ps1" "ticket_mset ps1 \<subseteq># ticket_mset ps" using traverse_for_heap [OF assms(1) 1(5) f] by auto
    show ?case
    proof (cases "ended \<or> \<not> b1")
      case True
      then show ?thesis using 1(2-4) f h by (auto split: if_splits)
    next
      case False
      then have "R look lt mark' ps1 s1 = Some r" using 1(2-4) f by simp
      then show ?thesis using 1(1) [of look lt mark' ps1 s1 r] h by (auto intro: subset_mset.trans)
    qed
  qed
  then show ?thesis using assms(2) by simp
qed

lemma TraverseUnordered_heap:
  assumes "look_ok look" "is_heap lt (m_Heap h)" "heap_TraverseUnordered look lt h s = Some (r, h', s')"
  shows "is_heap lt (m_Heap h') \<and> ticket_mset (m_Heap h') \<subseteq># ticket_mset (m_Heap h)"
proof -
  obtain mark ps where m: "(mark, ps) = (if m_iVisitedMark h + 1 = 0 then (m_iVisitedMark h + 1 + 1, map (\<lambda>p. p\<lparr>task_VisitedMark := m_iVisitedMark h + 1\<rparr>) (m_Heap h))
      else (m_iVisitedMark h + 1, m_Heap h))" by (metis surj_pair)
  have "map task_key ps = map task_key (m_Heap h)" "ticket_mset ps = ticket_mset (m_Heap h)"
    using m by (auto simp: task_key_def image_mset.compositionality o_def split: if_splits)
  moreover obtain ps' where "traverse_loop look lt mark ps s = Some (r, ps', s')" "m_Heap h' = ps'"
    using assms(3) unfolding heap_TraverseUnordered_def Let_def m [symmetric] by auto
  ultimately show ?thesis using traverse_loop_heap [OF assms(1), of ps mark s r ps' s'] same_keys_heap [of "m_Heap h" ps] assms(2) by simp
qed

lemma ordered_loop_tickets:
  assumes "look_ok look" "ordered_loop look ps s = (ps', s')"
  shows "map m_Ticket ps' = map m_Ticket ps"
  using assms(2)
proof (induction ps arbitrary: s ps' s')
  case (Cons p ps)
  obtain cmd q s1 where l: "look p s = (cmd, q, s1)" by (metis prod_cases3)
  then show ?case using Cons look_ticket(1) [OF assms(1) l] by (auto split: if_splits prod.splits)
qed simp

lemma TraverseOrdered_heap:
  assumes "look_ok look" "is_heap lt (m_Heap h)" "heap_TraverseOrdered look lt h s = (h', s')"
  shows "is_heap lt (m_Heap h') \<and> ticket_mset (m_Heap h') = ticket_mset (m_Heap h)"
proof -
  obtain ps where o: "ordered_loop look (rev (sort_heap lt (m_Heap h))) s = (ps, s')" "m_Heap h' = make_heap lt (rev ps)"
    using assms(3) by (auto simp: heap_TraverseOrdered_def split: prod.splits)
  have "ticket_mset ps = mset (map m_Ticket (rev (sort_heap lt (m_Heap h))))"
    using ordered_loop_tickets [OF assms(1) o(1)] by (metis mset_map)
  then show ?thesis using o(2) make_heap_heap sort_heap_sorts(1) [OF assms(2)] by simp
qed

end

section \<open>The scheduler as a state machine\<close>

text \<open>Everything that changes the scheduler: its operations (as long as the 64-bit ticket counter
  has not run out), moving the tasks that are ready, taking a task off the queue, and the
  traversals (with the integers a callback keeps as its state).\<close>

inductive sched_reachable :: "CScheduler \<Rightarrow> bool" where
  initial: "sched_reachable CScheduler_init"
| operation: "sched_reachable sc \<Longrightarrow> sch_Ticket sc \<noteq> - 1 \<Longrightarrow> sched_reachable (apply_op sc oper)"
| ready: "sched_reachable sc \<Longrightarrow> sched_reachable (ReadyTasks sc ltaNow)"
| taken: "sched_reachable sc \<Longrightarrow> RemoveTopmost ComparePriorityGreater (m_PriorityHeap sc) = (r, h) \<Longrightarrow>
    sched_reachable (sc\<lparr>m_PriorityHeap := h\<rparr>)"
| unordered: "sched_reachable sc \<Longrightarrow> look_ok (look :: int list look) \<Longrightarrow> TraverseUnordered look sc s = Some (sc', s') \<Longrightarrow> sched_reachable sc'"
| ordered: "sched_reachable sc \<Longrightarrow> look_ok (look :: int list look) \<Longrightarrow> TraverseOrdered look sc s = (sc', s') \<Longrightarrow> sched_reachable sc'"

lemma tickets_alt: "tickets sc = ticket_mset (m_Heap (m_WhenHeap sc)) + ticket_mset (m_Heap (m_PriorityHeap sc))"
  by (simp add: tickets_def tasks_def image_mset.compositionality o_def)

lemma sched_ok_smaller:
  assumes "sched_ok sc" "is_heap CompareWhenGreater (m_Heap (m_WhenHeap sc'))" "is_heap ComparePriorityGreater (m_Heap (m_PriorityHeap sc'))"
    "ticket_mset (m_Heap (m_WhenHeap sc')) \<subseteq># ticket_mset (m_Heap (m_WhenHeap sc))"
    "ticket_mset (m_Heap (m_PriorityHeap sc')) \<subseteq># ticket_mset (m_Heap (m_PriorityHeap sc))" "sch_Ticket sc' = sch_Ticket sc"
  shows "sched_ok sc'"
proof -
  have "tickets sc' \<subseteq># tickets sc" using assms(4,5) by (simp add: tickets_alt subset_mset.add_mono)
  then have "count (tickets sc') t \<le> count (tickets sc) t" "t \<in># tickets sc' \<Longrightarrow> t \<in># tickets sc" for t
    by (auto simp: mset_subset_eq_count dest: mset_subset_eqD)
  then show ?thesis using assms unfolding sched_ok_def by (metis order.trans)
qed

lemma taken_ok:
  assumes "sched_ok sc" "RemoveTopmost ComparePriorityGreater (m_PriorityHeap sc) = (r, h)"
  shows "sched_ok (sc\<lparr>m_PriorityHeap := h\<rparr>)"
proof (cases "m_Heap (m_PriorityHeap sc)")
  case Nil
  then have "h = m_PriorityHeap sc" using assms(2) by (simp add: RemoveTopmost_def)
  then show ?thesis using assms(1) by simp
next
  case (Cons p ps)
  have "is_heap ComparePriorityGreater (m_Heap (m_PriorityHeap sc))" using assms(1) by (simp add: sched_ok_def)
  from prio.Remove_heap [OF this Cons] have h: "is_heap ComparePriorityGreater (m_Heap h)"
    "mset (m_Heap (m_PriorityHeap sc)) = add_mset p (mset (m_Heap h))"
    using assms(2) by (metis prod.inject)+
  show ?thesis by (rule sched_ok_smaller [OF assms(1)]) (use assms(1) h in \<open>auto simp: sched_ok_def\<close>)
qed

lemma TraverseUnordered_ok:
  assumes "sched_ok sc" "look_ok look" "TraverseUnordered look sc s = Some (sc', s')"
  shows "sched_ok sc'"
proof -
  have heaps: "is_heap CompareWhenGreater (m_Heap (m_WhenHeap sc))" "is_heap ComparePriorityGreater (m_Heap (m_PriorityHeap sc))"
    using assms(1) by (auto simp: sched_ok_def)
  obtain r h s1 where h: "heap_TraverseUnordered look CompareWhenGreater (m_WhenHeap sc) s = Some (r, h, s1)"
    using assms(3) by (auto simp: TraverseUnordered_def split: option.splits)
  note w = wait.TraverseUnordered_heap [OF assms(2) heaps(1) h]
  show ?thesis
  proof (cases r)
    case False
    then have "sc' = sc\<lparr>m_WhenHeap := h\<rparr>" using assms(3) h by (simp add: TraverseUnordered_def)
    then show ?thesis using w heaps by (intro sched_ok_smaller [OF assms(1)]) auto
  next
    case True
    then obtain r' h' where h': "heap_TraverseUnordered look ComparePriorityGreater (m_PriorityHeap sc) s1 = Some (r', h', s')"
      "sc' = sc\<lparr>m_WhenHeap := h, m_PriorityHeap := h'\<rparr>"
      using assms(3) h by (auto simp: TraverseUnordered_def)
    then show ?thesis using w prio.TraverseUnordered_heap [OF assms(2) heaps(2) h'(1)]
      by (intro sched_ok_smaller [OF assms(1)]) auto
  qed
qed

lemma TraverseOrdered_ok:
  assumes "sched_ok sc" "look_ok look" "TraverseOrdered look sc s = (sc', s')"
  shows "sched_ok sc'"
proof -
  have heaps: "is_heap CompareWhenGreater (m_Heap (m_WhenHeap sc))" "is_heap ComparePriorityGreater (m_Heap (m_PriorityHeap sc))"
    using assms(1) by (auto simp: sched_ok_def)
  obtain p h s1 where h: "heap_TraverseOrdered look ComparePriorityGreater (m_PriorityHeap sc) s = (p, s1)"
    "heap_TraverseOrdered look CompareWhenGreater (m_WhenHeap sc) s1 = (h, s')" "sc' = sc\<lparr>m_WhenHeap := h, m_PriorityHeap := p\<rparr>"
    using assms(3) by (auto simp: TraverseOrdered_def split: prod.splits)
  then show ?thesis using prio.TraverseOrdered_heap [OF assms(2) heaps(2) h(1)] wait.TraverseOrdered_heap [OF assms(2) heaps(1) h(2)]
    by (intro sched_ok_smaller [OF assms(1)]) auto
qed

lemma CScheduler_init_ok: "sched_ok CScheduler_init"
  by (simp add: sched_ok_def CScheduler_init_def CTaskHeap_init_def is_heap_def heap_from_def tickets_alt)

lemma sched_reachable_ok: "sched_reachable sc \<Longrightarrow> sched_ok sc"
proof (induction rule: sched_reachable.induct)
  case initial
  show ?case by (rule CScheduler_init_ok)
qed (auto intro: apply_op_ok ReadyTasks_ok taken_ok TraverseUnordered_ok TraverseOrdered_ok)

section \<open>Traversals of a heap\<close>

text \<open>The marks of the records are those of the last traversal or of an insertion after it.\<close>

definition marks_ok :: "CTaskHeap \<Rightarrow> bool" where
  "marks_ok h \<longleftrightarrow> (\<forall>p \<in> set (m_Heap h). task_VisitedMark p = m_iVisitedMark h \<or> task_VisitedMark p = m_iVisitedMark h - 1)"

lemma marks_ok_Insert: "marks_ok h \<Longrightarrow> marks_ok (heap_Insert lt h p)"
  by (auto simp: marks_ok_def heap_Insert_def Let_def)

lemma visit_all_core: "visit_all look mark (map task_core vs) s = visit_all look mark vs s"
  by (induction vs arbitrary: s) (auto simp: task_core_def split: prod.splits)

lemma visit_all_marks:
  assumes "look_ok look" "visit_all look mark vs s = (qs, s')" "q \<in> set qs"
  shows "task_VisitedMark q = mark"
  using assms(2,3)
proof (induction vs arbitrary: s qs)
  case (Cons p vs)
  let ?p = "p\<lparr>task_VisitedMark := mark\<rparr>"
  obtain cmd p' s1 rs where l: "look ?p s = (cmd, p', s1)" "visit_all look mark vs s1 = (rs, s')"
    "qs = (if cmd = IU_REMOVE_TASK then rs else p' # rs)"
    using Cons.prems(1) by (auto split: prod.splits)
  have "task_VisitedMark p' = mark" using assms(1) [unfolded look_ok_def, rule_format, of ?p s] l(1) by simp
  then show ?case using Cons.IH [OF l(2)] Cons.prems(2) l(3) by (auto split: if_splits)
qed simp

lemma heap_TraverseUnordered_visits:
  assumes "look_ok look" "runs_through look" "marks_ok h"
  shows "\<exists>h' s' vs qs. heap_TraverseUnordered look lt h s = Some (True, h', s') \<and> marks_ok h' \<and>
    mset vs = tasks h \<and> visit_all look (m_iVisitedMark h') vs s = (qs, s') \<and> mset (m_Heap h') = mset qs"
proof -
  obtain mark ps where m: "(mark, ps) = (if m_iVisitedMark h + 1 = 0 then (m_iVisitedMark h + 1 + 1, map (\<lambda>p. p\<lparr>task_VisitedMark := m_iVisitedMark h + 1\<rparr>) (m_Heap h))
      else (m_iVisitedMark h + 1, m_Heap h))" by (metis surj_pair)
  have c: "map task_core ps = map task_core (m_Heap h)" using m by (auto split: if_splits)
  have u: "task_VisitedMark p \<noteq> mark" if "p \<in> set ps" for p
  proof (cases "m_iVisitedMark h + 1 = 0")
    case True
    then show ?thesis using m that by auto
  next
    case False
    then have "ps = m_Heap h" "mark = m_iVisitedMark h + 1" using m by auto
    moreover have "x \<noteq> x + 1" "x - 1 \<noteq> x + 1" for x :: "32 word" by (simp_all add: diff_eq_eq)
    ultimately show ?thesis using assms(3) that by (metis marks_ok_def)
  qed
  have U: "unseen mark ps = mset ps" "seen mark ps = {#}" using u by (auto simp: filter_mset_eq_conv)
  obtain ps' s' vs qs where t: "traverse_loop look lt mark ps s = Some (True, ps', s')" "mset vs = unseen mark ps"
    "visit_all look mark vs s = (qs, s')" "mset ps' = seen mark ps + mset qs"
    using traverse_loop_visits [OF assms(1,2)] by blast
  let ?h = "h\<lparr>m_Heap := ps', m_iVisitedMark := mark\<rparr>"
  have "heap_TraverseUnordered look lt h s = Some (True, ?h, s')"
    unfolding heap_TraverseUnordered_def Let_def m [symmetric] using t(1) by simp
  moreover have "mset ps' = mset qs" using t(4) U(2) by simp
  moreover have "marks_ok ?h"
    using visit_all_marks [OF assms(1) t(3)] mset_eq_setD [OF \<open>mset ps' = mset qs\<close>] by (simp add: marks_ok_def)
  moreover have "mset (map task_core vs) = tasks h"
  proof -
    have "mset (map task_core vs) = mset (map task_core ps)" using t(2) U(1) by simp
    then show ?thesis using c by (simp add: tasks_def)
  qed
  moreover have "visit_all look (m_iVisitedMark ?h) (map task_core vs) s = (qs, s')" using t(3) by (simp add: visit_all_core)
  ultimately show ?thesis by (intro exI [of _ ?h] exI [of _ s'] exI [of _ "map task_core vs"] exI [of _ qs]) simp
qed

lemma TraverseUnordered_visits:
  assumes "look_ok look" "runs_through look" "marks_ok (m_WhenHeap sc)" "marks_ok (m_PriorityHeap sc)"
  shows "\<exists>sc' s1 s' vs qs ws rs. TraverseUnordered look sc s = Some (sc', s') \<and>
    marks_ok (m_WhenHeap sc') \<and> marks_ok (m_PriorityHeap sc') \<and>
    mset vs = tasks (m_WhenHeap sc) \<and> visit_all look (m_iVisitedMark (m_WhenHeap sc')) vs s = (qs, s1) \<and>
    mset (m_Heap (m_WhenHeap sc')) = mset qs \<and>
    mset ws = tasks (m_PriorityHeap sc) \<and> visit_all look (m_iVisitedMark (m_PriorityHeap sc')) ws s1 = (rs, s') \<and>
    mset (m_Heap (m_PriorityHeap sc')) = mset rs"
proof -
  obtain h s1 vs qs where w: "heap_TraverseUnordered look CompareWhenGreater (m_WhenHeap sc) s = Some (True, h, s1)" "marks_ok h"
    "mset vs = tasks (m_WhenHeap sc)" "visit_all look (m_iVisitedMark h) vs s = (qs, s1)" "mset (m_Heap h) = mset qs"
    using heap_TraverseUnordered_visits [OF assms(1-3)] by blast
  obtain p s' ws rs where p: "heap_TraverseUnordered look ComparePriorityGreater (m_PriorityHeap sc) s1 = Some (True, p, s')" "marks_ok p"
    "mset ws = tasks (m_PriorityHeap sc)" "visit_all look (m_iVisitedMark p) ws s1 = (rs, s')" "mset (m_Heap p) = mset rs"
    using heap_TraverseUnordered_visits [OF assms(1,2,4)] by blast
  show ?thesis
    by (intro exI [of _ "sc\<lparr>m_WhenHeap := h, m_PriorityHeap := p\<rparr>"] exI [of _ s1] exI [of _ s'] exI [of _ vs] exI [of _ qs]
        exI [of _ ws] exI [of _ rs]) (use w p in \<open>simp add: TraverseUnordered_def\<close>)
qed

lemma ordered_list:
  assumes "heap_order lt" "is_heap lt ps"
  shows "mset (rev (sort_heap lt ps)) = mset ps" "sorted_wrt (\<lambda>p q. \<not> lt p q) (rev (sort_heap lt ps))"
  using heap_order.sort_heap_sorts [OF assms] by (simp_all add: sorted_wrt_rev)

section \<open>The priority queue as an abstract machine\<close>























section \<open>Properties\<close>

text \<open>A scheduler with two immediate tasks, used as an example.\<close>

definition two_tasks :: CScheduler where
  "two_tasks = apply_op (apply_op CScheduler_init (Immediate_op True PRIORITY_OBJECT 1 0 0)) (Immediate_op True PRIORITY_PLAYER 2 0 0)"

lemma two_tasks_ok: "sched_ok two_tasks"
  unfolding two_tasks_def
  by (intro apply_op_ok CScheduler_init_ok) (simp_all add: CScheduler_init_def op_defs)

lemma two_tasks_ready: "sched_ok (ReadyTasks two_tasks 1)"
  by (intro ReadyTasks_ok two_tasks_ok)

lemma idle_uses_ops: "uses_ops (\<lambda>_ _ _ sc. sc)" and idle_only_defers: "only_defers (\<lambda>_ _ _ sc. sc)"
  and idle_never_defers: "never_defers c (\<lambda>_ _ _ sc. sc)"
  unfolding uses_ops_def only_defers_def never_defers_def by (auto intro: exI [of _ "[]"])

text \<open>C9: In every state the scheduler can reach, both vectors are heaps for their comparison, and
  the tickets of all tasks are distinct and below the next one.\<close>

theorem scheduler_invariant:
  assumes "sched_reachable sc"
  shows "is_heap CompareWhenGreater (m_Heap (m_WhenHeap sc)) \<and> is_heap ComparePriorityGreater (m_Heap (m_PriorityHeap sc)) \<and>
    (\<forall>t. count (tickets sc) t \<le> 1) \<and> (\<forall>t \<in># tickets sc. t < sch_Ticket sc)"
  using sched_reachable_ok [OF assms] by (simp add: sched_ok_def)

theorem scheduler_invariant_witness: "is_heap CompareWhenGreater (m_Heap (m_WhenHeap two_tasks))"
proof -
  have "sched_reachable two_tasks" unfolding two_tasks_def
    by (intro sched_reachable.operation sched_reachable.initial) (simp_all add: CScheduler_init_def op_defs)
  then show ?thesis using scheduler_invariant by blast
qed

text \<open>\<open>ReadyTasks\<close> returns, moves exactly the tasks whose time is past from the one queue to the
  other and drops those of them that were cancelled; no task is lost or duplicated.\<close>

theorem ready_tasks_move:
  assumes "sched_ok sc"
  shows "sched_ok (ReadyTasks sc ltaNow) \<and>
    tasks (m_WhenHeap (ReadyTasks sc ltaNow)) = filter_mset (\<lambda>p. \<not> ltaWhen p < ltaNow) (tasks (m_WhenHeap sc)) \<and>
    tasks (m_PriorityHeap (ReadyTasks sc ltaNow)) = tasks (m_PriorityHeap sc) +
      filter_mset (\<lambda>p. ltaWhen p < ltaNow \<and> fpTask p \<noteq> None) (tasks (m_WhenHeap sc))"
proof -
  have "is_heap CompareWhenGreater (m_Heap (m_WhenHeap sc))" "is_heap ComparePriorityGreater (m_Heap (m_PriorityHeap sc))"
    using assms by (simp_all add: sched_ok_def)
  from ReadyTasks_spec [OF this, of ltaNow] show ?thesis using ReadyTasks_ok [OF assms, of ltaNow] by (simp add: Let_def)
qed

theorem ready_tasks_move_witness:
  "tasks (m_WhenHeap (ReadyTasks two_tasks 1)) = filter_mset (\<lambda>p. \<not> ltaWhen p < 1) (tasks (m_WhenHeap two_tasks))"
  using ready_tasks_move [OF two_tasks_ok] by blast





text \<open>C10: A cancelled task is never called: after \<open>CancelTask\<close>, in any sequence of scheduling, cancelling, moving and
  running tasks, the call does not happen unless it is scheduled anew.\<close>

theorem cancelled_task_never_runs:
  assumes "never_defers (f, v, n) act" "list_all (event_spares (f, v, n)) evs" "(f, v, n) \<notin> set log"
    "run_events act evs log (CancelTask sc (Some f) v n) = Some (log', sc')"
  shows "(f, v, n) \<notin> set log'"
  using run_events_absent [OF assms(1,2) absent_Cancel assms(3,4)] .

theorem cancelled_task_never_runs_witness:
  "\<exists>log' sc'. run_events (\<lambda>_ _ _ sc. sc) [Ready 1, Run 10] [] (CancelTask two_tasks (Some 1) 0 0) = Some (log', sc') \<and> (1, 0, 0) \<notin> set log'"
proof -
  let ?sc = "CancelTask two_tasks (Some 1) 0 0"
  have "sched_ok (apply_op two_tasks (Cancel_op (Some 1) 0 0))"
    by (rule apply_op_ok [OF two_tasks_ok]) (simp add: two_tasks_def op_defs CScheduler_init_def)
  then have "queue_ok (m_PriorityHeap (ReadyTasks ?sc 1))" by (simp add: ReadyTasks_ok sched_ok_queue)
  from RunTasks_ran [OF this idle_uses_ops, of 10 0 "[]"] obtain log' sc' where
    r: "run_events (\<lambda>_ _ _ sc. sc) [Ready 1, Run 10] [] ?sc = Some (log', sc')" by (auto simp: RunTasks_def)
  show ?thesis using cancelled_task_never_runs [OF idle_never_defers _ _ r] r by simp
qed



text \<open>A run with chunk size zero calls every live task that is not suspended and leaves none,
  provided no cancelled task is in the priority queue; in general it may stop earlier, but
  only behind a hundred cancelled tasks in a row.\<close>

theorem run_all_leaves_nothing:
  assumes "sched_ok sc" "only_defers act"
  shows "\<exists>ps sc'. RunAllTasks (logged act) [] sc = Some (length (filter live ps), map call_of (filter live ps), sc') \<and>
    mset ps + tasks (m_PriorityHeap sc') = tasks (m_PriorityHeap sc) \<and> sorted_wrt task_before ps \<and>
    ((\<forall>q \<in># tasks (m_PriorityHeap sc'). m_minPriority sc < iPriority q) \<or>
     (\<exists>qs rs. ps = qs @ rs \<and> length rs = 100 \<and> (\<forall>p \<in> set rs. fpTask p = None)))"
proof -
  obtain ps sc' where r: "RunAllTasks_loop (logged act) 0 [] sc = Some (length (filter live ps), map call_of (filter live ps), sc')"
    "popped sc ps sc'" "exhausted sc' \<or> (\<exists>qs rs. ps = qs @ rs \<and> length rs = 100 \<and> filter live rs = [])"
    using RunAllTasks_popped [OF sched_ok_queue [OF assms(1)] assms(2), of 0 "[]"] by auto
  have "filter live rs = [] \<longleftrightarrow> (\<forall>p \<in> set rs. fpTask p = None)" for rs by (auto simp: filter_empty_conv live_def)
  then show ?thesis using r unfolding RunAllTasks_def popped_def exhausted_def by (intro exI [of _ ps] exI [of _ sc']) simp
qed

theorem run_all_leaves_nothing_witness:
  "\<exists>ps sc'. RunAllTasks (logged (\<lambda>_ _ _ sc. sc)) [] (ReadyTasks two_tasks 1) = Some (length (filter live ps), map call_of (filter live ps), sc')"
  using run_all_leaves_nothing [OF two_tasks_ready idle_only_defers] by blast

text \<open>C8: \<open>TraverseUnordered\<close> returns and shows the callback every record exactly once, in some order,
  although records are removed and the heap is rebuilt meanwhile; what it keeps is what the
  callback kept.\<close>

theorem traverse_visits_once:
  assumes "look_ok look" "runs_through look" "marks_ok (m_WhenHeap sc)" "marks_ok (m_PriorityHeap sc)"
  shows "\<exists>sc' s1 s' vs qs ws rs. TraverseUnordered look sc s = Some (sc', s') \<and>
    mset vs = tasks (m_WhenHeap sc) \<and> visit_all look (m_iVisitedMark (m_WhenHeap sc')) vs s = (qs, s1) \<and>
    mset ws = tasks (m_PriorityHeap sc) \<and> visit_all look (m_iVisitedMark (m_PriorityHeap sc')) ws s1 = (rs, s') \<and>
    mset (m_Heap (m_WhenHeap sc')) = mset qs \<and> mset (m_Heap (m_PriorityHeap sc')) = mset rs \<and>
    marks_ok (m_WhenHeap sc') \<and> marks_ok (m_PriorityHeap sc')"
  using TraverseUnordered_visits [OF assms, of s] by blast

theorem traverse_visits_once_witness:
  "\<exists>sc' n. TraverseUnordered (\<lambda>p n. (IU_REMOVE_TASK, p, Suc n)) two_tasks (0::nat) = Some (sc', n)"
proof -
  let ?look = "\<lambda>p n. (IU_REMOVE_TASK, p, Suc n)"
  have l: "look_ok ?look" "runs_through ?look" by (simp_all add: look_ok_def runs_through_def)
  have "marks_ok CTaskHeap_init" by (simp add: marks_ok_def CTaskHeap_init_def)
  then have m: "marks_ok (m_WhenHeap two_tasks)" "marks_ok (m_PriorityHeap two_tasks)"
    by (simp_all add: two_tasks_def op_defs CScheduler_init_def marks_ok_Insert)
  show ?thesis using traverse_visits_once [OF l m, of 0] by metis
qed

end
