(* ===== verification/Boolexp.thy ===== *)
theory Boolexp
  imports Calendar Wild
begin

text \<open>
  Locks: the parser and evaluator of boolean expressions, \<open>mux/modules/engine/boolexp.cpp\<close>,
  and the printer of \<open>mux/modules/engine/unparse.cpp\<close>.

  \<open>TRUE_BOOLEXP\<close>, the null pointer, is \<open>None\<close>; it means "no lock" as well as "syntax error".  A
  parser function maps the rest of the text to the expression and what is left of the text;
  after an error the position does not matter.  The attribute table, the object matcher,
  the table of lock names and the database are parameters, collected in the record \<open>lock_env\<close>
  for parsing and printing and in \<open>eval_env\<close> for evaluation.
\<close>

section \<open>Expressions\<close>

datatype BOOLEXP =
  BOOLEXP_AND BOOLEXP BOOLEXP
| BOOLEXP_OR BOOLEXP BOOLEXP
| BOOLEXP_NOT BOOLEXP
| BOOLEXP_CONST (be_thing: int)
| BOOLEXP_ATR int bytes
| BOOLEXP_INDIR int BOOLEXP
| BOOLEXP_CARRY BOOLEXP
| BOOLEXP_IS BOOLEXP
| BOOLEXP_OWNER BOOLEXP
| BOOLEXP_EVAL int bytes

fun is_const :: "BOOLEXP \<Rightarrow> bool" where
  "is_const (BOOLEXP_CONST _) = True"
| "is_const _ = False"

fun is_const_or_atr :: "BOOLEXP \<Rightarrow> bool" where
  "is_const_or_atr (BOOLEXP_CONST _) = True"
| "is_const_or_atr (BOOLEXP_ATR _ _) = True"
| "is_const_or_atr _ = False"

definition NOT_TOKEN :: byte where "NOT_TOKEN = 0x21"
definition AND_TOKEN :: byte where "AND_TOKEN = 0x26"
definition OR_TOKEN :: byte where "OR_TOKEN = 0x7C"
definition INDIR_TOKEN :: byte where "INDIR_TOKEN = 0x40"
definition CARRY_TOKEN :: byte where "CARRY_TOKEN = 0x2B"
definition IS_TOKEN :: byte where "IS_TOKEN = 0x3D"
definition OWNER_TOKEN :: byte where "OWNER_TOKEN = 0x24"

definition A_LOCK :: int where "A_LOCK = 42"
definition A_NAME :: int where "A_NAME = 43"
definition A_LENTER :: int where "A_LENTER = 59"
definition NOTHING :: int where "NOTHING = -1"
definition AMBIGUOUS :: int where "AMBIGUOUS = -2"
definition SBUF_SIZE :: nat where "SBUF_SIZE = 64"
definition LOCK_PARSE_MAX_DEPTH :: nat where "LOCK_PARSE_MAX_DEPTH = 1024"

text \<open>\<open>atr_str\<close> and \<open>search_lock\<close> give the number of the attribute or lock with a name, \<open>atr_num\<close> the
  number and name of an attribute that exists, \<open>match\<close> the result of \<open>match_everything\<close>, \<open>lock_sw\<close> the names
  and attributes of the locks.  \<open>search_nametab\<close> also asks whether the player may use the entry; every entry of
  \<open>lock_sw\<close> is \<open>CA_PUBLIC\<close>, so \<open>search_lock\<close> does not depend on the player.\<close>

record lock_env =
  bStandAlone :: bool
  parsing_internal :: bool
  parse_god :: bool
  atr_str :: "bytes \<Rightarrow> int option"
  atr_num :: "int \<Rightarrow> (int \<times> bytes) option"
  search_lock :: "bytes \<Rightarrow> int option"
  lock_sw :: "(bytes \<times> int) list"
  match_object :: "bytes \<Rightarrow> int"
  Good_dbref :: "int \<Rightarrow> bool"

section \<open>Parser\<close>

definition skip_whitespace :: "bytes \<Rightarrow> bytes" where
  "skip_whitespace s = dropWhile mux_isspace s"

definition strip_trailing :: "bytes \<Rightarrow> bytes" where
  "strip_trailing s = rev (dropWhile mux_isspace (rev s))"

definition ends_operand :: "byte \<Rightarrow> bool" where
  "ends_operand c \<longleftrightarrow> c = 0 \<or> c = AND_TOKEN \<or> c = OR_TOKEN \<or> c = 0x29"

definition attr_number :: "lock_env \<Rightarrow> bytes \<Rightarrow> int option" where
  "attr_number env name =
     (case atr_str env name of
        Some anum \<Rightarrow> Some anum
      | None \<Rightarrow>
          if \<not> parse_god env then None
          else if peek (dropWhile mux_isdigit name) \<noteq> 0 then None
          else (let anum = to_int (mux_atoi64 name) in if anum \<le> 0 then None else Some anum))"

definition test_atr :: "lock_env \<Rightarrow> bytes \<Rightarrow> BOOLEXP option" where
  "test_atr env s =
     (let buff = take (LBUF_SIZE - 1) s;
          name = takeWhile (\<lambda>c. c \<noteq> 0 \<and> c \<noteq> 0x3A \<and> c \<noteq> 0x2F) buff;
          s = drop (length name) buff
      in if peek s = 0 then None
         else
           (case attr_number env name of
              None \<Rightarrow> None
            | Some anum \<Rightarrow> Some ((if peek s = 0x2F then BOOLEXP_EVAL else BOOLEXP_ATR) anum (tl s))))"

text \<open>An object reference.\<close>

definition object_ref :: "lock_env \<Rightarrow> bytes \<Rightarrow> BOOLEXP option" where
  "object_ref env buf =
     (if \<not> bStandAlone env then
        (if parsing_internal env then
           (if peek buf \<noteq> 0x23 then None
            else
              (let thing = to_int (mux_atoi64 (tl buf))
               in if \<not> Good_dbref env thing then None
                  else if thing = NOTHING then None
                  else if thing = AMBIGUOUS then None
                  else Some (BOOLEXP_CONST thing)))
         else
           (let thing = match_object env buf
            in if thing = NOTHING then None
               else if thing = AMBIGUOUS then None
               else Some (BOOLEXP_CONST thing)))
      else if peek buf \<noteq> 0x23 then None
      else (let thing = to_int (mux_atoi64 (tl buf)) in if thing < 0 then None else Some (BOOLEXP_CONST thing)))"

definition operand :: "lock_env \<Rightarrow> bytes \<Rightarrow> (BOOLEXP \<times> bytes) option" where
  "operand env s =
     (let name = take LBUF_SIZE (takeWhile (\<lambda>c. \<not> ends_operand c) s);
          rest = drop (length name) s;
          buf = strip_trailing name
      in case test_atr env buf of
           Some b \<Rightarrow> Some (b, rest)
         | None \<Rightarrow> map_option (\<lambda>b. (b, rest)) (object_ref env buf))"

text \<open>The scan of \<open>parse_boolexp_F\<close> for the slash in front of a lock name: its offset.\<close>

fun find_slash :: "nat \<Rightarrow> bytes \<Rightarrow> nat option" where
  "find_slash depth [] = None"
| "find_slash depth (c # cs) =
     (if c = 0 then None
      else if c = 0x28 then map_option Suc (find_slash (depth + 1) cs)
      else if c = 0x29 then (if depth > 0 then map_option Suc (find_slash (depth - 1) cs) else None)
      else if depth = 0 \<and> (c = AND_TOKEN \<or> c = OR_TOKEN) then None
      else if depth = 0 \<and> c = 0x2F then Some 0
      else map_option Suc (find_slash depth cs))"

text \<open>The lock name behind the slash and the rest of the text.\<close>

definition lock_name :: "bytes \<Rightarrow> bytes \<times> bytes" where
  "lock_name s =
     (let name = takeWhile (\<lambda>c. \<not> ends_operand c) s
      in (take (SBUF_SIZE - 1) (strip_trailing name), drop (length name) s))"

text \<open>What \<open>parse_boolexp_F\<close> makes of the operand behind \<open>@\<close>, \<open>=\<close>, \<open>+\<close> and \<open>$\<close>.\<close>

definition unary :: "(BOOLEXP \<Rightarrow> bool) \<Rightarrow> (BOOLEXP \<Rightarrow> BOOLEXP) \<Rightarrow> (BOOLEXP \<times> bytes) option \<Rightarrow> (BOOLEXP \<times> bytes) option" where
  "unary allowed mk r =
     (case r of None \<Rightarrow> None | Some (b, rest) \<Rightarrow> if allowed b then Some (mk b, rest) else None)"

definition shrinks :: "bytes \<Rightarrow> (BOOLEXP \<times> bytes) option \<Rightarrow> bool" where
  "shrinks s r \<longleftrightarrow> (case r of None \<Rightarrow> True | Some (_, rest) \<Rightarrow> length rest \<le> length s)"

lemma length_skip: "length (skip_whitespace s) \<le> length s"
  by (simp add: skip_whitespace_def length_dropWhile_le)

lemma operand_shrinks: "shrinks s (operand env s)"
  by (auto simp: shrinks_def operand_def Let_def split: option.split)

lemma unary_shrinks: "shrinks s r \<Longrightarrow> shrinks s (unary P f r)"
  by (auto simp: unary_def shrinks_def split: option.splits)

lemma lock_name_length: "lock_name s = (name, rest) \<Longrightarrow> length rest \<le> length s"
  by (auto simp: lock_name_def Let_def)

lemma shrinks_tl: "shrinks (tl s) r \<Longrightarrow> shrinks s r"
  by (cases s) (auto simp: shrinks_def split: option.splits)

lemma shrinks_skip: "shrinks (skip_whitespace s) r \<Longrightarrow> shrinks s r"
  using length_skip [of s] by (auto simp: shrinks_def split: option.splits)

lemma shrinks_binary:
  assumes "shrinks s r1"
    and "\<And>b rest. r1 = Some (b, rest) \<Longrightarrow> peek (skip_whitespace rest) = tok \<Longrightarrow> shrinks (tl (skip_whitespace rest)) (r2 (tl (skip_whitespace rest)))"
  shows "shrinks s (case r1 of
        None \<Rightarrow> None
      | Some (b, rest) \<Rightarrow>
          if peek (skip_whitespace rest) = tok then
            (case r2 (tl (skip_whitespace rest)) of None \<Rightarrow> None | Some (b2, rest2) \<Rightarrow> Some (mk b b2, rest2))
          else Some (b, skip_whitespace rest))"
proof (cases r1)
  case (Some p)
  obtain b rest where p: "p = (b, rest)" by fastforce
  have l: "length (skip_whitespace rest) \<le> length s" using assms(1) Some p length_skip [of rest] by (simp add: shrinks_def)
  show ?thesis
  proof (cases "peek (skip_whitespace rest) = tok")
    case True
    then have "shrinks (tl (skip_whitespace rest)) (r2 (tl (skip_whitespace rest)))" using assms(2) Some p by simp
    then show ?thesis using Some p True l by (auto simp: shrinks_def split: option.split)
  qed (use Some p l in \<open>simp add: shrinks_def\<close>)
qed (simp add: shrinks_def)

lemma shrinks_parens:
  assumes "shrinks s r"
  shows "shrinks s (case r of
        None \<Rightarrow> None
      | Some (b, rest) \<Rightarrow> if peek (skip_whitespace rest) = c then Some (b, tl (skip_whitespace rest)) else None)"
proof (cases r)
  case (Some p)
  obtain b rest where p: "p = (b, rest)" by fastforce
  then show ?thesis using assms Some length_skip [of rest] by (auto simp: shrinks_def)
qed (simp add: shrinks_def)

lemma shrinks_slash:
  "shrinks s (case lock_name (drop n (tl (skip_whitespace s))) of (lockname, rest) \<Rightarrow>
     (case search lockname of None \<Rightarrow> None | Some a \<Rightarrow> map_option (\<lambda>(b, _). (b, rest)) (f a)))"
proof -
  obtain name rest where n: "lock_name (drop n (tl (skip_whitespace s))) = (name, rest)" by fastforce
  then have "length rest \<le> length s" using lock_name_length [OF n] length_skip [of s] by simp
  then show ?thesis using n by (cases "search name") (auto simp: shrinks_def split: option.split)
qed

lemma shrinks_None [simp]: "shrinks s None"
  by (simp add: shrinks_def)

lemma tl_less: "peek t = c \<Longrightarrow> c \<noteq> 0 \<Longrightarrow> length t \<le> n \<Longrightarrow> length (tl t) < n"
  by (cases t) (auto simp: peek_def)

lemmas token_defs = NOT_TOKEN_def AND_TOKEN_def OR_TOKEN_def INDIR_TOKEN_def CARRY_TOKEN_def IS_TOKEN_def OWNER_TOKEN_def

function (sequential) parse_boolexp_E :: "lock_env \<Rightarrow> nat \<Rightarrow> bytes \<Rightarrow> (BOOLEXP \<times> bytes) option"
  and parse_boolexp_T :: "lock_env \<Rightarrow> nat \<Rightarrow> bytes \<Rightarrow> (BOOLEXP \<times> bytes) option"
  and parse_boolexp_F :: "lock_env \<Rightarrow> nat \<Rightarrow> bytes \<Rightarrow> (BOOLEXP \<times> bytes) option"
  and parse_boolexp_L :: "lock_env \<Rightarrow> nat \<Rightarrow> bytes \<Rightarrow> (BOOLEXP \<times> bytes) option" where
  "parse_boolexp_E env depth s =
     (case parse_boolexp_T env depth s of
        None \<Rightarrow> None
      | Some (b, rest) \<Rightarrow>
          if peek (skip_whitespace rest) = OR_TOKEN then
            (case parse_boolexp_E env depth (tl (skip_whitespace rest)) of
               None \<Rightarrow> None
             | Some (b2, rest2) \<Rightarrow> Some (BOOLEXP_OR b b2, rest2))
          else Some (b, skip_whitespace rest))"
| "parse_boolexp_T env depth s =
     (case parse_boolexp_F env depth s of
        None \<Rightarrow> None
      | Some (b, rest) \<Rightarrow>
          if peek (skip_whitespace rest) = AND_TOKEN then
            (case parse_boolexp_T env depth (tl (skip_whitespace rest)) of
               None \<Rightarrow> None
             | Some (b2, rest2) \<Rightarrow> Some (BOOLEXP_AND b b2, rest2))
          else Some (b, skip_whitespace rest))"
| "parse_boolexp_F env depth s =
     (if depth + 1 > LOCK_PARSE_MAX_DEPTH then None
      else if peek (skip_whitespace s) = NOT_TOKEN then
        unary (\<lambda>_. True) BOOLEXP_NOT (parse_boolexp_F env (depth + 1) (tl (skip_whitespace s)))
      else if peek (skip_whitespace s) = INDIR_TOKEN then
        (case find_slash 0 (tl (skip_whitespace s)) of
           Some objlen \<Rightarrow>
             (case lock_name (drop (objlen + 1) (tl (skip_whitespace s))) of (lockname, rest) \<Rightarrow>
                (case search_lock env lockname of
                   None \<Rightarrow> None
                 | Some lock_attr \<Rightarrow>
                     map_option (\<lambda>(b, _). (b, rest))
                       (unary is_const (BOOLEXP_INDIR lock_attr)
                         (parse_boolexp_L env (depth + 1) (take (min objlen (LBUF_SIZE - 1)) (tl (skip_whitespace s)))))))
         | None \<Rightarrow> unary is_const (BOOLEXP_INDIR A_LOCK) (parse_boolexp_L env (depth + 1) (tl (skip_whitespace s))))
      else if peek (skip_whitespace s) = IS_TOKEN then
        unary is_const_or_atr BOOLEXP_IS (parse_boolexp_L env (depth + 1) (tl (skip_whitespace s)))
      else if peek (skip_whitespace s) = CARRY_TOKEN then
        unary is_const_or_atr BOOLEXP_CARRY (parse_boolexp_L env (depth + 1) (tl (skip_whitespace s)))
      else if peek (skip_whitespace s) = OWNER_TOKEN then
        unary is_const BOOLEXP_OWNER (parse_boolexp_L env (depth + 1) (tl (skip_whitespace s)))
      else parse_boolexp_L env (depth + 1) (skip_whitespace s))"
| "parse_boolexp_L env depth s =
     (if peek (skip_whitespace s) = 0x28 then
        (case parse_boolexp_E env depth (tl (skip_whitespace s)) of
           None \<Rightarrow> None
         | Some (b, rest) \<Rightarrow>
             if peek (skip_whitespace rest) = 0x29 then Some (b, tl (skip_whitespace rest)) else None)
      else operand env (skip_whitespace s))"
  by pat_completeness auto
termination
proof -
  note D = parse_boolexp_E_parse_boolexp_T_parse_boolexp_F_parse_boolexp_L.pinduct
  let ?D = parse_boolexp_E_parse_boolexp_T_parse_boolexp_F_parse_boolexp_L_dom
  have sh: "?D (Inl (Inl (env, depth, s))) \<Longrightarrow> shrinks s (parse_boolexp_E env depth s)"
    "?D (Inl (Inr (env, depth, s))) \<Longrightarrow> shrinks s (parse_boolexp_T env depth s)"
    "?D (Inr (Inl (env, depth, s))) \<Longrightarrow> shrinks s (parse_boolexp_F env depth s)"
    "?D (Inr (Inr (env, depth, s))) \<Longrightarrow> shrinks s (parse_boolexp_L env depth s)" for env depth s
  proof (induction env depth s and env depth s and env depth s and env depth s rule: D)
    case (1 env depth s)
    then show ?case unfolding parse_boolexp_E.psimps [OF 1(1)] by (intro shrinks_binary) auto
  next
    case (2 env depth s)
    then show ?case unfolding parse_boolexp_T.psimps [OF 2(1)] by (intro shrinks_binary) auto
  next
    case (3 env depth s)
    note sub = 3(2,3,5-7) [THEN shrinks_tl, THEN shrinks_skip]
    show ?case unfolding parse_boolexp_F.psimps [OF 3(1)]
      using sub 3(8) [THEN shrinks_skip] by (simp add: unary_shrinks shrinks_slash split: option.split)
  next
    case (4 env depth s)
    have "shrinks s (case parse_boolexp_E env depth (tl (skip_whitespace s)) of None \<Rightarrow> None
        | Some (b, rest) \<Rightarrow> if peek (skip_whitespace rest) = 41 then Some (b, tl (skip_whitespace rest)) else None)"
      if "peek (skip_whitespace s) = 0x28"
      by (rule shrinks_parens [OF shrinks_skip [OF shrinks_tl [OF 4(2) [OF that]]]])
    then show ?case unfolding parse_boolexp_L.psimps [OF 4(1)] using shrinks_skip [OF operand_shrinks] by simp
  qed
  have less: "length (tl (skip_whitespace s)) < length s" if "peek (skip_whitespace s) \<noteq> 0" for s
    using tl_less [OF refl that length_skip] .
  have rest: "length (tl (skip_whitespace rest)) < length s" if "shrinks s (Some (b, rest))" "peek (skip_whitespace rest) \<noteq> 0" for s b rest
    using less [OF that(2)] that(1) by (simp add: shrinks_def)
  show ?thesis
  proof (relation "measure (\<lambda>x. case x of
        Inl (Inl (_, _, s)) \<Rightarrow> 4 * length s + 3
      | Inl (Inr (_, _, s)) \<Rightarrow> 4 * length s + 2
      | Inr (Inl (_, _, s)) \<Rightarrow> 4 * length s + 1
      | Inr (Inr (_, _, s)) \<Rightarrow> 4 * length s)", goal_cases)
    case (3 env depth s x2 b y)
    then show ?case using sh(2) [of env depth s] rest [of s b y] by (simp add: token_defs)
  next
    case (5 env depth s x2 b y)
    then show ?case using sh(3) [of env depth s] rest [of s b y] by (simp add: token_defs)
  next
    case (8 env depth s n name y a)
    then show ?case using length_skip [of s] by simp
  next
    case (7 env depth s)
    then show ?case using length_skip [of s] by simp
  next
    case (9 env depth s)
    then show ?case using length_skip [of s] by simp
  next
    case (10 env depth s)
    then show ?case using length_skip [of s] by simp
  next
    case (11 env depth s)
    then show ?case using length_skip [of s] by simp
  next
    case (12 env depth s)
    then show ?case using length_skip [of s] by simp
  next
    case (13 env depth s)
    then show ?case using less [of s] by simp
  qed (use less in \<open>fastforce simp: token_defs\<close>)+
qed

definition parse_boolexp :: "lock_env \<Rightarrow> bytes \<Rightarrow> bool \<Rightarrow> BOOLEXP option" where
  "parse_boolexp env buf internal =
     (if peek buf = 0 then None
      else
        (let env = (if bStandAlone env then env else env\<lparr>parsing_internal := internal\<rparr>)
         in map_option fst (parse_boolexp_E env 0 (take (LBUF_SIZE - 1) (takeWhile (\<lambda>c. c \<noteq> 0) buf)))))"

section \<open>Evaluation\<close>

text \<open>The database and the rest of the server as evaluation sees them: the contents and owner of
  objects, the text of attributes (\<open>atr_get\<close>, \<open>atr_pget\<close>), the permissions, softcode (\<open>mux_exec\<close>)
  and the comparison of its result (\<open>string_equal\<close>, that \<open>string_compare\<close> gives zero).
  \<open>float_order\<close> tells whether the first of two numerals is less or greater than the second, and
  nothing when one of the two texts is not a floating-point numeral.\<close>

record eval_env =
  Contents :: "int \<Rightarrow> int list"
  Owner :: "int \<Rightarrow> int"
  God :: "int \<Rightarrow> bool"
  atr_get :: "int \<Rightarrow> int \<Rightarrow> bytes"
  atr_pget :: "int \<Rightarrow> int \<Rightarrow> bytes"
  See_attr :: "int \<Rightarrow> int \<Rightarrow> int \<Rightarrow> bool"
  bCanReadAttr :: "int \<Rightarrow> int \<Rightarrow> bool"
  no_eval :: "int \<Rightarrow> int \<Rightarrow> bool"
  alarmed :: bool
  tolower_table :: case_table
  wild_invk_lim :: nat
  float_order :: "bytes \<Rightarrow> bytes \<Rightarrow> (bool \<times> bool) option"
  string_equal :: "bytes \<Rightarrow> bytes \<Rightarrow> bool"
  mux_exec :: "bytes \<Rightarrow> int \<Rightarrow> int \<Rightarrow> bytes"
  lock_nest_lim :: nat

text \<open>Whether \<open>strcmp\<close> gives a negative result.\<close>

fun strcmp_less :: "bytes \<Rightarrow> bytes \<Rightarrow> bool" where
  "strcmp_less [] t = (peek t \<noteq> 0)"
| "strcmp_less (c # s) t = (if c \<noteq> peek t then c < peek t else c \<noteq> 0 \<and> strcmp_less s (tl t))"

definition wild_match :: "eval_env \<Rightarrow> bytes \<Rightarrow> bytes \<Rightarrow> bool" where
  "wild_match ev tstr dstr =
     (let ch = peek tstr
      in if ch = 0x3E \<or> ch = 0x3C then
           (case float_order ev dstr (tl tstr) of
              Some (lt, gt) \<Rightarrow> if ch = 0x3C then lt else gt
            | None \<Rightarrow> if ch = 0x3C then strcmp_less dstr (tl tstr) else strcmp_less (tl tstr) dstr)
         else fst (quick_wild (tolower_table ev) (wild_invk_lim ev) 0 tstr dstr))"

definition check_attr :: "eval_env \<Rightarrow> int \<Rightarrow> int \<Rightarrow> int \<Rightarrow> bytes \<Rightarrow> bool" where
  "check_attr ev player lockobj attr key =
     (let buff = atr_pget ev player attr;
          bCheck = (if attr = A_LENTER then True
                    else if See_attr ev lockobj player attr then True
                    else attr = A_NAME)
      in if bCheck \<and> \<not> wild_match ev key buff then False else bCheck)"

definition eval_attr_lock :: "eval_env \<Rightarrow> int \<Rightarrow> int \<Rightarrow> int \<Rightarrow> int \<Rightarrow> bytes \<Rightarrow> bool" where
  "eval_attr_lock ev player thing from a key =
     (let buff = atr_pget ev from a;
          (buff, source) = (if peek buff = 0 then (atr_pget ev thing a, thing) else (buff, from))
      in if a = A_NAME \<or> a = A_LENTER \<or> bCanReadAttr ev source a then
           (if no_eval ev source a then string_equal ev buff key
            else string_equal ev (mux_exec ev buff source player) key)
         else False)"

fun lock_key :: "BOOLEXP \<Rightarrow> (int \<times> bytes) option" where
  "lock_key (BOOLEXP_ATR a key) = Some (a, key)"
| "lock_key (BOOLEXP_EVAL a key) = Some (a, key)"
| "lock_key _ = None"

text \<open>\<open>lev\<close> is \<open>mudstate.lock_nest_lev\<close> on entry; every exit restores it.\<close>

function (sequential) eval_boolexp :: "lock_env \<Rightarrow> eval_env \<Rightarrow> nat \<Rightarrow> int \<Rightarrow> int \<Rightarrow> int \<Rightarrow> BOOLEXP option \<Rightarrow> bool"
  and eval_boolexp_atr :: "lock_env \<Rightarrow> eval_env \<Rightarrow> nat \<Rightarrow> int \<Rightarrow> int \<Rightarrow> int \<Rightarrow> bytes \<Rightarrow> bool" where
  "eval_boolexp env ev lev player thing from None = True"
| "eval_boolexp env ev lev player thing from (Some (BOOLEXP_AND sub1 sub2)) =
     (eval_boolexp env ev lev player thing from (Some sub1) \<and> eval_boolexp env ev lev player thing from (Some sub2))"
| "eval_boolexp env ev lev player thing from (Some (BOOLEXP_OR sub1 sub2)) =
     (eval_boolexp env ev lev player thing from (Some sub1) \<or> eval_boolexp env ev lev player thing from (Some sub2))"
| "eval_boolexp env ev lev player thing from (Some (BOOLEXP_NOT sub1)) =
     (\<not> eval_boolexp env ev lev player thing from (Some sub1))"
| "eval_boolexp env ev lev player thing from (Some (BOOLEXP_INDIR attr sub1)) =
     (if lev + 1 \<ge> lock_nest_lim ev then False
      else if \<not> is_const sub1 \<or> be_thing sub1 < 0 then False
      else eval_boolexp_atr env ev (lev + 1) player (be_thing sub1) from (atr_get ev (be_thing sub1) attr))"
| "eval_boolexp env ev lev player thing from (Some (BOOLEXP_CONST obj)) =
     (obj = player \<or> obj \<in> set (Contents ev player))"
| "eval_boolexp env ev lev player thing from (Some (BOOLEXP_ATR attr key)) =
     (case atr_num env attr of
        None \<Rightarrow> False
      | Some (a, _) \<Rightarrow> check_attr ev player from a key \<or> list_ex (\<lambda>obj. check_attr ev obj from a key) (Contents ev player))"
| "eval_boolexp env ev lev player thing from (Some (BOOLEXP_EVAL attr key)) =
     (case atr_num env attr of
        None \<Rightarrow> False
      | Some (a, _) \<Rightarrow> if alarmed ev then False else eval_attr_lock ev player thing from a key)"
| "eval_boolexp env ev lev player thing from (Some (BOOLEXP_IS sub1)) =
     (if is_const sub1 then be_thing sub1 = player
      else
        (case lock_key sub1 of
           None \<Rightarrow> False
         | Some (attr, key) \<Rightarrow> (case atr_num env attr of None \<Rightarrow> False | Some (a, _) \<Rightarrow> check_attr ev player from a key)))"
| "eval_boolexp env ev lev player thing from (Some (BOOLEXP_CARRY sub1)) =
     (if is_const sub1 then be_thing sub1 \<in> set (Contents ev player)
      else
        (case lock_key sub1 of
           None \<Rightarrow> False
         | Some (attr, key) \<Rightarrow>
             (case atr_num env attr of
                None \<Rightarrow> False
              | Some (a, _) \<Rightarrow> list_ex (\<lambda>obj. check_attr ev obj from a key) (Contents ev player))))"
| "eval_boolexp env ev lev player thing from (Some (BOOLEXP_OWNER sub1)) =
     (Owner ev (be_thing sub1) = Owner ev player)"
| "eval_boolexp_atr env ev lev player thing from key =
     (case parse_boolexp (env\<lparr>parse_god := God ev player\<rparr>) key True of
        None \<Rightarrow> True
      | Some b \<Rightarrow> eval_boolexp env ev lev player thing from (Some b))"
  by pat_completeness auto
termination
  by (relation "inv_image (less_than <*lex*> less_than <*lex*> less_than) (\<lambda>x. case x of
        Inl (_, ev, lev, _, _, _, b) \<Rightarrow> (lock_nest_lim ev - lev, 0, case b of None \<Rightarrow> 0 | Some b \<Rightarrow> size b)
      | Inr (_, ev, lev, _) \<Rightarrow> (lock_nest_lim ev - lev, 1, 0))") auto

section \<open>Printer\<close>

definition utf8_decode_raw :: "bytes \<Rightarrow> nat \<Rightarrow> 32 word" where
  "utf8_decode_raw p n =
     (if n = 1 then ucast (p ! 0)
      else if n = 2 then push_bit 6 (ucast (p ! 0 AND 0x1F)) OR ucast (p ! 1 AND 0x3F)
      else if n = 3 then push_bit 12 (ucast (p ! 0 AND 0x0F)) OR push_bit 6 (ucast (p ! 1 AND 0x3F)) OR ucast (p ! 2 AND 0x3F)
      else push_bit 18 (ucast (p ! 0 AND 0x07)) OR push_bit 12 (ucast (p ! 1 AND 0x3F)) OR push_bit 6 (ucast (p ! 2 AND 0x3F)) OR ucast (p ! 3 AND 0x3F))"

definition utf8_is_valid_scalar :: "32 word \<Rightarrow> nat \<Rightarrow> bool" where
  "utf8_is_valid_scalar cp n \<longleftrightarrow>
     \<not> (n = 2 \<and> cp < 0x80 \<or> n = 3 \<and> cp < 0x800 \<or> n = 4 \<and> cp < 0x10000 \<or> cp > 0x10FFFF \<or> 0xD800 \<le> cp \<and> cp \<le> 0xDFFF)"

fun sequence_start :: "nat \<Rightarrow> bytes \<Rightarrow> nat" where
  "sequence_start 0 p = 0"
| "sequence_start (Suc i) p = (if utf8_FirstByte (p ! Suc i) = UTF8_CONTINUE then sequence_start i p else Suc i)"

lemma sequence_start_le: "sequence_start i p \<le> i"
  by (induction i) auto

function TrimPartialSequence :: "nat \<Rightarrow> bytes \<Rightarrow> nat" where
  "TrimPartialSequence n p =
     (if 0 < n then
        (let iStart = sequence_start (n - 1) p; nBytes = utf8_FirstByte (p ! iStart)
         in if nBytes < 1 \<or> nBytes \<ge> UTF8_CONTINUE then TrimPartialSequence iStart p
            else if iStart + nBytes \<noteq> n then TrimPartialSequence iStart p
            else if \<not> list_all (\<lambda>i. utf8_FirstByte (p ! (iStart + i)) = UTF8_CONTINUE) [1 ..< nBytes] then TrimPartialSequence iStart p
            else if \<not> utf8_is_valid_scalar (utf8_decode_raw (drop iStart p) nBytes) nBytes then TrimPartialSequence iStart p
            else n)
      else 0)"
  by pat_completeness auto
termination
proof (relation "measure fst", goal_cases)
  case (2 n p x y)
  then show ?case using sequence_start_le [of "n - 1" p] by auto
next
  case (3 n p x y)
  then show ?case using sequence_start_le [of "n - 1" p] by auto
next
  case (4 n p x y)
  then show ?case using sequence_start_le [of "n - 1" p] by auto
next
  case (5 n p x y)
  then show ?case using sequence_start_le [of "n - 1" p] by auto
qed simp

declare TrimPartialSequence.simps [simp del]

definition safe_chr :: "bytes \<Rightarrow> byte \<Rightarrow> bytes" where
  "safe_chr buff c = (if length buff < LBUF_SIZE - 1 then buff @ [c] else buff)"

definition safe_str :: "bytes \<Rightarrow> bytes \<Rightarrow> bytes" where
  "safe_str buff src =
     (let buff = buff @ take (LBUF_SIZE - 1 - length buff) (takeWhile (\<lambda>c. c \<noteq> 0) src)
      in take (TrimPartialSequence (length buff) buff) buff)"

datatype unparse_format = F_EXAMINE | F_QUIET | F_DECOMPILE | F_FUNCTION

definition unparse_object_quiet :: "int \<Rightarrow> bytes" where
  "unparse_object_quiet loc = ascii ''(#'' @ mux_ltoa (word_of_int loc) @ ascii '')''"

text \<open>What the other formats show of an object: \<open>unparse_object\<close>, its type and its name.\<close>

definition TYPE_THING :: int where "TYPE_THING = 1"
definition TYPE_PLAYER :: int where "TYPE_PLAYER = 3"

record object_view =
  unparse_object :: "int \<Rightarrow> bytes"
  Typeof :: "int \<Rightarrow> int"
  Name :: "int \<Rightarrow> bytes"

definition unparse_const :: "lock_env \<Rightarrow> object_view \<Rightarrow> unparse_format \<Rightarrow> int \<Rightarrow> bytes \<Rightarrow> bytes" where
  "unparse_const env shown format obj buff =
     (if bStandAlone env then safe_str buff (unparse_object_quiet obj)
      else
        (case format of
           F_QUIET \<Rightarrow> safe_str buff (unparse_object_quiet obj)
         | F_EXAMINE \<Rightarrow> safe_str buff (unparse_object shown obj)
         | F_DECOMPILE \<Rightarrow>
             if Typeof shown obj = TYPE_PLAYER then safe_str (safe_chr buff 0x2A) (Name shown obj)
             else if Typeof shown obj = TYPE_THING then safe_str buff (Name shown obj)
             else safe_str buff (0x23 # mux_ltoa (word_of_int obj))
         | F_FUNCTION \<Rightarrow>
             if Typeof shown obj = TYPE_PLAYER then safe_str (safe_chr buff 0x2A) (Name shown obj)
             else safe_str buff (0x23 # mux_ltoa (word_of_int obj))))"

definition unparse_attr :: "lock_env \<Rightarrow> bytes \<Rightarrow> int \<Rightarrow> byte \<Rightarrow> bytes \<Rightarrow> bytes" where
  "unparse_attr env buff attr sep key =
     (let buff = (case atr_num env attr of
                    Some (number, name) \<Rightarrow>
                      if number \<noteq> 0 then safe_str buff name else safe_str buff (mux_ltoa (word_of_int attr))
                  | None \<Rightarrow> safe_str buff (mux_ltoa (word_of_int attr)))
      in safe_str (safe_chr buff sep) key)"

definition lock_suffix :: "lock_env \<Rightarrow> bytes \<Rightarrow> int \<Rightarrow> bytes" where
  "lock_suffix env buff attr =
     (if attr \<noteq> A_LOCK then
        (case find (\<lambda>nt. snd nt = attr) (lock_sw env) of
           None \<Rightarrow> buff
         | Some nt \<Rightarrow> safe_str (safe_chr buff 0x2F) (fst nt))
      else buff)"

datatype outer_type = Outer_AND | Outer_NOT | Outer_other

fun unparse_boolexp1 :: "lock_env \<Rightarrow> object_view \<Rightarrow> unparse_format \<Rightarrow> outer_type \<Rightarrow> BOOLEXP option \<Rightarrow> bytes \<Rightarrow> bytes" where
  "unparse_boolexp1 env shown format outer None buff =
     (if format = F_EXAMINE then safe_str buff (ascii ''*UNLOCKED*'') else buff)"
| "unparse_boolexp1 env shown format outer (Some (BOOLEXP_AND sub1 sub2)) buff =
     (let buff = (if outer = Outer_NOT then safe_chr buff 0x28 else buff);
          buff = unparse_boolexp1 env shown format Outer_AND (Some sub1) buff;
          buff = safe_chr buff AND_TOKEN;
          buff = unparse_boolexp1 env shown format Outer_AND (Some sub2) buff
      in if outer = Outer_NOT then safe_chr buff 0x29 else buff)"
| "unparse_boolexp1 env shown format outer (Some (BOOLEXP_OR sub1 sub2)) buff =
     (let buff = (if outer = Outer_NOT \<or> outer = Outer_AND then safe_chr buff 0x28 else buff);
          buff = unparse_boolexp1 env shown format Outer_other (Some sub1) buff;
          buff = safe_chr buff OR_TOKEN;
          buff = unparse_boolexp1 env shown format Outer_other (Some sub2) buff
      in if outer = Outer_NOT \<or> outer = Outer_AND then safe_chr buff 0x29 else buff)"
| "unparse_boolexp1 env shown format outer (Some (BOOLEXP_NOT sub1)) buff =
     unparse_boolexp1 env shown format Outer_NOT (Some sub1) (safe_chr buff NOT_TOKEN)"
| "unparse_boolexp1 env shown format outer (Some (BOOLEXP_INDIR attr sub1)) buff =
     lock_suffix env (unparse_boolexp1 env shown format Outer_other (Some sub1) (safe_chr buff INDIR_TOKEN)) attr"
| "unparse_boolexp1 env shown format outer (Some (BOOLEXP_IS sub1)) buff =
     unparse_boolexp1 env shown format Outer_other (Some sub1) (safe_chr buff IS_TOKEN)"
| "unparse_boolexp1 env shown format outer (Some (BOOLEXP_CARRY sub1)) buff =
     unparse_boolexp1 env shown format Outer_other (Some sub1) (safe_chr buff CARRY_TOKEN)"
| "unparse_boolexp1 env shown format outer (Some (BOOLEXP_OWNER sub1)) buff =
     unparse_boolexp1 env shown format Outer_other (Some sub1) (safe_chr buff OWNER_TOKEN)"
| "unparse_boolexp1 env shown format outer (Some (BOOLEXP_CONST obj)) buff =
     unparse_const env shown format obj buff"
| "unparse_boolexp1 env shown format outer (Some (BOOLEXP_ATR attr key)) buff = unparse_attr env buff attr 0x3A key"
| "unparse_boolexp1 env shown format outer (Some (BOOLEXP_EVAL attr key)) buff = unparse_attr env buff attr 0x2F key"

definition unparse_boolexp_quiet :: "lock_env \<Rightarrow> object_view \<Rightarrow> BOOLEXP option \<Rightarrow> bytes" where
  "unparse_boolexp_quiet env shown b = unparse_boolexp1 env shown F_QUIET Outer_other b []"

definition unparse_boolexp :: "lock_env \<Rightarrow> object_view \<Rightarrow> BOOLEXP option \<Rightarrow> bytes" where
  "unparse_boolexp env shown b = unparse_boolexp1 env shown F_EXAMINE Outer_other b []"

definition unparse_boolexp_decompile :: "lock_env \<Rightarrow> object_view \<Rightarrow> BOOLEXP option \<Rightarrow> bytes" where
  "unparse_boolexp_decompile env shown b = unparse_boolexp1 env shown F_DECOMPILE Outer_other b []"

definition unparse_boolexp_function :: "lock_env \<Rightarrow> object_view \<Rightarrow> BOOLEXP option \<Rightarrow> bytes" where
  "unparse_boolexp_function env shown b = unparse_boolexp1 env shown F_FUNCTION Outer_other b []"

declare parse_boolexp_E.simps [simp del] parse_boolexp_T.simps [simp del] parse_boolexp_F.simps [simp del] parse_boolexp_L.simps [simp del]
declare eval_boolexp_atr.simps [simp del]

section \<open>Well-typed expressions\<close>

text \<open>The operand of \<open>@\<close> and \<open>$\<close> is an object, that of \<open>=\<close> and \<open>+\<close> an object or an attribute.\<close>

fun well_typed :: "BOOLEXP \<Rightarrow> bool" where
  "well_typed (BOOLEXP_AND a b) = (well_typed a \<and> well_typed b)"
| "well_typed (BOOLEXP_OR a b) = (well_typed a \<and> well_typed b)"
| "well_typed (BOOLEXP_NOT a) = well_typed a"
| "well_typed (BOOLEXP_INDIR _ a) = is_const a"
| "well_typed (BOOLEXP_OWNER a) = is_const a"
| "well_typed (BOOLEXP_IS a) = is_const_or_atr a"
| "well_typed (BOOLEXP_CARRY a) = is_const_or_atr a"
| "well_typed _ = True"

definition typed_result :: "(BOOLEXP \<times> bytes) option \<Rightarrow> bool" where
  "typed_result r \<longleftrightarrow> (case r of None \<Rightarrow> True | Some (b, _) \<Rightarrow> well_typed b)"

lemma typed_result_simps [simp]:
  "typed_result None" "typed_result (Some (b, rest)) = well_typed b"
  by (simp_all add: typed_result_def)

lemma typed_unary: "(\<And>b. allowed b \<Longrightarrow> typed_result r \<Longrightarrow> well_typed b \<Longrightarrow> well_typed (mk b)) \<Longrightarrow> typed_result r \<Longrightarrow> typed_result (unary allowed mk r)"
  by (auto simp: unary_def split: option.split)

lemma typed_map [simp]: "typed_result (map_option (\<lambda>(b, _). (b, f b)) r) = typed_result r"
  by (cases r) auto

lemma test_atr_typed: "test_atr env s = Some b \<Longrightarrow> well_typed b"
  by (auto simp: test_atr_def Let_def split: if_splits option.splits)

lemma object_ref_typed: "object_ref env s = Some b \<Longrightarrow> is_const b"
  by (auto simp: object_ref_def Let_def split: if_splits)

lemma const_typed: "is_const b \<Longrightarrow> well_typed b"
  by (cases b) auto

lemma typed_operand: "typed_result (operand env s)"
  unfolding operand_def typed_result_def Let_def
  by (auto dest: test_atr_typed object_ref_typed const_typed split: option.split)

lemma typed_binary:
  assumes "typed_result r1"
    and "\<And>b rest. r1 = Some (b, rest) \<Longrightarrow> peek (skip_whitespace rest) = tok \<Longrightarrow> typed_result (r2 (tl (skip_whitespace rest)))"
    and "\<And>a b. well_typed a \<Longrightarrow> well_typed b \<Longrightarrow> well_typed (mk a b)"
  shows "typed_result (case r1 of
        None \<Rightarrow> None
      | Some (b, rest) \<Rightarrow>
          if peek (skip_whitespace rest) = tok then
            (case r2 (tl (skip_whitespace rest)) of None \<Rightarrow> None | Some (b2, rest2) \<Rightarrow> Some (mk b b2, rest2))
          else Some (b, skip_whitespace rest))"
  using assms(1,2) by (fastforce simp: typed_result_def assms(3) split: option.splits)

lemma typed_slash:
  assumes "\<And>lockname rest a. (lockname, rest) = p \<Longrightarrow> search lockname = Some a \<Longrightarrow> typed_result (f a)"
  shows "typed_result (case p of (lockname, rest) \<Rightarrow>
     (case search lockname of None \<Rightarrow> None | Some a \<Rightarrow> map_option (\<lambda>(b, _). (b, rest)) (f a)))"
  using assms by (auto split: prod.split option.split)

lemma typed_parens:
  assumes "typed_result r"
  shows "typed_result (case r of
        None \<Rightarrow> None
      | Some (b, rest) \<Rightarrow> if peek (skip_whitespace rest) = c then Some (b, tl (skip_whitespace rest)) else None)"
  using assms by (auto split: option.split)

lemma typed_tokens:
  assumes "typed_result r"
  shows "typed_result (unary (\<lambda>_. True) BOOLEXP_NOT r)" "typed_result (unary is_const (BOOLEXP_INDIR a) r)"
    "typed_result (unary is_const BOOLEXP_OWNER r)" "typed_result (unary is_const_or_atr BOOLEXP_IS r)"
    "typed_result (unary is_const_or_atr BOOLEXP_CARRY r)"
  using assms by (auto intro: typed_unary)

lemma parse_typed:
  "typed_result (parse_boolexp_E env depth s)" "typed_result (parse_boolexp_T env depth s)"
  "typed_result (parse_boolexp_F env depth s)" "typed_result (parse_boolexp_L env depth s)"
proof (induction env depth s and env depth s and env depth s and env depth s
    rule: parse_boolexp_E_parse_boolexp_T_parse_boolexp_F_parse_boolexp_L.induct)
  case (1 env depth s)
  then show ?case unfolding parse_boolexp_E.simps [of env depth s] by (intro typed_binary) auto
next
  case (2 env depth s)
  then show ?case unfolding parse_boolexp_T.simps [of env depth s] by (intro typed_binary) auto
next
  case (3 env depth s)
  have slash: "typed_result (case lock_name (drop (objlen + 1) (tl (skip_whitespace s))) of (lockname, rest) \<Rightarrow>
      (case search_lock env lockname of None \<Rightarrow> None
       | Some a \<Rightarrow> map_option (\<lambda>(b, _). (b, rest)) (unary is_const (BOOLEXP_INDIR a)
           (parse_boolexp_L env (depth + 1) (take (min objlen (LBUF_SIZE - 1)) (tl (skip_whitespace s)))))))"
    if "\<not> LOCK_PARSE_MAX_DEPTH < depth + 1" "peek (skip_whitespace s) \<noteq> NOT_TOKEN" "peek (skip_whitespace s) = INDIR_TOKEN"
      "find_slash 0 (tl (skip_whitespace s)) = Some objlen" for objlen
    by (rule typed_slash, rule typed_tokens, rule 3(3) [OF that]) simp_all
  show ?case unfolding parse_boolexp_F.simps [of env depth s]
    using 3(1,2,4-7) slash by (simp add: typed_tokens split: option.split)
next
  case (4 env depth s)
  then show ?case unfolding parse_boolexp_L.simps [of env depth s] using typed_parens typed_operand by simp
qed

section \<open>What the printer writes\<close>

definition attr_text :: "lock_env \<Rightarrow> int \<Rightarrow> bytes" where
  "attr_text env attr =
     (case atr_num env attr of
        Some (number, name) \<Rightarrow> if number \<noteq> 0 then name else mux_ltoa (word_of_int attr)
      | None \<Rightarrow> mux_ltoa (word_of_int attr))"

definition suffix_text :: "lock_env \<Rightarrow> int \<Rightarrow> bytes" where
  "suffix_text env attr =
     (if attr = A_LOCK then []
      else case find (\<lambda>nt. snd nt = attr) (lock_sw env) of None \<Rightarrow> [] | Some nt \<Rightarrow> 0x2F # fst nt)"

definition parens :: "bool \<Rightarrow> bytes \<Rightarrow> bytes" where
  "parens c s = (if c then 0x28 # s @ [0x29] else s)"

fun lock_text :: "lock_env \<Rightarrow> outer_type \<Rightarrow> BOOLEXP \<Rightarrow> bytes" where
  "lock_text env outer (BOOLEXP_AND a b) =
     parens (outer = Outer_NOT) (lock_text env Outer_AND a @ AND_TOKEN # lock_text env Outer_AND b)"
| "lock_text env outer (BOOLEXP_OR a b) =
     parens (outer = Outer_NOT \<or> outer = Outer_AND) (lock_text env Outer_other a @ OR_TOKEN # lock_text env Outer_other b)"
| "lock_text env outer (BOOLEXP_NOT a) = NOT_TOKEN # lock_text env Outer_NOT a"
| "lock_text env outer (BOOLEXP_INDIR attr a) = INDIR_TOKEN # lock_text env Outer_other a @ suffix_text env attr"
| "lock_text env outer (BOOLEXP_IS a) = IS_TOKEN # lock_text env Outer_other a"
| "lock_text env outer (BOOLEXP_CARRY a) = CARRY_TOKEN # lock_text env Outer_other a"
| "lock_text env outer (BOOLEXP_OWNER a) = OWNER_TOKEN # lock_text env Outer_other a"
| "lock_text env outer (BOOLEXP_CONST obj) = unparse_object_quiet obj"
| "lock_text env outer (BOOLEXP_ATR attr key) = attr_text env attr @ 0x3A # key"
| "lock_text env outer (BOOLEXP_EVAL attr key) = attr_text env attr @ 0x2F # key"

text \<open>Text that can stand in a lock: it does not end in the middle of a character or in a space, and
  has no byte that ends an operand.\<close>

definition whole :: "bytes \<Rightarrow> bool" where
  "whole s \<longleftrightarrow> TrimPartialSequence (length s) s = length s"

definition plain_text :: "bytes \<Rightarrow> bool" where
  "plain_text s \<longleftrightarrow> whole s \<and> list_all (\<lambda>c. \<not> ends_operand c) s \<and> (s = [] \<or> \<not> mux_isspace (last s))"

definition plain_name :: "bytes \<Rightarrow> bool" where
  "plain_name s \<longleftrightarrow> s \<noteq> [] \<and> plain_text s \<and> 0x3A \<notin> set s \<and> 0x2F \<notin> set s \<and> \<not> mux_isspace (hd s) \<and>
     hd s \<notin> {0x28, NOT_TOKEN, INDIR_TOKEN, IS_TOKEN, CARRY_TOKEN, OWNER_TOKEN}"

definition good_attr :: "lock_env \<Rightarrow> int \<Rightarrow> bool" where
  "good_attr env attr \<longleftrightarrow> plain_name (attr_text env attr) \<and> attr_number env (attr_text env attr) = Some attr"

definition good_suffix :: "lock_env \<Rightarrow> int \<Rightarrow> bool" where
  "good_suffix env attr \<longleftrightarrow> attr = A_LOCK \<or>
     (case find (\<lambda>nt. snd nt = attr) (lock_sw env) of
        None \<Rightarrow> False
      | Some nt \<Rightarrow> plain_name (fst nt) \<and> length (fst nt) < SBUF_SIZE \<and> search_lock env (fst nt) = Some attr)"

definition good_object :: "lock_env \<Rightarrow> int \<Rightarrow> bool" where
  "good_object env n \<longleftrightarrow> 0 \<le> n \<and> n < 2147483648 \<and> (bStandAlone env \<or> Good_dbref env n)"

text \<open>Locks whose objects exist and whose attributes and locks have names that can be read back.\<close>

fun good_lock :: "lock_env \<Rightarrow> BOOLEXP \<Rightarrow> bool" where
  "good_lock env (BOOLEXP_AND a b) = (good_lock env a \<and> good_lock env b)"
| "good_lock env (BOOLEXP_OR a b) = (good_lock env a \<and> good_lock env b)"
| "good_lock env (BOOLEXP_NOT a) = good_lock env a"
| "good_lock env (BOOLEXP_INDIR attr a) = (is_const a \<and> good_lock env a \<and> good_suffix env attr)"
| "good_lock env (BOOLEXP_OWNER a) = (is_const a \<and> good_lock env a)"
| "good_lock env (BOOLEXP_IS a) = (is_const_or_atr a \<and> good_lock env a)"
| "good_lock env (BOOLEXP_CARRY a) = (is_const_or_atr a \<and> good_lock env a)"
| "good_lock env (BOOLEXP_CONST n) = good_object env n"
| "good_lock env (BOOLEXP_ATR attr key) = (good_attr env attr \<and> plain_text key)"
| "good_lock env (BOOLEXP_EVAL attr key) = (good_attr env attr \<and> plain_text key)"

definition sequence_at :: "bytes \<Rightarrow> nat \<Rightarrow> nat \<Rightarrow> bool" where
  "sequence_at p i n \<longleftrightarrow> (let k = utf8_FirstByte (p ! i) in
     1 \<le> k \<and> k < UTF8_CONTINUE \<and> i + k = n \<and> (\<forall>j \<in> {1 ..< k}. utf8_FirstByte (p ! (i + j)) = UTF8_CONTINUE) \<and>
     utf8_is_valid_scalar (utf8_decode_raw (drop i p) k) k)"

lemma Trim_unfold:
  "0 < n \<Longrightarrow> TrimPartialSequence n p =
     (if sequence_at p (sequence_start (n - 1) p) n then n else TrimPartialSequence (sequence_start (n - 1) p) p)"
  by (subst TrimPartialSequence.simps) (auto simp: Let_def sequence_at_def list_all_iff)

lemma Trim_le: "TrimPartialSequence n p \<le> n"
proof (induction n rule: less_induct)
  case (less n)
  show ?case
  proof (cases "n = 0")
    case False
    then have "sequence_start (n - 1) p < n" using sequence_start_le [of "n - 1" p] by linarith
    then show ?thesis using less [of "sequence_start (n - 1) p"] False Trim_unfold [of n p] by simp
  qed (simp add: TrimPartialSequence.simps)
qed

lemma whole_sequence: "whole s \<longleftrightarrow> s = [] \<or> sequence_at s (sequence_start (length s - 1) s) (length s)"
proof (cases "s = []")
  case True
  then show ?thesis by (simp add: whole_def TrimPartialSequence.simps)
next
  case False
  have "sequence_start (length s - 1) s < length s" using sequence_start_le [of "length s - 1" s] False by (simp add: le_less_trans)
  then have "TrimPartialSequence (sequence_start (length s - 1) s) s \<noteq> length s"
    using Trim_le [of "sequence_start (length s - 1) s" s] by linarith
  then show ?thesis using False Trim_unfold [of "length s" s] by (simp add: whole_def)
qed

lemma sequence_start_append:
  assumes "utf8_FirstByte (s ! sequence_start i s) \<noteq> UTF8_CONTINUE" "i < length s"
  shows "sequence_start (length b + i) (b @ s) = length b + sequence_start i s"
  using assms
proof (induction i)
  case 0
  then show ?case by (cases b) (auto simp: nth_append)
qed (auto simp: nth_append)

lemma sequence_at_append:
  assumes "sequence_at s i n"
  shows "sequence_at (b @ s) (length b + i) (length b + n)"
  using assms by (auto simp: sequence_at_def Let_def nth_append add.assoc)

lemma whole_append:
  assumes "whole s" "s \<noteq> []"
  shows "whole (b @ s)"
proof -
  let ?i = "sequence_start (length s - 1) s"
  have s: "sequence_at s ?i (length s)" using assms whole_sequence by blast
  then have "utf8_FirstByte (s ! ?i) \<noteq> UTF8_CONTINUE" by (simp add: sequence_at_def Let_def)
  then have "sequence_start (length (b @ s) - 1) (b @ s) = length b + ?i"
    using sequence_start_append [of s "length s - 1" b] assms(2) by (cases s) auto
  then show ?thesis using sequence_at_append [OF s, of b] by (simp add: whole_sequence)
qed

lemma whole_byte:
  assumes "c < 0x80"
  shows "whole (b @ [c])"
proof (rule whole_append)
  have "unat (ucast c :: 32 word) = unat c" using unsigned_less [of c, where ?'a = nat] by (simp add: unsigned_ucast_eq take_bit_nat_eq_self_iff)
  then have "unat (ucast c :: 32 word) < 0x80" using assms by (simp add: word_less_nat_alt)
  then have "\<not> (0xD800 :: 32 word) \<le> ucast c" "\<not> (0x10FFFF :: 32 word) < ucast c"
    by (simp_all add: word_less_nat_alt word_le_nat_alt)
  then show "whole [c]" using assms
    by (simp add: whole_sequence sequence_at_def utf8_FirstByte_def Let_def
        utf8_is_valid_scalar_def utf8_decode_raw_def UTF8_CONTINUE_def)
qed simp

lemma safe_chr_append: "length buff + 1 \<le> LBUF_SIZE - 1 \<Longrightarrow> safe_chr buff c = buff @ [c]"
  by (simp add: safe_chr_def)

lemma safe_str_append:
  assumes "whole (buff @ src)" "0 \<notin> set src" "length buff + length src \<le> LBUF_SIZE - 1"
  shows "safe_str buff src = buff @ src"
proof -
  have w: "takeWhile (\<lambda>c. c \<noteq> 0) src = src" using assms(2) by (intro takeWhile_eq_all_conv [THEN iffD2]) auto
  have t: "take (LBUF_SIZE - 1 - length buff) src = src" using assms(3) by simp
  show ?thesis using assms(1) unfolding safe_str_def Let_def whole_def w t by simp
qed

lemma plain_text_nonzero: "plain_text s \<Longrightarrow> 0 \<notin> set s"
  by (auto simp: plain_text_def list_all_iff ends_operand_def)

lemma plain_name_text: "plain_name s \<Longrightarrow> plain_text s \<and> s \<noteq> []"
  by (simp add: plain_name_def)

lemma plain_name_nonzero: "plain_name s \<Longrightarrow> 0 \<notin> set s"
  by (simp add: plain_name_def plain_text_nonzero)

lemma safe_str_plain:
  assumes "plain_text src" "src \<noteq> [] \<or> whole buff" "length buff + length src \<le> LBUF_SIZE - 1"
  shows "safe_str buff src = buff @ src"
proof (rule safe_str_append)
  show "whole (buff @ src)" using assms whole_append [of src buff] by (cases "src = []") (auto simp: plain_text_def)
qed (use assms plain_text_nonzero in auto)

lemma ltoa_digits:
  assumes "0 \<le> n" "n < 2147483648"
  shows "mux_ltoa (word_of_int n) = map digit_byte (digits 10 (nat n))"
proof -
  have l: "mux_ltoa v = mux_i64toa v" for v unfolding mux_ltoa_def mux_i64toa_def printers_digits ..
  have u: "unat (word_of_int n :: 64 word) = nat n" using assms by (simp add: unat_eq_nat_uint uint_word_of_int)
  have "sint (word_of_int n :: 64 word) = n"
    using assms by (simp add: sint_sbintrunc' signed_take_bit_eq_if_positive bit_iff_odd div_pos_pos_trivial take_bit_int_eq_self)
  then show ?thesis using assms by (simp add: l i64toa_numeral u word_sless_alt sign_bytes_def)
qed

lemma digit_bytes: "c \<in> set (map digit_byte (digits 10 n)) \<Longrightarrow> mux_isdigit c"
  using digits_less [of 10 _ n] by (auto simp: digit_byte_props)

definition object_digits :: "int \<Rightarrow> bytes" where
  "object_digits n = map digit_byte (digits 10 (nat n))"

lemma object_text: "good_object env n \<Longrightarrow> unparse_object_quiet n = [0x28, 0x23] @ object_digits n @ [0x29]"
  by (simp add: unparse_object_quiet_def good_object_def ltoa_digits ascii_def object_digits_def)

lemma object_digits_byte: "c \<in> set (object_digits n) \<Longrightarrow> mux_isdigit c"
  unfolding object_digits_def by (rule digit_bytes)

lemma unparse_attr_text:
  assumes "good_attr env attr" "plain_text key" "c < 0x80"
    and "length buff + length (attr_text env attr @ c # key) \<le> LBUF_SIZE - 1"
  shows "unparse_attr env buff attr c key = buff @ attr_text env attr @ c # key"
proof -
  have n: "plain_text (attr_text env attr)" "attr_text env attr \<noteq> []"
    using assms(1) by (auto simp: good_attr_def plain_name_def)
  have "(case atr_num env attr of
          Some (number, name) \<Rightarrow> if number \<noteq> 0 then safe_str buff name else safe_str buff (mux_ltoa (word_of_int attr))
        | None \<Rightarrow> safe_str buff (mux_ltoa (word_of_int attr))) = safe_str buff (attr_text env attr)"
    by (simp add: attr_text_def split: option.split)
  also have "\<dots> = buff @ attr_text env attr" using n assms(4) by (intro safe_str_plain) auto
  finally have "unparse_attr env buff attr c key = safe_str (safe_chr (buff @ attr_text env attr) c) key"
    by (simp only: unparse_attr_def Let_def)
  also have "safe_chr (buff @ attr_text env attr) c = (buff @ attr_text env attr) @ [c]"
    using assms(4) by (intro safe_chr_append) simp
  also have "safe_str \<dots> key = \<dots> @ key"
    using assms whole_byte [OF assms(3), of "buff @ attr_text env attr"] by (intro safe_str_plain) auto
  finally show ?thesis by simp
qed

lemma lock_suffix_text:
  assumes "good_suffix env attr" "length buff + length (suffix_text env attr) \<le> LBUF_SIZE - 1"
  shows "lock_suffix env buff attr = buff @ suffix_text env attr"
proof (cases "attr = A_LOCK")
  case False
  then obtain name b where f: "find (\<lambda>nt. snd nt = attr) (lock_sw env) = Some (name, b)" and p: "plain_name name"
    using assms(1) by (auto simp: good_suffix_def split: option.splits)
  have l: "length buff + 1 + length name \<le> LBUF_SIZE - 1" using assms(2) f False by (simp add: suffix_text_def)
  have "lock_suffix env buff attr = safe_str (safe_chr buff 0x2F) name" using f False by (simp add: lock_suffix_def)
  also have "safe_chr buff 0x2F = buff @ [0x2F]" using l by (intro safe_chr_append) simp
  also have "safe_str \<dots> name = \<dots> @ name"
    using l plain_name_text [OF p] by (intro safe_str_plain) auto
  finally show ?thesis using f False by (simp add: suffix_text_def)
qed (simp add: lock_suffix_def suffix_text_def)

lemma unparse_text:
  assumes "good_lock env b" "length buff + length (lock_text env outer b) \<le> LBUF_SIZE - 1"
  shows "unparse_boolexp1 env shown F_QUIET outer (Some b) buff = buff @ lock_text env outer b"
  using assms
proof (induction b arbitrary: outer buff)
  case (BOOLEXP_CONST n)
  have "whole (buff @ unparse_object_quiet n)"
    using whole_byte [where c = "0x29" and b = "buff @ [0x28, 0x23] @ object_digits n"] BOOLEXP_CONST object_text [of env n] by simp
  moreover have "0 \<notin> set (unparse_object_quiet n)"
    using BOOLEXP_CONST object_text [of env n] object_digits_byte [of 0 n] by auto
  ultimately show ?case using BOOLEXP_CONST by (simp add: unparse_const_def safe_str_append)
next
  case (BOOLEXP_INDIR attr a)
  then show ?case by (simp add: safe_chr_append lock_suffix_text)
qed (auto simp: safe_chr_append unparse_attr_text Let_def parens_def)

section \<open>What the parser reads back\<close>

text \<open>Chains of \<open>&\<close> and of \<open>|\<close> come back associated to the right.\<close>

fun mk_and :: "BOOLEXP \<Rightarrow> BOOLEXP \<Rightarrow> BOOLEXP" where
  "mk_and (BOOLEXP_AND a b) c = BOOLEXP_AND a (mk_and b c)"
| "mk_and a c = BOOLEXP_AND a c"

fun mk_or :: "BOOLEXP \<Rightarrow> BOOLEXP \<Rightarrow> BOOLEXP" where
  "mk_or (BOOLEXP_OR a b) c = BOOLEXP_OR a (mk_or b c)"
| "mk_or a c = BOOLEXP_OR a c"

fun right_assoc :: "BOOLEXP \<Rightarrow> BOOLEXP" where
  "right_assoc (BOOLEXP_AND a b) = mk_and (right_assoc a) (right_assoc b)"
| "right_assoc (BOOLEXP_OR a b) = mk_or (right_assoc a) (right_assoc b)"
| "right_assoc (BOOLEXP_NOT a) = BOOLEXP_NOT (right_assoc a)"
| "right_assoc b = b"

text \<open>How many nested calls of \<open>parse_boolexp_F\<close> the text of a lock needs.\<close>

fun lock_depth :: "outer_type \<Rightarrow> BOOLEXP \<Rightarrow> nat" where
  "lock_depth outer (BOOLEXP_AND a b) =
     (if outer = Outer_NOT then 1 else 0) + max (lock_depth Outer_AND a) (lock_depth Outer_AND b)"
| "lock_depth outer (BOOLEXP_OR a b) =
     (if outer = Outer_NOT \<or> outer = Outer_AND then 1 else 0) + max (lock_depth Outer_other a) (lock_depth Outer_other b)"
| "lock_depth outer (BOOLEXP_NOT a) = 1 + lock_depth Outer_NOT a"
| "lock_depth outer (BOOLEXP_ATR _ _) = 1"
| "lock_depth outer (BOOLEXP_EVAL _ _) = 1"
| "lock_depth outer _ = 2"

definition internal :: "lock_env \<Rightarrow> bool" where
  "internal env \<longleftrightarrow> bStandAlone env \<or> parsing_internal env"

definition stops :: "bytes \<Rightarrow> bool" where
  "stops r \<longleftrightarrow> ends_operand (peek r)"

fun is_and :: "BOOLEXP \<Rightarrow> bool" where
  "is_and (BOOLEXP_AND _ _) = True"
| "is_and _ = False"

fun is_or :: "BOOLEXP \<Rightarrow> bool" where
  "is_or (BOOLEXP_OR _ _) = True"
| "is_or _ = False"

lemma mk_and_assoc: "mk_and (mk_and a b) c = mk_and a (mk_and b c)"
  by (induction a c rule: mk_and.induct) auto

lemma mk_or_assoc: "mk_or (mk_or a b) c = mk_or a (mk_or b c)"
  by (induction a c rule: mk_or.induct) auto

lemma mk_simple: "\<not> is_and a \<Longrightarrow> mk_and a c = BOOLEXP_AND a c" "\<not> is_or a \<Longrightarrow> mk_or a c = BOOLEXP_OR a c"
  by (cases a; simp)+

lemma is_mk: "is_and (mk_and a b)" "is_or (mk_or a b)" "\<not> is_or (mk_and a b)" "\<not> is_and (mk_or a b)"
  by (cases a; simp)+

lemma is_right_assoc: "is_and (right_assoc b) = is_and b" "is_or (right_assoc b) = is_or b"
  by (cases b; simp add: is_mk)+

lemma stops_skip: "stops r \<Longrightarrow> skip_whitespace r = r"
  by (cases r) (auto simp: stops_def skip_whitespace_def ends_operand_def token_defs mux_isspace_def)

lemma stops_Cons [simp]: "stops (0x29 # r)" "stops (AND_TOKEN # r)" "stops (OR_TOKEN # r)"
  by (simp_all add: stops_def ends_operand_def)

lemma skip_Cons: "\<not> mux_isspace c \<Longrightarrow> skip_whitespace (c # s) = c # s"
  by (simp add: skip_whitespace_def)

lemma takeWhile_operand:
  "\<forall>c \<in> set s. \<not> ends_operand c \<Longrightarrow> stops r \<Longrightarrow> takeWhile (\<lambda>c. \<not> ends_operand c) (s @ r) = s"
  by (cases r) (auto simp: stops_def)

lemma strip_trailing_id: "s \<noteq> [] \<Longrightarrow> \<not> mux_isspace (last s) \<Longrightarrow> strip_trailing s = s"
  by (cases s rule: rev_cases) (auto simp: strip_trailing_def)

lemma operand_text:
  assumes "\<forall>c \<in> set s. \<not> ends_operand c" "stops r" "s \<noteq> []" "\<not> mux_isspace (last s)" "length s \<le> LBUF_SIZE"
  shows "operand env (s @ r) = (case test_atr env s of Some b \<Rightarrow> Some (b, r) | None \<Rightarrow> map_option (\<lambda>b. (b, r)) (object_ref env s))"
proof -
  have t: "takeWhile (\<lambda>c. \<not> ends_operand c) (s @ r) = s" "take LBUF_SIZE s = s"
    using assms by (simp_all only: takeWhile_operand take_all)
  have d: "drop (length s) (s @ r) = r" by simp
  show ?thesis unfolding operand_def t strip_trailing_id [OF assms(3,4)] Let_def d ..
qed

lemma parse_L_operand:
  assumes "\<not> mux_isspace c" "c \<noteq> 0x28"
  shows "parse_boolexp_L env d (c # s) = operand env (c # s)"
  using assms by (simp add: parse_boolexp_L.simps skip_Cons)

lemma parse_F_operand:
  assumes "d + 1 \<le> LOCK_PARSE_MAX_DEPTH" "\<not> mux_isspace c" "c \<notin> {NOT_TOKEN, INDIR_TOKEN, IS_TOKEN, CARRY_TOKEN, OWNER_TOKEN}"
  shows "parse_boolexp_F env d (c # s) = parse_boolexp_L env (d + 1) (c # s)"
  using assms by (simp add: parse_boolexp_F.simps [of env d] skip_Cons)

lemma parse_T_last:
  assumes "parse_boolexp_F env d s = Some (b, r)" "stops r" "peek r \<noteq> AND_TOKEN"
  shows "parse_boolexp_T env d s = Some (b, r)"
  using assms by (simp add: parse_boolexp_T.simps stops_skip)

lemma parse_E_last:
  assumes "parse_boolexp_T env d s = Some (b, r)" "stops r" "peek r \<noteq> OR_TOKEN"
  shows "parse_boolexp_E env d s = Some (b, r)"
  using assms by (simp add: parse_boolexp_E.simps stops_skip)

lemma parse_L_parens:
  assumes "parse_boolexp_E env d (s @ 0x29 # r) = Some (b, 0x29 # r)"
  shows "parse_boolexp_L env d (0x28 # s @ 0x29 # r) = Some (b, r)"
  using assms by (simp add: parse_boolexp_L.simps [of env d "0x28 # _"] skip_Cons mux_isspace_def)

lemma object_digits_read:
  assumes "good_object env n"
  shows "to_int (mux_atoi64 (object_digits n)) = n"
proof -
  have d: "\<forall>d \<in> set (digits 10 (nat n)). d < 10" using digits_less [of 10] by auto
  have "atoi64_word (object_digits n) = of_int n"
    using atoi64_word_numeral [of "[]" None "digits 10 (nat n)" "[]"] d assms
    by (simp add: object_digits_def is_sign_def sign_bytes_def numeral_val_def good_object_def)
  moreover have "sint (word_of_int n :: 64 word) = n" using assms
    by (simp add: good_object_def sint_sbintrunc' signed_take_bit_eq_if_positive bit_iff_odd div_pos_pos_trivial take_bit_int_eq_self)
  ultimately show ?thesis using assms by (simp add: mux_atoi64_def to_int_def good_object_def)
qed

lemma object_ref_text:
  assumes "good_object env n" "internal env"
  shows "object_ref env (0x23 # object_digits n) = Some (BOOLEXP_CONST n)"
  using assms object_digits_read [OF assms(1)]
  by (auto simp: object_ref_def internal_def good_object_def Let_def NOTHING_def AMBIGUOUS_def)

lemma test_atr_none:
  assumes "0x3A \<notin> set s" "0x2F \<notin> set s"
  shows "test_atr env s = None"
proof -
  have "takeWhile (\<lambda>c. c \<noteq> 0 \<and> c \<noteq> 0x3A \<and> c \<noteq> 0x2F) t = takeWhile (\<lambda>c. c \<noteq> 0) t" if "set t \<subseteq> set s" for t
    using that assms by (intro takeWhile_cong) auto
  moreover have "peek (drop (length (takeWhile (\<lambda>c. c \<noteq> 0) t)) t) = 0" for t :: bytes
    by (induction t) auto
  ultimately show ?thesis using set_take_subset [of "LBUF_SIZE - 1" s] by (simp add: test_atr_def Let_def)
qed

lemma test_atr_text:
  assumes "plain_name name" "c \<in> {0x3A, 0x2F}" "length (name @ c # key) \<le> LBUF_SIZE - 1"
  shows "test_atr env (name @ c # key) =
    map_option (\<lambda>anum. (if c = 0x2F then BOOLEXP_EVAL else BOOLEXP_ATR) anum key) (attr_number env name)"
proof -
  have "\<forall>x \<in> set name. x \<noteq> 0 \<and> x \<noteq> 0x3A \<and> x \<noteq> 0x2F"
    using assms(1) plain_text_nonzero [of name] by (auto simp: plain_name_def)
  then have w: "takeWhile (\<lambda>c. c \<noteq> 0 \<and> c \<noteq> 0x3A \<and> c \<noteq> 0x2F) (name @ c # key) = name"
    using assms(2) by (subst takeWhile_append2) auto
  have t: "take (LBUF_SIZE - 1) (name @ c # key) = name @ c # key" using assms(3) by simp
  show ?thesis using assms(2) unfolding test_atr_def t w Let_def
    by (auto split: option.split)
qed

lemma parse_L_attr:
  assumes "good_attr env attr" "plain_text key" "c \<in> {0x3A, 0x2F}" "stops r"
    and "length (attr_text env attr @ c # key) \<le> LBUF_SIZE - 1"
  shows "parse_boolexp_L env d ((attr_text env attr @ c # key) @ r) =
    Some ((if c = 0x2F then BOOLEXP_EVAL else BOOLEXP_ATR) attr key, r)"
proof -
  let ?name = "attr_text env attr" and ?s = "attr_text env attr @ c # key"
  have n: "plain_name ?name" "attr_number env ?name = Some attr" using assms(1) by (auto simp: good_attr_def)
  obtain h t where h: "?name = h # t" "\<not> mux_isspace h" "h \<noteq> 0x28"
    using n(1) by (cases ?name) (auto simp: plain_name_def)
  have c: "\<not> ends_operand c" "\<not> mux_isspace c" using assms(3) by (auto simp: ends_operand_def token_defs mux_isspace_def)
  have s: "\<forall>x \<in> set ?s. \<not> ends_operand x" "?s \<noteq> []" "\<not> mux_isspace (last ?s)"
    using n(1) assms(2) c by (auto simp: plain_name_def plain_text_def list_all_iff)
  have "parse_boolexp_L env d (?s @ r) = operand env (?s @ r)" using h by (simp add: parse_L_operand)
  also have "\<dots> = Some ((if c = 0x2F then BOOLEXP_EVAL else BOOLEXP_ATR) attr key, r)"
    using operand_text [OF s(1) assms(4) s(2,3)] test_atr_text [OF n(1) assms(3,5)] n(2) assms(5) by simp
  finally show ?thesis .
qed

lemma digit_plain: "mux_isdigit x \<Longrightarrow> \<not> ends_operand x \<and> \<not> mux_isspace x \<and> x \<noteq> 0x3A \<and> x \<noteq> 0x2F \<and> x \<noteq> 0x28"
  by (auto simp: ends_operand_def token_defs mux_isdigit_def dest: space_not_digit)

lemma parse_L_object:
  assumes "good_object env n" "internal env" "d + 1 \<le> LOCK_PARSE_MAX_DEPTH" "length (unparse_object_quiet n) \<le> LBUF_SIZE - 1"
  shows "parse_boolexp_L env d (unparse_object_quiet n @ r) = Some (BOOLEXP_CONST n, r)"
proof -
  let ?s = "0x23 # object_digits n"
  have c: "\<forall>x \<in> set ?s. \<not> ends_operand x \<and> \<not> mux_isspace x \<and> x \<noteq> 0x3A \<and> x \<noteq> 0x2F"
    using object_digits_byte [of _ n] digit_plain by (auto simp: ends_operand_def token_defs mux_isspace_def)
  have "operand env (?s @ 0x29 # r) = Some (BOOLEXP_CONST n, 0x29 # r)"
    using operand_text [of ?s "0x29 # r" env] c test_atr_none [of ?s env] object_ref_text [OF assms(1,2)] assms(4)
      object_text [OF assms(1)] last_in_set [of ?s] by fastforce
  then have "parse_boolexp_F env d (?s @ 0x29 # r) = Some (BOOLEXP_CONST n, 0x29 # r)"
    using assms(3) parse_F_operand [of d "0x23" env] parse_L_operand [of "0x23" env "d + 1"]
    by (simp add: token_defs mux_isspace_def)
  then have "parse_boolexp_E env d (?s @ 0x29 # r) = Some (BOOLEXP_CONST n, 0x29 # r)"
    by (intro parse_E_last parse_T_last) (simp_all add: token_defs)
  then show ?thesis using parse_L_parens [of env d ?s r] object_text [OF assms(1)] by simp
qed

definition reads_F :: "lock_env \<Rightarrow> nat \<Rightarrow> BOOLEXP \<Rightarrow> bool" where
  "reads_F env d b \<longleftrightarrow> (\<forall>r. stops r \<longrightarrow> parse_boolexp_F env d (lock_text env Outer_NOT b @ r) = Some (right_assoc b, r))"

definition reads_T :: "lock_env \<Rightarrow> nat \<Rightarrow> BOOLEXP \<Rightarrow> bool" where
  "reads_T env d b \<longleftrightarrow> (\<forall>r. stops r \<longrightarrow> parse_boolexp_T env d (lock_text env Outer_AND b @ r) =
     (if peek r = AND_TOKEN then
        (case parse_boolexp_T env d (tl r) of None \<Rightarrow> None | Some (c, r2) \<Rightarrow> Some (mk_and (right_assoc b) c, r2))
      else Some (right_assoc b, r)))"

definition reads_E :: "lock_env \<Rightarrow> nat \<Rightarrow> BOOLEXP \<Rightarrow> bool" where
  "reads_E env d b \<longleftrightarrow> (\<forall>r. stops r \<longrightarrow> peek r \<noteq> AND_TOKEN \<longrightarrow> parse_boolexp_E env d (lock_text env Outer_other b @ r) =
     (if peek r = OR_TOKEN then
        (case parse_boolexp_E env d (tl r) of None \<Rightarrow> None | Some (c, r2) \<Rightarrow> Some (mk_or (right_assoc b) c, r2))
      else Some (right_assoc b, r)))"

lemma outer_text:
  "\<not> is_and b \<Longrightarrow> lock_text env Outer_AND b = lock_text env Outer_NOT b"
  "\<not> is_or b \<Longrightarrow> lock_text env Outer_other b = lock_text env Outer_AND b"
  "is_and b \<or> is_or b \<Longrightarrow> lock_text env Outer_NOT b = 0x28 # lock_text env Outer_other b @ [0x29]"
  by (cases b; simp add: parens_def)+

lemma outer_depth:
  "\<not> is_and b \<Longrightarrow> lock_depth Outer_AND b = lock_depth Outer_NOT b"
  "\<not> is_or b \<Longrightarrow> lock_depth Outer_other b = lock_depth Outer_AND b"
  "is_and b \<or> is_or b \<Longrightarrow> lock_depth Outer_NOT b = 1 + lock_depth Outer_other b"
  by (cases b; simp)+

lemma reads_T_F:
  assumes "\<not> is_and b" "reads_F env d b"
  shows "reads_T env d b"
  using assms unfolding reads_T_def reads_F_def
  by (auto simp: outer_text parse_boolexp_T.simps [of env d "_ @ _"] stops_skip mk_simple is_right_assoc split: option.split)

lemma reads_E_T:
  assumes "\<not> is_or b" "reads_T env d b"
  shows "reads_E env d b"
  using assms unfolding reads_E_def reads_T_def
  by (auto simp: outer_text parse_boolexp_E.simps [of env d "_ @ _"] stops_skip mk_simple is_right_assoc split: option.split)

lemma tokens_distinct: "AND_TOKEN \<noteq> OR_TOKEN" "OR_TOKEN \<noteq> AND_TOKEN" "0x29 \<noteq> AND_TOKEN" "0x29 \<noteq> OR_TOKEN"
  by (simp_all add: token_defs)

lemma reads_F_E:
  assumes "is_and b \<or> is_or b" "d + 1 \<le> LOCK_PARSE_MAX_DEPTH" "reads_E env (d + 1) b"
  shows "reads_F env d b"
proof -
  have "parse_boolexp_F env d (lock_text env Outer_NOT b @ r) = Some (right_assoc b, r)" for r
  proof -
    have "parse_boolexp_E env (d + 1) (lock_text env Outer_other b @ 0x29 # r) = Some (right_assoc b, 0x29 # r)"
      using assms(3) by (simp add: reads_E_def tokens_distinct)
    then show ?thesis using parse_L_parens [of env "d + 1"] parse_F_operand [OF assms(2), of "0x28"]
      by (simp add: outer_text(3) [OF assms(1)] token_defs mux_isspace_def)
  qed
  then show ?thesis by (simp add: reads_F_def)
qed

lemma reads_T_AND:
  assumes "reads_T env d a" "reads_T env d b"
  shows "reads_T env d (BOOLEXP_AND a b)"
  using assms unfolding reads_T_def
  by (auto simp: parens_def mk_and_assoc split: option.split)

lemma reads_E_OR:
  assumes "reads_E env d a" "reads_E env d b"
  shows "reads_E env d (BOOLEXP_OR a b)"
  using assms unfolding reads_E_def
  by (auto simp: parens_def mk_or_assoc tokens_distinct split: option.split)

lemma find_slash_stops: "stops r \<Longrightarrow> find_slash 0 r = None"
  by (cases r) (auto simp: stops_def ends_operand_def token_defs)

lemma find_slash_inside:
  "\<forall>c \<in> set s. c \<noteq> 0 \<and> c \<noteq> 0x28 \<and> c \<noteq> 0x29 \<Longrightarrow>
   find_slash (Suc d) (s @ r) = map_option (\<lambda>k. length s + k) (find_slash (Suc d) r)"
  by (induction s; cases "find_slash (Suc d) r") auto

lemma find_slash_object:
  assumes "good_object env n"
  shows "find_slash 0 (unparse_object_quiet n @ r) = map_option (\<lambda>k. length (unparse_object_quiet n) + k) (find_slash 0 r)"
proof -
  have "\<forall>c \<in> set (0x23 # object_digits n). c \<noteq> 0 \<and> c \<noteq> 0x28 \<and> c \<noteq> 0x29"
    using object_digits_byte [of _ n] digit_plain by (auto simp: ends_operand_def)
  note inside = find_slash_inside [OF this, of 0 "0x29 # r"]
  show ?thesis unfolding object_text [OF assms]
    using inside by (simp add: option.map_comp comp_def token_defs del: find_slash.simps(2) add: find_slash.simps(2) [of _ 40] find_slash.simps(2) [of _ 41])
qed

lemma lock_name_text:
  assumes "plain_name name" "length name < SBUF_SIZE" "stops r"
  shows "lock_name (name @ r) = (name, r)"
proof -
  have "takeWhile (\<lambda>c. \<not> ends_operand c) (name @ r) = name"
    using assms by (intro takeWhile_operand) (auto simp: plain_name_def plain_text_def list_all_iff)
  then show ?thesis using assms strip_trailing_id [of name]
    by (auto simp: lock_name_def Let_def plain_name_def plain_text_def)
qed

lemma reads_F_INDIR:
  assumes "good_object env n" "good_suffix env attr" "internal env" "d + 2 \<le> LOCK_PARSE_MAX_DEPTH"
    and "length (unparse_object_quiet n) \<le> LBUF_SIZE - 1"
  shows "reads_F env d (BOOLEXP_INDIR attr (BOOLEXP_CONST n))"
proof -
  let ?o = "unparse_object_quiet n"
  have L: "parse_boolexp_L env (Suc d) (?o @ s) = Some (BOOLEXP_CONST n, s)" for s
    using parse_L_object [OF assms(1,3) _ assms(5)] assms(4) by simp
  have F: "parse_boolexp_F env d (INDIR_TOKEN # ?o @ suffix_text env attr @ r) = Some (BOOLEXP_INDIR attr (BOOLEXP_CONST n), r)"
    if r: "stops r" for r
  proof (cases "attr = A_LOCK")
    case True
    then show ?thesis using assms(4) L find_slash_object [OF assms(1), of r] find_slash_stops [OF r]
      by (simp add: suffix_text_def parse_boolexp_F.simps [of env d] token_defs skip_Cons mux_isspace_def unary_def)
  next
    case False
    then obtain name b where f: "find (\<lambda>nt. snd nt = attr) (lock_sw env) = Some (name, b)" and p: "plain_name name"
      "length name < SBUF_SIZE" "search_lock env name = Some attr"
      using assms(2) by (auto simp: good_suffix_def split: option.splits)
    have s: "suffix_text env attr = 0x2F # name" using False f by (simp add: suffix_text_def)
    have "find_slash 0 (?o @ 0x2F # name @ r) = Some (length ?o)"
      using find_slash_object [OF assms(1), of "0x2F # name @ r"] by (simp add: token_defs)
    then show ?thesis using assms(4,5) L [of "[]"] lock_name_text [OF p(1,2) r] p(3) min_absorb1 [OF assms(5)]
      by (simp add: s parse_boolexp_F.simps [of env d] token_defs skip_Cons mux_isspace_def unary_def)
  qed
  then show ?thesis by (simp add: reads_F_def)
qed

definition fits :: "lock_env \<Rightarrow> nat \<Rightarrow> outer_type \<Rightarrow> BOOLEXP \<Rightarrow> bool" where
  "fits env d outer b \<longleftrightarrow> d + lock_depth outer b \<le> LOCK_PARSE_MAX_DEPTH \<and> length (lock_text env outer b) \<le> LBUF_SIZE - 1"

lemma parse_F_token:
  assumes "d + 1 \<le> LOCK_PARSE_MAX_DEPTH"
  shows "parse_boolexp_F env d (NOT_TOKEN # s) = unary (\<lambda>_. True) BOOLEXP_NOT (parse_boolexp_F env (d + 1) s)"
    and "parse_boolexp_F env d (IS_TOKEN # s) = unary is_const_or_atr BOOLEXP_IS (parse_boolexp_L env (d + 1) s)"
    and "parse_boolexp_F env d (CARRY_TOKEN # s) = unary is_const_or_atr BOOLEXP_CARRY (parse_boolexp_L env (d + 1) s)"
    and "parse_boolexp_F env d (OWNER_TOKEN # s) = unary is_const BOOLEXP_OWNER (parse_boolexp_L env (d + 1) s)"
  using assms by (subst parse_boolexp_F.simps, simp add: token_defs skip_Cons mux_isspace_def)+

lemma parse_L_leaf:
  assumes "good_lock env b" "internal env" "is_const_or_atr b" "stops r" "d + 1 \<le> LOCK_PARSE_MAX_DEPTH"
    and "length (lock_text env Outer_other b) \<le> LBUF_SIZE - 1"
  shows "parse_boolexp_L env d (lock_text env Outer_other b @ r) = Some (b, r)"
proof (cases b)
  case (BOOLEXP_CONST n)
  then show ?thesis using assms by (simp add: fits_def parse_L_object)
next
  case (BOOLEXP_ATR attr key)
  then show ?thesis using assms parse_L_attr [of env attr key "0x3A" r d] by (simp add: fits_def)
qed (use assms in auto)

lemma good_const: "is_const b \<Longrightarrow> \<exists>n. b = BOOLEXP_CONST n"
  by (cases b) auto

lemma const_or_atr: "is_const b \<Longrightarrow> is_const_or_atr b"
  by (cases b) auto

lemma reads_F_leaf:
  assumes "good_lock env b" "internal env" "fits env d Outer_NOT b" "\<not> is_and b" "\<not> is_or b" "\<And>a. b \<noteq> BOOLEXP_NOT a"
  shows "reads_F env d b"
proof (cases b)
  case (BOOLEXP_INDIR attr a)
  then obtain n where "a = BOOLEXP_CONST n" using assms(1) good_const by auto
  then show ?thesis using BOOLEXP_INDIR assms by (auto simp: fits_def intro: reads_F_INDIR)
next
  case (BOOLEXP_CONST n)
  have "parse_boolexp_F env d (unparse_object_quiet n @ r) = parse_boolexp_L env (d + 1) (unparse_object_quiet n @ r)" for r
    using assms BOOLEXP_CONST parse_F_operand [of d "0x28"] by (simp add: fits_def object_text token_defs mux_isspace_def)
  then show ?thesis using BOOLEXP_CONST assms parse_L_object [of env n "d + 1"]
    by (simp add: reads_F_def fits_def)
next
  case (BOOLEXP_ATR attr key)
  have "parse_boolexp_F env d ((attr_text env attr @ 0x3A # key) @ r) = parse_boolexp_L env (d + 1) ((attr_text env attr @ 0x3A # key) @ r)" for r
    using assms BOOLEXP_ATR parse_F_operand [of d "hd (attr_text env attr)" env]
    by (cases "attr_text env attr") (auto simp: fits_def good_attr_def plain_name_def)
  then show ?thesis using BOOLEXP_ATR assms parse_L_attr [of env attr key "0x3A" _ "d + 1"]
    by (simp add: reads_F_def fits_def)
next
  case (BOOLEXP_EVAL attr key)
  have "parse_boolexp_F env d ((attr_text env attr @ 0x2F # key) @ r) = parse_boolexp_L env (d + 1) ((attr_text env attr @ 0x2F # key) @ r)" for r
    using assms BOOLEXP_EVAL parse_F_operand [of d "hd (attr_text env attr)" env]
    by (cases "attr_text env attr") (auto simp: fits_def good_attr_def plain_name_def)
  then show ?thesis using BOOLEXP_EVAL assms parse_L_attr [of env attr key "0x2F" _ "d + 1"]
    by (simp add: reads_F_def fits_def)
next
  case (BOOLEXP_IS a)
  then show ?thesis using assms parse_L_leaf [of env a _ "d + 1"]
    by (cases a) (auto simp: reads_F_def fits_def parse_F_token unary_def)
next
  case (BOOLEXP_CARRY a)
  then show ?thesis using assms parse_L_leaf [of env a _ "d + 1"]
    by (cases a) (auto simp: reads_F_def fits_def parse_F_token unary_def)
next
  case (BOOLEXP_OWNER a)
  then show ?thesis using assms parse_L_leaf [of env a _ "d + 1"]
    by (cases a) (auto simp: reads_F_def fits_def parse_F_token unary_def)
qed (use assms in auto)

definition reads :: "lock_env \<Rightarrow> nat \<Rightarrow> BOOLEXP \<Rightarrow> bool" where
  "reads env d b \<longleftrightarrow> (fits env d Outer_NOT b \<longrightarrow> reads_F env d b) \<and> (fits env d Outer_AND b \<longrightarrow> reads_T env d b) \<and>
    (fits env d Outer_other b \<longrightarrow> reads_E env d b)"

lemma reads_simple:
  assumes "\<not> is_and b" "\<not> is_or b" "fits env d Outer_NOT b \<Longrightarrow> reads_F env d b"
  shows "reads env d b"
proof -
  have "fits env d Outer_AND b = fits env d Outer_NOT b" "fits env d Outer_other b = fits env d Outer_NOT b"
    using assms(1,2) by (simp_all add: fits_def outer_text outer_depth)
  then show ?thesis using assms reads_T_F reads_E_T by (simp add: reads_def)
qed

lemma fits_AND: "fits env d Outer_AND (BOOLEXP_AND a b) \<Longrightarrow> fits env d Outer_AND a \<and> fits env d Outer_AND b"
  by (simp add: fits_def parens_def max_def split: if_splits)

lemma fits_OR: "fits env d Outer_other (BOOLEXP_OR a b) \<Longrightarrow> fits env d Outer_other a \<and> fits env d Outer_other b"
  by (simp add: fits_def parens_def max_def split: if_splits)

lemma reads_all:
  assumes "good_lock env b" "internal env"
  shows "reads env d b"
  using assms
proof (induction b arbitrary: d)
  case (BOOLEXP_AND a b)
  have T: "reads_T env d (BOOLEXP_AND a b)" if "fits env d Outer_AND (BOOLEXP_AND a b)" for d
    using that BOOLEXP_AND.IH [of d] BOOLEXP_AND.prems fits_AND [OF that] by (intro reads_T_AND) (simp_all add: reads_def)
  have E: "reads_E env d (BOOLEXP_AND a b)" if "fits env d Outer_other (BOOLEXP_AND a b)" for d
    using that T [of d] by (intro reads_E_T) (auto simp: fits_def parens_def)
  have F: "reads_F env d (BOOLEXP_AND a b)" if "fits env d Outer_NOT (BOOLEXP_AND a b)" for d
    using that E [of "d + 1"] by (intro reads_F_E) (auto simp: fits_def parens_def)
  show ?case using T E F by (simp add: reads_def)
next
  case (BOOLEXP_OR a b)
  have E: "reads_E env d (BOOLEXP_OR a b)" if "fits env d Outer_other (BOOLEXP_OR a b)" for d
    using that BOOLEXP_OR.IH [of d] BOOLEXP_OR.prems fits_OR [OF that] by (intro reads_E_OR) (simp_all add: reads_def)
  have F: "reads_F env d (BOOLEXP_OR a b)" if "fits env d Outer_NOT (BOOLEXP_OR a b)" for d
    using that E [of "d + 1"] by (intro reads_F_E) (auto simp: fits_def parens_def)
  have T: "reads_T env d (BOOLEXP_OR a b)" if "fits env d Outer_AND (BOOLEXP_OR a b)" for d
    using that F [of d] by (intro reads_T_F) (auto simp: fits_def parens_def)
  show ?case using T E F by (simp add: reads_def)
next
  case (BOOLEXP_NOT a)
  have F: "reads_F env d (BOOLEXP_NOT a)" if "fits env d Outer_NOT (BOOLEXP_NOT a)" for d
    using that BOOLEXP_NOT.IH [of "d + 1"] BOOLEXP_NOT.prems by (auto simp: reads_def fits_def reads_F_def parse_F_token unary_def)
  then show ?case by (intro reads_simple) auto
qed (rule reads_simple; simp add: reads_F_leaf)+

lemma lock_text_nonzero:
  assumes "good_lock env b"
  shows "0 \<notin> set (lock_text env outer b)"
  using assms
proof (induction b arbitrary: outer)
  case (BOOLEXP_CONST n)
  then show ?case using object_text [of env n] object_digits_byte [of 0 n] by auto
next
  case (BOOLEXP_INDIR attr a)
  then show ?case
    by (auto simp: token_defs suffix_text_def good_suffix_def plain_name_nonzero plain_text_nonzero split: option.splits)
qed (auto simp: token_defs parens_def good_attr_def plain_name_nonzero plain_text_nonzero)

lemma lock_text_nonempty: "good_lock env b \<Longrightarrow> lock_text env outer b \<noteq> []"
  by (induction b arbitrary: outer) (auto simp: parens_def unparse_object_quiet_def ascii_def)

lemma attr_number_internal [simp]: "attr_number (env\<lparr>parsing_internal := i\<rparr>) = attr_number env"
  by (simp add: fun_eq_iff attr_number_def split: option.split)

lemma env_internal [simp]:
  "attr_text (env\<lparr>parsing_internal := i\<rparr>) = attr_text env" "suffix_text (env\<lparr>parsing_internal := i\<rparr>) = suffix_text env"
  "good_attr (env\<lparr>parsing_internal := i\<rparr>) = good_attr env" "good_suffix (env\<lparr>parsing_internal := i\<rparr>) = good_suffix env"
  "good_object (env\<lparr>parsing_internal := i\<rparr>) = good_object env"
  by (simp_all add: fun_eq_iff attr_text_def suffix_text_def good_attr_def good_suffix_def good_object_def split: option.split)

lemma lock_text_internal [simp]: "lock_text (env\<lparr>parsing_internal := i\<rparr>) outer b = lock_text env outer b"
  by (induction b arbitrary: outer) auto

lemma good_lock_internal [simp]: "good_lock (env\<lparr>parsing_internal := i\<rparr>) b = good_lock env b"
  by (induction b) auto

lemma stops_Nil [simp]: "stops []"
  by (simp add: stops_def ends_operand_def)

lemma tokens_nonzero [simp]: "0 \<noteq> AND_TOKEN" "0 \<noteq> OR_TOKEN"
  by (simp_all add: token_defs)

lemma parse_lock_text:
  assumes "good_lock env b" "fits env 0 Outer_other b"
  shows "parse_boolexp env (lock_text env Outer_other b) True = Some (right_assoc b)"
proof -
  let ?s = "lock_text env Outer_other b" and ?env = "if bStandAlone env then env else env\<lparr>parsing_internal := True\<rparr>"
  have e: "good_lock ?env b" "internal ?env" "fits ?env 0 Outer_other b" "lock_text ?env Outer_other b = ?s"
    using assms by (auto simp: internal_def fits_def)
  have z: "0 \<notin> set ?s" "?s \<noteq> []" using lock_text_nonzero [OF assms(1)] lock_text_nonempty [OF assms(1)] by auto
  then have w: "takeWhile (\<lambda>c. c \<noteq> 0) ?s = ?s" "peek ?s \<noteq> 0" by (intro takeWhile_eq_all_conv [THEN iffD2], auto) (cases ?s, auto)
  have t: "take (LBUF_SIZE - 1) ?s = ?s" using assms(2) by (simp add: fits_def)
  have "reads_E ?env 0 b" using reads_all [OF e(1,2), of 0] e(3) by (simp only: reads_def)
  then have "parse_boolexp_E ?env 0 (lock_text ?env Outer_other b @ []) = Some (right_assoc b, [])"
    unfolding reads_E_def by (rule allE [of _ "[]"]) simp
  then show ?thesis using w(2) unfolding parse_boolexp_def Let_def w(1) t e(4) by simp
qed

lemma eval_mk_and: "eval_boolexp env ev lev p t f (Some (mk_and a b)) = eval_boolexp env ev lev p t f (Some (BOOLEXP_AND a b))"
  by (induction a b rule: mk_and.induct) simp_all

lemma eval_mk_or: "eval_boolexp env ev lev p t f (Some (mk_or a b)) = eval_boolexp env ev lev p t f (Some (BOOLEXP_OR a b))"
  by (induction a b rule: mk_or.induct) simp_all

lemma eval_right_assoc: "eval_boolexp env ev lev p t f (Some (right_assoc b)) = eval_boolexp env ev lev p t f (Some b)"
  by (induction b) (simp_all add: eval_mk_and eval_mk_or)

lemma env_god [simp]:
  "good_object (env\<lparr>parse_god := g\<rparr>) = good_object env" "suffix_text (env\<lparr>parse_god := g\<rparr>) = suffix_text env"
  by (auto simp: fun_eq_iff suffix_text_def good_object_def)

lemma LBUF_room: "n \<le> 100 \<Longrightarrow> n \<le> LBUF_SIZE - 1"
  by (simp add: LBUF_SIZE_def)

lemma object_text_length:
  assumes "good_object env n"
  shows "length (unparse_object_quiet n) \<le> 13"
proof -
  have "nat n < 10 ^ Suc 9" using assms by (auto simp: good_object_def nat_less_iff)
  then have "length (digits 10 (nat n)) \<le> 10" using digits_length [of 10 "nat n" 9] by simp
  then show ?thesis using object_text [OF assms] by (simp add: object_digits_def)
qed

text \<open>A lock on an attribute that is not in the table any more.\<close>

section \<open>Circles of locks\<close>

text \<open>Locks that can only be passed by passing a lock of \<open>S\<close>, a set of objects with a lock attribute each, through \<open>@\<close>.\<close>

fun leads_into :: "(int \<times> int) set \<Rightarrow> BOOLEXP \<Rightarrow> bool" where
  "leads_into S (BOOLEXP_AND a b) \<longleftrightarrow> leads_into S a \<or> leads_into S b"
| "leads_into S (BOOLEXP_OR a b) \<longleftrightarrow> leads_into S a \<and> leads_into S b"
| "leads_into S (BOOLEXP_INDIR attr a) \<longleftrightarrow> (be_thing a, attr) \<in> S"
| "leads_into S _ \<longleftrightarrow> False"

lemma eval_circle:
  assumes "\<forall>(n, attr) \<in> S. \<exists>b. parse_boolexp (env\<lparr>parse_god := God ev player\<rparr>) (atr_get ev n attr) True = Some b \<and> leads_into S b"
    and "leads_into S b"
  shows "\<not> eval_boolexp env ev lev player thing from (Some b)"
  using assms(2)
proof (induction "lock_nest_lim ev - lev" arbitrary: b lev thing rule: less_induct)
  case less
  show ?case using less.prems
  proof (induction b)
    case (BOOLEXP_INDIR attr a)
    show ?case
    proof (cases "lev + 1 < lock_nest_lim ev \<and> is_const a")
      case True
      obtain c where c: "parse_boolexp (env\<lparr>parse_god := God ev player\<rparr>) (atr_get ev (be_thing a) attr) True = Some c" "leads_into S c"
        using assms(1) BOOLEXP_INDIR.prems by fastforce
      have "\<not> eval_boolexp env ev (lev + 1) player (be_thing a) from (Some c)"
        using less.hyps [of "lev + 1" c "be_thing a"] True c(2) diff_less_mono2 [of lev "lev + 1" "lock_nest_lim ev"] by simp
      then show ?thesis using c(1) by (simp add: eval_boolexp_atr.simps)
    qed auto
  qed auto
qed

section \<open>Attributes that are no longer in the table\<close>

fun attrs_of :: "BOOLEXP \<Rightarrow> int set" where
  "attrs_of (BOOLEXP_AND a b) = attrs_of a \<union> attrs_of b"
| "attrs_of (BOOLEXP_OR a b) = attrs_of a \<union> attrs_of b"
| "attrs_of (BOOLEXP_NOT a) = attrs_of a"
| "attrs_of (BOOLEXP_INDIR _ a) = attrs_of a"
| "attrs_of (BOOLEXP_CARRY a) = attrs_of a"
| "attrs_of (BOOLEXP_IS a) = attrs_of a"
| "attrs_of (BOOLEXP_OWNER a) = attrs_of a"
| "attrs_of (BOOLEXP_CONST _) = {}"
| "attrs_of (BOOLEXP_ATR a _) = {a}"
| "attrs_of (BOOLEXP_EVAL a _) = {a}"

text \<open>\<open>table\<close> is what \<open>atr_str\<close> has become: attributes are gone, others are as they were.\<close>

definition shrunk :: "lock_env \<Rightarrow> (bytes \<Rightarrow> int option) \<Rightarrow> BOOLEXP \<Rightarrow> bool" where
  "shrunk env table b \<longleftrightarrow> (\<forall>a \<in> attrs_of b. hd (attr_text env a) \<noteq> 0x23 \<and>
     (table (attr_text env a) = None \<or> table (attr_text env a) = atr_str env (attr_text env a)))"

definition lost :: "lock_env \<Rightarrow> (bytes \<Rightarrow> int option) \<Rightarrow> BOOLEXP \<Rightarrow> bool" where
  "lost env table b \<longleftrightarrow> (\<exists>a \<in> attrs_of b. table (attr_text env a) = None)"

lemma table_texts [simp]:
  "attr_text (env\<lparr>atr_str := table\<rparr>) = attr_text env" "suffix_text (env\<lparr>atr_str := table\<rparr>) = suffix_text env"
  "good_suffix (env\<lparr>atr_str := table\<rparr>) = good_suffix env" "good_object (env\<lparr>atr_str := table\<rparr>) = good_object env"
  "internal (env\<lparr>atr_str := table\<rparr>) = internal env"
  by (simp_all add: fun_eq_iff attr_text_def suffix_text_def good_suffix_def good_object_def internal_def split: option.split)

lemma table_lock_text [simp]: "lock_text (env\<lparr>atr_str := table\<rparr>) outer b = lock_text env outer b"
  by (induction b arbitrary: outer) auto

lemma table_fits [simp]: "fits (env\<lparr>atr_str := table\<rparr>) d outer b = fits env d outer b"
  by (simp add: fits_def)

lemma kept_good:
  assumes "good_lock env b" "shrunk env table b" "\<not> lost env table b" "\<not> parse_god env"
  shows "good_lock (env\<lparr>atr_str := table\<rparr>) b"
  using assms by (induction b) (auto simp: shrunk_def lost_def good_attr_def attr_number_def split: option.splits)

text \<open>No parser function reads the text of the lock, whatever follows it.\<close>

definition fails :: "lock_env \<Rightarrow> nat \<Rightarrow> BOOLEXP \<Rightarrow> bool" where
  "fails env d b \<longleftrightarrow>
     (fits env d Outer_NOT b \<longrightarrow> (\<forall>r. stops r \<longrightarrow> parse_boolexp_F env d (lock_text env Outer_NOT b @ r) = None)) \<and>
     (fits env d Outer_AND b \<longrightarrow> (\<forall>r. stops r \<longrightarrow> parse_boolexp_T env d (lock_text env Outer_AND b @ r) = None)) \<and>
     (fits env d Outer_other b \<longrightarrow> (\<forall>r. stops r \<longrightarrow> peek r \<noteq> AND_TOKEN \<longrightarrow> parse_boolexp_E env d (lock_text env Outer_other b @ r) = None))"

lemma parse_None:
  "parse_boolexp_F env d s = None \<Longrightarrow> parse_boolexp_T env d s = None"
  "parse_boolexp_T env d s = None \<Longrightarrow> parse_boolexp_E env d s = None"
  by (simp_all add: parse_boolexp_T.simps [of env d s] parse_boolexp_E.simps [of env d s])

lemma fails_simple:
  assumes "\<not> is_and b" "\<not> is_or b" "fits env d Outer_NOT b \<Longrightarrow> (\<And>r. stops r \<Longrightarrow> parse_boolexp_F env d (lock_text env Outer_NOT b @ r) = None)"
  shows "fails env d b"
proof -
  have "fits env d Outer_AND b = fits env d Outer_NOT b" "fits env d Outer_other b = fits env d Outer_NOT b"
    using assms(1,2) by (simp_all add: fits_def outer_text outer_depth)
  then show ?thesis using assms by (simp add: fails_def outer_text parse_None)
qed

lemma parens_None:
  assumes "is_and b \<or> is_or b" "d + 1 \<le> LOCK_PARSE_MAX_DEPTH"
    and "parse_boolexp_E env (d + 1) (lock_text env Outer_other b @ 0x29 # r) = None"
  shows "parse_boolexp_F env d (lock_text env Outer_NOT b @ r) = None"
proof -
  have "parse_boolexp_F env d (lock_text env Outer_NOT b @ r) = parse_boolexp_L env (d + 1) (0x28 # lock_text env Outer_other b @ 0x29 # r)"
    using parse_F_operand [OF assms(2), of "0x28"] by (simp add: outer_text(3) [OF assms(1)] token_defs mux_isspace_def)
  then show ?thesis using assms(3) by (simp add: parse_boolexp_L.simps [of env "Suc d" "0x28 # _"] skip_Cons mux_isspace_def)
qed

lemma gone_attr:
  assumes "plain_name name" "hd name \<noteq> 0x23" "attr_number env name = None" "c \<in> {0x3A, 0x2F}" "plain_text key" "stops r"
    and "length (name @ c # key) \<le> LBUF_SIZE - 1" "internal env"
  shows "parse_boolexp_L env d ((name @ c # key) @ r) = None"
    "d + 1 \<le> LOCK_PARSE_MAX_DEPTH \<Longrightarrow> parse_boolexp_F env d ((name @ c # key) @ r) = None"
proof -
  let ?s = "name @ c # key"
  obtain h t where h: "name = h # t" "\<not> mux_isspace h" "h \<noteq> 0x28" "h \<noteq> 0x23" "h \<notin> {NOT_TOKEN, INDIR_TOKEN, IS_TOKEN, CARRY_TOKEN, OWNER_TOKEN}"
    using assms(1,2) by (cases name) (auto simp: plain_name_def)
  have c: "\<not> ends_operand c" "\<not> mux_isspace c" using assms(4) by (auto simp: ends_operand_def token_defs mux_isspace_def)
  have s: "\<forall>x \<in> set ?s. \<not> ends_operand x" "?s \<noteq> []" "\<not> mux_isspace (last ?s)" "peek ?s \<noteq> 0x23"
    using assms(1,5) c h by (auto simp: plain_name_def plain_text_def list_all_iff)
  have "object_ref env ?s = None" using s(4) assms(8) by (auto simp: object_ref_def internal_def)
  then have "operand env (?s @ r) = None"
    using operand_text [OF s(1) assms(6) s(2,3)] test_atr_text [OF assms(1,4,7)] assms(3,7) by simp
  then have L: "parse_boolexp_L env d (?s @ r) = None" for d using h parse_L_operand [OF h(2,3), of env d] by simp
  show "parse_boolexp_L env d (?s @ r) = None" by (rule L)
  show "parse_boolexp_F env d (?s @ r) = None" if "d + 1 \<le> LOCK_PARSE_MAX_DEPTH"
    using L h parse_F_operand [OF that h(2,5), of env] by simp
qed

lemma gone_leaf:
  assumes "good_lock env b" "shrunk env table b" "lost env table b" "\<not> parse_god env" "internal env" "stops r"
    and "length (lock_text env Outer_other b) \<le> LBUF_SIZE - 1" "b = BOOLEXP_ATR a key \<or> b = BOOLEXP_EVAL a key"
  shows "parse_boolexp_L (env\<lparr>atr_str := table\<rparr>) d (lock_text env Outer_other b @ r) = None"
    "d + 1 \<le> LOCK_PARSE_MAX_DEPTH \<Longrightarrow> parse_boolexp_F (env\<lparr>atr_str := table\<rparr>) d (lock_text env Outer_other b @ r) = None"
proof -
  have n: "plain_name (attr_text env a)" "hd (attr_text env a) \<noteq> 0x23" "plain_text key"
    using assms(1,2,8) by (auto simp: good_attr_def shrunk_def)
  have "attr_number (env\<lparr>atr_str := table\<rparr>) (attr_text env a) = None" using assms(3,4,8) by (auto simp: lost_def attr_number_def)
  note g = gone_attr [OF n(1,2) this _ n(3) assms(6), of _ d]
  show "parse_boolexp_L (env\<lparr>atr_str := table\<rparr>) d (lock_text env Outer_other b @ r) = None"
    "d + 1 \<le> LOCK_PARSE_MAX_DEPTH \<Longrightarrow> parse_boolexp_F (env\<lparr>atr_str := table\<rparr>) d (lock_text env Outer_other b @ r) = None"
    using assms(5,7,8) g [of "0x3A"] g [of "0x2F"] by auto
qed

lemma fails_AND:
  assumes "lost env table (BOOLEXP_AND a b)" "\<And>d. lost env table a \<Longrightarrow> fails (env\<lparr>atr_str := table\<rparr>) d a"
    "\<And>d. lost env table b \<Longrightarrow> fails (env\<lparr>atr_str := table\<rparr>) d b" "\<And>d. \<not> lost env table a \<Longrightarrow> reads (env\<lparr>atr_str := table\<rparr>) d a"
  shows "fails (env\<lparr>atr_str := table\<rparr>) d (BOOLEXP_AND a b)"
proof -
  let ?env = "env\<lparr>atr_str := table\<rparr>" and ?c = "BOOLEXP_AND a b"
  have T: "parse_boolexp_T ?env d (lock_text env Outer_AND ?c @ r) = None" if f: "fits env d Outer_AND ?c" and r: "stops r" for d r
  proof (cases "lost env table a")
    case True
    then show ?thesis using assms(2) [of d] fits_AND [OF f] by (simp add: fails_def parens_def)
  next
    case False
    then have "lost env table b" using assms(1) by (auto simp: lost_def)
    then show ?thesis using assms(3) [of d] assms(4) [OF False, of d] fits_AND [OF f] r by (simp add: fails_def reads_def reads_T_def parens_def)
  qed
  have E: "parse_boolexp_E ?env d (lock_text env Outer_other ?c @ r) = None" if "fits env d Outer_other ?c" "stops r" for d r
    using T [of d r] that by (intro parse_None(2)) (simp add: fits_def parens_def)
  have F: "parse_boolexp_F ?env d (lock_text env Outer_NOT ?c @ r) = None" if "fits env d Outer_NOT ?c" for d r
    using that E [of "d + 1" "0x29 # r"] parens_None [of ?c d ?env r] by (simp add: fits_def parens_def)
  show ?thesis using T E F by (simp add: fails_def)
qed

lemma fails_OR:
  assumes "lost env table (BOOLEXP_OR a b)" "\<And>d. lost env table a \<Longrightarrow> fails (env\<lparr>atr_str := table\<rparr>) d a"
    "\<And>d. lost env table b \<Longrightarrow> fails (env\<lparr>atr_str := table\<rparr>) d b" "\<And>d. \<not> lost env table a \<Longrightarrow> reads (env\<lparr>atr_str := table\<rparr>) d a"
  shows "fails (env\<lparr>atr_str := table\<rparr>) d (BOOLEXP_OR a b)"
proof -
  let ?env = "env\<lparr>atr_str := table\<rparr>" and ?c = "BOOLEXP_OR a b"
  have E: "parse_boolexp_E ?env d (lock_text env Outer_other ?c @ r) = None"
    if f: "fits env d Outer_other ?c" and r: "stops r" "peek r \<noteq> AND_TOKEN" for d r
  proof (cases "lost env table a")
    case True
    then show ?thesis using assms(2) [of d] fits_OR [OF f] by (simp add: fails_def parens_def tokens_distinct)
  next
    case False
    then have "lost env table b" using assms(1) by (auto simp: lost_def)
    then show ?thesis using assms(3) [of d] assms(4) [OF False, of d] fits_OR [OF f] r
      by (simp add: fails_def reads_def reads_E_def parens_def tokens_distinct)
  qed
  have F: "parse_boolexp_F ?env d (lock_text env Outer_NOT ?c @ r) = None" if "fits env d Outer_NOT ?c" for d r
    using that E [of "d + 1" "0x29 # r"] parens_None [of ?c d ?env r] by (simp add: fits_def parens_def tokens_distinct)
  have T: "parse_boolexp_T ?env d (lock_text env Outer_AND ?c @ r) = None" if "fits env d Outer_AND ?c" "stops r" for d r
    using F [of d r] that by (intro parse_None(1)) (simp add: fits_def parens_def)
  show ?thesis using T E F by (simp add: fails_def)
qed

lemma fails_all:
  assumes "good_lock env b" "shrunk env table b" "lost env table b" "\<not> parse_god env" "internal env"
  shows "fails (env\<lparr>atr_str := table\<rparr>) d b"
  using assms
proof (induction b arbitrary: d)
  case (BOOLEXP_AND a b)
  have "reads (env\<lparr>atr_str := table\<rparr>) d a" if "\<not> lost env table a" for d
    using BOOLEXP_AND.prems that by (intro reads_all kept_good) (auto simp: shrunk_def)
  then show ?case using BOOLEXP_AND by (intro fails_AND) (auto simp: shrunk_def)
next
  case (BOOLEXP_OR a b)
  have "reads (env\<lparr>atr_str := table\<rparr>) d a" if "\<not> lost env table a" for d
    using BOOLEXP_OR.prems that by (intro reads_all kept_good) (auto simp: shrunk_def)
  then show ?case using BOOLEXP_OR by (intro fails_OR) (auto simp: shrunk_def)
next
  case (BOOLEXP_NOT a)
  have "fails (env\<lparr>atr_str := table\<rparr>) (d + 1) a" using BOOLEXP_NOT by (intro BOOLEXP_NOT.IH) (auto simp: shrunk_def lost_def)
  then show ?case by (intro fails_simple) (auto simp: fails_def fits_def parse_F_token unary_def)
next
  case (BOOLEXP_ATR a key)
  then show ?case using gone_leaf(2) [of env "BOOLEXP_ATR a key" table _ a key d]
    by (intro fails_simple) (auto simp: fits_def)
next
  case (BOOLEXP_EVAL a key)
  then show ?case using gone_leaf(2) [of env "BOOLEXP_EVAL a key" table _ a key d]
    by (intro fails_simple) (auto simp: fits_def)
next
  case (BOOLEXP_IS b)
  then obtain a key where b: "b = BOOLEXP_ATR a key" by (cases b) (auto simp: lost_def)
  then show ?case using BOOLEXP_IS gone_leaf(1) [of env b table _ a key "d + 1"]
    by (intro fails_simple) (auto simp: fits_def parse_F_token unary_def lost_def shrunk_def)
next
  case (BOOLEXP_CARRY b)
  then obtain a key where b: "b = BOOLEXP_ATR a key" by (cases b) (auto simp: lost_def)
  then show ?case using BOOLEXP_CARRY gone_leaf(1) [of env b table _ a key "d + 1"]
    by (intro fails_simple) (auto simp: fits_def parse_F_token unary_def lost_def shrunk_def)
next
  case (BOOLEXP_INDIR attr b)
  then show ?case by (cases b) (auto simp: lost_def)
next
  case (BOOLEXP_OWNER b)
  then show ?case by (cases b) (auto simp: lost_def)
qed (auto simp: lost_def)

lemma peek_Nil_AND: "peek [] \<noteq> AND_TOKEN"
  by (simp add: token_defs)

lemma parse_lost:
  assumes "good_lock env b" "shrunk env table b" "lost env table b" "\<not> parse_god env" "fits env 0 Outer_other b"
  shows "parse_boolexp (env\<lparr>atr_str := table\<rparr>) (lock_text env Outer_other b) True = None"
proof -
  let ?s = "lock_text env Outer_other b" and ?env = "if bStandAlone env then env else env\<lparr>parsing_internal := True\<rparr>"
  have e: "good_lock ?env b" "internal ?env" "fits ?env 0 Outer_other b" "lock_text ?env Outer_other b = ?s" "\<not> parse_god ?env"
    "shrunk ?env table b" "lost ?env table b"
    using assms by (auto simp: internal_def fits_def shrunk_def lost_def)
  have z: "0 \<notin> set ?s" "?s \<noteq> []" using lock_text_nonzero [OF assms(1)] lock_text_nonempty [OF assms(1)] by auto
  then have w: "takeWhile (\<lambda>c. c \<noteq> 0) ?s = ?s" "peek ?s \<noteq> 0" by (intro takeWhile_eq_all_conv [THEN iffD2], auto) (cases ?s, auto)
  have t: "take (LBUF_SIZE - 1) ?s = ?s" using assms(5) by (simp add: fits_def)
  have v: "(if bStandAlone (env\<lparr>atr_str := table\<rparr>) then env\<lparr>atr_str := table\<rparr> else env\<lparr>atr_str := table, parsing_internal := True\<rparr>) = ?env\<lparr>atr_str := table\<rparr>"
    by simp
  have "fails (?env\<lparr>atr_str := table\<rparr>) 0 b" by (rule fails_all [OF e(1,6,7,5,2)])
  then have "parse_boolexp_E (?env\<lparr>atr_str := table\<rparr>) 0 (?s @ []) = None"
    unfolding fails_def table_fits table_lock_text e(4) using e(3) stops_Nil peek_Nil_AND by blast
  then show ?thesis using w(2) unfolding parse_boolexp_def Let_def w(1) t v by simp
qed

lemma god_kept: "\<not> parse_god env \<Longrightarrow> (env\<lparr>atr_str := table, parse_god := False\<rparr>) = env\<lparr>atr_str := table\<rparr>"
  by (cases env) simp

section \<open>Properties\<close>

definition sample_env :: lock_env where
  "sample_env = \<lparr>bStandAlone = False, parsing_internal = False, parse_god = False,
     atr_str = (\<lambda>s. if s = ascii ''SEX'' then Some 7 else None),
     atr_num = (\<lambda>n. if n = 7 then Some (7, ascii ''SEX'') else None),
     search_lock = (\<lambda>s. if s = ascii ''enter'' then Some 59 else None), lock_sw = [(ascii ''enter'', 59)],
     match_object = (\<lambda>_. NOTHING), Good_dbref = (\<lambda>n. n < 100)\<rparr>"

definition sample_eval :: eval_env where
  "sample_eval = \<lparr>Contents = (\<lambda>_. []), Owner = (\<lambda>_. 1), God = (\<lambda>n. n = 1), atr_get = (\<lambda>_ _. ascii ''@(#5)''),
     atr_pget = (\<lambda>_ _. []), See_attr = (\<lambda>_ _ _. True), bCanReadAttr = (\<lambda>_ _. True), no_eval = (\<lambda>_ _. False),
     alarmed = False, tolower_table = (\<lambda>_. None), wild_invk_lim = 100, float_order = (\<lambda>_ _. None),
     string_equal = (=), mux_exec = (\<lambda>s _ _. s), lock_nest_lim = 20\<rparr>"

definition sample_view :: object_view where
  "sample_view = \<lparr>unparse_object = (\<lambda>_. []), Typeof = (\<lambda>_. 1), Name = (\<lambda>_. [])\<rparr>"

lemma sample_plain: "plain_name (ascii ''SEX'')" "plain_text (ascii ''m*'')" "plain_name (ascii ''enter'')"
  using whole_byte [of "0x58" "ascii ''SE''"] whole_byte [of "0x2A" "ascii ''m''"] whole_byte [of "0x72" "ascii ''ente''"]
  by (simp_all add: plain_name_def plain_text_def ascii_def ends_operand_def token_defs mux_isspace_def)

lemma sample_good: "0 \<le> n \<Longrightarrow> n < 100 \<Longrightarrow> good_object sample_env n"
  by (simp add: good_object_def sample_env_def)

lemma sample_god: "sample_env\<lparr>parse_god := God ev player\<rparr> = sample_env" if "\<not> God ev player"
  using that by (simp add: sample_env_def)

lemma sample_attr: "attr_text sample_env 7 = ascii ''SEX''" "good_attr sample_env 7"
  using sample_plain(1) by (auto simp: attr_text_def good_attr_def attr_number_def sample_env_def)

lemma sample_fits:
  "fits sample_env 0 Outer_other (BOOLEXP_AND (BOOLEXP_CONST 1) (BOOLEXP_NOT (BOOLEXP_ATR 7 (ascii ''m*''))))"
  "fits sample_env 0 Outer_other (BOOLEXP_AND (BOOLEXP_INDIR A_LOCK (BOOLEXP_CONST 6)) (BOOLEXP_CONST 1))"
  "fits sample_env 0 Outer_other (BOOLEXP_INDIR A_LOCK (BOOLEXP_CONST 5))"
  using object_text_length [OF sample_good [of 1]] object_text_length [OF sample_good [of 5]] object_text_length [OF sample_good [of 6]] LBUF_room
  by (simp_all add: fits_def parens_def suffix_text_def sample_attr ascii_def LOCK_PARSE_MAX_DEPTH_def)

text \<open>C3: What \<open>unparse_boolexp_quiet\<close> prints of a lock, \<open>parse_boolexp\<close> reads back, when the objects
  exist, the attributes and locks have readable names, the nesting is within
  \<open>LOCK_PARSE_MAX_DEPTH\<close> and the text within the line buffer: up to the association of chains of
  \<open>&\<close> and \<open>|\<close> it is the same lock, and it evaluates the same for everybody.\<close>

theorem lock_round_trip:
  assumes "good_lock env b" "lock_depth Outer_other b \<le> LOCK_PARSE_MAX_DEPTH"
    and "length (lock_text env Outer_other b) \<le> LBUF_SIZE - 1"
  shows "parse_boolexp env (unparse_boolexp_quiet env shown (Some b)) True = Some (right_assoc b) \<and>
    (\<forall>ev lev player thing from. eval_boolexp env ev lev player thing from (Some (right_assoc b)) =
       eval_boolexp env ev lev player thing from (Some b))"
proof -
  have "unparse_boolexp_quiet env shown (Some b) = lock_text env Outer_other b"
    using unparse_text [OF assms(1), of "[]" Outer_other] assms(3) by (simp add: unparse_boolexp_quiet_def)
  moreover have "fits env 0 Outer_other b" using assms by (simp add: fits_def)
  ultimately show ?thesis using parse_lock_text [OF assms(1)] eval_right_assoc by simp
qed

theorem lock_round_trip_witness:
  "parse_boolexp sample_env (unparse_boolexp_quiet sample_env sample_view
     (Some (BOOLEXP_AND (BOOLEXP_AND (BOOLEXP_CONST 1) (BOOLEXP_NOT (BOOLEXP_OR (BOOLEXP_ATR 7 (ascii ''m*'')) (BOOLEXP_CONST 2))))
       (BOOLEXP_INDIR 59 (BOOLEXP_CONST 3))))) True =
   Some (BOOLEXP_AND (BOOLEXP_CONST 1) (BOOLEXP_AND (BOOLEXP_NOT (BOOLEXP_OR (BOOLEXP_ATR 7 (ascii ''m*'')) (BOOLEXP_CONST 2)))
       (BOOLEXP_INDIR 59 (BOOLEXP_CONST 3))))"
proof -
  let ?b = "BOOLEXP_AND (BOOLEXP_AND (BOOLEXP_CONST 1) (BOOLEXP_NOT (BOOLEXP_OR (BOOLEXP_ATR 7 (ascii ''m*'')) (BOOLEXP_CONST 2))))
       (BOOLEXP_INDIR 59 (BOOLEXP_CONST 3))"
  have t: "attr_text sample_env 7 = ascii ''SEX''" "suffix_text sample_env 59 = 0x2F # ascii ''enter''"
    by (simp_all add: attr_text_def suffix_text_def sample_env_def A_LOCK_def)
  have g: "good_lock sample_env ?b"
    using sample_plain sample_good [of 1] sample_good [of 2] sample_good [of 3]
    by (simp add: good_attr_def t(1)) (simp add: good_suffix_def attr_number_def sample_env_def SBUF_SIZE_def ascii_def)
  have "length (lock_text sample_env Outer_other ?b) \<le> 100"
    using object_text_length [OF sample_good [of 1]] object_text_length [OF sample_good [of 2]] object_text_length [OF sample_good [of 3]]
    by (simp add: parens_def t ascii_def)
  then show ?thesis using lock_round_trip [OF g] LBUF_room by (simp add: LOCK_PARSE_MAX_DEPTH_def)
qed

text \<open>C13: Every lock the parser returns is well typed: the operand of \<open>@\<close> and \<open>$\<close> is an object and
  that of \<open>=\<close> and \<open>+\<close> an object or an attribute, which is what the evaluator reads without
  looking at the type.\<close>

theorem parser_well_typed:
  assumes "parse_boolexp env buf i = Some b"
  shows "well_typed b"
proof -
  obtain env' s rest where "parse_boolexp_E env' 0 s = Some (b, rest)"
    using assms by (auto simp: parse_boolexp_def Let_def split: if_splits)
  then show ?thesis using parse_typed(1) [of env' 0 s] by simp
qed

theorem parser_well_typed_witness:
  "well_typed (BOOLEXP_INDIR A_LOCK (BOOLEXP_CONST 3))"
proof (rule parser_well_typed)
  show "parse_boolexp sample_env (lock_text sample_env Outer_other (BOOLEXP_INDIR A_LOCK (BOOLEXP_CONST 3))) True =
      Some (BOOLEXP_INDIR A_LOCK (BOOLEXP_CONST 3))"
    using parse_lock_text [of sample_env "BOOLEXP_INDIR A_LOCK (BOOLEXP_CONST 3)"] object_text_length [OF sample_good [of 3]]
      sample_good [of 3] LBUF_room
    by (simp add: good_suffix_def fits_def LOCK_PARSE_MAX_DEPTH_def suffix_text_def)
qed

text \<open>C16: A circle of locks denies everybody: when each lock of a set of objects can only be passed
  by passing, through \<open>@\<close>, a lock of the set (both sides of an \<open>|\<close>, one side of an \<open>&\<close>), no lock of
  the set is passed.  The evaluation stops at \<open>lock_nest_lim\<close> with the result false, whatever the
  level it starts from.\<close>

theorem lock_cycle_denied:
  assumes "\<forall>(n, attr) \<in> S. \<exists>b. parse_boolexp (env\<lparr>parse_god := God ev player\<rparr>) (atr_get ev n attr) True = Some b \<and> leads_into S b"
    and "(n, attr) \<in> S"
  shows "\<not> eval_boolexp_atr env ev lev player thing from (atr_get ev n attr)"
proof -
  obtain b where "parse_boolexp (env\<lparr>parse_god := God ev player\<rparr>) (atr_get ev n attr) True = Some b" "leads_into S b"
    using assms by fastforce
  then show ?thesis using eval_circle [OF assms(1)] by (simp add: eval_boolexp_atr.simps)
qed

text \<open>The lock of object 5 is \<open>@(#6)&(#1)\<close>, that of object 6 is \<open>@(#5)\<close>.\<close>

definition circle_lock :: "int \<Rightarrow> BOOLEXP" where
  "circle_lock n = (if n = 5 then BOOLEXP_AND (BOOLEXP_INDIR A_LOCK (BOOLEXP_CONST 6)) (BOOLEXP_CONST 1)
     else BOOLEXP_INDIR A_LOCK (BOOLEXP_CONST 5))"

definition circle_eval :: eval_env where
  "circle_eval = sample_eval\<lparr>atr_get := \<lambda>n _. lock_text sample_env Outer_other (circle_lock n)\<rparr>"

theorem lock_cycle_denied_witness:
  "\<not> eval_boolexp_atr sample_env circle_eval 0 2 5 5 (lock_text sample_env Outer_other (circle_lock 5))"
proof -
  let ?S = "{(5, A_LOCK), (6, A_LOCK)}"
  have g: "sample_env\<lparr>parse_god := God circle_eval 2\<rparr> = sample_env"
    by (rule sample_god) (simp add: circle_eval_def sample_eval_def)
  have "parse_boolexp sample_env (lock_text sample_env Outer_other (circle_lock n)) True = Some (circle_lock n)" for n
    using sample_fits sample_good [of 1] sample_good [of 5] sample_good [of 6] parse_lock_text [of sample_env "circle_lock n"]
    by (simp add: circle_lock_def good_suffix_def split: if_splits)
  then have "\<forall>(n, attr) \<in> ?S. \<exists>b. parse_boolexp (sample_env\<lparr>parse_god := God circle_eval 2\<rparr>) (atr_get circle_eval n attr) True = Some b \<and> leads_into ?S b"
    unfolding g by (auto simp: circle_eval_def circle_lock_def)
  from lock_cycle_denied [OF this, of 5 A_LOCK 0 5 5] show ?thesis by (simp add: circle_eval_def)
qed

text \<open>C17: A lock one of whose attributes has left the table is open: it is stored as the text that
  \<open>unparse_boolexp_quiet\<close> prints, with the names of the attributes, the text does not parse once a
  name is not found, wherever in the lock it stands, and \<open>eval_boolexp_atr\<close> takes that for true,
  whatever else the lock demands.\<close>

theorem vanished_attribute_opens:
  assumes "good_lock env b" "lock_depth Outer_other b \<le> LOCK_PARSE_MAX_DEPTH"
    and "length (lock_text env Outer_other b) \<le> LBUF_SIZE - 1"
    and "shrunk env table b" "lost env table b" "\<not> parse_god env" "\<not> God ev player"
  shows "eval_boolexp_atr (env\<lparr>atr_str := table\<rparr>) ev lev player thing from (unparse_boolexp_quiet env shown (Some b))"
proof -
  have "unparse_boolexp_quiet env shown (Some b) = lock_text env Outer_other b"
    using unparse_text [OF assms(1), of "[]" Outer_other] assms(3) by (simp add: unparse_boolexp_quiet_def)
  moreover have "fits env 0 Outer_other b" using assms by (simp add: fits_def)
  moreover have "env\<lparr>atr_str := table, parse_god := God ev player\<rparr> = env\<lparr>atr_str := table\<rparr>"
    using assms(6,7) god_kept by simp
  ultimately show ?thesis using parse_lost [OF assms(1,4-6)] by (simp only: eval_boolexp_atr.simps option.case)
qed

theorem vanished_attribute_opens_witness:
  "eval_boolexp_atr (sample_env\<lparr>atr_str := \<lambda>_. None\<rparr>) sample_eval 0 2 5 5
     (unparse_boolexp_quiet sample_env sample_view (Some (BOOLEXP_AND (BOOLEXP_CONST 1) (BOOLEXP_NOT (BOOLEXP_ATR 7 (ascii ''m*''))))))"
proof (rule vanished_attribute_opens)
  let ?b = "BOOLEXP_AND (BOOLEXP_CONST 1) (BOOLEXP_NOT (BOOLEXP_ATR 7 (ascii ''m*'')))"
  show "good_lock sample_env ?b" using sample_good [of 1] sample_attr sample_plain by simp
  show "shrunk sample_env (\<lambda>_. None) ?b" "lost sample_env (\<lambda>_. None) ?b" by (simp_all add: shrunk_def lost_def sample_attr ascii_def)
  show "\<not> parse_god sample_env" "\<not> God sample_eval 2" by (simp_all add: sample_env_def sample_eval_def)
qed (use sample_fits(1) in \<open>simp_all add: fits_def\<close>)

text \<open>A conjunction of \<open>n + 1\<close> objects, nested to the right.\<close>

fun and_chain :: "nat \<Rightarrow> BOOLEXP" where
  "and_chain 0 = BOOLEXP_CONST 1"
| "and_chain (Suc n) = BOOLEXP_AND (BOOLEXP_CONST 1) (and_chain n)"

fun nesting :: "BOOLEXP \<Rightarrow> nat" where
  "nesting (BOOLEXP_AND a b) = 1 + max (nesting a) (nesting b)"
| "nesting (BOOLEXP_OR a b) = 1 + max (nesting a) (nesting b)"
| "nesting (BOOLEXP_NOT a) = 1 + nesting a"
| "nesting _ = 0"

lemma and_chain_facts:
  assumes "good_object env 1"
  shows "good_lock env (and_chain n)" "right_assoc (and_chain n) = and_chain n" "nesting (and_chain n) = n"
    "lock_depth Outer_AND (and_chain n) = 2" "length (lock_text env Outer_AND (and_chain n)) = 5 * n + 4"
proof -
  have "length (unparse_object_quiet 1) = 4" using object_text [OF assms] by (simp add: object_digits_def)
  then show "length (lock_text env Outer_AND (and_chain n)) = 5 * n + 4" by (induction n) (simp_all add: parens_def)
qed (use assms in \<open>induction n; simp\<close>)+

text \<open>C40: \<open>LOCK_PARSE_MAX_DEPTH\<close> counts parentheses and negations only: a chain of \<open>&\<close> as long as the
  line buffer allows parses to an expression nested as deep as it is long, by calls of
  \<open>parse_boolexp_T\<close> nested as deep.\<close>

theorem and_chain_not_bounded:
  assumes "good_object env 1" "5 * n + 4 \<le> LBUF_SIZE - 1"
  shows "parse_boolexp env (lock_text env Outer_other (and_chain n)) True = Some (and_chain n) \<and> nesting (and_chain n) = n"
proof -
  have "\<not> is_or (and_chain n)" by (cases n) auto
  then show ?thesis using parse_lock_text [of env "and_chain n"] and_chain_facts [OF assms(1), of n] assms(2)
    by (simp add: fits_def outer_text outer_depth LOCK_PARSE_MAX_DEPTH_def)
qed

theorem and_chain_not_bounded_witness:
  "\<exists>s b. parse_boolexp sample_env s True = Some b \<and> LOCK_PARSE_MAX_DEPTH < nesting b"
proof -
  have "parse_boolexp sample_env (lock_text sample_env Outer_other (and_chain 6000)) True = Some (and_chain 6000) \<and>
      nesting (and_chain 6000) = 6000"
    by (rule and_chain_not_bounded [OF sample_good]) (simp_all add: LBUF_SIZE_def)
  then have "parse_boolexp sample_env (lock_text sample_env Outer_other (and_chain 6000)) True = Some (and_chain 6000) \<and>
      LOCK_PARSE_MAX_DEPTH < nesting (and_chain 6000)" by (simp add: LOCK_PARSE_MAX_DEPTH_def)
  then show ?thesis by blast
qed
end
