(* ===== verification/Cron.thy ===== *)
theory Cron
  imports Boolexp Scheduler
begin

text \<open>
  The \<open>@cron\<close> facility, \<open>mux/modules/engine/cron.cpp\<close>: five-field specifications parsed into
  bitmaps, the search for the next local minute they match, and the table of entries, each
  with a task in the scheduler.

  A pointer to an entry is a number; the table is the linked list from \<open>cron_head\<close> on, as pairs
  of address and entry.  The offset of local time at a point of time
  (\<open>TimezoneCache::queryLocalOffsetAtUTC\<close>) is a parameter \<open>offset\<close>; the fields of a \<open>FIELDEDTIME\<close>
  are integers, none of which leaves the range of its C type here.
\<close>

section \<open>Bitmaps\<close>

definition CRON_DOM_STAR :: nat where "CRON_DOM_STAR = 1"
definition CRON_DOW_STAR :: nat where "CRON_DOW_STAR = 2"

record CRONTAB =
  cron_obj :: int
  cron_atr :: int
  cronstr :: bytes
  cron_minute :: "64 word"
  cron_hour :: "32 word"
  cron_dom :: "32 word"
  cron_month :: "16 word"
  cron_dow :: "8 word"
  cron_flags :: nat
  ltaNext :: int

text \<open>The position of the lowest bit of a word that is not zero.\<close>

definition ctz64 :: "64 word \<Rightarrow> int" where
  "ctz64 x = int (length (takeWhile (\<lambda>i. \<not> bit x i) [0 ..< 64]))"

definition next_set_bit :: "64 word \<Rightarrow> int \<Rightarrow> int" where
  "next_set_bit bitmap pos =
     (if pos > 63 then -1
      else
        (let mask = bitmap AND NOT (push_bit (nat pos) 1 - 1)
         in if mask = 0 then -1 else ctz64 mask))"

definition first_set_bit :: "64 word \<Rightarrow> int" where
  "first_set_bit bitmap = (if bitmap = 0 then -1 else ctz64 bitmap)"

section \<open>Dates\<close>

definition cron_days_in_month :: "int \<Rightarrow> int \<Rightarrow> int" where
  "cron_days_in_month year month =
     (if month < 1 \<or> month > 12 then 31
      else
        (let d = [31, 28, 31, 30, 31, 30, 31, 31, 30, 31, 30, 31] ! nat (month - 1)
         in if month = 2 \<and> isLeapYear year then 29 else d))"

definition cron_day_of_week :: "int \<Rightarrow> int \<Rightarrow> int \<Rightarrow> int" where
  "cron_day_of_week y m d =
     (let y = (if m < 3 then y - 1 else y)
      in (y + y sdiv 4 - y sdiv 100 + y sdiv 400 + [0, 3, 2, 5, 0, 3, 5, 1, 4, 6, 2, 4] ! nat (m - 1) + d) smod 7)"

section \<open>Parsing a specification\<close>

definition month_names :: "(bytes \<times> int) list" where
  "month_names = [(ascii ''jan'', 1), (ascii ''feb'', 2), (ascii ''mar'', 3), (ascii ''apr'', 4), (ascii ''may'', 5), (ascii ''jun'', 6),
     (ascii ''jul'', 7), (ascii ''aug'', 8), (ascii ''sep'', 9), (ascii ''oct'', 10), (ascii ''nov'', 11), (ascii ''dec'', 12)]"

definition dow_names :: "(bytes \<times> int) list" where
  "dow_names = [(ascii ''sun'', 0), (ascii ''mon'', 1), (ascii ''tue'', 2), (ascii ''wed'', 3), (ascii ''thu'', 4), (ascii ''fri'', 5),
     (ascii ''sat'', 6)]"

definition name_matches :: "bytes \<Rightarrow> bytes \<Rightarrow> bool" where
  "name_matches p n \<longleftrightarrow>
     peek p OR 0x20 = n ! 0 \<and> peek (drop 1 p) OR 0x20 = n ! 1 \<and> peek (drop 2 p) OR 0x20 = n ! 2"

fun parse_cron_name :: "bytes \<Rightarrow> (bytes \<times> int) list \<Rightarrow> int \<times> bytes" where
  "parse_cron_name p [] = (-1, p)"
| "parse_cron_name p ((n, v) # table) = (if name_matches p n then (v, drop 3 p) else parse_cron_name p table)"

fun cron_digits :: "int \<Rightarrow> int \<Rightarrow> bytes \<Rightarrow> (int \<times> bytes) option" where
  "cron_digits high val [] = Some (val, [])"
| "cron_digits high val (c # p) =
     (if mux_isdigit c then
        (if val > high then None else cron_digits high (val * 10 + uint (c - 0x30)) p)
      else Some (val, c # p))"

definition parse_cron_value :: "bytes \<Rightarrow> int \<Rightarrow> int \<Rightarrow> (bytes \<times> int) list option \<Rightarrow> int \<times> bytes" where
  "parse_cron_value p low high names =
     (if mux_isdigit (peek p) then
        (case cron_digits high 0 p of
           None \<Rightarrow> (-1, p)
         | Some (val, p) \<Rightarrow> (if val < low \<or> val > high then -1 else val, p))
      else
        (case names of
           Some table \<Rightarrow> if mux_isazAZ (peek p) then parse_cron_name p table else (-1, p)
         | None \<Rightarrow> (-1, p)))"

text \<open>The range and the rest behind it, \<open>None\<close> for an error.\<close>

definition cron_range :: "bytes \<Rightarrow> int \<Rightarrow> int \<Rightarrow> (bytes \<times> int) list option \<Rightarrow> (bool \<times> int \<times> int \<times> bytes) option" where
  "cron_range p low high names =
     (if peek p = 0x2A then Some (True, low, high, tl p)
      else
        (case parse_cron_value p low high names of (begin, p) \<Rightarrow>
           if begin < 0 then None
           else if peek p = 0x2D then
             (case parse_cron_value (tl p) low high names of (e, p) \<Rightarrow>
                if e < 0 \<or> e < begin then None else Some (False, begin, e, p))
           else Some (False, begin, begin, p)))"

definition cron_step :: "bytes \<Rightarrow> int \<Rightarrow> (int \<times> bytes) option" where
  "cron_step p high =
     (if peek p = 0x2F then
        (if \<not> mux_isdigit (peek (tl p)) then None
         else
           (case cron_digits high 0 (tl p) of
              None \<Rightarrow> None
            | Some (step, p) \<Rightarrow> if step \<le> 0 then None else Some (step, p)))
      else Some (1, p))"

text \<open>The loop that sets the bits; the step is positive.\<close>

function cron_set_bits :: "64 word \<Rightarrow> int \<Rightarrow> int \<Rightarrow> int \<Rightarrow> int \<Rightarrow> 64 word" where
  "cron_set_bits bitmap low i e step =
     (if i \<le> e \<and> 0 < step then cron_set_bits (bitmap OR push_bit (nat (i - low)) 1) low (i + step) e step else bitmap)"
  by pat_completeness auto
termination by (relation "measure (\<lambda>(_, _, i, e, _). nat (e + 1 - i))") auto

declare cron_set_bits.simps [simp del]

lemma cron_digits_shorter: "cron_digits high val p = Some (v, q) \<Longrightarrow> length q \<le> length p"
  by (induction high val p rule: cron_digits.induct) (auto split: if_splits)

lemma parse_cron_name_shorter: "parse_cron_name p table = (v, q) \<Longrightarrow> length q \<le> length p"
  by (induction p table rule: parse_cron_name.induct) (auto split: if_splits)

lemma parse_cron_value_shorter: "parse_cron_value p low high names = (v, q) \<Longrightarrow> length q \<le> length p"
  by (auto simp: parse_cron_value_def split: if_splits option.splits dest: cron_digits_shorter parse_cron_name_shorter)

lemma cron_range_shorter: "cron_range p low high names = Some (s, b, e, q) \<Longrightarrow> length q \<le> length p"
  by (auto simp: cron_range_def split: if_splits prod.splits dest!: parse_cron_value_shorter)

lemma cron_step_shorter: "cron_step p high = Some (s, q) \<Longrightarrow> length q \<le> length p"
  by (auto simp: cron_step_def split: if_splits option.splits dest!: cron_digits_shorter)

lemma cron_item_shorter:
  assumes "cron_range p low high names = Some (s, b, e, p1)" "cron_step p1 high = Some (k, p2)" "peek p2 = 0x2C"
  shows "length (tl p2) < length p"
  using cron_range_shorter [OF assms(1)] cron_step_shorter [OF assms(2)] assms(3) by (cases p2) auto

function parse_cron_items :: "64 word \<Rightarrow> int \<Rightarrow> int \<Rightarrow> bool \<Rightarrow> bytes \<Rightarrow> (bytes \<times> int) list option \<Rightarrow> (64 word \<times> bool \<times> bytes) option" where
  "parse_cron_items bitmap low high bStar p names =
     (case cron_range p low high names of
        None \<Rightarrow> None
      | Some (star, begin, e, p1) \<Rightarrow>
          (case cron_step p1 high of
             None \<Rightarrow> None
           | Some (step, p2) \<Rightarrow>
               (let bitmap = cron_set_bits bitmap low begin e step; bStar = (bStar \<or> star)
                in if peek p2 \<noteq> 0x2C then Some (bitmap, bStar, p2)
                   else parse_cron_items bitmap low high bStar (tl p2) names)))"
  by pat_completeness auto
termination
  by (relation "measure (\<lambda>(_, _, _, _, p, _). length p)") (auto dest: cron_item_shorter)

declare parse_cron_items.simps [simp del]

definition parse_cron_field :: "int \<Rightarrow> int \<Rightarrow> bytes \<Rightarrow> (bytes \<times> int) list option \<Rightarrow> (64 word \<times> bool \<times> bytes) option" where
  "parse_cron_field low high p names =
     (let p = skip_whitespace p
      in if peek p = 0 then None
         else map_option (\<lambda>(bitmap, bStar, p). (bitmap, bStar, skip_whitespace p)) (parse_cron_items 0 low high False p names))"

section \<open>The next time\<close>

definition UTC2Local :: "(int \<Rightarrow> int) \<Rightarrow> int \<Rightarrow> int" where
  "UTC2Local offset t = t + offset t"

definition Local2UTC :: "(int \<Rightarrow> int) \<Rightarrow> int \<Rightarrow> int" where
  "Local2UTC offset t =
     (let ltaUTC2 = t - offset t; offset2 = offset ltaUTC2
      in if ltaUTC2 + offset2 = t then ltaUTC2 else t - offset2)"

text \<open>\<open>1u << iDow\<close> is defined for the years from 1 on, where \<open>iDow\<close> is not negative.\<close>

definition day_matches :: "CRONTAB \<Rightarrow> int \<Rightarrow> int \<Rightarrow> int \<Rightarrow> bool" where
  "day_matches crp y m d =
     (let iDow = cron_day_of_week y m d;
          bDomMatch = bit (cron_dom crp) (nat (d - 1));
          bDowMatch = bit (cron_dow crp) (nat iDow)
      in if cron_flags crp AND (CRON_DOM_STAR OR CRON_DOW_STAR) \<noteq> 0 then bDomMatch \<and> bDowMatch else bDomMatch \<or> bDowMatch)"

text \<open>The minute behind the time of \<open>ft\<close>.\<close>

definition next_minute :: "FIELDEDTIME \<Rightarrow> FIELDEDTIME" where
  "next_minute ft =
     (let ft = ft\<lparr>iMinute := iMinute ft + 1, iSecond := 0, iMillisecond := 0, iMicrosecond := 0, iNanosecond := 0\<rparr>
      in if iMinute ft \<ge> 60 then
           (let ft = ft\<lparr>iMinute := 0, iHour := iHour ft + 1\<rparr>
            in if iHour ft \<ge> 24 then ft\<lparr>iHour := 0, iDayOfMonth := iDayOfMonth ft + 1\<rparr> else ft)
         else ft)"

text \<open>One round of the search loop: \<open>Inl\<close> the result of the function, \<open>Inr\<close> the fields for the next
  round.\<close>

definition cron_round :: "CRONTAB \<Rightarrow> FIELDEDTIME \<Rightarrow> FIELDEDTIME option + FIELDEDTIME" where
  "cron_round crp ft =
     (let m = next_set_bit (ucast (cron_month crp)) (iMonth ft - 1)
      in if m = -1 then
           (let ft = ft\<lparr>iYear := iYear ft + 1, iMonth := first_set_bit (ucast (cron_month crp)) + 1\<rparr>
            in if iMonth ft < 1 then Inl None else Inr (ft\<lparr>iDayOfMonth := 1, iHour := 0, iMinute := 0\<rparr>))
         else if m + 1 \<noteq> iMonth ft then Inr (ft\<lparr>iMonth := m + 1, iDayOfMonth := 1, iHour := 0, iMinute := 0\<rparr>)
         else if iDayOfMonth ft > cron_days_in_month (iYear ft) (iMonth ft) then
           (let ft = (if iMonth ft + 1 > 12 then ft\<lparr>iMonth := 1, iYear := iYear ft + 1\<rparr> else ft\<lparr>iMonth := iMonth ft + 1\<rparr>)
            in Inr (ft\<lparr>iDayOfMonth := 1, iHour := 0, iMinute := 0\<rparr>))
         else if \<not> day_matches crp (iYear ft) (iMonth ft) (iDayOfMonth ft) then
           Inr (ft\<lparr>iDayOfMonth := iDayOfMonth ft + 1, iHour := 0, iMinute := 0\<rparr>)
         else
           (let h = next_set_bit (ucast (cron_hour crp)) (iHour ft)
            in if h = -1 then Inr (ft\<lparr>iDayOfMonth := iDayOfMonth ft + 1, iHour := 0, iMinute := 0\<rparr>)
               else
                 (let ft = (if h \<noteq> iHour ft then ft\<lparr>iHour := h, iMinute := 0\<rparr> else ft);
                      mn = next_set_bit (cron_minute crp) (iMinute ft)
                  in if mn = -1 then
                       (if iHour ft + 1 \<ge> 24 then Inr (ft\<lparr>iHour := 0, iMinute := 0, iDayOfMonth := iDayOfMonth ft + 1\<rparr>)
                        else Inr (ft\<lparr>iHour := iHour ft + 1, iMinute := 0\<rparr>))
                     else
                       Inl (Some (ft\<lparr>iMinute := mn, iSecond := 0, iMillisecond := 0, iMicrosecond := 0, iNanosecond := 0,
                          iDayOfWeek := cron_day_of_week (iYear ft) (iMonth ft) (iDayOfMonth ft)\<rparr>)))))"

lemma ctz64_range: "0 \<le> ctz64 x" "ctz64 x \<le> 64"
  using length_takeWhile_le [of "\<lambda>i. \<not> bit x i" "[0 ..< 64]"] by (auto simp: ctz64_def)

lemma bit_low_mask: "bit (bitmap AND NOT (push_bit k 1 - 1)) i \<longleftrightarrow> bit bitmap i \<and> k \<le> i" for bitmap :: "64 word"
proof -
  have "push_bit k 1 - 1 = (mask k :: 64 word)" by (simp add: mask_eq_exp_minus_1 push_bit_eq_mult)
  then show ?thesis by (auto simp: bit_simps dest: bit_imp_le_length)
qed

lemma ctz64_least:
  assumes "x \<noteq> 0"
  shows "bit x (nat (ctz64 x))" "ctz64 x < 64" "\<And>i. i < nat (ctz64 x) \<Longrightarrow> \<not> bit x i"
proof -
  let ?n = "length (takeWhile (\<lambda>i. \<not> bit x i) [0 ..< 64])"
  obtain k where k: "bit x k" using assms by (auto simp: bit_eq_iff)
  have "k < 64" using bit_imp_le_length [OF k] by simp
  then have "takeWhile (\<lambda>i. \<not> bit x i) [0 ..< 64] \<noteq> [0 ..< 64]" using k by (auto simp: takeWhile_eq_all_conv)
  then have n: "?n < 64"
    using length_takeWhile_le [of "\<lambda>i. \<not> bit x i" "[0 ..< 64]"] takeWhile_eq_take [of "\<lambda>i. \<not> bit x i" "[0 ..< 64]"]
    by (metis diff_zero le_neq_implies_less length_upt take_all_iff)
  then show "ctz64 x < 64" by (simp add: ctz64_def)
  show "bit x (nat (ctz64 x))" using nth_length_takeWhile [of "\<lambda>i. \<not> bit x i" "[0 ..< 64]"] n by (simp add: ctz64_def)
  show "\<not> bit x i" if "i < nat (ctz64 x)" for i
    using that nth_mem [of i "takeWhile (\<lambda>i. \<not> bit x i) [0 ..< 64]"] set_takeWhileD [of i "\<lambda>i. \<not> bit x i" "[0 ..< 64]"] n
    by (auto simp: ctz64_def takeWhile_nth)
qed

lemma next_set_bit_cases:
  assumes "0 \<le> pos"
  obtains (none) "next_set_bit x pos = -1" "\<And>i. pos \<le> int i \<Longrightarrow> \<not> bit x i"
  | (found) n where "next_set_bit x pos = int n" "pos \<le> int n" "bit x n" "\<And>i. pos \<le> int i \<Longrightarrow> i < n \<Longrightarrow> \<not> bit x i"
proof -
  let ?mask = "x AND NOT (push_bit (nat pos) 1 - 1)"
  have b: "bit ?mask i \<longleftrightarrow> bit x i \<and> nat pos \<le> i" for i by (rule bit_low_mask)
  consider "pos > 63" | "pos \<le> 63" "?mask = 0" | "pos \<le> 63" "?mask \<noteq> 0" by linarith
  then show thesis
  proof cases
    case 1
    then show ?thesis using bit_imp_le_length [of x] by (intro none) (fastforce simp: next_set_bit_def)+
  next
    case 2
    then have "\<not> bit x i" if "pos \<le> int i" for i using b [of i] that by (simp add: nat_le_iff)
    then show ?thesis using 2 by (intro none) (simp_all add: next_set_bit_def)
  next
    case 3
    have "next_set_bit x pos = int (nat (ctz64 ?mask))" using 3 ctz64_range [of ?mask] by (simp add: next_set_bit_def)
    moreover have "bit x i \<Longrightarrow> pos \<le> int i \<Longrightarrow> \<not> i < nat (ctz64 ?mask)" for i using ctz64_least(3) [OF 3(2), of i] b [of i] by auto
    ultimately show ?thesis using ctz64_least(1) [OF 3(2)] b by (intro found [of "nat (ctz64 ?mask)"]) auto
  qed
qed

lemma next_set_bit_ge: "next_set_bit x pos = -1 \<or> pos \<le> next_set_bit x pos \<and> 0 \<le> next_set_bit x pos \<and> next_set_bit x pos \<le> 64"
proof (cases "0 \<le> pos")
  case True
  then show ?thesis
    by (cases rule: next_set_bit_cases [of pos x]) (auto dest: bit_imp_le_length)
next
  case False
  then show ?thesis using ctz64_range [of "x AND NOT (push_bit (nat pos) 1 - 1)"] by (simp add: next_set_bit_def Let_def)
qed

lemma civil_date_days: "civil_date y m d \<longleftrightarrow> 1 \<le> m \<and> m \<le> 12 \<and> 1 \<le> d \<and> d \<le> cron_days_in_month y m"
proof (cases "1 \<le> m \<and> m \<le> 12")
  case True
  then show ?thesis using month_cases [of m]
    by (auto simp: civil_date_def cron_days_in_month_def daystab_table Let_def)
qed (auto simp: civil_date_def)

lemma days_in_month_le: "cron_days_in_month y m \<le> 31"
  using month_cases [of m] by (cases "1 \<le> m \<and> m \<le> 12") (auto simp: cron_days_in_month_def Let_def)

lemma cron_round_progress:
  assumes "cron_round crp ft = Inr ft'" "iYear ft < yEnd"
  shows "((nat (yEnd - iYear ft'), nat (66 - iMonth ft'), nat (33 - iDayOfMonth ft'), nat (66 - iHour ft')),
    nat (yEnd - iYear ft), nat (66 - iMonth ft), nat (33 - iDayOfMonth ft), nat (66 - iHour ft))
    \<in> less_than <*lex*> less_than <*lex*> less_than <*lex*> less_than"
  using assms next_set_bit_ge [of "ucast (cron_month crp)" "iMonth ft - 1"] next_set_bit_ge [of "ucast (cron_hour crp)" "iHour ft"]
    days_in_month_le [of "iYear ft" "iMonth ft"]
  by (auto simp: cron_round_def Let_def split: if_splits)

function cron_search :: "CRONTAB \<Rightarrow> int \<Rightarrow> FIELDEDTIME \<Rightarrow> FIELDEDTIME option" where
  "cron_search crp yEnd ft =
     (if iYear ft < yEnd then
        (case cron_round crp ft of
           Inl r \<Rightarrow> r
         | Inr ft' \<Rightarrow> cron_search crp yEnd ft')
      else None)"
  by pat_completeness auto
termination
  by (relation "inv_image (less_than <*lex*> less_than <*lex*> less_than <*lex*> less_than)
      (\<lambda>(_, yEnd, ft). (nat (yEnd - iYear ft), nat (66 - iMonth ft), nat (33 - iDayOfMonth ft), nat (66 - iHour ft)))")
    (simp_all only: wf_inv_image wf_lex_prod wf_less_than in_inv_image prod.case cron_round_progress)

declare cron_search.simps [simp del]

definition cron_next_time :: "(int \<Rightarrow> int) \<Rightarrow> greg_cache \<Rightarrow> CRONTAB \<Rightarrow> int \<Rightarrow> int option \<times> greg_cache" where
  "cron_next_time offset cache crp ltaAfter =
     (case LinearTimeToFieldedTime cache (UTC2Local offset ltaAfter) of (ok, ft, cache) \<Rightarrow>
        if \<not> ok then (None, cache)
        else
          (let ft = next_minute ft
           in case cron_search crp (iYear ft + 5) ft of
                None \<Rightarrow> (None, cache)
              | Some ft \<Rightarrow> (Some (Local2UTC offset (snd (snd (FieldedTimeToLinearTime ft)))), cache)))"

section \<open>The table\<close>

text \<open>\<open>dispatch\<close> is the address of \<open>dispatch_CronEntry\<close>, \<open>allocated\<close> whether the scheduler gets memory for
  the task record.\<close>

record cron_state =
  cron_head :: "(nat \<times> CRONTAB) list"
  cron_sched :: CScheduler
  cron_cache :: greg_cache

definition set_next :: "nat \<Rightarrow> int \<Rightarrow> (nat \<times> CRONTAB) list \<Rightarrow> (nat \<times> CRONTAB) list" where
  "set_next crp lta = map (\<lambda>(a, e). if a = crp then (a, e\<lparr>ltaNext := lta\<rparr>) else (a, e))"

fun unlink :: "nat \<Rightarrow> (nat \<times> CRONTAB) list \<Rightarrow> (nat \<times> CRONTAB) list" where
  "unlink crp [] = []"
| "unlink crp ((a, e) # es) = (if a = crp then es else (a, e) # unlink crp es)"

definition cron_defer :: "nat \<Rightarrow> bool \<Rightarrow> nat \<Rightarrow> int \<Rightarrow> cron_state \<Rightarrow> cron_state" where
  "cron_defer dispatch allocated crp lta st =
     st\<lparr>cron_head := set_next crp lta (cron_head st),
        cron_sched := snd (DeferTask allocated (cron_sched st) lta PRIORITY_SYSTEM dispatch crp 0)\<rparr>"

definition cron_schedule :: "nat \<Rightarrow> (int \<Rightarrow> int) \<Rightarrow> bool \<Rightarrow> int \<Rightarrow> nat \<Rightarrow> CRONTAB \<Rightarrow> cron_state \<Rightarrow> cron_state" where
  "cron_schedule dispatch offset allocated ltaNow crp e st =
     (case cron_next_time offset (cron_cache st) e ltaNow of
        (None, c) \<Rightarrow> st\<lparr>cron_cache := c\<rparr>
      | (Some lta, c) \<Rightarrow> cron_defer dispatch allocated crp lta (st\<lparr>cron_cache := c\<rparr>))"

definition cron_remove :: "nat \<Rightarrow> nat \<Rightarrow> cron_state \<Rightarrow> cron_state" where
  "cron_remove dispatch crp st =
     st\<lparr>cron_sched := CancelTask (cron_sched st) (Some dispatch) crp 0, cron_head := unlink crp (cron_head st)\<rparr>"

text \<open>The task of an entry.  \<open>did_it\<close> triggers the attribute, which puts commands into the queues of
  the scheduler.  The entry is reached through the pointer the task was scheduled with: \<open>None\<close> is the
  use of an entry that is not in the table, one that has been freed.\<close>

definition dispatch_CronEntry :: "nat \<Rightarrow> (int \<Rightarrow> int) \<Rightarrow> (int \<Rightarrow> bool) \<Rightarrow> (int \<Rightarrow> bool) \<Rightarrow>
    (int \<Rightarrow> int \<Rightarrow> CScheduler \<Rightarrow> CScheduler) \<Rightarrow> bool \<Rightarrow> int \<Rightarrow> nat \<Rightarrow> cron_state \<Rightarrow> cron_state option" where
  "dispatch_CronEntry dispatch offset Good_obj Going did_it allocated ltaNow crp st =
     (case map_of (cron_head st) crp of
        None \<Rightarrow> None
      | Some e \<Rightarrow>
          if \<not> Good_obj (cron_obj e) \<or> Going (cron_obj e) then Some (cron_remove dispatch crp st)
          else
            (let st = st\<lparr>cron_sched := did_it (cron_obj e) (cron_atr e) (cron_sched st)\<rparr>
             in case cron_next_time offset (cron_cache st) e ltaNow of
                  (Some lta, c) \<Rightarrow> Some (cron_defer dispatch allocated crp lta (st\<lparr>cron_cache := c\<rparr>))
                | (None, c) \<Rightarrow> Some (cron_remove dispatch crp (st\<lparr>cron_cache := c\<rparr>))))"

fun cron_clr_loop :: "nat \<Rightarrow> int \<Rightarrow> int \<Rightarrow> (nat \<times> CRONTAB) list \<Rightarrow> nat \<Rightarrow> CScheduler \<Rightarrow> nat \<times> (nat \<times> CRONTAB) list \<times> CScheduler" where
  "cron_clr_loop dispatch thing atr [] n sc = (n, [], sc)"
| "cron_clr_loop dispatch thing atr ((crp, e) # es) n sc =
     (if cron_obj e = thing \<and> (atr = NOTHING \<or> cron_atr e = atr) then
        cron_clr_loop dispatch thing atr es (n + 1) (CancelTask sc (Some dispatch) crp 0)
      else
        (case cron_clr_loop dispatch thing atr es n sc of (n, es, sc) \<Rightarrow> (n, (crp, e) # es, sc)))"

definition cron_clr :: "nat \<Rightarrow> int \<Rightarrow> int \<Rightarrow> cron_state \<Rightarrow> nat \<times> cron_state" where
  "cron_clr dispatch thing atr st =
     (case cron_clr_loop dispatch thing atr (cron_head st) 0 (cron_sched st) of (n, es, sc) \<Rightarrow>
        (n, st\<lparr>cron_head := es, cron_sched := sc\<rparr>))"

definition cron_clear_object :: "nat \<Rightarrow> int \<Rightarrow> cron_state \<Rightarrow> cron_state" where
  "cron_clear_object dispatch thing st = snd (cron_clr dispatch thing NOTHING st)"

definition map_sunday :: "8 word \<Rightarrow> 8 word" where
  "map_sunday dow = (if dow AND push_bit 7 1 \<noteq> 0 then (dow OR 1) AND 0x7F else dow)"

text \<open>The five fields of \<open>timestr\<close>, put into \<open>crp\<close>.\<close>

definition cron_parse :: "bytes \<Rightarrow> CRONTAB \<Rightarrow> CRONTAB option" where
  "cron_parse timestr crp =
     (case parse_cron_field 0 59 timestr None of None \<Rightarrow> None | Some (minute, _, p) \<Rightarrow>
      (case parse_cron_field 0 23 p None of None \<Rightarrow> None | Some (hour, _, p) \<Rightarrow>
      (case parse_cron_field 1 31 p None of None \<Rightarrow> None | Some (days, bDomStar, p) \<Rightarrow>
      (case parse_cron_field 1 12 p (Some month_names) of None \<Rightarrow> None | Some (month, _, p) \<Rightarrow>
      (case parse_cron_field 0 7 p (Some dow_names) of None \<Rightarrow> None | Some (dow, bDowStar, p) \<Rightarrow>
         if peek (skip_whitespace p) \<noteq> 0 then None
         else
           Some (crp\<lparr>cron_minute := minute, cron_hour := ucast hour, cron_dom := ucast days, cron_month := ucast month,
                     cron_dow := map_sunday (ucast dow),
                     cron_flags := (if bDomStar then CRON_DOM_STAR else 0) OR (if bDowStar then CRON_DOW_STAR else 0)\<rparr>))))))"

definition CRONTAB_zero :: CRONTAB where
  "CRONTAB_zero = \<lparr>cron_obj = 0, cron_atr = 0, cronstr = [], cron_minute = 0, cron_hour = 0, cron_dom = 0, cron_month = 0,
     cron_dow = 0, cron_flags = 0, ltaNext = 0\<rparr>"

text \<open>\<open>new_crp\<close> is what \<open>new\<close> returns.\<close>

definition cron_add :: "nat \<Rightarrow> (int \<Rightarrow> int) \<Rightarrow> bool \<Rightarrow> int \<Rightarrow> nat option \<Rightarrow> int \<Rightarrow> int \<Rightarrow> bytes \<Rightarrow> cron_state \<Rightarrow> int \<times> cron_state" where
  "cron_add dispatch offset allocated ltaNow new_crp thing atr timestr st =
     (if list_ex (\<lambda>(_, e). cron_obj e = thing \<and> cron_atr e = atr \<and> cronstr e = timestr) (cron_head st) then (-1, st)
      else
        (case new_crp of
           None \<Rightarrow> (0, st)
         | Some crp \<Rightarrow>
             (case cron_parse timestr (CRONTAB_zero\<lparr>cron_obj := thing, cron_atr := atr, cronstr := take (SBUF_SIZE - 1) timestr\<rparr>) of
                None \<Rightarrow> (0, st)
              | Some e \<Rightarrow> (1, cron_schedule dispatch offset allocated ltaNow crp e (st\<lparr>cron_head := (crp, e) # cron_head st\<rparr>)))))"

section \<open>The commands\<close>

text \<open>What the commands know of the database and of the executor; the executor is fixed.
  \<open>parse_attrib\<close> gives the object and the number of the attribute, if it has one; \<open>match_everything\<close> is the
  result of matching a name.\<close>

record cron_env =
  parse_attrib :: "bytes \<Rightarrow> (int \<times> int option) option"
  match_everything :: "bytes \<Rightarrow> int"
  cron_Good_obj :: "int \<Rightarrow> bool"
  Controls :: "int \<Rightarrow> bool"
  cron_Owner :: "int \<Rightarrow> int"
  See_All :: bool
  cron_attr_name :: "int \<Rightarrow> bytes option"
  cron_unparse :: "int \<Rightarrow> bytes"

datatype cron_message =
    Cron_usage
  | Crondel_usage
  | No_match
  | NOPERM
  | Cron_syntax
  | Cron_exists
  | Cron_added
  | Cron_removed nat
  | Cron_bad_attribute bytes int
  | Cron_line bytes bytes bytes int int int int int
  | Cron_matched nat

definition do_cron :: "cron_env \<Rightarrow> nat \<Rightarrow> (int \<Rightarrow> int) \<Rightarrow> bool \<Rightarrow> int \<Rightarrow> nat option \<Rightarrow> bytes \<Rightarrow> bytes \<Rightarrow> cron_state \<Rightarrow>
    cron_message \<times> cron_state" where
  "do_cron env dispatch offset allocated ltaNow new_crp objattr timestr st =
     (if timestr = [] then (Cron_usage, st)
      else
        (case parse_attrib env objattr of
           None \<Rightarrow> (No_match, st)
         | Some (thing, pattr) \<Rightarrow>
             if thing = NOTHING then (No_match, st)
             else
               (case pattr of
                  None \<Rightarrow> (No_match, st)
                | Some atr \<Rightarrow>
                    if \<not> Controls env thing then (NOPERM, st)
                    else
                      (case cron_add dispatch offset allocated ltaNow new_crp thing atr timestr st of (retcode, st) \<Rightarrow>
                         (if retcode = 0 then Cron_syntax else if retcode = -1 then Cron_exists else Cron_added, st)))))"

definition crondel_target :: "cron_env \<Rightarrow> bytes \<Rightarrow> (int \<times> int) option" where
  "crondel_target env objattr =
     (if 0x2F \<in> set objattr then
        (case parse_attrib env objattr of
           Some (thing, Some atr) \<Rightarrow> if thing = NOTHING then None else Some (thing, atr)
         | _ \<Rightarrow> None)
      else
        (let thing = match_everything env objattr
         in if cron_Good_obj env thing then Some (thing, NOTHING) else None))"

definition do_crondel :: "cron_env \<Rightarrow> nat \<Rightarrow> bytes \<Rightarrow> cron_state \<Rightarrow> cron_message \<times> cron_state" where
  "do_crondel env dispatch objattr st =
     (if objattr = [] then (Crondel_usage, st)
      else
        (case crondel_target env objattr of
           None \<Rightarrow> (No_match, st)
         | Some (thing, atr) \<Rightarrow>
             if \<not> Controls env thing then (NOPERM, st)
             else (case cron_clr dispatch thing atr st of (n, st) \<Rightarrow> (Cron_removed n, st))))"

text \<open>The lines of the listing, with how many entries they are.\<close>

fun crontab_loop :: "cron_env \<Rightarrow> (int \<Rightarrow> int) \<Rightarrow> int \<Rightarrow> int \<Rightarrow> (nat \<times> CRONTAB) list \<Rightarrow> greg_cache \<Rightarrow>
    nat \<times> cron_message list \<times> greg_cache" where
  "crontab_loop env offset executor thing [] cache = (0, [], cache)"
| "crontab_loop env offset executor thing ((crp, e) # es) cache =
     (if thing \<noteq> NOTHING \<and> cron_obj e \<noteq> thing \<or> thing = NOTHING \<and> cron_Owner env (cron_obj e) \<noteq> executor \<and> \<not> See_All env then
        crontab_loop env offset executor thing es cache
      else
        (case cron_attr_name env (cron_atr e) of
           None \<Rightarrow>
             (case crontab_loop env offset executor thing es cache of (n, ls, cache) \<Rightarrow>
                (n + 1, Cron_bad_attribute (cron_unparse env (cron_obj e)) (cron_atr e) # ls, cache))
         | Some name \<Rightarrow>
             (case LinearTimeToFieldedTime cache (UTC2Local offset (ltaNext e)) of (_, ft, cache) \<Rightarrow>
              (case crontab_loop env offset executor thing es cache of (n, ls, cache) \<Rightarrow>
                 (n + 1,
                  Cron_line (cron_unparse env (cron_obj e)) name (cronstr e) (iYear ft) (iMonth ft) (iDayOfMonth ft) (iHour ft) (iMinute ft) # ls,
                  cache)))))"

definition do_crontab :: "cron_env \<Rightarrow> (int \<Rightarrow> int) \<Rightarrow> int \<Rightarrow> bytes \<Rightarrow> cron_state \<Rightarrow> cron_message list \<times> cron_state" where
  "do_crontab env offset executor objarg st =
     (let thing = (if objarg = [] then NOTHING else match_everything env objarg)
      in if objarg \<noteq> [] \<and> \<not> cron_Good_obj env thing then ([No_match], st)
         else if objarg \<noteq> [] \<and> \<not> Controls env thing then ([NOPERM], st)
         else
           (case crontab_loop env offset executor thing (cron_head st) (cron_cache st) of (n, ls, c) \<Rightarrow>
              (ls @ [Cron_matched n], st\<lparr>cron_cache := c\<rparr>)))"

section \<open>The search finds the first match\<close>

definition cron_ok :: "CRONTAB \<Rightarrow> bool" where
  "cron_ok crp \<longleftrightarrow> (\<forall>i. bit (cron_hour crp) i \<longrightarrow> i < 24) \<and> (\<forall>i. bit (cron_minute crp) i \<longrightarrow> i < 60) \<and>
     (\<forall>i. bit (cron_month crp) i \<longrightarrow> i < 12)"

definition cron_matches :: "CRONTAB \<Rightarrow> int \<Rightarrow> int \<Rightarrow> int \<Rightarrow> int \<Rightarrow> int \<Rightarrow> bool" where
  "cron_matches crp y m d h mi \<longleftrightarrow> civil_date y m d \<and> 0 \<le> h \<and> h < 24 \<and> 0 \<le> mi \<and> mi < 60 \<and>
     bit (cron_month crp) (nat (m - 1)) \<and> day_matches crp y m d \<and> bit (cron_hour crp) (nat h) \<and> bit (cron_minute crp) (nat mi)"

text \<open>Minutes in lexicographic order.\<close>

definition stamp_le :: "int \<Rightarrow> int \<Rightarrow> int \<Rightarrow> int \<Rightarrow> int \<Rightarrow> int \<Rightarrow> int \<Rightarrow> int \<Rightarrow> int \<Rightarrow> int \<Rightarrow> bool" where
  "stamp_le y m d h mi y' m' d' h' mi' \<longleftrightarrow>
     y < y' \<or> y = y' \<and> (m < m' \<or> m = m' \<and> (d < d' \<or> d = d' \<and> (h < h' \<or> h = h' \<and> mi \<le> mi')))"

definition ft_le :: "FIELDEDTIME \<Rightarrow> int \<Rightarrow> int \<Rightarrow> int \<Rightarrow> int \<Rightarrow> int \<Rightarrow> bool" where
  "ft_le ft y m d h mi \<longleftrightarrow> stamp_le (iYear ft) (iMonth ft) (iDayOfMonth ft) (iHour ft) (iMinute ft) y m d h mi"

lemmas stamp_defs = stamp_le_def ft_le_def

definition ft_ok :: "FIELDEDTIME \<Rightarrow> bool" where
  "ft_ok ft \<longleftrightarrow> 1 \<le> iMonth ft \<and> iMonth ft \<le> 12 \<and> 1 \<le> iDayOfMonth ft \<and> 0 \<le> iHour ft \<and> iHour ft < 24 \<and>
     0 \<le> iMinute ft \<and> iMinute ft < 60"

text \<open>No match from \<open>ft\<close> on comes before \<open>ft'\<close>.\<close>

definition skips :: "CRONTAB \<Rightarrow> FIELDEDTIME \<Rightarrow> FIELDEDTIME \<Rightarrow> bool" where
  "skips crp ft ft' \<longleftrightarrow> (\<forall>y m d h mi. cron_matches crp y m d h mi \<longrightarrow> ft_le ft y m d h mi \<longrightarrow> ft_le ft' y m d h mi)"

lemma skips_trans: "skips crp a b \<Longrightarrow> skips crp b c \<Longrightarrow> skips crp a c"
  by (auto simp: skips_def)

lemma matches_range:
  assumes "cron_matches crp y m d h mi"
  shows "1 \<le> m" "m \<le> 12" "1 \<le> d" "d \<le> cron_days_in_month y m" "0 \<le> h" "h < 24" "0 \<le> mi" "mi < 60"
    "bit (cron_month crp) (nat (m - 1))" "day_matches crp y m d" "bit (cron_hour crp) (nat h)" "bit (cron_minute crp) (nat mi)"
  using assms by (auto simp: cron_matches_def civil_date_days)

lemma bit_ucast_16: "bit (ucast (w :: 16 word) :: 64 word) i = bit w i"
  and bit_ucast_32: "bit (ucast (v :: 32 word) :: 64 word) i = bit v i"
  by (auto simp: bit_simps dest: bit_imp_le_length)

lemma first_set_bit_eq: "first_set_bit x = next_set_bit x 0"
  by (simp add: first_set_bit_def next_set_bit_def)

lemma month_wrap:
  assumes "ft_ok ft" "next_set_bit (ucast (cron_month crp)) (iMonth ft - 1) = -1"
    and "first_set_bit (ucast (cron_month crp)) + 1 = m0" "1 \<le> m0"
  shows "skips crp ft (ft\<lparr>iYear := iYear ft + 1, iMonth := m0, iDayOfMonth := 1, iHour := 0, iMinute := 0\<rparr>)"
proof -
  have p: "0 \<le> iMonth ft - 1" using assms(1) by (simp add: ft_ok_def)
  have a: "\<not> bit (cron_month crp) i" if "iMonth ft - 1 \<le> int i" for i
    using that assms(2) by (cases rule: next_set_bit_cases [OF p, of "ucast (cron_month crp)"]) (auto simp: bit_ucast_16)
  have b: "m0 - 1 \<le> int i" if "bit (cron_month crp) i" for i
    using that assms(3,4) by (cases rule: next_set_bit_cases [OF order_refl, of "ucast (cron_month crp)"])
      (auto simp: bit_ucast_16 first_set_bit_eq not_less [symmetric])
  show ?thesis unfolding skips_def
  proof (intro allI impI)
    fix y m d h mi
    assume m: "cron_matches crp y m d h mi" and l: "ft_le ft y m d h mi"
    note r = matches_range [OF m]
    have "m < iMonth ft" using a [of "nat (m - 1)"] r(1,9) by linarith
    moreover have "m0 \<le> m" using b [OF r(9)] r(1) by simp
    ultimately show "ft_le (ft\<lparr>iYear := iYear ft + 1, iMonth := m0, iDayOfMonth := 1, iHour := 0, iMinute := 0\<rparr>) y m d h mi"
      using l r by (auto simp: stamp_defs)
  qed
qed

lemma month_forward:
  assumes "ft_ok ft" "next_set_bit (ucast (cron_month crp)) (iMonth ft - 1) = k" "k \<noteq> -1"
  shows "skips crp ft (ft\<lparr>iMonth := k + 1, iDayOfMonth := 1, iHour := 0, iMinute := 0\<rparr>) \<or> k + 1 = iMonth ft"
    "iMonth ft \<le> k + 1" "bit (cron_month crp) (nat k)"
proof -
  have p: "0 \<le> iMonth ft - 1" using assms(1) by (simp add: ft_ok_def)
  obtain n where n: "k = int n" "iMonth ft - 1 \<le> int n" "bit (cron_month crp) n" "\<And>i. iMonth ft - 1 \<le> int i \<Longrightarrow> i < n \<Longrightarrow> \<not> bit (cron_month crp) i"
    using assms(2,3) by (cases rule: next_set_bit_cases [OF p, of "ucast (cron_month crp)"]) (auto simp: bit_ucast_16)
  show "iMonth ft \<le> k + 1" "bit (cron_month crp) (nat k)" using n by auto
  have "ft_le (ft\<lparr>iMonth := k + 1, iDayOfMonth := 1, iHour := 0, iMinute := 0\<rparr>) y m d h mi"
    if m: "cron_matches crp y m d h mi" and l: "ft_le ft y m d h mi" and ne: "k + 1 \<noteq> iMonth ft" for y m d h mi
  proof -
    note r = matches_range [OF m]
    have "\<not> (iMonth ft \<le> m \<and> m < k + 1)" using n(4) [of "nat (m - 1)"] r(1,9) n(1) by (auto simp: nat_less_iff)
    then show ?thesis using l r n(1,2) ne by (auto simp: stamp_defs)
  qed
  then show "skips crp ft (ft\<lparr>iMonth := k + 1, iDayOfMonth := 1, iHour := 0, iMinute := 0\<rparr>) \<or> k + 1 = iMonth ft"
    by (auto simp: skips_def)
qed

lemma day_overflow:
  assumes "ft_ok ft" "iDayOfMonth ft > cron_days_in_month (iYear ft) (iMonth ft)"
  shows "skips crp ft (ft\<lparr>iMonth := iMonth ft + 1, iDayOfMonth := 1, iHour := 0, iMinute := 0\<rparr>)"
    "iMonth ft = 12 \<Longrightarrow> skips crp ft (ft\<lparr>iMonth := 1, iYear := iYear ft + 1, iDayOfMonth := 1, iHour := 0, iMinute := 0\<rparr>)"
  using assms by (fastforce simp: skips_def stamp_defs dest: matches_range)+

lemma day_forward:
  assumes "\<And>h mi. cron_matches crp (iYear ft) (iMonth ft) (iDayOfMonth ft) h mi \<Longrightarrow> h < iHour ft \<or> h = iHour ft \<and> mi < iMinute ft"
  shows "skips crp ft (ft\<lparr>iDayOfMonth := iDayOfMonth ft + 1, iHour := 0, iMinute := 0\<rparr>)"
  unfolding skips_def
proof (intro allI impI)
  fix y m d h mi
  assume m: "cron_matches crp y m d h mi" and l: "ft_le ft y m d h mi"
  have "\<not> (y = iYear ft \<and> m = iMonth ft \<and> d = iDayOfMonth ft)" using assms [of h mi] m l by (auto simp: stamp_defs)
  then show "ft_le (ft\<lparr>iDayOfMonth := iDayOfMonth ft + 1, iHour := 0, iMinute := 0\<rparr>) y m d h mi"
    using l matches_range [OF m] by (auto simp: stamp_defs)
qed

lemma hour_none:
  assumes "0 \<le> iHour ft" "next_set_bit (ucast (cron_hour crp)) (iHour ft) = -1" "cron_matches crp y m d h mi"
  shows "h < iHour ft"
  using assms matches_range(5,11) [OF assms(3)]
  by (cases rule: next_set_bit_cases [OF assms(1), of "ucast (cron_hour crp)"]) (auto simp: bit_ucast_32 not_le [symmetric])

lemma hour_found:
  assumes "0 \<le> iHour ft" "next_set_bit (ucast (cron_hour crp)) (iHour ft) = k" "k \<noteq> -1"
  shows "iHour ft \<le> k" "bit (cron_hour crp) (nat k)"
    "\<And>y m d h mi. cron_matches crp y m d h mi \<Longrightarrow> iHour ft \<le> h \<Longrightarrow> k \<le> h"
proof -
  obtain n where n: "k = int n" "iHour ft \<le> int n" "bit (cron_hour crp) n" "\<And>i. iHour ft \<le> int i \<Longrightarrow> i < n \<Longrightarrow> \<not> bit (cron_hour crp) i"
    using assms(2,3) by (cases rule: next_set_bit_cases [OF assms(1), of "ucast (cron_hour crp)"]) (auto simp: bit_ucast_32)
  show "iHour ft \<le> k" "bit (cron_hour crp) (nat k)" using n by auto
  show "k \<le> h" if "cron_matches crp y m d h mi" "iHour ft \<le> h" for y m d h mi
    using n(1) n(4) [of "nat h"] matches_range(5,11) [OF that(1)] that(2) by (auto simp: nat_less_iff not_less [symmetric])
qed

lemma minute_none:
  assumes "0 \<le> p" "next_set_bit (cron_minute crp) p = -1" "cron_matches crp y m d h mi"
  shows "mi < p"
  using assms matches_range(7,12) [OF assms(3)]
  by (cases rule: next_set_bit_cases [OF assms(1), of "cron_minute crp"]) (auto simp: not_le [symmetric])

lemma minute_found:
  assumes "0 \<le> p" "next_set_bit (cron_minute crp) p = k" "k \<noteq> -1"
  shows "p \<le> k" "bit (cron_minute crp) (nat k)"
    "\<And>y m d h mi. cron_matches crp y m d h mi \<Longrightarrow> p \<le> mi \<Longrightarrow> k \<le> mi"
proof -
  obtain n where n: "k = int n" "p \<le> int n" "bit (cron_minute crp) n" "\<And>i. p \<le> int i \<Longrightarrow> i < n \<Longrightarrow> \<not> bit (cron_minute crp) i"
    using assms(2,3) by (cases rule: next_set_bit_cases [OF assms(1), of "cron_minute crp"]) auto
  show "p \<le> k" "bit (cron_minute crp) (nat k)" using n by auto
  show "k \<le> mi" if "cron_matches crp y m d h mi" "p \<le> mi" for y m d h mi
    using n(1) n(4) [of "nat mi"] matches_range(7,12) [OF that(1)] that(2) by (auto simp: nat_less_iff not_less [symmetric])
qed

text \<open>What a round of the search achieves.\<close>

definition round_ok :: "CRONTAB \<Rightarrow> FIELDEDTIME \<Rightarrow> FIELDEDTIME option + FIELDEDTIME \<Rightarrow> bool" where
  "round_ok crp ft r \<longleftrightarrow>
     (case r of
        Inl None \<Rightarrow> (\<forall>y m d h mi. \<not> cron_matches crp y m d h mi)
      | Inl (Some ft') \<Rightarrow>
          cron_matches crp (iYear ft') (iMonth ft') (iDayOfMonth ft') (iHour ft') (iMinute ft') \<and> skips crp ft ft' \<and>
          ft_le ft (iYear ft') (iMonth ft') (iDayOfMonth ft') (iHour ft') (iMinute ft') \<and> iYear ft' = iYear ft \<and>
          iSecond ft' = 0 \<and> iMillisecond ft' = 0 \<and> iMicrosecond ft' = 0 \<and> iNanosecond ft' = 0
      | Inr ft' \<Rightarrow> ft_ok ft' \<and> skips crp ft ft' \<and>
          ft_le ft (iYear ft') (iMonth ft') (iDayOfMonth ft') (iHour ft') (iMinute ft'))"

lemma skips_minute:
  assumes "skips crp ft ft'" "iYear ft'' = iYear ft'" "iMonth ft'' = iMonth ft'" "iDayOfMonth ft'' = iDayOfMonth ft'"
    "iHour ft'' = iHour ft'" "iMinute ft'' = iMinute ft'"
  shows "skips crp ft ft''"
  using assms by (simp add: skips_def stamp_defs)

lemma skips_to:
  assumes "\<And>y m d h mi. cron_matches crp y m d h mi \<Longrightarrow> ft_le ft y m d h mi \<Longrightarrow> ft_le ft' y m d h mi"
  shows "skips crp ft ft'"
  using assms by (simp add: skips_def)

lemma hour_forward:
  assumes "ft_ok ft" "next_set_bit (ucast (cron_hour crp)) (iHour ft) = k" "k \<noteq> -1" "k \<noteq> iHour ft"
  shows "skips crp ft (ft\<lparr>iHour := k, iMinute := 0\<rparr>)"
proof (rule skips_to)
  fix y m d h mi
  assume m: "cron_matches crp y m d h mi" and l: "ft_le ft y m d h mi"
  have p: "0 \<le> iHour ft" using assms(1) by (simp add: ft_ok_def)
  have "iHour ft < k" "iHour ft \<le> h \<Longrightarrow> k \<le> h" using hour_found [OF p assms(2,3)] assms(4) m by force+
  then show "ft_le (ft\<lparr>iHour := k, iMinute := 0\<rparr>) y m d h mi" using l matches_range [OF m] by (auto simp: stamp_defs)
qed

lemma round_month:
  assumes "ft_ok ft" "cron_ok crp"
    and "next_set_bit (ucast (cron_month crp)) (iMonth ft - 1) + 1 \<noteq> iMonth ft"
  shows "round_ok crp ft (cron_round crp ft)"
proof (cases "next_set_bit (ucast (cron_month crp)) (iMonth ft - 1) = -1")
  case True
  let ?m0 = "first_set_bit (ucast (cron_month crp)) + 1"
  show ?thesis
  proof (cases "?m0 < 1")
    case f: True
    have "\<not> bit (cron_month crp) i" for i
      using f by (cases rule: next_set_bit_cases [OF order_refl, of "ucast (cron_month crp)"])
        (auto simp: bit_ucast_16 first_set_bit_eq)
    then show ?thesis using True f by (simp add: cron_round_def round_ok_def Let_def cron_matches_def)
  next
    case f: False
    have "?m0 \<le> 12" using f assms(2)
      by (cases rule: next_set_bit_cases [OF order_refl, of "ucast (cron_month crp)"])
        (auto simp: bit_ucast_16 first_set_bit_eq cron_ok_def)
    then show ?thesis using True f month_wrap [OF assms(1) True refl] by (simp add: cron_round_def round_ok_def Let_def ft_ok_def stamp_defs)
  qed
next
  case False
  note f = month_forward [OF assms(1) refl False]
  have "nat (next_set_bit (ucast (cron_month crp)) (iMonth ft - 1)) < 12" using f(3) assms(2) by (simp add: cron_ok_def)
  then show ?thesis using False f(1,2) assms(1,3) by (auto simp: cron_round_def round_ok_def Let_def ft_ok_def stamp_defs)
qed

lemma round_day:
  assumes "ft_ok ft" "cron_ok crp" "next_set_bit (ucast (cron_month crp)) (iMonth ft - 1) + 1 = iMonth ft"
    and "iDayOfMonth ft > cron_days_in_month (iYear ft) (iMonth ft) \<or> \<not> day_matches crp (iYear ft) (iMonth ft) (iDayOfMonth ft) \<or>
      next_set_bit (ucast (cron_hour crp)) (iHour ft) = -1"
  shows "round_ok crp ft (cron_round crp ft)"
proof -
  have m: "next_set_bit (ucast (cron_month crp)) (iMonth ft - 1) \<noteq> -1" using assms(1,3) by (auto simp: ft_ok_def)
  consider (over) "iDayOfMonth ft > cron_days_in_month (iYear ft) (iMonth ft)"
    | (day) "\<not> iDayOfMonth ft > cron_days_in_month (iYear ft) (iMonth ft)" "\<not> day_matches crp (iYear ft) (iMonth ft) (iDayOfMonth ft)"
    | (hour) "\<not> iDayOfMonth ft > cron_days_in_month (iYear ft) (iMonth ft)" "day_matches crp (iYear ft) (iMonth ft) (iDayOfMonth ft)"
      "next_set_bit (ucast (cron_hour crp)) (iHour ft) = -1" using assms(4) by blast
  then show ?thesis
  proof cases
    case over
    show ?thesis using m assms(1,3) over day_overflow [OF assms(1) over, of crp]
      by (auto simp: cron_round_def round_ok_def Let_def ft_ok_def stamp_defs)
  next
    case day
    have "skips crp ft (ft\<lparr>iDayOfMonth := iDayOfMonth ft + 1, iHour := 0, iMinute := 0\<rparr>)"
      using day(2) by (intro day_forward) (auto dest: matches_range(10))
    then show ?thesis using m assms(1,3) day by (auto simp: cron_round_def round_ok_def Let_def ft_ok_def stamp_defs)
  next
    case hour
    have "0 \<le> iHour ft" using assms(1) by (simp add: ft_ok_def)
    then have "skips crp ft (ft\<lparr>iDayOfMonth := iDayOfMonth ft + 1, iHour := 0, iMinute := 0\<rparr>)"
      using hour_none [OF _ hour(3)] by (intro day_forward) blast
    then show ?thesis using m assms(1,3) hour by (auto simp: cron_round_def round_ok_def Let_def ft_ok_def stamp_defs)
  qed
qed

lemma ft_le_trans:
  "ft_le ft (iYear ft') (iMonth ft') (iDayOfMonth ft') (iHour ft') (iMinute ft') \<Longrightarrow> ft_le ft' y m d h mi \<Longrightarrow> ft_le ft y m d h mi"
  by (auto simp: stamp_defs)

lemma hour_next:
  assumes "ft_ok ft" "next_set_bit (cron_minute crp) (iMinute ft) = -1"
  shows "skips crp ft (ft\<lparr>iHour := iHour ft + 1, iMinute := 0\<rparr>)"
    "iHour ft = 23 \<Longrightarrow> skips crp ft (ft\<lparr>iDayOfMonth := iDayOfMonth ft + 1, iHour := 0, iMinute := 0\<rparr>)"
proof -
  have p: "0 \<le> iMinute ft" using assms(1) by (simp add: ft_ok_def)
  show "skips crp ft (ft\<lparr>iHour := iHour ft + 1, iMinute := 0\<rparr>)"
  proof (rule skips_to)
    fix y m d h mi
    assume m: "cron_matches crp y m d h mi" and l: "ft_le ft y m d h mi"
    show "ft_le (ft\<lparr>iHour := iHour ft + 1, iMinute := 0\<rparr>) y m d h mi"
      using minute_none [OF p assms(2) m] l matches_range [OF m] by (auto simp: stamp_defs)
  qed
  show "skips crp ft (ft\<lparr>iDayOfMonth := iDayOfMonth ft + 1, iHour := 0, iMinute := 0\<rparr>)" if "iHour ft = 23"
  proof (rule day_forward)
    fix h mi
    assume m: "cron_matches crp (iYear ft) (iMonth ft) (iDayOfMonth ft) h mi"
    show "h < iHour ft \<or> h = iHour ft \<and> mi < iMinute ft"
      using minute_none [OF p assms(2) m] matches_range(6) [OF m] that by auto
  qed
qed

lemma round_time:
  assumes "ft_ok ft" "cron_ok crp" "next_set_bit (ucast (cron_month crp)) (iMonth ft - 1) + 1 = iMonth ft"
    and "\<not> iDayOfMonth ft > cron_days_in_month (iYear ft) (iMonth ft)" "day_matches crp (iYear ft) (iMonth ft) (iDayOfMonth ft)"
    and "next_set_bit (ucast (cron_hour crp)) (iHour ft) = k" "k \<noteq> -1"
  shows "round_ok crp ft (cron_round crp ft)"
proof -
  define ft1 where "ft1 = (if k \<noteq> iHour ft then ft\<lparr>iHour := k, iMinute := 0\<rparr> else ft)"
  define mn where "mn = next_set_bit (cron_minute crp) (iMinute ft1)"
  have m: "next_set_bit (ucast (cron_month crp)) (iMonth ft - 1) \<noteq> -1" using assms(1,3) by (auto simp: ft_ok_def)
  have p: "0 \<le> iHour ft" using assms(1) by (simp add: ft_ok_def)
  note hf = hour_found [OF p assms(6,7)]
  have k: "iHour ft \<le> k" "k < 24" "bit (cron_hour crp) (nat k)" using hf(1,2) assms(2) p by (auto simp: cron_ok_def nat_less_iff)
  have s1: "skips crp ft ft1" using hour_forward [OF assms(1,6,7)] by (auto simp: ft1_def skips_def)
  have f1: "ft_ok ft1" "iHour ft1 = k" "iYear ft1 = iYear ft" "iMonth ft1 = iMonth ft" "iDayOfMonth ft1 = iDayOfMonth ft"
    "iHour ft1 = iHour ft \<longrightarrow> iMinute ft1 = iMinute ft"
    using assms(1) k p by (auto simp: ft1_def ft_ok_def)
  have e: "cron_round crp ft = (if mn = -1 then
          (if iHour ft1 + 1 \<ge> 24 then Inr (ft1\<lparr>iHour := 0, iMinute := 0, iDayOfMonth := iDayOfMonth ft1 + 1\<rparr>)
           else Inr (ft1\<lparr>iHour := iHour ft1 + 1, iMinute := 0\<rparr>))
        else Inl (Some (ft1\<lparr>iMinute := mn, iSecond := 0, iMillisecond := 0, iMicrosecond := 0, iNanosecond := 0,
           iDayOfWeek := cron_day_of_week (iYear ft1) (iMonth ft1) (iDayOfMonth ft1)\<rparr>)))"
    using m assms(3-7) unfolding cron_round_def Let_def mn_def ft1_def by (simp only: if_False if_True simp_thms)
  show ?thesis
  proof (cases "mn = -1")
    case True
    note n = hour_next [OF f1(1) True [unfolded mn_def]]
    show ?thesis
    proof (cases "iHour ft1 + 1 \<ge> 24")
      case h: True
      then have "skips crp ft (ft1\<lparr>iHour := 0, iMinute := 0, iDayOfMonth := iDayOfMonth ft1 + 1\<rparr>)"
        using skips_trans [OF s1 n(2)] k f1(2) by (auto intro: skips_minute)
      then show ?thesis unfolding e using True h f1 k(1) by (auto simp: round_ok_def ft_ok_def stamp_defs)
    next
      case h: False
      then show ?thesis unfolding e using True skips_trans [OF s1 n(1)] f1 k(1) by (auto simp: round_ok_def ft_ok_def stamp_defs)
    qed
  next
    case False
    have q: "0 \<le> iMinute ft1" using f1(1) by (simp add: ft_ok_def)
    note mf = minute_found [OF q mn_def [symmetric] False]
    let ?r = "ft1\<lparr>iMinute := mn, iSecond := 0, iMillisecond := 0, iMicrosecond := 0, iNanosecond := 0,
           iDayOfWeek := cron_day_of_week (iYear ft1) (iMonth ft1) (iDayOfMonth ft1)\<rparr>"
    have mn: "iMinute ft1 \<le> mn" "mn < 60" "bit (cron_minute crp) (nat mn)" using mf(1,2) assms(2) q by (auto simp: cron_ok_def nat_less_iff)
    have mo: "bit (cron_month crp) (nat (iMonth ft - 1))" using month_forward(3) [OF assms(1) refl m] assms(3) by (simp add: eq_diff_eq [symmetric])
    have "cron_matches crp (iYear ft1) (iMonth ft1) (iDayOfMonth ft1) (iHour ft1) mn"
      using f1 assms(1,4,5) k mn mo p q by (simp add: cron_matches_def civil_date_days ft_ok_def)
    moreover have "skips crp ft1 ?r"
      by (rule skips_to) (use mf(3) mn(1) in \<open>auto simp: stamp_defs\<close>)
    moreover have "ft_le ft (iYear ft1) (iMonth ft1) (iDayOfMonth ft1) (iHour ft1) mn"
      using f1 k(1) mn(1) by (auto simp: stamp_defs)
    ultimately show ?thesis unfolding e using False skips_trans [OF s1, of ?r] f1(3) by (simp add: round_ok_def)
  qed
qed

lemma cron_round_ok:
  assumes "ft_ok ft" "cron_ok crp"
  shows "round_ok crp ft (cron_round crp ft)"
  using round_month [OF assms] round_day [OF assms] round_time [OF assms _ _ _ refl] by blast

text \<open>The search: it ends (it is a total function), and finds the first match from \<open>ft\<close> on, if there is one
  before the year \<open>yEnd\<close>.\<close>

lemma cron_search_first:
  assumes "cron_ok crp" "ft_ok ft"
  shows "case cron_search crp yEnd ft of
      None \<Rightarrow> (\<forall>y m d h mi. cron_matches crp y m d h mi \<longrightarrow> ft_le ft y m d h mi \<longrightarrow> yEnd \<le> y)
    | Some ft' \<Rightarrow>
        cron_matches crp (iYear ft') (iMonth ft') (iDayOfMonth ft') (iHour ft') (iMinute ft') \<and> skips crp ft ft' \<and>
        ft_le ft (iYear ft') (iMonth ft') (iDayOfMonth ft') (iHour ft') (iMinute ft') \<and> iYear ft' < yEnd \<and>
        iSecond ft' = 0 \<and> iMillisecond ft' = 0 \<and> iMicrosecond ft' = 0 \<and> iNanosecond ft' = 0"
  using assms
proof (induction crp yEnd ft rule: cron_search.induct)
  case (1 crp yEnd ft)
  note r = cron_round_ok [OF 1(3,2)]
  consider (late) "\<not> iYear ft < yEnd" | (ends) res where "iYear ft < yEnd" "cron_round crp ft = Inl res"
    | (more) ft' where "iYear ft < yEnd" "cron_round crp ft = Inr ft'" by (cases "cron_round crp ft") auto
  then show ?case
  proof cases
    case late
    then show ?thesis by (auto simp: cron_search.simps [of crp yEnd ft] stamp_defs)
  next
    case ends
    then show ?thesis using r by (cases res) (auto simp: cron_search.simps [of crp yEnd ft] round_ok_def)
  next
    case more
    note r' = r [unfolded more(2) round_ok_def, simplified]
    have e: "cron_search crp yEnd ft = cron_search crp yEnd ft'" using more by (simp add: cron_search.simps [of crp yEnd ft])
    have IH: "case cron_search crp yEnd ft' of
        None \<Rightarrow> (\<forall>y m d h mi. cron_matches crp y m d h mi \<longrightarrow> ft_le ft' y m d h mi \<longrightarrow> yEnd \<le> y)
      | Some ft'' \<Rightarrow>
        cron_matches crp (iYear ft'') (iMonth ft'') (iDayOfMonth ft'') (iHour ft'') (iMinute ft'') \<and> skips crp ft' ft'' \<and>
        ft_le ft' (iYear ft'') (iMonth ft'') (iDayOfMonth ft'') (iHour ft'') (iMinute ft'') \<and> iYear ft'' < yEnd \<and>
        iSecond ft'' = 0 \<and> iMillisecond ft'' = 0 \<and> iMicrosecond ft'' = 0 \<and> iNanosecond ft'' = 0"
      by (rule 1(1) [OF more 1(2)]) (use r' in blast)
    have s: "cron_matches crp y m d h mi \<Longrightarrow> ft_le ft y m d h mi \<Longrightarrow> ft_le ft' y m d h mi" for y m d h mi
      using r' by (auto simp: skips_def)
    show ?thesis
    proof (cases "cron_search crp yEnd ft'")
      case None
      have n: "cron_matches crp y m d h mi \<Longrightarrow> ft_le ft' y m d h mi \<Longrightarrow> yEnd \<le> y" for y m d h mi
        using IH [unfolded None] by simp
      show ?thesis unfolding e None using n s by simp
    next
      case (Some ft'')
      have "ft_le ft (iYear ft') (iMonth ft') (iDayOfMonth ft') (iHour ft') (iMinute ft')" "skips crp ft ft'" using r' by blast+
      then show ?thesis using IH ft_le_trans [of ft ft'] skips_trans [of crp ft ft' ft''] unfolding e Some by simp
    qed
  qed
qed

section \<open>The order of time\<close>

lemma mod_7_shift: "a = b + 7 * k \<Longrightarrow> b mod 7 = a mod 7" for a b k :: int
  by simp

lemma weekday_of_cron:
  assumes "1 \<le> m" "m \<le> 12" "1 \<le> y" "1 \<le> d"
  shows "cron_day_of_week y m d = FixedFromGregorian y m d mod 7"
proof -
  define q where "q v = v div 4 - v div 100 + v div 400" for v :: int
  have j: "jan1 v = 365 * (v - 1) + q (v - 1)" for v by (simp add: jan1_def q_def)
  have pos: "0 \<le> v + q v" if "0 \<le> v" for v 
  proof -
    have "100 * (v div 100) \<le> v" using mult_div_mod_eq [of 100 v] pos_mod_sign [of 100 v] by linarith
    moreover have "0 \<le> v div 4" "0 \<le> v div 100" "0 \<le> v div 400" using that by (simp_all add: pos_imp_zdiv_nonneg_iff)
    ultimately show ?thesis unfolding q_def by linarith
  qed
  have t: "\<And>i. i < 12 \<Longrightarrow> 0 \<le> [0, 3, 2, 5, 0, 3, 5, 1, 4, 6, 2, 4 :: int] ! i" by (simp add: nth_Cons split: nat.split)
  let ?t = "[0, 3, 2, 5, 0, 3, 5, 1, 4, 6, 2, 4 :: int] ! nat (m - 1)"
  have w: "(v + v sdiv 4 - v sdiv 100 + v sdiv 400 + ?t + d) smod 7 = (v + q v + ?t + d) mod 7" if "0 \<le> v" for v
  proof -
    have e: "v + v sdiv 4 - v sdiv 100 + v sdiv 400 + ?t + d = v + q v + ?t + d" using that by (simp add: sdiv_nonneg q_def)
    have "0 \<le> v + q v + ?t + d" using pos [OF that] t [of "nat (m - 1)"] assms by auto
    then show ?thesis unfolding e by (simp add: smod_nonneg)
  qed
  show ?thesis
  proof (cases "m < 3")
    case True
    have c: "cron_day_of_week y m d = (y - 1 + q (y - 1) + [0, 3, 2, 5, 0, 3, 5, 1, 4, 6, 2, 4] ! nat (m - 1) + d) mod 7"
      using True assms(3) w [of "y - 1"] by (simp add: cron_day_of_week_def Let_def)
    have "m = 1 \<or> m = 2" using True assms(1) by linarith
    then show ?thesis unfolding c Fixed_eq j
    proof
      assume "m = 1"
      then show "(y - 1 + q (y - 1) + [0, 3, 2, 5, 0, 3, 5, 1, 4, 6, 2, 4] ! nat (m - 1) + d) mod 7 =
          (365 * (y - 1) + q (y - 1) + month_days m + d - (if m > 2 then 2 - leap_add y else 0)) mod 7"
        by (intro mod_7_shift [where k = "52 * (y - 1)"]) (simp add: month_table)
    next
      assume "m = 2"
      then show "(y - 1 + q (y - 1) + [0, 3, 2, 5, 0, 3, 5, 1, 4, 6, 2, 4] ! nat (m - 1) + d) mod 7 =
          (365 * (y - 1) + q (y - 1) + month_days m + d - (if m > 2 then 2 - leap_add y else 0)) mod 7"
        by (intro mod_7_shift [where k = "52 * (y - 1) + 4"]) (simp add: month_table)
    qed
  next
    case False
    have c: "cron_day_of_week y m d = (y + q y + [0, 3, 2, 5, 0, 3, 5, 1, 4, 6, 2, 4] ! nat (m - 1) + d) mod 7"
      using False assms(3) w [of y] by (simp add: cron_day_of_week_def Let_def)
    have f: "FixedFromGregorian y m d = 365 * y + q y + month_days m - 367 + d"
      using False jan1_Suc [of y] j [of "y + 1"] by (simp add: Fixed_eq)
    have "7 dvd [0, 3, 2, 5, 0, 3, 5, 1, 4, 6, 2, 4] ! nat (m - 1) - (month_days m - 367)"
      using month_cases [OF assms(1,2)] False by (elim insertE) (simp_all add: month_table)
    then obtain k where "[0, 3, 2, 5, 0, 3, 5, 1, 4, 6, 2, 4] ! nat (m - 1) - (month_days m - 367) = 7 * k" by (rule dvdE)
    then show ?thesis unfolding c f by (intro mod_7_shift [where k = "52 * y - k"]) simp
  qed
qed

lemma month_next: "1 \<le> m \<Longrightarrow> m < 12 \<Longrightarrow> daystab ! nat (m - 1) \<le> month_days (m + 1) - month_days m"
  using month_cases [of m] by (auto simp: month_table daystab_table)

lemma month_days_mono: "m \<le> m' \<Longrightarrow> month_days m \<le> month_days m'"
  unfolding month_days_def by (intro zdiv_mono1) auto

lemma Fixed_order:
  assumes "civil_date y m d" "civil_date y' m' d'" "y < y' \<or> y = y' \<and> (m < m' \<or> m = m' \<and> d < d')"
  shows "FixedFromGregorian y m d < FixedFromGregorian y' m' d'"
proof -
  note r = assms(1,2) [unfolded civil_date_def]
  consider "y < y'" | "y = y'" "m < m'" "m \<le> 2" "2 < m'" | "y = y'" "m < m'" "m \<le> 2 \<longleftrightarrow> m' \<le> 2" | "y = y'" "m = m'" "d < d'"
    using assms(3) by linarith
  then show ?thesis
  proof cases
    case 1
    then have "FixedFromGregorian y m d \<le> jan1 (y + 1)" "jan1 (y + 1) \<le> jan1 y'"
      using Fixed_in_year(2) [OF assms(1)] jan1_mono [of "y + 1" y'] by (simp_all add: jan1_Suc)
    then show ?thesis using Fixed_in_year(1) [OF assms(2)] by linarith
  next
    case 2
    then show ?thesis using Fixed_in_year(3) [OF assms(1)] Fixed_in_year(3) [OF assms(2)] by auto
  next
    case 3
    have "month_days m + d \<le> month_days (m + 1)" using month_next [of m] r 3 by linarith
    also have "\<dots> \<le> month_days m'" using month_days_mono [of "m + 1" m'] 3 by simp
    finally show ?thesis using 3 r by (auto simp: Fixed_eq)
  next
    case 4
    then show ?thesis by (simp add: Fixed_eq)
  qed
qed

definition minute_tick :: "int \<Rightarrow> int \<Rightarrow> int \<Rightarrow> int \<Rightarrow> int \<Rightarrow> int" where
  "minute_tick y m d h mi = tick_of y m d h mi 0 0 0 0"

lemma minute_tick_eq: "minute_tick y m d h mi = ((FixedFromGregorian y m d - 584389) * 1440 + h * 60 + mi) * 600000000"
  by (simp add: minute_tick_def tick_of_def FixedFromGregorian_Adjusted_def algebra_simps)

lemma minute_order:
  assumes "civil_date y m d" "civil_date y' m' d'" "0 \<le> h" "h < 24" "0 \<le> h'" "h' < 24" "0 \<le> mi" "mi < 60" "0 \<le> mi'" "mi' < 60"
  shows "minute_tick y m d h mi \<le> minute_tick y' m' d' h' mi' \<longleftrightarrow> stamp_le y m d h mi y' m' d' h' mi'"
proof -
  let ?F = "FixedFromGregorian y m d" and ?F' = "FixedFromGregorian y' m' d'"
  have f: "minute_tick y m d h mi \<le> minute_tick y' m' d' h' mi' \<longleftrightarrow> ?F * 1440 + h * 60 + mi \<le> ?F' * 1440 + h' * 60 + mi'"
    unfolding minute_tick_eq by (subst mult_le_cancel_right_pos) auto
  consider "y < y' \<or> y = y' \<and> (m < m' \<or> m = m' \<and> d < d')" | "y' < y \<or> y' = y \<and> (m' < m \<or> m' = m \<and> d' < d)"
    | "y = y'" "m = m'" "d = d'" by linarith
  then show ?thesis
  proof cases
    case 1
    have "?F < ?F'" using Fixed_order [OF assms(1,2) 1] .
    then show ?thesis unfolding f stamp_le_def using 1 assms(3-10) by linarith
  next
    case 2
    have "?F' < ?F" using Fixed_order [OF assms(2,1) 2] .
    then show ?thesis unfolding f stamp_le_def using 2 assms(3-10) by linarith
  next
    case 3
    then show ?thesis unfolding f stamp_le_def using assms(3-10) by auto
  qed
qed

section \<open>The next time is the first match\<close>

lemma next_minute_eval:
  assumes "time_of_day h mi s ml mc r"
  shows "iYear (next_minute (fields_of y m d h mi s ml mc r)) = y" "iMonth (next_minute (fields_of y m d h mi s ml mc r)) = m"
    "iDayOfMonth (next_minute (fields_of y m d h mi s ml mc r)) = (if mi = 59 \<and> h = 23 then d + 1 else d)"
    "iHour (next_minute (fields_of y m d h mi s ml mc r)) = (if mi = 59 then if h = 23 then 0 else h + 1 else h)"
    "iMinute (next_minute (fields_of y m d h mi s ml mc r)) = (if mi = 59 then 0 else mi + 1)"
  using assms by (auto simp: next_minute_def fields_of_def Let_def time_of_day_def)

lemma next_minute_fields:
  assumes "civil_date y m d" "time_of_day h mi s ml mc r"
  shows "ft_ok (next_minute (fields_of y m d h mi s ml mc r))" "iYear (next_minute (fields_of y m d h mi s ml mc r)) = y"
    "0 \<le> h' \<Longrightarrow> h' < 24 \<Longrightarrow> 0 \<le> mi' \<Longrightarrow> mi' < 60 \<Longrightarrow>
      ft_le (next_minute (fields_of y m d h mi s ml mc r)) y' m' d' h' mi' \<longleftrightarrow> \<not> stamp_le y' m' d' h' mi' y m d h mi"
proof -
  note e = next_minute_eval [OF assms(2)] and t = assms(2) [unfolded time_of_day_def]
  show "ft_ok (next_minute (fields_of y m d h mi s ml mc r))" using t assms(1) by (auto simp: ft_ok_def e civil_date_def)
  show "iYear (next_minute (fields_of y m d h mi s ml mc r)) = y" by (rule e(1))
  assume b: "0 \<le> h'" "h' < 24" "0 \<le> mi'" "mi' < 60"
  have r: "mi \<noteq> 59 \<Longrightarrow> mi < 59" "h \<noteq> 23 \<Longrightarrow> h < 23" "\<not> mi' > 59" "\<not> h' > 23" using t b by linarith+
  show "ft_le (next_minute (fields_of y m d h mi s ml mc r)) y' m' d' h' mi' \<longleftrightarrow> \<not> stamp_le y' m' d' h' mi' y m d h mi"
    unfolding ft_le_def e stamp_le_def using r b by (cases "mi = 59"; cases "h = 23"; simp; linarith)
qed

lemma tick_minute:
  assumes "time_of_day h mi s ml mc r"
  shows "minute_tick y m d h mi \<le> tick_of y m d h mi s ml mc r" "tick_of y m d h mi s ml mc r < minute_tick y m d h mi + 600000000"
  using assms by (auto simp: minute_tick_def tick_of_def time_of_day_def)

lemma minute_tick_step: "minute_tick y m d h mi < minute_tick y' m' d' h' mi' \<Longrightarrow>
    minute_tick y m d h mi + 600000000 \<le> minute_tick y' m' d' h' mi'"
proof -
  assume "minute_tick y m d h mi < minute_tick y' m' d' h' mi'"
  then have "(FixedFromGregorian y m d - 584389) * 1440 + h * 60 + mi < (FixedFromGregorian y' m' d' - 584389) * 1440 + h' * 60 + mi'"
    unfolding minute_tick_eq by (subst (asm) mult_less_cancel_right_pos) auto
  then have "((FixedFromGregorian y m d - 584389) * 1440 + h * 60 + mi + 1) * 600000000 \<le>
      ((FixedFromGregorian y' m' d' - 584389) * 1440 + h' * 60 + mi') * 600000000"
    by (intro mult_right_mono) auto
  then show ?thesis unfolding minute_tick_eq by (simp only: distrib_right)
qed

lemma later_minute:
  assumes "civil_date y m d" "time_of_day h mi s ml mc r" "cron_matches crp y' m' d' h' mi'"
  shows "ft_le (next_minute (fields_of y m d h mi s ml mc r)) y' m' d' h' mi' \<longleftrightarrow>
    tick_of y m d h mi s ml mc r < minute_tick y' m' d' h' mi'"
proof -
  note r = matches_range [OF assms(3)] and c = assms(3) [unfolded cron_matches_def, THEN conjunct1]
  note t = assms(2) [unfolded time_of_day_def]
  have "minute_tick y' m' d' h' mi' \<le> minute_tick y m d h mi \<longleftrightarrow> stamp_le y' m' d' h' mi' y m d h mi"
    using minute_order [OF c assms(1), of h' h mi' mi] r t by simp
  moreover have "tick_of y m d h mi s ml mc r < minute_tick y' m' d' h' mi' \<longleftrightarrow> minute_tick y m d h mi < minute_tick y' m' d' h' mi'"
    using tick_minute [OF assms(2), of y m d] minute_tick_step [of y m d h mi y' m' d' h' mi'] by linarith
  ultimately show ?thesis using next_minute_fields(3) [OF assms(1,2), of h' mi' y' m' d'] r by auto
qed

lemma SetFields_minute:
  assumes "isValidDate (iYear ft) (iMonth ft) (iDayOfMonth ft)" "iSecond ft = 0" "iMillisecond ft = 0" "iMicrosecond ft = 0" "iNanosecond ft = 0"
  shows "snd (snd (FieldedTimeToLinearTime ft)) = minute_tick (iYear ft) (iMonth ft) (iDayOfMonth ft) (iHour ft) (iMinute ft)"
  using assms by (simp add: FieldedTimeToLinearTime_def Let_def minute_tick_def tick_of_def time_factors)

lemma cron_next_first:
  assumes "cron_ok crp" "cache_ok c" "is_int64 (after + off)" "LinearTimeToFieldedTime c (after + off) = (True, ft, c1)" "iYear ft \<le> 30821"
  shows "case cron_next_time (\<lambda>_. off) c crp after of
      (Some t, c') \<Rightarrow> cache_ok c' \<and> after < t \<and>
        (\<exists>y m d h mi. cron_matches crp y m d h mi \<and> y < iYear ft + 5 \<and> t + off = minute_tick y m d h mi) \<and>
        (\<forall>y m d h mi. cron_matches crp y m d h mi \<longrightarrow> after + off < minute_tick y m d h mi \<longrightarrow> t + off \<le> minute_tick y m d h mi)
    | (None, c') \<Rightarrow> cache_ok c' \<and>
        (\<forall>y m d h mi. cron_matches crp y m d h mi \<longrightarrow> after + off < minute_tick y m d h mi \<longrightarrow> iYear ft + 5 \<le> y)"
proof -
  obtain y m d h mi s ml mc r where t: "after + off = tick_of y m d h mi s ml mc r" "civil_date y m d" "time_of_day h mi s ml mc r"
    by (rule tick_cases)
  obtain c' where c': "LinearTimeToFieldedTime c (after + off) =
      (if isValidDate y m d then (True, fields_of y m d h mi s ml mc r, c') else (False, FIELDEDTIME_zero, c'))" "cache_ok c'"
    using Linear_of_tick [OF t(2,3) assms(2)] assms(3) unfolding t(1) by blast
  have v: "isValidDate y m d" and ft: "ft = fields_of y m d h mi s ml mc r" and e: "c1 = c'" using c'(1) assms(4) by (auto split: if_splits)
  let ?n = "next_minute ft"
  note n = next_minute_fields [OF t(2,3)] and later = later_minute [OF t(2,3), of crp, folded ft t(1)]
  have y: "iYear ft = y" "iYear ?n = y" using n(2) by (simp_all add: ft fields_of_def)
  note S = cron_search_first [OF assms(1), of ?n "iYear ?n + 5"]
  have ok: "ft_ok ?n" unfolding ft by (rule n(1))
  note S = S [OF ok]
  show ?thesis
  proof (cases "cron_search crp (iYear ?n + 5) ?n")
    case None
    have "cron_next_time (\<lambda>_. off) c crp after = (None, c1)"
      using None assms(4) by (simp add: cron_next_time_def UTC2Local_def Let_def)
    then show ?thesis using S [unfolded None] later c'(2) e y by auto
  next
    case (Some ft')
    note S = S [unfolded Some, simplified]
    have m: "cron_matches crp (iYear ft') (iMonth ft') (iDayOfMonth ft') (iHour ft') (iMinute ft')"
      and le: "ft_le ?n (iYear ft') (iMonth ft') (iDayOfMonth ft') (iHour ft') (iMinute ft')"
      and ye: "iYear ft' < iYear ft + 5" using S y by auto
    have "isValidDate (iYear ft') (iMonth ft') (iDayOfMonth ft')"
      using m S v y assms(5) le by (auto simp: isValidDate_iff cron_matches_def stamp_defs)
    note lt = SetFields_minute [OF this]
    let ?t = "minute_tick (iYear ft') (iMonth ft') (iDayOfMonth ft') (iHour ft') (iMinute ft')"
    have "cron_next_time (\<lambda>_. off) c crp after = (Some (?t - off), c1)"
      using Some assms(4) lt S by (simp add: cron_next_time_def UTC2Local_def Local2UTC_def Let_def)
    moreover have "after + off < ?t" using later [OF m] le by simp
    moreover have "?t \<le> minute_tick y' m' d' h' mi'" if m': "cron_matches crp y' m' d' h' mi'" "after + off < minute_tick y' m' d' h' mi'"
      for y' m' d' h' mi'
    proof -
      have "ft_le ft' y' m' d' h' mi'" using S m' later [OF m'(1)] by (auto simp: skips_def)
      then show ?thesis using minute_order matches_range [OF m] matches_range [OF m'(1)] m m'(1) by (simp add: ft_le_def cron_matches_def)
    qed
    ultimately show ?thesis using c'(2) e ye by (auto intro!: exI m)
  qed
qed

section \<open>The fields of a specification\<close>

lemma cron_set_bits_iff:
  assumes "0 < step" "low \<le> i" "e - low \<le> 63"
  shows "bit (cron_set_bits bitmap low i e step) k \<longleftrightarrow>
    bit bitmap k \<or> (\<exists>j. int k + low = i + int j * step \<and> int k + low \<le> e)"
  using assms
proof (induction bitmap low i e step rule: cron_set_bits.induct)
  case (1 bitmap low i e step)
  show ?case
  proof (cases "i \<le> e")
    case True
    have s: "(\<exists>j. int k + low = i + int j * step \<and> int k + low \<le> e) \<longleftrightarrow>
        int k + low = i \<or> (\<exists>j. int k + low = i + step + int j * step \<and> int k + low \<le> e)" (is "?l \<longleftrightarrow> ?r")
    proof
      assume ?l
      then obtain j where j: "int k + low = i + int j * step" "int k + low \<le> e" by blast
      show ?r
      proof (cases j)
        case (Suc n)
        then show ?thesis using j by (intro disjI2 exI [of _ n]) (simp add: algebra_simps)
      qed (use j in simp)
    next
      assume ?r
      then show ?l
      proof
        assume "int k + low = i"
        then show ?l using True by (intro exI [of _ 0]) simp
      next
        assume "\<exists>j. int k + low = i + step + int j * step \<and> int k + low \<le> e"
        then obtain j where "int k + low = i + step + int j * step" "int k + low \<le> e" by blast
        then show ?l by (intro exI [of _ "Suc j"]) (simp add: algebra_simps)
      qed
    qed
    have b: "bit (push_bit (nat (i - low)) 1 :: 64 word) k \<longleftrightarrow> int k + low = i"
      using 1(3,4) True by (auto simp: bit_simps)
    have "bit (cron_set_bits bitmap low i e step) k =
        (bit (bitmap OR push_bit (nat (i - low)) 1) k \<or> (\<exists>j. int k + low = i + step + int j * step \<and> int k + low \<le> e))"
      unfolding cron_set_bits.simps [of bitmap] using 1 True by simp
    then show ?thesis unfolding s bit_or_iff b by blast
  next
    case False
    then have "\<not> (int k + low = i + int j * step \<and> int k + low \<le> e)" for j
      using 1(2) mult_nonneg_nonneg [of "int j" step] by linarith
    then show ?thesis using False unfolding cron_set_bits.simps [of bitmap] by auto
  qed
qed

definition names_ok :: "int \<Rightarrow> int \<Rightarrow> (bytes \<times> int) list option \<Rightarrow> bool" where
  "names_ok low high names \<longleftrightarrow> (case names of None \<Rightarrow> True | Some t \<Rightarrow> list_all (\<lambda>(_, v). low \<le> v \<and> v \<le> high) t)"

lemma parse_cron_name_range:
  "list_all (\<lambda>(_, v). low \<le> v \<and> v \<le> high) t \<Longrightarrow> parse_cron_name p t = (v, q) \<Longrightarrow> v = -1 \<or> low \<le> v \<and> v \<le> high"
  by (induction p t rule: parse_cron_name.induct) (auto split: if_splits)

lemma parse_cron_value_range:
  "names_ok low high names \<Longrightarrow> parse_cron_value p low high names = (v, q) \<Longrightarrow> v = -1 \<or> low \<le> v \<and> v \<le> high"
  by (auto simp: parse_cron_value_def names_ok_def split: if_splits option.splits dest: parse_cron_name_range)

lemma cron_range_range:
  assumes "names_ok low high names" "low \<le> high" "cron_range p low high names = Some (s, b, e, q)"
  shows "low \<le> b \<and> b \<le> e \<and> e \<le> high"
  using assms
  by (auto simp: cron_range_def split: if_splits prod.splits dest!: parse_cron_value_range [OF assms(1)])

lemma cron_step_pos: "cron_step p high = Some (k, q) \<Longrightarrow> 0 < k"
  by (auto simp: cron_step_def split: if_splits option.splits)

lemma parse_cron_items_bits:
  assumes "names_ok low high names" "low \<le> high" "high - low \<le> 63"
    and "parse_cron_items bitmap low high st p names = Some (bm, star, q)" "\<And>k. bit bitmap k \<Longrightarrow> int k \<le> high - low" "bit bm k"
  shows "int k \<le> high - low"
  using assms
proof (induction bitmap low high st p names rule: parse_cron_items.induct)
  case (1 bitmap low high st p names)
  obtain s b e p1 step p2 where r: "cron_range p low high names = Some (s, b, e, p1)" "cron_step p1 high = Some (step, p2)"
    using 1(5) by (auto simp: parse_cron_items.simps [of bitmap] split: option.splits)
  let ?bm = "cron_set_bits bitmap low b e step"
  have R: "low \<le> b" "e \<le> high" "0 < step" using cron_range_range [OF 1(2,3) r(1)] cron_step_pos [OF r(2)] by auto
  have bits: "int k \<le> high - low" if "bit ?bm k" for k
    using that cron_set_bits_iff [OF R(3,1), of e bitmap k] 1(4,6) R(2) by auto
  show ?case
  proof (cases "peek p2 = 0x2C")
    case True
    have "parse_cron_items ?bm low high (st \<or> s) (tl p2) names = Some (bm, star, q)"
      using 1(5) r True by (simp add: parse_cron_items.simps [of bitmap])
    with True show ?thesis by (intro 1(1) [OF r(1) refl refl refl r(2) refl refl refl _ 1(2-4) _ bits 1(7)]) auto
  next
    case False
    then have "bm = ?bm" using 1(5) r by (simp add: parse_cron_items.simps [of bitmap])
    then show ?thesis using bits 1(7) by simp
  qed
qed

lemma parse_cron_field_bits:
  assumes "parse_cron_field low high p names = Some (bm, star, q)" "bit bm k" "names_ok low high names" "low \<le> high" "high - low \<le> 63"
  shows "int k \<le> high - low"
  using assms by (auto simp: parse_cron_field_def Let_def split: if_splits intro: parse_cron_items_bits)

lemma names_ok_tables: "names_ok 1 12 (Some month_names)" "names_ok 0 7 (Some dow_names)" "names_ok low high None"
  by (simp_all add: names_ok_def month_names_def dow_names_def)

lemma cron_parse_ok:
  assumes "cron_parse timestr crp = Some e"
  shows "cron_ok e" "\<And>i. bit (cron_dow e) i \<Longrightarrow> i < 7" "\<And>i. bit (cron_dom e) i \<Longrightarrow> i < 31"
proof -
  obtain minute s1 p1 hour s2 p2 days s3 p3 month s4 p4 dow s5 p5 where
    f: "parse_cron_field 0 59 timestr None = Some (minute, s1, p1)" "parse_cron_field 0 23 p1 None = Some (hour, s2, p2)"
      "parse_cron_field 1 31 p2 None = Some (days, s3, p3)" "parse_cron_field 1 12 p3 (Some month_names) = Some (month, s4, p4)"
      "parse_cron_field 0 7 p4 (Some dow_names) = Some (dow, s5, p5)"
    and e: "cron_minute e = minute" "cron_hour e = ucast hour" "cron_dom e = ucast days" "cron_month e = ucast month"
      "cron_dow e = map_sunday (ucast dow)"
    using assms by (auto simp: cron_parse_def split: option.splits if_splits)
  have "bit minute i \<Longrightarrow> i < 60" "bit hour i \<Longrightarrow> i < 24" "bit month i \<Longrightarrow> i < 12" for i
    using parse_cron_field_bits [OF f(1), of i] parse_cron_field_bits [OF f(2), of i] parse_cron_field_bits [OF f(4), of i]
    by (auto simp: names_ok_tables)
  then show "cron_ok e" by (auto simp: cron_ok_def e bit_simps)
  show "i < 31" if "bit (cron_dom e) i" for i
    using that parse_cron_field_bits [OF f(3), of i] by (auto simp: names_ok_tables e bit_simps)
  show "i < 7" if "bit (cron_dow e) i" for i
  proof -
    have "i < 8" using bit_imp_le_length [OF that] by simp
    moreover have "\<not> bit (map_sunday w) 7" for w
    proof (cases "bit w 7")
      case True
      then have "bit (w AND push_bit 7 1) 7" by (simp add: bit_simps)
      then have "w AND push_bit 7 1 \<noteq> 0" by (metis bit_0_eq bot_apply bot_bool_def)
      then show ?thesis by (simp add: map_sunday_def bit_simps)
    qed (auto simp: map_sunday_def bit_simps)
    ultimately show ?thesis using that e(5) by (cases "i = 7") auto
  qed
qed

text \<open>Fields as they are written: a star or a range, with or without a step.\<close>

datatype cron_item = Every "int option" | Range int "int option" "int option"

fun step_text :: "int option \<Rightarrow> bytes" where
  "step_text None = []"
| "step_text (Some k) = 0x2F # object_digits k"

fun item_text :: "cron_item \<Rightarrow> bytes" where
  "item_text (Every k) = 0x2A # step_text k"
| "item_text (Range a None k) = object_digits a @ step_text k"
| "item_text (Range a (Some b) k) = object_digits a @ 0x2D # object_digits b @ step_text k"

fun field_text :: "cron_item list \<Rightarrow> bytes" where
  "field_text [] = []"
| "field_text [x] = item_text x"
| "field_text (x # xs) = item_text x @ 0x2C # field_text xs"

fun is_every :: "cron_item \<Rightarrow> bool" where
  "is_every (Every _) = True"
| "is_every _ = False"

definition step_of :: "int option \<Rightarrow> int" where
  "step_of k = (case k of None \<Rightarrow> 1 | Some k \<Rightarrow> k)"

definition step_ok :: "int \<Rightarrow> int option \<Rightarrow> bool" where
  "step_ok high k \<longleftrightarrow> (case k of None \<Rightarrow> True | Some k \<Rightarrow> 1 \<le> k \<and> k \<le> high)"

fun item_ok :: "int \<Rightarrow> int \<Rightarrow> cron_item \<Rightarrow> bool" where
  "item_ok low high (Every k) = step_ok high k"
| "item_ok low high (Range a None k) = (low \<le> a \<and> a \<le> high \<and> step_ok high k)"
| "item_ok low high (Range a (Some b) k) = (low \<le> a \<and> a \<le> b \<and> b \<le> high \<and> step_ok high k)"

text \<open>The values an item stands for.\<close>

fun item_value :: "int \<Rightarrow> int \<Rightarrow> cron_item \<Rightarrow> int \<Rightarrow> bool" where
  "item_value low high (Every k) v \<longleftrightarrow> v \<le> high \<and> (\<exists>j. v = low + int j * step_of k)"
| "item_value low high (Range a None k) v \<longleftrightarrow> v = a"
| "item_value low high (Range a (Some b) k) v \<longleftrightarrow> v \<le> b \<and> (\<exists>j. v = a + int j * step_of k)"

definition field_end :: "bytes \<Rightarrow> bool" where
  "field_end p \<longleftrightarrow> \<not> mux_isdigit (peek p) \<and> peek p \<notin> {0x2D, 0x2F, 0x2C}"

lemma cron_digits_text:
  assumes "\<forall>d \<in> set ds. d < 10" "\<not> mux_isdigit (peek rest)" "foldl (\<lambda>v d. v * 10 + int d) v ds \<le> high" "0 \<le> v"
  shows "cron_digits high v (map digit_byte ds @ rest) = Some (foldl (\<lambda>v d. v * 10 + int d) v ds, rest)"
  using assms
proof (induction ds arbitrary: v)
  case Nil
  then show ?case by (cases rest) auto
next
  case (Cons d ds)
  have mono: "u \<le> foldl (\<lambda>v d. v * 10 + int d) u ds" if "0 \<le> u" for u ds
    using that
  proof (induction ds arbitrary: u)
    case (Cons a ds)
    show ?case using Cons.IH [of "u * 10 + int a"] Cons.prems by simp
  qed simp
  have "v * 10 + int d \<le> high" using mono [of "v * 10 + int d" ds] Cons.prems by simp
  moreover have "uint (digit_byte d - 0x30) = int d"
    using Cons.prems(1) digit_byte_props(2,3) [of d] by (simp add: uint_nat)
  ultimately show ?case using Cons digit_byte_props(1) [of d] by simp
qed

lemma foldl_int_digits: "foldl (\<lambda>v d. v * 10 + int d) (int v) ds = int (foldl (\<lambda>v d. v * 10 + d) v ds)"
proof (induction ds arbitrary: v)
  case (Cons d ds)
  show ?case using Cons [of "v * 10 + d"] by simp
qed simp

lemma cron_digits_number:
  assumes "0 \<le> n" "n \<le> high" "\<not> mux_isdigit (peek rest)"
  shows "cron_digits high 0 (object_digits n @ rest) = Some (n, rest)"
proof -
  have "foldl (\<lambda>v d. v * 10 + int d) 0 (digits 10 (nat n)) = n"
    using foldl_int_digits [of 0 "digits 10 (nat n)"] digits_val_digits [of 10 "nat n"] assms(1) by (simp add: digits_val_def)
  moreover have "\<forall>d \<in> set (digits 10 (nat n)). d < 10" using digits_less [of 10] by auto
  ultimately show ?thesis
    using cron_digits_text [of "digits 10 (nat n)" rest 0 high] assms(2,3) by (simp add: object_digits_def)
qed

lemma object_digits_head: "mux_isdigit (peek (object_digits n @ rest))"
  using digits_nonempty [of 10 "nat n"] digits_less [of 10 _ "nat n"]
  by (cases "digits 10 (nat n)") (auto simp: object_digits_def digit_byte_props)

lemma digit_not_token: "mux_isdigit c \<Longrightarrow> c \<noteq> 0x2A \<and> c \<noteq> 0x2D \<and> c \<noteq> 0x2F \<and> c \<noteq> 0x2C"
  by (auto simp: mux_isdigit_def)

lemma parse_cron_value_number:
  assumes "0 \<le> low" "low \<le> n" "n \<le> high" "\<not> mux_isdigit (peek rest)"
  shows "parse_cron_value (object_digits n @ rest) low high names = (n, rest)"
  using assms cron_digits_number [of n high rest] object_digits_head [of n rest] by (simp add: parse_cron_value_def)

lemma cron_step_text:
  assumes "step_ok high k" "\<not> mux_isdigit (peek rest)" "peek rest \<noteq> 0x2F"
  shows "cron_step (step_text k @ rest) high = Some (step_of k, rest)"
proof (cases k)
  case (Some n)
  then show ?thesis using assms cron_digits_number [of n high rest] object_digits_head [of n rest]
    by (simp add: cron_step_def step_ok_def step_of_def)
qed (use assms in \<open>simp add: cron_step_def step_of_def\<close>)

lemma step_text_head:
  "\<not> mux_isdigit (peek rest) \<Longrightarrow> \<not> mux_isdigit (peek (step_text k @ rest))"
  "peek rest \<noteq> 0x2D \<Longrightarrow> peek (step_text k @ rest) \<noteq> 0x2D"
  by (cases k; simp add: mux_isdigit_def)+

fun item_bounds :: "int \<Rightarrow> int \<Rightarrow> cron_item \<Rightarrow> int \<times> int \<times> int" where
  "item_bounds low high (Every k) = (low, high, step_of k)"
| "item_bounds low high (Range a None k) = (a, a, step_of k)"
| "item_bounds low high (Range a (Some b) k) = (a, b, step_of k)"

lemma item_parsed:
  assumes "item_ok low high x" "0 \<le> low" "low \<le> high" "\<not> mux_isdigit (peek rest)" "peek rest \<noteq> 0x2D" "peek rest \<noteq> 0x2F"
    and "item_bounds low high x = (b, e, k)"
  shows "\<exists>p1. cron_range (item_text x @ rest) low high names = Some (is_every x, b, e, p1) \<and> cron_step p1 high = Some (k, rest)"
proof (cases x)
  case (Every s)
  then show ?thesis using assms cron_step_text [of high s rest] by (auto simp: cron_range_def)
next
  case (Range a bo s)
  note h = step_text_head(1) [OF assms(4), of s] step_text_head(2) [OF assms(5), of s]
  note d = digit_not_token [OF object_digits_head]
  show ?thesis
  proof (cases bo)
    case None
    have "parse_cron_value (object_digits a @ step_text s @ rest) low high names = (a, step_text s @ rest)"
      using assms Range None h by (intro parse_cron_value_number) auto
    then show ?thesis using assms Range None h d [of a "step_text s @ rest"] cron_step_text [of high s rest]
      by (auto simp: cron_range_def)
  next
    case (Some c)
    have "parse_cron_value (object_digits a @ 0x2D # object_digits c @ step_text s @ rest) low high names =
        (a, 0x2D # object_digits c @ step_text s @ rest)"
      using assms Range Some by (intro parse_cron_value_number) (auto simp: mux_isdigit_def)
    moreover have "parse_cron_value (object_digits c @ step_text s @ rest) low high names = (c, step_text s @ rest)"
      using assms Range Some h by (intro parse_cron_value_number) auto
    ultimately show ?thesis using assms Range Some h d [of a "0x2D # object_digits c @ step_text s @ rest"] cron_step_text [of high s rest]
      by (auto simp: cron_range_def)
  qed
qed

lemma item_value_bounds:
  assumes "item_bounds low high x = (b, e, k)" "item_ok low high x" "low \<le> high"
  shows "item_value low high x v \<longleftrightarrow> v \<le> e \<and> (\<exists>j. v = b + int j * k)" "0 < k" "low \<le> b" "e \<le> high"
proof -
  have s: "0 < step_of s" if "step_ok high s" for s using that by (auto simp: step_of_def step_ok_def split: option.splits)
  consider (every) t where "x = Every t" | (one) a t where "x = Range a None t" | (range) a c t where "x = Range a (Some c) t"
    by (metis cron_item.exhaust not_None_eq)
  note x = this
  show "0 < k" "low \<le> b" "e \<le> high" using assms s by (cases rule: x; auto)+
  show "item_value low high x v \<longleftrightarrow> v \<le> e \<and> (\<exists>j. v = b + int j * k)"
  proof (cases rule: x)
    case (one a t)
    then have "b = a" "e = a" "0 < k" using assms s by auto
    moreover have "v = a \<longleftrightarrow> v \<le> a \<and> (\<exists>j. v = a + int j * k)"
    proof
      assume "v = a"
      then show "v \<le> a \<and> (\<exists>j. v = a + int j * k)" by (auto intro: exI [of _ 0])
    next
      assume "v \<le> a \<and> (\<exists>j. v = a + int j * k)"
      then obtain j where "v \<le> a" "v = a + int j * k" by blast
      then show "v = a" using mult_nonneg_nonneg [of "int j" k] \<open>0 < k\<close> by linarith
    qed
    ultimately show ?thesis using one by simp
  qed (use assms in auto)
qed

lemma field_text_Cons: "xs \<noteq> [] \<Longrightarrow> field_text (x # xs) = item_text x @ 0x2C # field_text xs"
  by (cases xs) auto

lemma parse_cron_items_text:
  assumes "xs \<noteq> []" "list_all (item_ok low high) xs" "0 \<le> low" "low \<le> high" "high - low \<le> 63" "field_end rest"
  shows "\<exists>bm'. parse_cron_items bm low high st (field_text xs @ rest) names = Some (bm', st \<or> list_ex is_every xs, rest) \<and>
    (\<forall>k. bit bm' k \<longleftrightarrow> bit bm k \<or> (\<exists>x \<in> set xs. item_value low high x (int k + low)))"
  using assms
proof (induction xs arbitrary: bm st)
  case (Cons x xs)
  obtain b e k where i: "item_bounds low high x = (b, e, k)" by (metis prod_cases3)
  note v = item_value_bounds [OF i]
  have ok: "item_ok low high x" using Cons.prems by simp
  let ?bm = "cron_set_bits bm low b e k"
  have bits: "bit ?bm n \<longleftrightarrow> bit bm n \<or> item_value low high x (int n + low)" for n
    using cron_set_bits_iff [of k low b e bm n] v [OF ok Cons.prems(4)] Cons.prems(5) by auto
  show ?case
  proof (cases "xs = []")
    case True
    obtain p1 where p: "cron_range (item_text x @ rest) low high names = Some (is_every x, b, e, p1)" "cron_step p1 high = Some (k, rest)"
      using item_parsed [OF ok Cons.prems(3,4) _ _ _ i, of rest names] Cons.prems(6) by (auto simp: field_end_def)
    have "parse_cron_items bm low high st (field_text (x # xs) @ rest) names = Some (?bm, st \<or> is_every x, rest)"
      using p True Cons.prems(6) by (simp add: parse_cron_items.simps [of bm] field_end_def)
    then show ?thesis using True bits by auto
  next
    case False
    let ?r = "0x2C # field_text xs @ rest"
    obtain p1 where p: "cron_range (item_text x @ ?r) low high names = Some (is_every x, b, e, p1)" "cron_step p1 high = Some (k, ?r)"
      using item_parsed [OF ok Cons.prems(3,4) _ _ _ i, of ?r names] by (auto simp: mux_isdigit_def)
    have "parse_cron_items bm low high st (field_text (x # xs) @ rest) names =
        parse_cron_items ?bm low high (st \<or> is_every x) (field_text xs @ rest) names"
      using p False by (simp add: parse_cron_items.simps [of bm] field_text_Cons)
    moreover obtain bm' where "parse_cron_items ?bm low high (st \<or> is_every x) (field_text xs @ rest) names =
        Some (bm', (st \<or> is_every x) \<or> list_ex is_every xs, rest)"
      "\<forall>n. bit bm' n \<longleftrightarrow> bit ?bm n \<or> (\<exists>x \<in> set xs. item_value low high x (int n + low))"
      using Cons.IH [of ?bm "st \<or> is_every x"] False Cons.prems by auto
    ultimately show ?thesis using bits by auto
  qed
qed simp

section \<open>Entries and their tasks\<close>

text \<open>The arguments of the pending calls of a function.\<close>

definition calls :: "nat \<Rightarrow> TASK_RECORD list \<Rightarrow> (nat \<times> int) multiset" where
  "calls d ps = image_mset (\<lambda>p. (arg_voidptr p, arg_Integer p)) (filter_mset (\<lambda>p. fpTask p = Some d) (mset ps))"

definition pending :: "nat \<Rightarrow> CScheduler \<Rightarrow> (nat \<times> int) multiset" where
  "pending d sc = calls d (m_Heap (m_WhenHeap sc)) + calls d (m_Heap (m_PriorityHeap sc))"

lemma RemoveTopmost_mset:
  assumes "RemoveTopmost lt h = (Some p, h')"
  shows "mset (m_Heap h) = add_mset p (mset (m_Heap h'))"
proof -
  let ?ps = "pop_heap lt (length (m_Heap h)) (m_Heap h)"
  have n: "m_Heap h \<noteq> []" "p = last ?ps" "m_Heap h' = butlast ?ps" using assms by (auto simp: RemoveTopmost_def Let_def split: if_splits)
  have m: "mset ?ps = mset (m_Heap h)" using pop_heap_perm(1) [of "length (m_Heap h)" "m_Heap h" lt] n(1) by simp
  then have "?ps \<noteq> []" using n(1) by (metis mset_zero_iff)
  moreover have "mset (butlast ?ps @ [last ?ps]) = add_mset (last ?ps) (mset (butlast ?ps))" by simp
  ultimately have "mset ?ps = add_mset (last ?ps) (mset (butlast ?ps))" by (metis append_butlast_last_id)
  then show ?thesis using m n by simp
qed

lemma calls_Insert: "calls d (m_Heap (heap_Insert lt h p)) = (if fpTask p = Some d then {#(arg_voidptr p, arg_Integer p)#} else {#}) + calls d (m_Heap h)"
  by (simp add: calls_def heap_Insert_def Let_def)

lemma calls_Remove:
  "RemoveTopmost lt h = (Some p, h') \<Longrightarrow>
   calls d (m_Heap h) = (if fpTask p = Some d then {#(arg_voidptr p, arg_Integer p)#} else {#}) + calls d (m_Heap h')"
  by (simp add: calls_def RemoveTopmost_mset)

lemma calls_Cancel:
  "calls d (m_Heap (heap_CancelTask h (Some d) v n)) = filter_mset (\<lambda>c. c \<noteq> (v, n)) (calls d (m_Heap h))"
  "f \<noteq> Some d \<Longrightarrow> calls d (m_Heap (heap_CancelTask h f v n)) = calls d (m_Heap h)"
proof -
  have "calls d (map (\<lambda>p. if fpTask p = Some d \<and> arg_voidptr p = v \<and> arg_Integer p = n then p\<lparr>fpTask := None\<rparr> else p) ps) =
      filter_mset (\<lambda>c. c \<noteq> (v, n)) (calls d ps)" for ps
    by (induction ps) (auto simp: calls_def)
  then show "calls d (m_Heap (heap_CancelTask h (Some d) v n)) = filter_mset (\<lambda>c. c \<noteq> (v, n)) (calls d (m_Heap h))"
    by (simp add: heap_CancelTask_def)
  assume "f \<noteq> Some d"
  then have "calls d (map (\<lambda>p. if fpTask p = f \<and> arg_voidptr p = v \<and> arg_Integer p = n then p\<lparr>fpTask := None\<rparr> else p) ps) = calls d ps" for ps
    by (induction ps) (auto simp: calls_def)
  then show "calls d (m_Heap (heap_CancelTask h f v n)) = calls d (m_Heap h)" by (simp add: heap_CancelTask_def)
qed

lemma pending_Defer:
  "pending d (snd (DeferTask allocated sc lta prio f v n)) = (if allocated \<and> f = d then {#(v, n)#} else {#}) + pending d sc"
  by (simp add: pending_def DeferTask_def calls_Insert)

lemma pending_Cancel: "pending d (CancelTask sc (Some d) v n) = filter_mset (\<lambda>c. c \<noteq> (v, n)) (pending d sc)"
  by (simp add: pending_def CancelTask_def calls_Cancel)

text \<open>Operations by code that does not know \<open>dispatch_CronEntry\<close>, which is local to its file.\<close>

fun op_spares :: "nat \<Rightarrow> sched_op \<Rightarrow> bool" where
  "op_spares d (Defer_op _ _ _ f _ _) \<longleftrightarrow> f \<noteq> d"
| "op_spares d (Immediate_op _ _ f _ _) \<longleftrightarrow> f \<noteq> d"
| "op_spares d (Cancel_op f _ _) \<longleftrightarrow> f \<noteq> Some d"
| "op_spares d (MinPriority_op _) \<longleftrightarrow> True"

lemma pending_op: "op_spares d oper \<Longrightarrow> pending d (apply_op sc oper) = pending d sc"
  by (cases oper) (auto simp: pending_def op_defs calls_Insert calls_Cancel)

lemma pending_ops: "list_all (op_spares d) opers \<Longrightarrow> pending d (foldl apply_op sc opers) = pending d sc"
  by (induction opers arbitrary: sc) (auto simp: pending_op)

lemma pending_pop:
  assumes "RemoveTopmost lt (m_PriorityHeap sc) = (Some p, h)"
  shows "pending d sc = (if fpTask p = Some d then {#(arg_voidptr p, arg_Integer p)#} else {#}) + pending d (sc\<lparr>m_PriorityHeap := h\<rparr>)"
  by (simp add: pending_def calls_Remove [OF assms])

lemma pending_Ready: "pending d (ReadyTasks sc ltaNow) = pending d sc"
proof (induction sc ltaNow rule: ReadyTasks.induct)
  case (1 sc ltaNow)
  show ?case
  proof (cases "PeekAtTopmost (m_WhenHeap sc)")
    case None
    then show ?thesis by (subst ReadyTasks.simps) simp
  next
    case (Some p)
    obtain r h where r: "RemoveTopmost CompareWhenGreater (m_WhenHeap sc) = (r, h)" by fastforce
    have "m_Heap (m_WhenHeap sc) \<noteq> []" using Some by (auto simp: PeekAtTopmost_def)
    then obtain q where q: "r = Some q" using r by (auto simp: RemoveTopmost_def Let_def)
    have "pending d (if fpTask q = None then sc\<lparr>m_WhenHeap := h\<rparr>
        else sc\<lparr>m_WhenHeap := h, m_PriorityHeap := heap_Insert ComparePriorityGreater (m_PriorityHeap sc) q\<rparr>) = pending d sc"
      using calls_Remove [OF r [unfolded q], of d] by (simp add: pending_def calls_Insert)
    then show ?thesis using "1.IH"(2) [OF Some _ r [symmetric] q] Some r q
      by (subst ReadyTasks.simps) auto
  qed
qed

text \<open>Every pending call of \<open>dispatch_CronEntry\<close> belongs to an entry of the table, and each entry has at most
  one.\<close>

definition cron_keys :: "(nat \<times> CRONTAB) list \<Rightarrow> (nat \<times> int) multiset" where
  "cron_keys es = mset (map (\<lambda>(a, _). (a, 0)) es)"

definition cron_inv :: "nat \<Rightarrow> cron_state \<Rightarrow> bool" where
  "cron_inv d st \<longleftrightarrow> distinct (map fst (cron_head st)) \<and> pending d (cron_sched st) \<subseteq># cron_keys (cron_head st) \<and>
     list_all (\<lambda>(_, e). cron_ok e) (cron_head st)"

lemma cron_keys_simps [simp]: "cron_keys [] = {#}" "cron_keys ((a, e) # es) = add_mset (a, 0) (cron_keys es)"
  by (simp_all add: cron_keys_def)

lemma cron_keys_set_next [simp]: "cron_keys (set_next a lta es) = cron_keys es" "map fst (set_next a lta es) = map fst es"
  by (induction es) (auto simp: cron_keys_def set_next_def)

lemma cron_ok_next [simp]: "cron_ok (e\<lparr>ltaNext := lta\<rparr>) = cron_ok e"
  by (simp add: cron_ok_def)

lemma set_next_ok [simp]: "list_all (\<lambda>(_, e). cron_ok e) (set_next a lta es) = list_all (\<lambda>(_, e). cron_ok e) es"
  by (induction es) (auto simp: set_next_def split: if_splits)

lemma unlink_sub: "fst ` set (unlink a es) \<subseteq> fst ` set es"
  by (induction a es rule: unlink.induct) auto

lemma unlink_facts:
  assumes "distinct (map fst es)"
  shows "distinct (map fst (unlink a es))" "cron_keys (unlink a es) = filter_mset (\<lambda>c. c \<noteq> (a, 0)) (cron_keys es)"
    "list_all (\<lambda>(_, e). cron_ok e) es \<Longrightarrow> list_all (\<lambda>(_, e). cron_ok e) (unlink a es)"
proof -
  have "cron_keys es = filter_mset (\<lambda>c. c \<noteq> (a, 0)) (cron_keys es)" if "a \<notin> fst ` set es" for es
    using that by (induction es) auto
  then show "cron_keys (unlink a es) = filter_mset (\<lambda>c. c \<noteq> (a, 0)) (cron_keys es)" using assms by (induction a es rule: unlink.induct) auto
  show "distinct (map fst (unlink a es))" using assms
  proof (induction a es rule: unlink.induct)
    case (2 crp a e es)
    then show ?case using unlink_sub [of crp es] by auto
  qed simp
  show "list_all (\<lambda>(_, e). cron_ok e) es \<Longrightarrow> list_all (\<lambda>(_, e). cron_ok e) (unlink a es)" by (induction a es rule: unlink.induct) auto
qed

lemma cron_remove_inv:
  assumes "cron_inv d st"
  shows "cron_inv d (cron_remove d a st)"
  using assms unlink_facts [of "cron_head st" a] multiset_filter_mono [of "pending d (cron_sched st)" "cron_keys (cron_head st)" "\<lambda>c. c \<noteq> (a, 0)"]
  by (simp add: cron_inv_def cron_remove_def pending_Cancel)

text \<open>Scheduling an entry that has no task.\<close>

lemma cron_defer_inv:
  assumes "cron_inv d st" "(a, 0) \<notin># pending d (cron_sched st)" "a \<in> fst ` set (cron_head st)"
  shows "cron_inv d (cron_defer d allocated a lta st)"
proof -
  have k: "(a, 0) \<in># cron_keys (cron_head st)" using assms(3) by (auto simp: cron_keys_def)
  have "add_mset (a, 0) (pending d (cron_sched st)) \<subseteq># cron_keys (cron_head st)"
    using assms(1,2) k by (auto simp: cron_inv_def insert_subset_eq_iff subseteq_mset_def not_in_iff Suc_le_eq)
  then show ?thesis using assms(1) by (simp add: cron_inv_def cron_defer_def pending_Defer)
qed

lemma cron_inv_cache: "cron_inv d (st\<lparr>cron_cache := c\<rparr>) = cron_inv d st"
  by (simp add: cron_inv_def)

lemma cron_schedule_inv:
  assumes "cron_inv d st" "(a, 0) \<notin># pending d (cron_sched st)" "a \<in> fst ` set (cron_head st)"
  shows "cron_inv d (cron_schedule d offset allocated ltaNow a e st)"
  using assms cron_defer_inv [of d "st\<lparr>cron_cache := c\<rparr>" a for c]
  by (auto simp: cron_schedule_def cron_inv_cache split: prod.splits option.splits)

lemma cron_add_inv:
  assumes "cron_inv d st" "case new_crp of None \<Rightarrow> True | Some a \<Rightarrow> a \<notin> fst ` set (cron_head st)"
  shows "cron_inv d (snd (cron_add d offset allocated ltaNow new_crp thing atr timestr st))"
proof -
  have "cron_inv d (cron_schedule d offset allocated ltaNow a e (st\<lparr>cron_head := (a, e) # cron_head st\<rparr>))"
    if "a \<notin> fst ` set (cron_head st)" "cron_parse timestr e0 = Some e" for a e e0
  proof (rule cron_schedule_inv)
    show "cron_inv d (st\<lparr>cron_head := (a, e) # cron_head st\<rparr>)"
      using assms(1) that cron_parse_ok(1) [OF that(2)] by (auto simp: cron_inv_def intro: subset_mset.order_trans)
    have "(a, 0) \<notin># cron_keys (cron_head st)" using that(1) by (force simp: cron_keys_def)
    then show "(a, 0) \<notin># pending d (cron_sched (st\<lparr>cron_head := (a, e) # cron_head st\<rparr>))"
      using assms(1) by (auto simp: cron_inv_def dest: mset_subset_eqD)
  qed simp
  then show ?thesis using assms by (auto simp: cron_add_def split: option.splits)
qed

lemma cron_clr_loop_facts:
  assumes "cron_clr_loop d thing atr es n sc = (n', es', sc')"
  shows "es' = filter (\<lambda>(_, e). \<not> (cron_obj e = thing \<and> (atr = NOTHING \<or> cron_atr e = atr))) es"
    "n' = n + length (filter (\<lambda>(_, e). cron_obj e = thing \<and> (atr = NOTHING \<or> cron_atr e = atr)) es)"
    "pending d sc' = filter_mset (\<lambda>c. c \<notin> {(a, 0) | a e. (a, e) \<in> set es \<and> cron_obj e = thing \<and> (atr = NOTHING \<or> cron_atr e = atr)}) (pending d sc)"
  using assms
proof (induction d thing atr es n sc arbitrary: n' es' sc' rule: cron_clr_loop.induct)
  case (2 d thing atr crp e es n sc)
  {
    case 1
    then show ?case using 2 by (auto split: if_splits prod.splits)
  next
    case 2
    then show ?case using "2.IH" by (auto split: if_splits prod.splits)
  next
    case 3
    show ?case
    proof (cases "cron_obj e = thing \<and> (atr = NOTHING \<or> cron_atr e = atr)")
      case True
      then show ?thesis using 3 "2.IH"(3) [OF True, of n' es' sc'] 
        by (auto simp: pending_Cancel filter_filter_mset intro!: filter_mset_cong)
    next
      case False
      obtain n1 es1 where "cron_clr_loop d thing atr es n sc = (n1, es1, sc')" using 3 False by (auto split: prod.splits)
      with False show ?thesis using "2.IH"(6) [OF False] by (auto intro!: filter_mset_cong)
    qed
  }
qed auto

lemma cron_clr_inv:
  assumes "cron_inv d st"
  shows "cron_inv d (snd (cron_clr d thing atr st))"
proof -
  obtain n es sc where r: "cron_clr_loop d thing atr (cron_head st) 0 (cron_sched st) = (n, es, sc)" by (metis prod_cases3)
  note f = cron_clr_loop_facts [OF r]
  let ?P = "\<lambda>(_, e). \<not> (cron_obj e = thing \<and> (atr = NOTHING \<or> cron_atr e = atr))"
  let ?gone = "{(a, 0) | a e. (a, e) \<in> set (cron_head st) \<and> cron_obj e = thing \<and> (atr = NOTHING \<or> cron_atr e = atr)}"
  have "filter_mset (\<lambda>c. c \<notin> {(a, 0) | a e. (a, e) \<in> set es \<and> \<not> ?P (a, e)}) (cron_keys es) \<subseteq># cron_keys (filter ?P es)"
    if "distinct (map fst es)" for es
    using that
  proof (induction es)
    case (Cons p es)
    obtain a e where p: "p = (a, e)" by fastforce
    have "filter_mset (\<lambda>c. c \<notin> {(a', 0) | a' e'. (a', e') \<in> set (p # es) \<and> \<not> ?P (a', e')}) (cron_keys es) \<subseteq>#
        filter_mset (\<lambda>c. c \<notin> {(a, 0) | a e. (a, e) \<in> set es \<and> \<not> ?P (a, e)}) (cron_keys es)"
      by (rule filter_mset_mono_strong) auto
    then show ?case using Cons p by (auto simp: p intro: subset_mset.order_trans)
  qed simp
  then have "filter_mset (\<lambda>c. c \<notin> ?gone) (cron_keys (cron_head st)) \<subseteq># cron_keys (filter ?P (cron_head st))"
    using assms by (simp add: cron_inv_def)
  moreover have "pending d sc \<subseteq># filter_mset (\<lambda>c. c \<notin> ?gone) (cron_keys (cron_head st))"
    unfolding f(3) by (rule multiset_filter_mono) (use assms in \<open>simp add: cron_inv_def\<close>)
  ultimately show ?thesis using assms f(1) r
    by (auto simp: cron_inv_def cron_clr_def list_all_iff distinct_map_filter intro: subset_mset.order_trans)
qed

text \<open>The states the server can reach: entries are added and removed, other code uses the scheduler, tasks become
  ready and are taken off the queue, and the tasks of entries are run.\<close>

inductive cron_reachable :: "nat \<Rightarrow> (int \<Rightarrow> int) \<Rightarrow> (int \<Rightarrow> bool) \<Rightarrow> (int \<Rightarrow> bool) \<Rightarrow> (int \<Rightarrow> int \<Rightarrow> CScheduler \<Rightarrow> CScheduler) \<Rightarrow>
    cron_state \<Rightarrow> bool" for d offset Good_obj Going did_it where
  start: "pending d sc = {#} \<Longrightarrow> cron_reachable d offset Good_obj Going did_it \<lparr>cron_head = [], cron_sched = sc, cron_cache = c\<rparr>"
| add: "cron_reachable d offset Good_obj Going did_it st \<Longrightarrow>
    (case new_crp of None \<Rightarrow> True | Some a \<Rightarrow> a \<notin> fst ` set (cron_head st)) \<Longrightarrow>
    cron_reachable d offset Good_obj Going did_it (snd (cron_add d offset allocated ltaNow new_crp thing atr timestr st))"
| clr: "cron_reachable d offset Good_obj Going did_it st \<Longrightarrow>
    cron_reachable d offset Good_obj Going did_it (snd (cron_clr d thing atr st))"
| other: "cron_reachable d offset Good_obj Going did_it st \<Longrightarrow> op_spares d oper \<Longrightarrow>
    cron_reachable d offset Good_obj Going did_it (st\<lparr>cron_sched := apply_op (cron_sched st) oper\<rparr>)"
| ready: "cron_reachable d offset Good_obj Going did_it st \<Longrightarrow>
    cron_reachable d offset Good_obj Going did_it (st\<lparr>cron_sched := ReadyTasks (cron_sched st) ltaNow\<rparr>)"
| taken: "cron_reachable d offset Good_obj Going did_it st \<Longrightarrow>
    RemoveTopmost ComparePriorityGreater (m_PriorityHeap (cron_sched st)) = (Some p, h) \<Longrightarrow> fpTask p \<noteq> Some d \<Longrightarrow>
    cron_reachable d offset Good_obj Going did_it (st\<lparr>cron_sched := (cron_sched st)\<lparr>m_PriorityHeap := h\<rparr>\<rparr>)"
| run: "cron_reachable d offset Good_obj Going did_it st \<Longrightarrow>
    RemoveTopmost ComparePriorityGreater (m_PriorityHeap (cron_sched st)) = (Some p, h) \<Longrightarrow> fpTask p = Some d \<Longrightarrow>
    dispatch_CronEntry d offset Good_obj Going did_it allocated ltaNow (arg_voidptr p)
      (st\<lparr>cron_sched := (cron_sched st)\<lparr>m_PriorityHeap := h\<rparr>\<rparr>) = Some st' \<Longrightarrow>
    cron_reachable d offset Good_obj Going did_it st'"

text \<open>Triggering an attribute uses the scheduler, but does not know \<open>dispatch_CronEntry\<close>.\<close>

definition triggers :: "nat \<Rightarrow> (int \<Rightarrow> int \<Rightarrow> CScheduler \<Rightarrow> CScheduler) \<Rightarrow> bool" where
  "triggers d did_it \<longleftrightarrow> (\<forall>obj atr sc. \<exists>opers. list_all (op_spares d) opers \<and> did_it obj atr sc = foldl apply_op sc opers)"

lemma triggers_pending: "triggers d did_it \<Longrightarrow> pending d (did_it obj atr sc) = pending d sc"
  by (metis triggers_def pending_ops)

lemma popped_entry:
  assumes "cron_inv d st" "RemoveTopmost ComparePriorityGreater (m_PriorityHeap (cron_sched st)) = (Some p, h)" "fpTask p = Some d"
  defines "st1 \<equiv> st\<lparr>cron_sched := (cron_sched st)\<lparr>m_PriorityHeap := h\<rparr>\<rparr>"
  shows "cron_inv d st1" "arg_voidptr p \<in> fst ` set (cron_head st)" "(arg_voidptr p, 0) \<notin># pending d (cron_sched st1)"
proof -
  let ?c = "(arg_voidptr p, arg_Integer p)"
  have e: "pending d (cron_sched st) = add_mset ?c (pending d (cron_sched st1))"
    using pending_pop [OF assms(2), of d] assms(3) by (simp add: st1_def)
  have s: "add_mset ?c (pending d (cron_sched st1)) \<subseteq># cron_keys (cron_head st)" using assms(1) e by (simp add: cron_inv_def)
  then have "?c \<in># cron_keys (cron_head st)" by (simp add: insert_subset_eq_iff)
  then show a: "arg_voidptr p \<in> fst ` set (cron_head st)" by (force simp: cron_keys_def)
  have z: "arg_Integer p = 0" using \<open>?c \<in># cron_keys (cron_head st)\<close> by (auto simp: cron_keys_def)
  have one: "count (cron_keys es) (x, 0) \<le> 1" if "distinct (map fst es)" for es x
    using that
  proof (induction es)
    case (Cons q es)
    then show ?case by (cases q) (auto simp: cron_keys_def count_eq_zero_iff image_iff)
  qed simp
  have "Suc (count (pending d (cron_sched st1)) ?c) \<le> count (cron_keys (cron_head st)) ?c"
    using mset_subset_eq_count [OF s, of ?c] by simp
  then have "count (pending d (cron_sched st1)) (arg_voidptr p, 0) = 0"
    using one [of "cron_head st" "arg_voidptr p"] assms(1) unfolding cron_inv_def z by linarith
  then show "(arg_voidptr p, 0) \<notin># pending d (cron_sched st1)" by (simp add: count_eq_zero_iff)
  have "pending d (cron_sched st1) \<subseteq># cron_keys (cron_head st)"
    using s by (rule subset_mset.order_trans [rotated]) simp
  then show "cron_inv d st1" using assms(1) by (simp add: cron_inv_def st1_def)
qed

lemma dispatch_inv:
  assumes "cron_inv d st" "(a, 0) \<notin># pending d (cron_sched st)" "a \<in> fst ` set (cron_head st)" "triggers d did_it"
  shows "\<exists>st'. dispatch_CronEntry d offset Good_obj Going did_it allocated ltaNow a st = Some st' \<and> cron_inv d st'"
proof -
  obtain e where e: "map_of (cron_head st) a = Some e" using assms(3) by (metis map_of_eq_None_iff not_None_eq)
  let ?st = "\<lambda>c. st\<lparr>cron_sched := did_it (cron_obj e) (cron_atr e) (cron_sched st), cron_cache := c\<rparr>"
  have "cron_inv d (?st c)" "(a, 0) \<notin># pending d (cron_sched (?st c))" "a \<in> fst ` set (cron_head (?st c))" for c
    using assms by (simp_all add: cron_inv_def triggers_pending)
  note i = cron_defer_inv [OF this] cron_remove_inv [OF this(1)]
  show ?thesis using e i cron_remove_inv [OF assms(1)]
    by (auto simp: dispatch_CronEntry_def Let_def split: prod.split option.split)
qed

lemma cron_reachable_inv:
  assumes "cron_reachable d offset Good_obj Going did_it st" "triggers d did_it"
  shows "cron_inv d st"
  using assms
proof (induction rule: cron_reachable.induct)
  case (start sc c)
  then show ?case by (simp add: cron_inv_def)
next
  case (add st new_crp allocated ltaNow thing atr timestr)
  then show ?case by (intro cron_add_inv)
next
  case (clr st thing atr)
  then show ?case by (intro cron_clr_inv)
next
  case (other st oper)
  then show ?case by (simp add: cron_inv_def pending_op)
next
  case (ready st ltaNow)
  then show ?case by (simp add: cron_inv_def pending_Ready)
next
  case (taken st p h)
  then show ?case using pending_pop [of ComparePriorityGreater "cron_sched st" p h d] by (simp add: cron_inv_def)
next
  case (run st p h allocated ltaNow st')
  note i = popped_entry [OF run.IH [OF assms(2)] run.hyps(2,3)]
  show ?case using dispatch_inv [OF i(1,3) _ assms(2), of offset Good_obj Going allocated ltaNow] i(2) run.hyps(4) by auto
qed

section \<open>The commands respect control\<close>

lemma add_other_entries:
  assumes "case new_crp of None \<Rightarrow> True | Some a \<Rightarrow> a \<notin> fst ` set (cron_head st)" "\<not> P thing"
  shows "filter (\<lambda>(_, e). P (cron_obj e)) (cron_head (snd (cron_add d offset allocated ltaNow new_crp thing atr timestr st))) =
    filter (\<lambda>(_, e). P (cron_obj e)) (cron_head st)"
proof -
  have s: "set_next a lta es = es" if "a \<notin> fst ` set es" for a lta es
    using that by (induction es) (auto simp: set_next_def)
  have o: "cron_obj e = cron_obj e0" if "cron_parse timestr e0 = Some e" for e e0
    using that by (auto simp: cron_parse_def split: option.splits if_splits)
  have n: "set_next a lta ((a, e) # es) = (a, e\<lparr>ltaNext := lta\<rparr>) # set_next a lta es" for a lta e es by (simp add: set_next_def)
  show ?thesis using assms
    by (auto simp: cron_add_def cron_schedule_def cron_defer_def s n dest!: o split: option.splits prod.splits)
qed

lemma clr_other_entries:
  assumes "\<not> P thing"
  shows "filter (\<lambda>(_, e). P (cron_obj e)) (cron_head (snd (cron_clr d thing atr st))) =
    filter (\<lambda>(_, e). P (cron_obj e)) (cron_head st)"
proof -
  obtain n es sc where r: "cron_clr_loop d thing atr (cron_head st) 0 (cron_sched st) = (n, es, sc)" by (metis prod_cases3)
  then show ?thesis using assms cron_clr_loop_facts(1) [OF r] by (auto simp: cron_clr_def intro!: filter_cong)
qed

section \<open>The end of the search and the change of the clocks\<close>

lemma later_year:
  assumes "cache_ok c" "is_int64 lt" "LinearTimeToFieldedTime c lt = (True, ft, c1)"
    and "cron_matches crp y' m' d' h' mi'" "lt < minute_tick y' m' d' h' mi'" "m' < iMonth ft"
  shows "iYear ft < y'"
proof -
  obtain y m d h mi s ml mc r where t: "lt = tick_of y m d h mi s ml mc r" "civil_date y m d" "time_of_day h mi s ml mc r"
    by (rule tick_cases)
  have ft: "ft = fields_of y m d h mi s ml mc r"
    using Linear_of_tick [OF t(2,3) assms(1)] assms(2,3) unfolding t(1) by (auto split: if_splits)
  have "\<not> stamp_le y' m' d' h' mi' y m d h mi"
    using later_minute [OF t(2,3) assms(4)] next_minute_fields(3) [OF t(2,3), of h' mi' y' m' d'] matches_range [OF assms(4)] assms(5) t(1) by simp
  then show ?thesis using assms(6) by (auto simp: ft fields_of_def stamp_le_def)
qed

lemma leap_day_matches:
  assumes "cron_month crp = 2" "cron_dom crp = 0x10000000" "cron_flags crp = CRON_DOW_STAR" "cron_matches crp y m d h mi"
  shows "m = 2" "isLeapYear y"
proof -
  have f: "cron_flags crp AND (CRON_DOM_STAR OR CRON_DOW_STAR) \<noteq> 0" unfolding assms(3) by code_simp
  have m: "civil_date y m d" "bit (cron_month crp) (nat (m - 1))" "bit (cron_dom crp) (nat (d - 1))"
    using assms(4) f by (auto simp: cron_matches_def day_matches_def Let_def)
  have p: "cron_month crp = push_bit 1 1" "cron_dom crp = push_bit 28 1" unfolding assms(1,2) by code_simp+
  have "nat (m - 1) = 1" using m(2) unfolding p(1) bit_push_bit_iff bit_1_iff by auto
  moreover have "nat (d - 1) = 28" using m(3) unfolding p(2) bit_push_bit_iff bit_1_iff by auto
  ultimately show "m = 2" "isLeapYear y" using m(1) by (auto simp: civil_date_def)
qed

lemma no_leap_day_between:
  assumes "(y + 4) mod 100 = 0" "(y + 4) mod 400 \<noteq> 0" "y < y'" "isLeapYear y'"
  shows "y + 8 \<le> (y' :: int)"
proof (rule ccontr)
  assume "\<not> ?thesis"
  then have "y' - y \<in> {1, 2, 3, 4, 5, 6, 7}" using assms(3) by auto
  moreover have "y' \<noteq> y + 4" using assms(1,2,4) by (auto simp: isLeapYear_iff)
  ultimately have d: "(y' - y) mod 4 \<noteq> 0" by auto
  have "(y + 4) mod 4 = 0" using assms(1) mod_mod_cancel [of 4 100 "y + 4"] by simp
  then have "y mod 4 = 0" by simp
  moreover have "y' mod 4 = 0" using assms(4) by (simp add: isLeapYear_iff)
  ultimately show False using d by (simp add: mod_diff_eq [of y' 4 y, symmetric])
qed

lemma leap_day_again:
  assumes "(y + 4) mod 100 = 0" shows "isLeapYear (y + 8)"
proof -
  have "(y + 8) mod 4 = 0" "(y + 8) mod 100 \<noteq> 0" using assms by presburger+
  then show ?thesis by (simp add: isLeapYear_iff)
qed

lemma leap_day_every_weekday:
  assumes "cron_month crp = 2" "cron_dom crp = 0x10000000" "cron_dow crp = 0x7F" "1 \<le> y" "isLeapYear y"
    and "cron_ok crp" "bit (cron_hour crp) h" "bit (cron_minute crp) mi"
  shows "cron_matches crp y 2 29 (int h) (int mi)"
proof -
  have "0 \<le> cron_day_of_week y 2 29" "cron_day_of_week y 2 29 < 7" using assms(4) by (simp_all add: weekday_of_cron)
  then have "nat (cron_day_of_week y 2 29) < 7" by simp
  moreover have "cron_dow crp = mask 7" unfolding assms(3) by code_simp
  ultimately have w: "bit (cron_dow crp) (nat (cron_day_of_week y 2 29))" by (simp add: bit_mask_iff)
  have p: "cron_month crp = push_bit 1 1" "cron_dom crp = push_bit 28 1" unfolding assms(1,2) by code_simp+
  have b: "bit (cron_month crp) (nat (2 - 1))" "bit (cron_dom crp) (nat (29 - 1))" unfolding p bit_push_bit_iff bit_1_iff by auto
  have "civil_date y 2 29" using assms(5) by (simp add: civil_date_def daystab_table)
  moreover have "h < 24" "mi < 60" using assms(6-8) by (auto simp: cron_ok_def)
  ultimately show ?thesis using b w assms(7,8) unfolding cron_matches_def day_matches_def Let_def by simp
qed

lemma repeated_hour:
  assumes "offset after = o2" "T \<le> after" "\<forall>t. T + o2 \<le> t \<and> t < T \<longrightarrow> offset t = o1" "o2 < o1" "o1 \<le> 0"
    and "cron_next_time (\<lambda>_. o2) c crp after = (Some t2, c')" "T \<le> t2" "t2 + o2 < T + o1"
  shows "cron_next_time offset c crp after = (Some (t2 - (o1 - o2)), c')"
proof -
  obtain ft c1 where f: "LinearTimeToFieldedTime c (after + o2) = (True, ft, c1)"
    using assms(6) by (cases "LinearTimeToFieldedTime c (after + o2)") (auto simp: cron_next_time_def UTC2Local_def split: if_splits)
  obtain ft' where s: "cron_search crp (iYear (next_minute ft) + 5) (next_minute ft) = Some ft'"
    using assms(6) f by (auto simp: cron_next_time_def UTC2Local_def Let_def split: option.splits)
  let ?l = "snd (snd (FieldedTimeToLinearTime ft'))"
  have l: "t2 = ?l - o2" "c' = c1" using assms(6) f s by (auto simp: cron_next_time_def UTC2Local_def Local2UTC_def Let_def)
  have "offset ?l = o1" "offset (?l - o1) = o1" using assms l(1) by simp_all
  then have "Local2UTC offset ?l = ?l - o1" by (simp add: Local2UTC_def)
  then show ?thesis using f s l assms(1) by (simp add: cron_next_time_def UTC2Local_def Let_def)
qed

section \<open>Properties\<close>

definition leap_day :: CRONTAB where
  "leap_day = \<lparr>cron_obj = 5, cron_atr = 100, cronstr = ascii ''0 0 29 2 *'', cron_minute = 1, cron_hour = 1,
     cron_dom = 0x10000000, cron_month = 2, cron_dow = 0x7F, cron_flags = 2, ltaNext = 0\<rparr>"

definition every_minute :: CRONTAB where
  "every_minute = \<lparr>cron_obj = 5, cron_atr = 100, cronstr = ascii ''* * * * *'', cron_minute = 0xFFFFFFFFFFFFFFF, cron_hour = 0xFFFFFF,
     cron_dom = 0x7FFFFFFF, cron_month = 0xFFF, cron_dow = 0x7F, cron_flags = 3, ltaNext = 0\<rparr>"

lemma leap_day_parsed: "cron_parse (ascii ''0 0 29 2 *'') leap_day = Some leap_day"
  by code_simp

text \<open>The offset of New York around the end of daylight saving time in November 2025.\<close>

definition new_york :: "int \<Rightarrow> int" where
  "new_york t = (if t < 134065368000000000 then -144000000000 else -180000000000)"

lemma field_text_head:
  assumes "xs \<noteq> []"
  shows "mux_isdigit (peek (field_text xs @ rest)) \<or> peek (field_text xs @ rest) = 0x2A"
proof -
  have i: "mux_isdigit (peek (item_text x @ r)) \<or> peek (item_text x @ r) = 0x2A" for x r
    using object_digits_head by (cases x rule: item_text.cases) auto
  show ?thesis
  proof (cases xs rule: field_text.cases)
    case (2 x)
    then show ?thesis using i [of x rest] by simp
  next
    case (3 x y ys)
    then show ?thesis using i [of x "0x2C # field_text (y # ys) @ rest"] by simp
  qed (use assms in simp)
qed

lemma digit_or_star: "mux_isdigit c \<or> c = 0x2A \<Longrightarrow> \<not> mux_isspace c \<and> c \<noteq> 0"
  by (auto simp: mux_isdigit_def mux_isspace_def word_le_nat_alt)

lemma field_text_stays:
  assumes "xs \<noteq> []"
  shows "skip_whitespace (field_text xs @ rest) = field_text xs @ rest" "peek (field_text xs @ rest) \<noteq> 0"
proof -
  note h = digit_or_star [OF field_text_head [OF assms, of rest]]
  then show "peek (field_text xs @ rest) \<noteq> 0" by simp
  then show "skip_whitespace (field_text xs @ rest) = field_text xs @ rest"
    using h by (cases "field_text xs @ rest") (simp_all add: skip_whitespace_def)
qed

text \<open>C4: For an entry read from a specification and a constant offset of local time, the next time
  of an entry is the first local minute after \<open>ltaAfter\<close> that the five fields match, and lies before the
  first of January five years after the year of \<open>ltaAfter\<close>.  When there is none, no minute matches before
  that day.\<close>

theorem cron_next_is_first:
  assumes "cron_parse timestr crp0 = Some crp" "cache_ok c" "is_int64 (ltaAfter + off)"
    and "LinearTimeToFieldedTime c (ltaAfter + off) = (True, ft, c1)" "iYear ft \<le> 30821"
  shows "case cron_next_time (\<lambda>_. off) c crp ltaAfter of
      (Some t, _) \<Rightarrow> ltaAfter < t \<and>
        (\<exists>y m d h mi. cron_matches crp y m d h mi \<and> y < iYear ft + 5 \<and> t + off = minute_tick y m d h mi) \<and>
        (\<forall>y m d h mi. cron_matches crp y m d h mi \<longrightarrow> ltaAfter + off < minute_tick y m d h mi \<longrightarrow> t + off \<le> minute_tick y m d h mi)
    | (None, _) \<Rightarrow>
        (\<forall>y m d h mi. cron_matches crp y m d h mi \<longrightarrow> ltaAfter + off < minute_tick y m d h mi \<longrightarrow> iYear ft + 5 \<le> y)"
proof (cases "cron_next_time (\<lambda>_. off) c crp ltaAfter")
  case (Pair res c')
  then show ?thesis using cron_next_first [OF cron_parse_ok(1) [OF assms(1)] assms(2-5)] by (cases res) simp_all
qed

theorem cron_next_is_first_witness:
  "\<exists>t. fst (cron_next_time (\<lambda>_. 0) greg_cache_init leap_day (minute_tick 2024 2 28 12 30)) = Some t \<and>
     (\<forall>y m d h mi. cron_matches leap_day y m d h mi \<longrightarrow> minute_tick 2024 2 28 12 30 < minute_tick y m d h mi \<longrightarrow>
        t \<le> minute_tick y m d h mi)"
proof -
  define T where "T = minute_tick 2024 2 28 12 30"
  define F where "F = minute_tick 2024 2 29 0 0"
  have f: "fst (LinearTimeToFieldedTime greg_cache_init (T + 0))"
    "iYear (fst (snd (LinearTimeToFieldedTime greg_cache_init (T + 0)))) = 2024" unfolding T_def by code_simp+
  obtain ok ft c1 where l: "LinearTimeToFieldedTime greg_cache_init (T + 0) = (ok, ft, c1)" by (rule prod_cases3)
  have y: "ok" "iYear ft = 2024" "iYear ft \<le> 30821" using f unfolding l by simp_all
  have i: "is_int64 (T + 0)" unfolding T_def by code_simp
  have s: "fst (cron_next_time (\<lambda>_. 0) greg_cache_init leap_day T) = Some F" unfolding T_def F_def by code_simp
  obtain c where e: "cron_next_time (\<lambda>_. 0) greg_cache_init leap_day T = (Some F, c)" using s by (metis prod.collapse)
  have "\<forall>y m d h mi. cron_matches leap_day y m d h mi \<longrightarrow> T < minute_tick y m d h mi \<longrightarrow> F \<le> minute_tick y m d h mi"
    using cron_next_is_first [OF leap_day_parsed cache_ok_init i l [unfolded eqTrueI [OF y(1)]] y(3)]
    unfolding e by (simp only: prod.case option.case add.right_neutral simp_thms) blast
  then show ?thesis unfolding T_def [symmetric] using s by blast
qed

text \<open>C37: The day of the week that the cron search computes, by Sakamoto's table, is the one of the
  calendar code, Sunday being 0.\<close>

theorem cron_weekday:
  assumes "civil_date y m d" "1 \<le> y"
  shows "cron_day_of_week y m d = FixedFromGregorian y m d mod 7"
  using assms by (intro weekday_of_cron) (auto simp: civil_date_def)

theorem cron_weekday_witness:
  "cron_day_of_week 2024 2 29 = FixedFromGregorian 2024 2 29 mod 7 \<and> cron_day_of_week 2024 2 29 = 4"
  using cron_weekday [of 2024 2 29] by code_simp

text \<open>C14: A field is read as it is meant: a list of stars, numbers and ranges, each perhaps with a
  step, sets the bits of exactly the values the items stand for, and the star flag when one of them
  is a star.\<close>

theorem cron_field_reads:
  assumes "xs \<noteq> []" "list_all (item_ok low high) xs" "0 \<le> low" "low \<le> high" "high - low \<le> 63" "field_end rest"
  shows "\<exists>bitmap. parse_cron_field low high (field_text xs @ rest) names = Some (bitmap, list_ex is_every xs, skip_whitespace rest) \<and>
    (\<forall>k. bit bitmap k \<longleftrightarrow> (\<exists>x \<in> set xs. item_value low high x (int k + low)))"
  using parse_cron_items_text [OF assms, of 0 False names] field_text_stays [OF assms(1), of rest]
  by (auto simp: parse_cron_field_def Let_def)

theorem cron_field_reads_witness:
  "\<exists>bitmap. parse_cron_field 0 59 (ascii ''5,10-20/5 *'') None = Some (bitmap, False, ascii ''*'') \<and>
    bit bitmap 15 \<and> \<not> bit bitmap 16"
proof -
  let ?xs = "[Range 5 None None, Range 10 (Some 20) (Some 5)]"
  have t: "field_text ?xs @ ascii '' *'' = ascii ''5,10-20/5 *''" "skip_whitespace (ascii '' *'') = ascii ''*''"
    "list_all (item_ok 0 59) ?xs" "field_end (ascii '' *'')" by code_simp+
  have "item_value 0 59 (Range 10 (Some 20) (Some 5)) 15" by (auto simp: step_of_def intro: exI [of _ 1])
  moreover have "\<not> item_value 0 59 (Range 10 (Some 20) (Some 5)) 16" by (auto simp: step_of_def) presburger
  ultimately show ?thesis using cron_field_reads [of ?xs 0 59 "ascii '' *''" None] unfolding t(1,2) using t(3,4) by auto
qed

text \<open>A server with one entry, whose task is ready.\<close>

definition sample_cron :: cron_state where
  "sample_cron = snd (cron_add 7 (\<lambda>_. 0) True (minute_tick 2024 2 28 12 30) (Some 1) 5 100 (ascii ''0 0 29 2 *'')
     \<lparr>cron_head = [], cron_sched = CScheduler_init, cron_cache = greg_cache_init\<rparr>)"

definition sample_ready :: cron_state where
  "sample_ready = sample_cron\<lparr>cron_sched := ReadyTasks (cron_sched sample_cron) (minute_tick 2024 2 29 0 1)\<rparr>"

lemma sample_reachable: "cron_reachable 7 (\<lambda>_. 0) (\<lambda>_. True) (\<lambda>_. False) (\<lambda>_ _ sc. sc) sample_ready"
  unfolding sample_ready_def sample_cron_def
  by (intro cron_reachable.ready cron_reachable.add cron_reachable.start) (simp_all add: pending_def calls_def CScheduler_init_def CTaskHeap_init_def)

text \<open>C6: In every state the server can reach, when the scheduler takes the task of a cron entry off
  its queue, the pointer it passes on is that of an entry of the table: \<open>dispatch_CronEntry\<close> never uses
  an entry that has been freed.  Afterwards every entry again has at most one task, and every task
  an entry.\<close>

theorem cron_no_dangling:
  assumes "cron_reachable d offset Good_obj Going did_it st" "triggers d did_it"
    and "RemoveTopmost ComparePriorityGreater (m_PriorityHeap (cron_sched st)) = (Some p, h)" "fpTask p = Some d"
  shows "\<exists>st'. dispatch_CronEntry d offset Good_obj Going did_it allocated ltaNow (arg_voidptr p)
      (st\<lparr>cron_sched := (cron_sched st)\<lparr>m_PriorityHeap := h\<rparr>\<rparr>) = Some st' \<and>
    cron_reachable d offset Good_obj Going did_it st' \<and> pending d (cron_sched st') \<subseteq># cron_keys (cron_head st')"
proof -
  note i = popped_entry [OF cron_reachable_inv [OF assms(1,2)] assms(3,4)]
  obtain st' where st': "dispatch_CronEntry d offset Good_obj Going did_it allocated ltaNow (arg_voidptr p)
      (st\<lparr>cron_sched := (cron_sched st)\<lparr>m_PriorityHeap := h\<rparr>\<rparr>) = Some st'" "cron_inv d st'"
    using dispatch_inv [OF i(1,3) _ assms(2), of offset Good_obj Going allocated ltaNow] i(2) by auto
  then show ?thesis using cron_reachable.run [OF assms(1,3,4) st'(1)] by (auto simp: cron_inv_def)
qed

theorem cron_no_dangling_witness:
  "\<exists>p h st'. RemoveTopmost ComparePriorityGreater (m_PriorityHeap (cron_sched sample_ready)) = (Some p, h) \<and>
    dispatch_CronEntry 7 (\<lambda>_. 0) (\<lambda>_. True) (\<lambda>_. False) (\<lambda>_ _ sc. sc) True (minute_tick 2024 2 29 0 1) (arg_voidptr p)
      (sample_ready\<lparr>cron_sched := (cron_sched sample_ready)\<lparr>m_PriorityHeap := h\<rparr>\<rparr>) = Some st'"
proof -
  have t: "triggers 7 (\<lambda>_ _ sc. sc)" unfolding triggers_def by (intro allI exI [of _ "[]"]) simp
  have "map_option fpTask (fst (RemoveTopmost ComparePriorityGreater (m_PriorityHeap (cron_sched sample_ready)))) = Some (Some 7)"
    by code_simp
  then obtain p h where "RemoveTopmost ComparePriorityGreater (m_PriorityHeap (cron_sched sample_ready)) = (Some p, h)" "fpTask p = Some 7"
    by (metis (no_types, lifting) map_option_eq_Some prod.collapse)
  then show ?thesis using cron_no_dangling [OF sample_reachable t] by blast
qed

definition sample_cron_env :: cron_env where
  "sample_cron_env = \<lparr>parse_attrib = (\<lambda>_. Some (5, Some 100)), match_everything = (\<lambda>_. 5), cron_Good_obj = (\<lambda>n. n < 10), Controls = (\<lambda>n. n = 5),
     cron_Owner = (\<lambda>_. 1), See_All = False, cron_attr_name = (\<lambda>_. None), cron_unparse = (\<lambda>_. [])\<rparr>"

text \<open>C15: No command changes, adds or removes an entry of an object that its executor does not control.\<close>

theorem cron_commands_controlled:
  assumes "case new_crp of None \<Rightarrow> True | Some a \<Rightarrow> a \<notin> fst ` set (cron_head st)"
    and "st' \<in> {snd (do_cron env d offset allocated ltaNow new_crp objattr timestr st), snd (do_crondel env d objattr st),
      snd (do_crontab env offset executor objattr st)}"
  shows "filter (\<lambda>(_, e). \<not> Controls env (cron_obj e)) (cron_head st') = filter (\<lambda>(_, e). \<not> Controls env (cron_obj e)) (cron_head st)"
proof -
  let ?f = "filter (\<lambda>(_, e). \<not> Controls env (cron_obj e))"
  have a: "?f (cron_head (snd (cron_add d offset allocated ltaNow new_crp thing atr timestr st))) = ?f (cron_head st)"
    and c: "?f (cron_head (snd (cron_clr d thing atr st))) = ?f (cron_head st)"
    if "Controls env thing" for thing atr
    using add_other_entries [OF assms(1), of "\<lambda>n. \<not> Controls env n" thing] clr_other_entries [of "\<lambda>n. \<not> Controls env n" thing] that by auto
  have "?f (cron_head (snd (do_cron env d offset allocated ltaNow new_crp objattr timestr st))) = ?f (cron_head st)"
    using a by (auto simp: do_cron_def split: option.split prod.split) (metis snd_conv)+
  moreover have "?f (cron_head (snd (do_crondel env d objattr st))) = ?f (cron_head st)"
    using c by (auto simp: do_crondel_def split: option.split prod.split) (metis snd_conv)+
  moreover have "cron_head (snd (do_crontab env offset executor objattr st)) = cron_head st"
    by (auto simp: do_crontab_def Let_def split: prod.split)
  ultimately show ?thesis using assms(2) by auto
qed

theorem cron_commands_controlled_witness:
  "filter (\<lambda>(_, e). \<not> Controls sample_cron_env (cron_obj e))
     (cron_head (snd (do_crondel sample_cron_env 7 (ascii ''me'')
        \<lparr>cron_head = [(1, every_minute), (2, every_minute\<lparr>cron_obj := 6\<rparr>)], cron_sched = CScheduler_init, cron_cache = greg_cache_init\<rparr>))) =
   [(2, every_minute\<lparr>cron_obj := 6\<rparr>)]"
  using cron_commands_controlled [where new_crp = None and st = "\<lparr>cron_head = [(1, every_minute), (2, every_minute\<lparr>cron_obj := 6\<rparr>)],
      cron_sched = CScheduler_init, cron_cache = greg_cache_init\<rparr>" and env = sample_cron_env and d = 7 and objattr = "ascii ''me''"]
  by (simp add: sample_cron_env_def every_minute_def)

text \<open>C38: When the clocks are set back, west of Greenwich, an entry that is due in the repeated stretch of
  local time fires in the past: let the offset of local time be \<open>o2\<close> now and have been \<open>o1\<close>, which is greater,
  up to the change \<open>T\<close>, and let \<open>t2\<close> be the next time that \<open>cron_next_time\<close> finds with the offset of now.
  If the local time of \<open>t2\<close> has been shown by the clocks before the change, \<open>cron_next_time\<close> returns the instant
  at which they showed it first, before the change.\<close>

theorem cron_fires_in_past:
  assumes "offset ltaAfter = o2" "T \<le> ltaAfter" "\<forall>t. T + o2 \<le> t \<and> t < T \<longrightarrow> offset t = o1" "o2 < o1" "o1 \<le> 0"
    and "cron_next_time (\<lambda>_. o2) c crp ltaAfter = (Some t2, c')" "T \<le> t2" "t2 + o2 < T + o1"
  shows "cron_next_time offset c crp ltaAfter = (Some (t2 - (o1 - o2)), c') \<and> t2 - (o1 - o2) < T"
  using repeated_hour [OF assms] assms(8) by simp

theorem cron_fires_in_past_witness:
  "fst (cron_next_time new_york greg_cache_init every_minute 134065386000000000) = Some 134065350600000000"
proof -
  have "fst (cron_next_time (\<lambda>_. -180000000000) greg_cache_init every_minute 134065386000000000) = Some 134065386600000000" by code_simp
  then obtain c' where n: "cron_next_time (\<lambda>_. -180000000000) greg_cache_init every_minute 134065386000000000 = (Some 134065386600000000, c')"
    by (metis prod.collapse)
  have "cron_next_time new_york greg_cache_init every_minute 134065386000000000 =
      (Some (134065386600000000 - (-144000000000 - -180000000000)), c') \<and> 134065386600000000 - (-144000000000 - -180000000000) < (134065368000000000 :: int)"
    by (rule cron_fires_in_past [OF _ _ _ _ _ n]) (auto simp: new_york_def)
  then show ?thesis by simp
qed

text \<open>C39: The search ends with the fourth year after the current one, which is too early where a century that is
  no leap year lies in between: from March of its fourth year before on, an entry for the 29th of February has no next
  time, though it matches eight years after, at every hour and minute of its fields.\<close>

theorem cron_leap_day_lost:
  assumes "cron_parse timestr crp0 = Some crp" "cron_month crp = 2" "cron_dom crp = 0x10000000" "cron_dow crp = 0x7F" "cron_flags crp = CRON_DOW_STAR"
    and "cache_ok c" "is_int64 (ltaAfter + off)" "LinearTimeToFieldedTime c (ltaAfter + off) = (True, ft, c1)"
    and "0 < iYear ft" "iYear ft \<le> 30821" "2 < iMonth ft" "(iYear ft + 4) mod 100 = 0" "(iYear ft + 4) mod 400 \<noteq> 0"
    and "bit (cron_hour crp) h" "bit (cron_minute crp) mi"
  shows "fst (cron_next_time (\<lambda>_. off) c crp ltaAfter) = None \<and> cron_matches crp (iYear ft + 8) 2 29 (int h) (int mi)"
proof
  note ok = cron_parse_ok(1) [OF assms(1)]
  have no: "iYear ft + 5 \<le> y" if "cron_matches crp y m d h mi" "ltaAfter + off < minute_tick y m d h mi" for y m d h mi
  proof -
    note l = leap_day_matches [OF assms(2,3,5) that(1)]
    show ?thesis using no_leap_day_between [OF assms(12,13) later_year [OF assms(6-8) that] l(2)] l(1) assms(11) by simp
  qed
  show "fst (cron_next_time (\<lambda>_. off) c crp ltaAfter) = None"
    using cron_next_first [OF ok assms(6-8,10)] no by (fastforce split: option.splits prod.splits)
  show "cron_matches crp (iYear ft + 8) 2 29 (int h) (int mi)"
    using assms(9,12,14,15) leap_day_again ok by (intro leap_day_every_weekday [OF assms(2-4)]) auto
qed

theorem cron_leap_day_lost_witness:
  "fst (cron_next_time (\<lambda>_. 0) greg_cache_init leap_day (minute_tick 2096 3 1 0 0)) = None \<and> cron_matches leap_day 2104 2 29 0 0"
proof -
  define T where "T = minute_tick 2096 3 1 0 0"
  have f: "fst (LinearTimeToFieldedTime greg_cache_init (T + 0))"
    "iYear (fst (snd (LinearTimeToFieldedTime greg_cache_init (T + 0)))) = 2096"
    "iMonth (fst (snd (LinearTimeToFieldedTime greg_cache_init (T + 0)))) = 3" unfolding T_def by code_simp+
  obtain ok ft c1 where l: "LinearTimeToFieldedTime greg_cache_init (T + 0) = (ok, ft, c1)" by (rule prod_cases3)
  have y: "ok" "iYear ft = 2096" "iMonth ft = 3" using f unfolding l by simp_all
  have i: "is_int64 (T + 0)" unfolding T_def by code_simp
  have e: "cron_month leap_day = 2" "cron_dom leap_day = 0x10000000" "cron_dow leap_day = 0x7F" "cron_flags leap_day = CRON_DOW_STAR"
    "bit (cron_hour leap_day) 0" "bit (cron_minute leap_day) 0" by (simp_all add: leap_day_def CRON_DOW_STAR_def)
  note w = cron_leap_day_lost [OF leap_day_parsed e(1-4) cache_ok_init i l [unfolded eqTrueI [OF y(1)]] _ _ _ _ _ e(5,6)]
  show ?thesis unfolding T_def [symmetric] using w [unfolded y(2,3)] by simp
qed

end
