(* ===== verification/Spec2Isabelle.thy ===== *)
theory Spec2Isabelle
  imports Mux_Prelude Color_Dfa Color_Text Color_Words Word_Cursor Color_Substr Color_State Color_Sort
    Mux_Number Calendar Time_Text Wild Std_Heap Scheduler Boolexp Cron
begin

text \<open>
  Verification of the core libraries of TinyMUX.

  \<^bold>\<open>The program.\<close>  TinyMUX stores text with its color inside the string: a color
  change is a private-use Unicode code point (U+F500 to U+F7FF for reset, attributes
  and palette colors, U+F0000 to U+F3FFF for the deltas of 24-bit colors), encoded in
  UTF-8 between the visible code points.  All string functions of the softcode language
  (\<open>words()\<close>, \<open>extract()\<close>, \<open>mid()\<close>, \<open>edit()\<close>, \<open>setunion()\<close>, ...) are carried out on this
  representation by the C library \<open>mux/lib/color_ops.c\<close>, which is linked into the server
  and, with the run-time of \<open>mux/rv64/src/softlib.c\<close>, into the freestanding blob the
  server's binary translator executes.  Its routines are layered: scanners generated by
  Ragel at the bottom, word and substring functions that step with them, and operations
  that interpret the color codes.  The server proper (\<open>mux/modules/engine\<close>) and its
  support library (\<open>mux/lib\<close>) are C++: numbers and times are read and printed by
  \<open>mathutil.cpp\<close>, \<open>timeutil.cpp\<close> and \<open>timeabsolute.cpp\<close>, and every command pattern and name
  pattern is matched by \<open>wild.cpp\<close>.  Commands that wait, and the server's own periodic work,
  are tasks of the scheduler in \<open>timer.cpp\<close>, which the main loop calls.  Who may do what is decided
  by locks, boolean expressions stored as text and parsed at every use (\<open>boolexp.cpp\<close>).

  \<^bold>\<open>Conventions.\<close>  A pointer pair \<open>p\<close>, \<open>pe\<close> is the list of unread bytes; an output buffer
  is the list of bytes written so far, bounded by \<open>lbuf_cap\<close> (\<open>LBUF_SIZE - 1\<close>, 32767).
  Bytes and code points under construction are machine words (8 and 32 bits); a
  \<open>size_t\<close> is a natural number, with wrap-around written out where the source adds two
  caller-supplied values (\<open>size_add\<close>).  A loop that need not end is a partial function
  into \<open>option\<close>: \<open>None\<close> means that the C function does not return, and the theorems
  about such a function state that it returns.  All other loops are total functions;
  no fuel is used anywhere.  A string that is well-formed UTF-8 is described by the list
  \<open>ts\<close> of its code points (\<open>text_cps ts\<close>), the string itself being \<open>concat ts\<close>;
  \<open>vis_cps ts\<close> are the visible ones.  By \<open>decompose_text\<close> every byte string is such a
  text followed by a malformed tail.

  \<^bold>\<open>Theories.\<close>

  \<^item> \<open>Mux_Prelude\<close>: bytes, \<open>WP_SAFE\<close>, \<open>wp_safe_copy\<close>, \<open>raw_copy\<close>, \<open>memchr\<close>.  The lemmas say
    that bounded writing is unbounded writing followed by one truncation; every output
    theorem has the form \<open>take lbuf_cap (...)\<close> because of them.
  \<^item> \<open>Color_Dfa\<close>: the generated machines of \<open>co_visible_length\<close>, \<open>co_visible_advance\<close>,
    \<open>co_copy_visible\<close>, \<open>co_find_delim\<close>, \<open>co_strip_color\<close> (state = label of the generated
    code), and \<open>co_skip_color\<close>.
  \<^item> \<open>Color_Text\<close>: the abstract view of a string as code points.  The locale
    \<open>code_point_machine\<close> is the contract of a transition table (it accepts exactly the
    well-formed code points and marks the visible ones), interpreted for all machines;
    the refinement of each scanner follows.
  \<^item> \<open>Color_Words\<close>: \<open>co_words_count\<close>, \<open>co_first\<close>, \<open>co_rest\<close>, \<open>co_last\<close>, \<open>co_extract\<close> against
    splitting a list of code points at a delimiter (\<open>split_on\<close>, \<open>join_on\<close>).
  \<^item> \<open>Word_Cursor\<close>: the cursor \<open>word_cursor_t\<close> (\<open>wc_init\<close>, \<open>wc_next\<close>), \<open>count_words\<close>,
    \<open>split_words\<close>, and the list editors \<open>co_splice\<close>, \<open>co_insert_word\<close>, \<open>co_replace_at\<close>,
    \<open>co_delete_at\<close>, \<open>co_insert_at\<close>, \<open>co_member\<close> as functions on the list of words.
  \<^item> \<open>Color_Substr\<close>: \<open>co_left\<close>, \<open>co_right\<close>, \<open>co_mid\<close>, \<open>co_delete\<close>, \<open>co_repeat\<close>, \<open>co_search\<close>,
    \<open>co_split_words\<close>, \<open>co_trim\<close>, \<open>co_trim_pattern\<close>, \<open>co_compress\<close>, \<open>co_compress_str\<close>,
    \<open>co_edit\<close>, \<open>co_lpos\<close>, \<open>co_reverse\<close>.  The lemmas give the result on well-formed text
    (so termination), and show where the loops do not end.
  \<^item> \<open>Color_State\<close>: \<open>co_ColorState\<close>, the xterm palette, the readers \<open>parse_bmp_color\<close>,
    \<open>parse_smp_color\<close>, \<open>consume_pua\<close>, the writers \<open>emit_pua_bmp\<close>, \<open>emit_pua_smp\<close>,
    \<open>emit_transition\<close>, and \<open>co_collapse_color\<close>, \<open>co_apply_color\<close>, \<open>co_merge\<close>, \<open>co_escape\<close>.
    The specification is the painted text: every visible code point with what a
    terminal shows it in (\<open>paint\<close>, \<open>cs_visual\<close>).
  \<^item> \<open>Color_Sort\<close>: the comparators, \<open>co_sort_words\<close>, \<open>co_setunion\<close>, \<open>co_setdiff\<close>,
    \<open>co_setinter\<close>, and the Shellsort \<open>qsort\<close> of \<open>softlib.c\<close>.  The locale \<open>comparator\<close> is
    interpreted for the four comparators, \<open>sorter\<close> (what a \<open>qsort\<close> promises) for the
    Shellsort; the set operations are proved for every \<open>qsort\<close> that keeps the contract.

  \<^item> \<open>Mux_Number\<close>: the character classes, the integer printers \<open>mux_utoa\<close>, \<open>mux_i64toa\<close>,
    \<open>mux_utox\<close>, \<open>mux_utoo\<close> and the readers \<open>mux_atol\<close>, \<open>mux_atoi64\<close> (64-bit words, two digits
    at a time), \<open>is_integer\<close>, \<open>is_rational\<close>; the specification is positional notation.
  \<^item> \<open>Calendar\<close>: floor division, \<open>FixedFromGregorian\<close>, \<open>GregorianFromFixed\<close> with its static
    cache, \<open>FieldedTimeToLinearTime\<close>, \<open>LinearTimeToFieldedTime\<close>.  The cache keeps an
    invariant, so a conversion does not depend on the ones before it.
  \<^item> \<open>Time_Text\<close>: dates and seconds as text (\<open>ReturnDateString\<close>, \<open>do_convtime\<close>,
    \<open>ConvertToSecondsString\<close>, \<open>ParseFractionalSecondsString\<close>), with the round trips.
  \<^item> \<open>Wild\<close>: \<open>quick_wild\<close> and \<open>wild\<close> against the declarative match \<open>glob\<close> and the relation
    \<open>captures\<close> of what each wildcard stands for.  The call counter and its limit are part
    of the model.
  \<^item> \<open>Std_Heap\<close>: \<open>std::push_heap\<close>, \<open>std::pop_heap\<close>, \<open>std::make_heap\<close>, \<open>std::sort_heap\<close> on lists.
    The locale \<open>heap_order\<close> is what they ask of a comparison.
  \<^item> \<open>Scheduler\<close>: \<open>CTaskHeap\<close> and \<open>CScheduler\<close> (\<open>include/externs.h\<close>, \<open>timer.cpp\<close>).  The locale
    \<open>task_order\<close> extends \<open>heap_order\<close> and is interpreted for the two comparisons of the
    heaps.  The scheduler is a state machine (\<open>sched_reachable\<close>) with the invariant \<open>sched_ok\<close>;
    the tasks and the callbacks of the traversals are parameters.  \<open>RunTasks\<close> refines the
    abstract machine \<open>prio_run\<close>, which takes the least task out of a multiset, for tasks that do
    anything with the scheduler, the traversals included; the order and the liveness of a whole
    run are stated for tasks that do not traverse (\<open>uses_ops\<close>, \<open>leaves_alone\<close>), since the
    callbacks of a traversal may change priorities, as those of \<open>@notify\<close> do.
  \<^item> \<open>Boolexp\<close>: locks.  The recursive-descent parser of \<open>boolexp.cpp\<close> as mutually recursive
    functions with its depth counter, the evaluator with the nesting limit of indirect
    locks, the printers of \<open>unparse.cpp\<close>.  The lemmas compare printer and parser through the
    unbounded text of a lock (\<open>lock_text\<close>); a lock all of whose ways to pass lead into a circle
    (\<open>leads_into\<close>) denies, and the text of a lock with an attribute that has left the table (\<open>lost\<close>)
    is read by no parser function (\<open>fails\<close>).  The attribute table, the database, the object
    matcher and softcode are parameters.
  \<^item> \<open>Cron\<close>: the \<open>@cron\<close> facility, on top of \<open>Scheduler\<close> and \<open>Calendar\<close>.  The parser of the five fields, the
    search loop of \<open>cron_next_time\<close> (whose termination is a lexicographic measure on year, month,
    day and hour), the table of entries and the commands.  The search is compared with the
    predicate \<open>cron_matches\<close> on minutes; entries and their tasks form a state machine
    (\<open>cron_reachable\<close>) with the invariant \<open>cron_inv\<close>.  The time zone, the database and the triggering
    of attributes are parameters.

  \<^bold>\<open>Bounds.\<close>  The theorems on \<open>co_collapse_color\<close>, \<open>co_apply_color\<close> and \<open>co_merge\<close> ask for
  41 free bytes at the end of the buffer: a transition takes at most 37 bytes and a code
  point 4, and a code that does not fit is dropped.  The plain text of the needle of
  \<open>co_search\<close> is a list, \<open>nplain[LBUF_SIZE]\<close> in the source: the callers pass line buffers.  The
  arrays that \<open>co_sort_words\<close> allocates may be missing (\<open>m1\<close>, \<open>m2\<close>), as they always are in
  the freestanding build; the theorems on sorting are about the build that has them.  The cron
  search shifts by the day of the week, which is only defined from the year 1 on; the clock shows no other.

  \<^bold>\<open>Not modelled.\<close>  Grapheme clusters, console width and justification, case mapping
  (all driven by generated Unicode tables), the renderers, the softcode wrappers of
  \<open>softlib.c\<close>, floating point, time zones and the clock, and the rest of the C++ server.  The contents of scratch buffers
  behind the written part and the terminating NUL are not represented.
\<close>

end
